(* ===== verification/Prelude.thy ===== *)
theory Prelude
  imports Main
begin

text \<open>
  Shared vocabulary of the development: the ways in which the C++ code stops (\<open>error\<close>),
  results that may be such a stop (\<open>'a result\<close>) with their sequencing \<open>rbind\<close> and the
  fold \<open>rfold\<close> over a list of operations, checked vector access, and ordered
  association lists as the model of \<^verbatim>\<open>std::map\<close> and of \<^verbatim>\<open>std::set\<close>. The
  named collections \<open>result_simps\<close> and \<open>smap_simps\<close> carry the proofs of the components.
\<close>

named_theorems result_simps \<open>evaluation of results\<close>
named_theorems smap_simps \<open>laws of ordered association lists\<close>

section \<open>Results\<close>

text \<open>
  \<open>CheckFailed\<close> is a failed glog \<^verbatim>\<open>CHECK\<close>, \<open>Fatal\<close> a \<^verbatim>\<open>LOG(FATAL)\<close>; both end the
  process. \<open>NullDeref\<close>, \<open>OutOfBounds\<close>, \<open>DivByZero\<close> and
  \<open>Uninitialised\<close> are accesses that C++ leaves
  undefined; the model stops there. \<open>Diverges\<close> is used by loops that never end. The other constructors are C++
  exceptions.
\<close>

datatype error =
    CheckFailed
  | Fatal
  | NullDeref
  | OutOfBounds
  | DivByZero
  | Diverges
  | Uninitialised
  | KeyNotFound
  | BadLexicalCast
  | LengthError
  | SStoreException string

type_synonym 'a result = "error + 'a"

fun rbind :: "'a result \<Rightarrow> ('a \<Rightarrow> 'b result) \<Rightarrow> 'b result" where
  "rbind (Inl e) f = Inl e"
| "rbind (Inr a) f = f a"

fun rfold :: "('a \<Rightarrow> 's \<Rightarrow> 's result) \<Rightarrow> 'a list \<Rightarrow> 's \<Rightarrow> 's result" where
  "rfold f [] s = Inr s"
| "rfold f (x # xs) s = rbind (f x s) (rfold f xs)"

fun rmap :: "('a \<Rightarrow> 'b result) \<Rightarrow> 'a list \<Rightarrow> 'b list result" where
  "rmap f [] = Inr []"
| "rmap f (x # xs) = rbind (f x) (\<lambda>y. rbind (rmap f xs) (\<lambda>ys. Inr (y # ys)))"

definition check :: "bool \<Rightarrow> unit result" where
  "check b = (if b then Inr () else Inl CheckFailed)"

text \<open>\<open>v[i]\<close> on a vector or a raw array: defined inside the bounds only.\<close>

definition vec_at :: "'a list \<Rightarrow> int \<Rightarrow> 'a result" where
  "vec_at xs i = (if 0 \<le> i \<and> i < int (length xs) then Inr (xs ! nat i) else Inl OutOfBounds)"

lemma rbind_Inr_iff [result_simps]:
  "rbind r f = Inr b \<longleftrightarrow> (\<exists>a. r = Inr a \<and> f a = Inr b)"
  by (cases r) auto

lemma rbind_assoc: "rbind (rbind r f) g = rbind r (\<lambda>a. rbind (f a) g)"
  by (cases r) auto

lemma rfold_append: "rfold f (xs @ ys) s = rbind (rfold f xs s) (rfold f ys)"
proof (induction xs arbitrary: s)
  case (Cons x xs)
  then show ?case by (cases "f x s") auto
qed simp

lemma rfold_invariant:
  assumes "rfold f xs s = Inr s'" and "I s"
    and "\<And>x s s'. x \<in> set xs \<Longrightarrow> I s \<Longrightarrow> f x s = Inr s' \<Longrightarrow> I s'"
  shows "I s'"
  using assms
proof (induction xs arbitrary: s)
  case Nil
  then show ?case by simp
next
  case (Cons x xs)
  from Cons.prems(1) obtain t where t: "f x s = Inr t" "rfold f xs t = Inr s'"
    by (auto simp: result_simps)
  have "I t" using Cons.prems(2,3) t(1) by auto
  with Cons.IH [OF t(2)] Cons.prems(3) show ?case by auto
qed

lemma rfold_filter: "rfold (\<lambda>x s. if P x then f x s else Inr s) xs s = rfold f (filter P xs) s"
proof (induction xs arbitrary: s)
  case (Cons x xs)
  then show ?case by (cases "f x s") auto
qed simp

lemma rfold_map: "rfold f (map g xs) s = rfold (\<lambda>x. f (g x)) xs s"
proof (induction xs arbitrary: s)
  case (Cons x xs)
  then show ?case by (cases "f (g x) s") auto
qed simp

lemma rfold_concat: "rfold (\<lambda>x. rfold f (g x)) xs s = rfold f (concat (map g xs)) s"
proof (induction xs arbitrary: s)
  case (Cons x xs)
  then show ?case by (cases "rfold f (g x) s") (auto simp: rfold_append)
qed simp

lemma rfold_cong: "(\<And>x s. x \<in> set xs \<Longrightarrow> I s \<Longrightarrow> f x s = g x s) \<Longrightarrow>
  (\<And>x s s'. x \<in> set xs \<Longrightarrow> I s \<Longrightarrow> g x s = Inr s' \<Longrightarrow> I s') \<Longrightarrow> I s \<Longrightarrow> rfold f xs s = rfold g xs s"
proof (induction xs arbitrary: s)
  case (Cons x xs)
  have f: "f x s = g x s" by (rule Cons.prems(1)) (simp_all add: Cons.prems(3))
  show ?case
  proof (cases "g x s")
    case (Inr t)
    then have "I t" using Cons.prems(2) [of x s t] Cons.prems(3) by simp
    then have "rfold f xs t = rfold g xs t"
      by (intro Cons.IH) (simp_all add: Cons.prems(1), metis Cons.prems(2) list.set_intros(2))
    with f Inr show ?thesis by simp
  qed (simp add: f)
qed simp

lemma rmap_Inr: "(\<And>x. x \<in> set xs \<Longrightarrow> f x = Inr (g x)) \<Longrightarrow> rmap f xs = Inr (map g xs)"
  by (induction xs) auto

lemma rmap_length: "rmap f xs = Inr ys \<Longrightarrow> length ys = length xs"
  by (induction xs arbitrary: ys) (auto simp: result_simps)

lemma check_Inr [result_simps]: "check b = Inr u \<longleftrightarrow> b"
  by (auto simp: check_def)

lemma vec_at_nat [result_simps]: "i < length xs \<Longrightarrow> vec_at xs (int i) = Inr (xs ! i)"
  by (simp add: vec_at_def)

lemma vec_at_Inr [result_simps]:
  "vec_at xs i = Inr x \<longleftrightarrow> 0 \<le> i \<and> i < int (length xs) \<and> xs ! nat i = x"
  by (auto simp: vec_at_def)

section \<open>Ordered association lists\<close>

text \<open>
  \<^verbatim>\<open>std::map<K, V>\<close> is the list of its entries in iteration order. \<open>smap_insert\<close> is
  \<^verbatim>\<open>map::insert\<close> (an entry that is there stays), \<open>smap_put\<close> is \<^verbatim>\<open>m[k] = v\<close>,
  \<open>smap_erase\<close> is \<^verbatim>\<open>erase\<close> of a key, \<open>map_of\<close> is \<^verbatim>\<open>find\<close>, \<open>length\<close> is \<^verbatim>\<open>size\<close>.
\<close>

fun smap_insert :: "'k::linorder \<Rightarrow> 'v \<Rightarrow> ('k \<times> 'v) list \<Rightarrow> ('k \<times> 'v) list" where
  "smap_insert k v [] = [(k, v)]"
| "smap_insert k v (p # ps) =
     (if k < fst p then (k, v) # p # ps
      else if fst p < k then p # smap_insert k v ps
      else p # ps)"

fun smap_put :: "'k::linorder \<Rightarrow> 'v \<Rightarrow> ('k \<times> 'v) list \<Rightarrow> ('k \<times> 'v) list" where
  "smap_put k v [] = [(k, v)]"
| "smap_put k v (p # ps) =
     (if k < fst p then (k, v) # p # ps
      else if fst p < k then p # smap_put k v ps
      else (k, v) # ps)"

definition smap_erase :: "'k \<Rightarrow> ('k \<times> 'v) list \<Rightarrow> ('k \<times> 'v) list" where
  "smap_erase k ps = filter (\<lambda>p. fst p \<noteq> k) ps"

definition smap_ok :: "('k::linorder \<times> 'v) list \<Rightarrow> bool" where
  "smap_ok ps = sorted_wrt (<) (map fst ps)"

lemma smap_ok_Nil [simp]: "smap_ok []"
  by (simp add: smap_ok_def)

lemma smap_ok_Cons [simp]: "smap_ok (p # ps) \<longleftrightarrow> (\<forall>q \<in> set ps. fst p < fst q) \<and> smap_ok ps"
  by (auto simp: smap_ok_def)

lemma set_smap_insert_keys: "fst ` set (smap_insert k v ps) = insert k (fst ` set ps)"
  by (induction ps) auto

lemma set_smap_put_keys: "fst ` set (smap_put k v ps) = insert k (fst ` set ps)"
  by (induction ps) auto

lemma set_smap_insert_sub: "q \<in> set (smap_insert k v ps) \<Longrightarrow> q = (k, v) \<or> q \<in> set ps"
  by (induction ps) (auto split: if_splits)

lemma set_smap_put_sub: "q \<in> set (smap_put k v ps) \<Longrightarrow> q = (k, v) \<or> q \<in> set ps"
  by (induction ps) (auto split: if_splits)

lemma smap_ok_insert [smap_simps]: "smap_ok ps \<Longrightarrow> smap_ok (smap_insert k v ps)"
  by (induction ps) (auto dest!: set_smap_insert_sub)

lemma smap_ok_put [smap_simps]: "smap_ok ps \<Longrightarrow> smap_ok (smap_put k v ps)"
proof (induction ps)
  case (Cons p ps)
  then show ?case by (auto dest!: set_smap_put_sub)
qed simp

lemma smap_ok_erase [smap_simps]: "smap_ok ps \<Longrightarrow> smap_ok (smap_erase k ps)"
  by (induction ps) (auto simp: smap_erase_def)

lemma smap_ok_distinct: "smap_ok ps \<Longrightarrow> distinct (map fst ps)"
  by (induction ps) fastforce+

lemma map_of_None_keys: "map_of ps k = None \<longleftrightarrow> k \<notin> fst ` set ps"
  by (auto simp: map_of_eq_None_iff)

lemma smap_below_None: "\<forall>q \<in> set ps. k < fst q \<Longrightarrow> map_of ps (k::'k::linorder) = None"
  by (auto simp: map_of_None_keys)

lemma map_of_smap_put [smap_simps]:
  "smap_ok ps \<Longrightarrow> map_of (smap_put k v ps) = (map_of ps)(k \<mapsto> v)"
proof (induction ps)
  case (Cons p ps)
  then show ?case by (cases p) (auto simp: fun_eq_iff)
qed simp

lemma map_of_smap_insert [smap_simps]:
  "smap_ok ps \<Longrightarrow> map_of (smap_insert k v ps) =
     (if map_of ps k = None then (map_of ps)(k \<mapsto> v) else map_of ps)"
proof (induction ps)
  case (Cons p ps)
  have below: "k < fst p \<Longrightarrow> map_of ps k = None"
    using Cons.prems by (force simp: map_of_None_keys)
  show ?case
  proof (cases "k < fst p")
    case True
    with below show ?thesis by (cases p) (auto simp: fun_eq_iff)
  next
    case False
    with Cons show ?thesis by (cases p) (auto simp: fun_eq_iff)
  qed
qed simp

lemma map_of_smap_erase [smap_simps]: "map_of (smap_erase k ps) = (map_of ps)(k := None)"
  by (induction ps) (auto simp: smap_erase_def fun_eq_iff)

lemma smap_erase_absent: "map_of ps k = None \<Longrightarrow> smap_erase k ps = ps"
  by (auto simp: smap_erase_def map_of_None_keys intro!: filter_True)

lemma length_smap_insert_absent:
  "map_of ps k = None \<Longrightarrow> length (smap_insert k v ps) = Suc (length ps)"
proof (induction ps)
  case (Cons p ps)
  then show ?case by (cases p) (auto split: if_splits)
qed simp

lemma length_smap_erase_present:
  "smap_ok ps \<Longrightarrow> map_of ps k \<noteq> None \<Longrightarrow> Suc (length (smap_erase k ps)) = length ps"
proof (induction ps)
  case (Cons p ps)
  show ?case
  proof (cases "fst p = k")
    case True
    with Cons.prems have "map_of ps k = None" by (auto simp: map_of_None_keys)
    with True show ?thesis
      using smap_erase_absent [of ps k] by (simp add: smap_erase_def)
  next
    case False
    with Cons show ?thesis by (cases p) (simp add: smap_erase_def)
  qed
qed simp

lemma length_smap_erase_le: "length (smap_erase k ps) \<le> length ps"
  by (simp add: smap_erase_def)

lemma smap_erase_put_insert:
  assumes "smap_ok ps"
  shows "map_of (smap_insert k v (smap_erase k ps)) = (map_of ps)(k \<mapsto> v)"
  using assms by (simp add: smap_simps fun_eq_iff)

end
