(* ===== verification/KVMap.thy ===== *)
theory KVMap
  imports Prelude
begin

text \<open>
  \<^verbatim>\<open>src/store/kvmap.h\<close>: \<^verbatim>\<open>KVMap<K, V>\<close>, a wrapper of \<^verbatim>\<open>std::map\<close>. Its
  \<^verbatim>\<open>operator[]\<close> dereferences \<^verbatim>\<open>find(key)\<close> without comparing it with \<^verbatim>\<open>end()\<close>, so a
  missing key is \<open>NullDeref\<close>.
\<close>

record ('k, 'v) KVMap =
  elements :: "('k \<times> 'v) list"

definition kvmap_new :: "('k, 'v) KVMap" where
  "kvmap_new = \<lparr>elements = []\<rparr>"

definition kvmap_size :: "('k, 'v) KVMap \<Rightarrow> nat" where
  "kvmap_size m = length (elements m)"

definition kvmap_clear :: "('k, 'v) KVMap \<Rightarrow> ('k, 'v) KVMap" where
  "kvmap_clear m = m\<lparr>elements := []\<rparr>"

definition kvmap_containsKey :: "('k, 'v) KVMap \<Rightarrow> 'k \<Rightarrow> bool" where
  "kvmap_containsKey m key = (case map_of (elements m) key of Some _ \<Rightarrow> True | None \<Rightarrow> False)"

definition kvmap_remove :: "('k, 'v) KVMap \<Rightarrow> 'k \<Rightarrow> ('k, 'v) KVMap" where
  "kvmap_remove m key =
     (case map_of (elements m) key of
        Some _ \<Rightarrow> m\<lparr>elements := smap_erase key (elements m)\<rparr>
      | None \<Rightarrow> m)"

definition kvmap_add :: "('k::linorder, 'v) KVMap \<Rightarrow> 'k \<Rightarrow> 'v \<Rightarrow> ('k, 'v) KVMap" where
  "kvmap_add m key val =
     (let es = (case map_of (elements m) key of
                  Some _ \<Rightarrow> smap_erase key (elements m)
                | None \<Rightarrow> elements m)
      in m\<lparr>elements := smap_insert key val es\<rparr>)"

definition kvmap_index :: "('k, 'v) KVMap \<Rightarrow> 'k \<Rightarrow> 'v result" where
  "kvmap_index m key =
     (case map_of (elements m) key of Some v \<Rightarrow> Inr v | None \<Rightarrow> Inl NullDeref)"

text \<open>The map a \<open>KVMap\<close> stands for, and its well-formedness: keys strictly ascending.\<close>

definition kvmap_lookup :: "('k, 'v) KVMap \<Rightarrow> 'k \<rightharpoonup> 'v" where
  "kvmap_lookup m = map_of (elements m)"

definition kvmap_ok :: "('k::linorder, 'v) KVMap \<Rightarrow> bool" where
  "kvmap_ok m = smap_ok (elements m)"

lemmas kvmap_defs = kvmap_new_def kvmap_size_def kvmap_clear_def kvmap_containsKey_def
  kvmap_remove_def kvmap_add_def kvmap_index_def kvmap_lookup_def kvmap_ok_def

lemma kvmap_containsKey_iff [smap_simps]:
  "kvmap_containsKey m k \<longleftrightarrow> kvmap_lookup m k \<noteq> None"
  by (auto simp: kvmap_defs split: option.splits)

lemma kvmap_index_eq [smap_simps]:
  "kvmap_index m k = (case kvmap_lookup m k of Some v \<Rightarrow> Inr v | None \<Rightarrow> Inl NullDeref)"
  by (simp add: kvmap_defs)

lemma kvmap_lookup_new [smap_simps]: "kvmap_lookup kvmap_new k = None"
  by (simp add: kvmap_defs)

lemma kvmap_lookup_add [smap_simps]:
  "kvmap_ok m \<Longrightarrow> kvmap_lookup (kvmap_add m k v) = (kvmap_lookup m)(k \<mapsto> v)"
  by (auto simp: kvmap_defs smap_simps fun_eq_iff split: option.splits)

lemma kvmap_lookup_remove [smap_simps]:
  "kvmap_lookup (kvmap_remove m k) = (kvmap_lookup m)(k := None)"
  by (auto simp: kvmap_defs smap_simps fun_eq_iff split: option.splits)

lemma kvmap_ok_new [smap_simps]: "kvmap_ok kvmap_new"
  by (simp add: kvmap_defs)

lemma kvmap_ok_add [smap_simps]: "kvmap_ok m \<Longrightarrow> kvmap_ok (kvmap_add m k v)"
  by (auto simp: kvmap_defs smap_simps split: option.splits)

lemma kvmap_ok_remove [smap_simps]: "kvmap_ok m \<Longrightarrow> kvmap_ok (kvmap_remove m k)"
  by (auto simp: kvmap_defs smap_simps split: option.splits)

lemma kvmap_finite [simp]: "finite (dom (kvmap_lookup m))"
  by (simp add: kvmap_lookup_def finite_dom_map_of)

lemma kvmap_size_card: "kvmap_ok m \<Longrightarrow> kvmap_size m = card (dom (kvmap_lookup m))"
  using distinct_card [OF smap_ok_distinct, of "elements m"]
  by (simp add: kvmap_defs dom_map_of_conv_image_fst)

end
