(* ===== verification/CppString.thy ===== *)
theory CppString
  imports Prelude
begin

text \<open>
  What the sources use of \<^verbatim>\<open>std::string\<close> and of \<^verbatim>\<open>std::getline\<close>, and two routines the
  repository writes several times over them: the \<^verbatim>\<open>splitString\<close> of
  \<^verbatim>\<open>src/kernel/kernel.h\<close> and \<^verbatim>\<open>src/store/index.h\<close>, and the parser of a line
  \<open>source TAB link SPACE link ...\<close> of \<^verbatim>\<open>src/store/cache.h\<close> and
  \<^verbatim>\<open>src/examples/pagerank.cc\<close>. \<^verbatim>\<open>boost::lexical_cast\<close> is an argument \<open>lc\<close>:
  \<open>None\<close> is the exception \<^verbatim>\<open>bad_lexical_cast\<close>.
\<close>

section \<open>Characters and substrings\<close>

definition tab :: char where
  "tab = CHR 0x09"

definition newline :: char where
  "newline = CHR 0x0A"

text \<open>\<open>s.find(c)\<close>, with \<open>None\<close> for \<^verbatim>\<open>npos\<close>.\<close>

fun str_find :: "string \<Rightarrow> char \<Rightarrow> nat option" where
  "str_find [] c = None"
| "str_find (x # xs) c = (if x = c then Some 0 else map_option Suc (str_find xs c))"

text \<open>The words that \<^verbatim>\<open>while (getline(stream, word, d))\<close> reads from a stream over \<open>s\<close>.\<close>

function getlines :: "char \<Rightarrow> string \<Rightarrow> string list" where
  "getlines d s =
     (if s = [] then []
      else takeWhile (\<lambda>c. c \<noteq> d) s # getlines d (drop 1 (dropWhile (\<lambda>c. c \<noteq> d) s)))"
  by pat_completeness auto
termination
proof (relation "measure (\<lambda>(d, s). length s)", goal_cases)
  case (2 d s)
  have "length (dropWhile (\<lambda>c. c \<noteq> d) s) \<le> length s" by (rule length_dropWhile_le)
  moreover from 2 have "0 < length s" by simp
  ultimately have "length (drop 1 (dropWhile (\<lambda>c. c \<noteq> d) s)) < length s"
    by (simp only: length_drop)
  then show ?case by simp
qed simp

declare getlines.simps [simp del]

text \<open>\<^verbatim>\<open>MaiterKernel1::splitString\<close>: nothing when the delimiter does not occur.\<close>

definition splitString :: "string \<Rightarrow> char \<Rightarrow> string list" where
  "splitString line delimiter =
     (case str_find line delimiter of None \<Rightarrow> [] | Some _ \<Rightarrow> getlines delimiter line)"

definition lexical_cast :: "(string \<Rightarrow> int option) \<Rightarrow> string \<Rightarrow> int result" where
  "lexical_cast lc s = (case lc s of None \<Rightarrow> Inl BadLexicalCast | Some v \<Rightarrow> Inr v)"

text \<open>Conversion of a \<^verbatim>\<open>long\<close> to an \<^verbatim>\<open>int\<close> of 32 bits.\<close>

definition to_int32 :: "int \<Rightarrow> int" where
  "to_int32 x = (x + 2 ^ 31) mod 2 ^ 32 - 2 ^ 31"

text \<open>
  The loop over the links of a line: each round cuts at the next blank, and the variable
  \<^verbatim>\<open>int to\<close> is assigned only when there is a character before the blank.
\<close>

function parse_links :: "(string \<Rightarrow> int option) \<Rightarrow> string \<Rightarrow> int list result" where
  "parse_links lc links =
     (case str_find links CHR '' '' of
        None \<Rightarrow> Inr []
      | Some spacepos \<Rightarrow>
          rbind (if 0 < spacepos then lexical_cast lc (take spacepos links) else Inl Uninitialised)
            (\<lambda>to. rbind (parse_links lc (drop (spacepos + 1) links))
               (\<lambda>linkvec. Inr (to_int32 to # linkvec))))"
  by pat_completeness auto
termination
proof (relation "measure (\<lambda>(lc, s). length s)", goal_cases)
  case (2 lc links x)
  then have "links \<noteq> []" by (cases links) auto
  then show ?case by simp
qed simp

declare parse_links.simps [simp del]

text \<open>
  A line \<open>source TAB links\<close>. \<open>None\<close> is the early \<^verbatim>\<open>return\<close> when there is no tab. The test
  \<^verbatim>\<open>*links.end() != ' '\<close> reads the terminating zero of the string, so a blank is always
  appended.
\<close>

definition parse_line :: "(string \<Rightarrow> int option) \<Rightarrow> string \<Rightarrow> (int \<times> int list) option result" where
  "parse_line lc line =
     (case str_find line tab of
        None \<Rightarrow> Inr None
      | Some pos \<Rightarrow>
          rbind (lexical_cast lc (take pos line)) (\<lambda>source.
          rbind (parse_links lc (drop (pos + 1) line @ [CHR '' ''])) (\<lambda>linkvec.
          Inr (Some (source, linkvec)))))"

section \<open>Laws\<close>

lemma str_find_None [simp]: "str_find s c = None \<longleftrightarrow> c \<notin> set s"
  by (induction s) auto

lemma str_find_append: "c \<notin> set s \<Longrightarrow> str_find (s @ c # t) c = Some (length s)"
  by (induction s) auto

lemma str_find_Some:
  "str_find s c = Some n \<Longrightarrow> n < length s \<and> s ! n = c \<and> c \<notin> set (take n s)"
  by (induction s arbitrary: n) (auto split: if_splits)

lemma takeWhile_delim: "d \<notin> set w \<Longrightarrow> takeWhile (\<lambda>c. c \<noteq> d) (w @ d # t) = w"
  by (induction w) auto

lemma dropWhile_delim: "d \<notin> set w \<Longrightarrow> dropWhile (\<lambda>c. c \<noteq> d) (w @ d # t) = d # t"
  by (induction w) auto

lemma getlines_Nil [simp]: "getlines d [] = []"
  by (simp add: getlines.simps)

lemma getlines_word: "d \<notin> set w \<Longrightarrow> getlines d (w @ d # t) = w # getlines d t"
  by (simp add: getlines.simps [of d "w @ d # t"] takeWhile_delim dropWhile_delim)

text \<open>Words written with their delimiter after each are read back.\<close>

lemma getlines_concat:
  "\<forall>w \<in> set ws. d \<notin> set w \<Longrightarrow> getlines d (concat (map (\<lambda>w. w @ [d]) ws)) = ws"
  by (induction ws) (auto simp: getlines_word)

lemma splitString_concat:
  assumes "\<forall>w \<in> set ws. d \<notin> set w"
  shows "splitString (concat (map (\<lambda>w. w @ [d]) ws)) d = ws"
proof (cases ws)
  case Nil
  then show ?thesis by (simp add: splitString_def)
next
  case (Cons w ws')
  then have "d \<in> set (concat (map (\<lambda>w. w @ [d]) ws))" by simp
  with getlines_concat [OF assms] show ?thesis
    by (auto simp: splitString_def split: option.splits)
qed

lemma to_int32_id: "- (2 ^ 31) \<le> x \<Longrightarrow> x < 2 ^ 31 \<Longrightarrow> to_int32 x = x"
  by (simp add: to_int32_def)

lemma to_int32_range: "- (2 ^ 31) \<le> to_int32 x \<and> to_int32 x < 2 ^ 31"
  using pos_mod_bound [of "2 ^ 32" "x + 2 ^ 31"] pos_mod_sign [of "2 ^ 32" "x + 2 ^ 31"]
  by (simp add: to_int32_def)

lemma parse_links_word:
  assumes "CHR '' '' \<notin> set w" and "w \<noteq> []"
  shows "parse_links lc (w @ CHR '' '' # t) =
     rbind (lexical_cast lc w) (\<lambda>to. rbind (parse_links lc t) (\<lambda>l. Inr (to_int32 to # l)))"
  using assms by (simp add: parse_links.simps [of lc "w @ CHR '' '' # t"] str_find_append)

lemma parse_links_Nil: "parse_links lc [] = Inr []"
  by (simp add: parse_links.simps)

text \<open>A list of links, each followed by one blank, is parsed to the numbers it holds.\<close>

lemma parse_links_concat:
  assumes "\<forall>w \<in> set ws. CHR '' '' \<notin> set w \<and> w \<noteq> []" and "\<forall>w \<in> set ws. lc w = Some (num w)"
  shows "parse_links lc (concat (map (\<lambda>w. w @ [CHR '' '']) ws)) = Inr (map (to_int32 \<circ> num) ws)"
  using assms
  by (induction ws) (auto simp: parse_links_Nil parse_links_word lexical_cast_def)

text \<open>A blank at the front of the remaining links reads the unset variable.\<close>

lemma parse_links_blank: "parse_links lc (CHR '' '' # t) = Inl Uninitialised"
  by (simp add: parse_links.simps)

end
