(* ===== verification/CacheSpec.thy ===== *)
theory CacheSpec
  imports Prelude
begin

text \<open>
  The contract the store relies on for its caches. A cache is a bounded partial map:
  \<open>add\<close> never fails on a well-formed cache, keeps it well-formed, and a later hit returns
  either what was there before or what was just offered. The argument of type \<open>'a\<close> is what
  a policy needs beside the entry (the priority of the hot-aware cache). \<open>cap\<close> bounds the
  number of cached keys. Nothing is promised about which entries stay: that is the policy,
  and is proved per cache.
\<close>

locale bounded_cache =
  fixes lookup :: "'c \<Rightarrow> 'k \<rightharpoonup> 'v"
    and add :: "'a \<Rightarrow> 'k \<Rightarrow> 'v \<Rightarrow> 'c \<Rightarrow> 'c result"
    and invar :: "'c \<Rightarrow> bool"
    and cap :: nat
  assumes add_total: "invar c \<Longrightarrow> \<exists>c'. add a k v c = Inr c' \<and> invar c'"
    and add_frame: "invar c \<Longrightarrow> add a k v c = Inr c' \<Longrightarrow> lookup c' k' = Some v' \<Longrightarrow>
      lookup c k' = Some v' \<or> (k' = k \<and> v' = v)"
    and bounded: "invar c \<Longrightarrow> finite (dom (lookup c)) \<and> card (dom (lookup c)) \<le> cap"
begin

text \<open>A sequence of offers of the entries of one data source \<open>src\<close>.\<close>

lemma offers_run:
  assumes "invar c"
  shows "\<exists>c'. rfold (\<lambda>(a, k). add a k (src k)) aks c = Inr c' \<and> invar c'"
  using assms
proof (induction aks arbitrary: c)
  case (Cons ak aks)
  obtain a k where ak: "ak = (a, k)" by (cases ak)
  obtain c1 where c1: "add a k (src k) c = Inr c1" "invar c1"
    using add_total [OF Cons.prems] by blast
  with Cons.IH [OF c1(2)] show ?case by (simp add: ak)
qed simp

text \<open>
  Coherence: a cache filled only from \<open>src\<close>, in any order and with any evictions, answers
  every hit with the value of \<open>src\<close>.
\<close>

lemma offers_coherent:
  assumes "rfold (\<lambda>(a, k). add a k (src k)) aks c = Inr c'" and "invar c"
    and "\<And>k v. lookup c k = Some v \<Longrightarrow> v = src k"
    and "lookup c' k = Some v"
  shows "v = src k"
  using assms
proof (induction aks arbitrary: c)
  case (Cons ak aks)
  obtain a k1 where ak: "ak = (a, k1)" by (cases ak)
  obtain c1 where c1: "add a k1 (src k1) c = Inr c1" "rfold (\<lambda>(a, k). add a k (src k)) aks c1 = Inr c'"
    using Cons.prems(1) by (auto simp: ak result_simps)
  have inv1: "invar c1"
    using add_total [OF Cons.prems(2), of a k1 "src k1"] c1(1) by auto
  have "\<And>k v. lookup c1 k = Some v \<Longrightarrow> v = src k"
    using add_frame [OF Cons.prems(2) c1(1)] Cons.prems(3) by metis
  from Cons.IH [OF c1(2) inv1 this Cons.prems(4)] show ?case .
qed simp

lemma offers_bounded:
  assumes "invar c" and "rfold (\<lambda>(a, k). add a k (src k)) aks c = Inr c'"
  shows "card (dom (lookup c')) \<le> cap"
  using offers_run [OF assms(1), of src aks] assms(2) bounded by auto

end

end
