(* ===== verification/HotCache.thy ===== *)
theory HotCache
  imports KVMap CppString CacheSpec Complex_Main
begin

text \<open>
  \<^verbatim>\<open>src/store/cache.h\<close>: the hot-aware cache. Three structures are kept in step: \<open>kv\<close>
  holds the cached values, \<open>kp\<close> the priority of each cached key, and \<open>pk\<close> is the
  \<^verbatim>\<open>std::multimap<float, K>\<close> from priorities to keys, listed in iteration order. A fourth
  map \<open>influMap\<close> is filled once from the influence file and never evicted. Priorities are
  C++ floats; they are rationals here, so the comparison \<^verbatim>\<open>val + 0.02 < priority\<close> is exact.
  \<^verbatim>\<open>CACHE_SIZE\<close> is the argument \<open>cap\<close> of the operations that test it.
\<close>

definition CACHE_SIZE :: nat where
  "CACHE_SIZE = 100000"

record ('k, 'v) Cache =
  pk :: "(rat \<times> 'k) list"
  kp :: "('k, rat) KVMap"
  kv :: "('k, 'v) KVMap"
  influMap :: "('k, 'v) KVMap"

text \<open>\<^verbatim>\<open>multimap::insert\<close> puts the pair after those with an equal or smaller priority.\<close>

fun multimap_insert :: "rat \<Rightarrow> 'k \<Rightarrow> (rat \<times> 'k) list \<Rightarrow> (rat \<times> 'k) list" where
  "multimap_insert p k [] = [(p, k)]"
| "multimap_insert p k (q # qs) =
     (if p < fst q then (p, k) # q # qs else q # multimap_insert p k qs)"

definition cache_empty :: "('k, 'v) Cache" where
  "cache_empty = \<lparr>pk = [], kp = kvmap_new, kv = kvmap_new, influMap = kvmap_new\<rparr>"

text \<open>The constructor: the lines of the influence file, up to the first one without a tab.\<close>

fun load_influ :: "(string \<Rightarrow> int option) \<Rightarrow> string list \<Rightarrow> (int, int list) KVMap
    \<Rightarrow> (int, int list) KVMap result" where
  "load_influ lc [] m = Inr m"
| "load_influ lc (line # lines) m =
     rbind (parse_line lc line) (\<lambda>r. case r of
        None \<Rightarrow> Inr m
      | Some (source, linkvec) \<Rightarrow> load_influ lc lines (kvmap_add m source linkvec))"

definition cache_new :: "(string \<Rightarrow> int option) \<Rightarrow> string \<Rightarrow> (int, int list) Cache result" where
  "cache_new lc influ_file =
     rbind (load_influ lc (getlines newline influ_file) kvmap_new)
       (\<lambda>m. Inr (cache_empty\<lparr>influMap := m\<rparr>))"

text \<open>The copy constructor leaves \<open>influMap\<close> empty.\<close>

definition cache_copy :: "('k, 'v) Cache \<Rightarrow> ('k, 'v) Cache" where
  "cache_copy other = cache_empty\<lparr>kp := kp other, kv := kv other, pk := pk other\<rparr>"

definition cache_containsInfluKey :: "('k, 'v) Cache \<Rightarrow> 'k \<Rightarrow> bool" where
  "cache_containsInfluKey c key = kvmap_containsKey (influMap c) key"

definition cache_containsKey :: "('k, 'v) Cache \<Rightarrow> 'k \<Rightarrow> bool" where
  "cache_containsKey c key = (kvmap_containsKey (kv c) key \<or> kvmap_containsKey (influMap c) key)"

definition cache_getValue :: "('k, 'v) Cache \<Rightarrow> 'k \<Rightarrow> 'v result" where
  "cache_getValue c key =
     (if cache_containsInfluKey c key then kvmap_index (influMap c) key else kvmap_index (kv c) key)"

definition cache_remove :: "('k, 'v) Cache \<Rightarrow> 'k \<Rightarrow> ('k, 'v) Cache" where
  "cache_remove c key = c\<lparr>kp := kvmap_remove (kp c) key, kv := kvmap_remove (kv c) key\<rparr>"

definition cache_add :: "('k::linorder, 'v) Cache \<Rightarrow> 'k \<Rightarrow> 'v \<Rightarrow> rat \<Rightarrow> ('k, 'v) Cache" where
  "cache_add c key val priority =
     c\<lparr>kv := kvmap_add (kv c) key val,
       kp := kvmap_add (kp c) key priority,
       pk := multimap_insert priority key (pk c)\<rparr>"

text \<open>
  The scan of \<^verbatim>\<open>equal_range\<close> erases the first pair of the old priority that has the key;
  in a multimap this is the first occurrence of the pair, \<open>remove1\<close>.
\<close>

definition cache_updatePrority :: "('k::linorder, 'v) Cache \<Rightarrow> 'k \<Rightarrow> rat \<Rightarrow> ('k, 'v) Cache result" where
  "cache_updatePrority c key priority =
     rbind (kvmap_index (kp c) key) (\<lambda>proir.
       Inr (c\<lparr>pk := multimap_insert priority key (remove1 (proir, key) (pk c)),
              kp := kvmap_add (kvmap_remove (kp c) key) key priority\<rparr>))"

definition cache_deleteMin :: "('k, 'v) Cache \<Rightarrow> rat \<Rightarrow> (bool \<times> ('k, 'v) Cache) result" where
  "cache_deleteMin c priority =
     (case pk c of
        [] \<Rightarrow> Inl NullDeref
      | (val, key) # rest \<Rightarrow>
          if val + 2 / 100 < priority
          then Inr (True, c\<lparr>pk := rest, kp := kvmap_remove (kp c) key, kv := kvmap_remove (kv c) key\<rparr>)
          else Inr (False, c))"

definition cache_addCache :: "nat \<Rightarrow> ('k::linorder, 'v) Cache \<Rightarrow> 'k \<Rightarrow> 'v \<Rightarrow> rat
    \<Rightarrow> ('k, 'v) Cache result" where
  "cache_addCache cap c key val priority =
     (if kvmap_containsKey (kv c) key then cache_updatePrority c key priority
      else if kvmap_size (kv c) < cap then Inr (cache_add c key val priority)
      else rbind (cache_deleteMin c priority) (\<lambda>(deleted, c').
             if deleted then Inr (cache_add c' key val priority) else Inr c'))"

text \<open>
  Well-formedness: \<open>pk\<close> is in multimap order, holds each cached key once, and holds the pair
  \<open>(p, k)\<close> exactly when \<open>kp\<close> maps \<open>k\<close> to \<open>p\<close>; \<open>kp\<close> and \<open>kv\<close> have the same keys; at most
  \<open>cap\<close> keys are cached.
\<close>

definition cache_ok :: "nat \<Rightarrow> ('k::linorder, 'v) Cache \<Rightarrow> bool" where
  "cache_ok cap c \<longleftrightarrow>
     kvmap_ok (kp c) \<and> kvmap_ok (kv c) \<and> sorted (map fst (pk c)) \<and> distinct (map snd (pk c)) \<and>
     set (pk c) = {(p, k). kvmap_lookup (kp c) k = Some p} \<and>
     dom (kvmap_lookup (kp c)) = dom (kvmap_lookup (kv c)) \<and> kvmap_size (kv c) \<le> cap"

section \<open>The multimap\<close>

lemma set_multimap_insert [simp]: "set (multimap_insert p k qs) = insert (p, k) (set qs)"
  by (induction qs) auto

lemma multimap_insert_neq_Nil [simp]: "multimap_insert p k qs \<noteq> []"
  by (cases qs) auto

lemma mset_snd_multimap_insert:
  "distinct (map snd (multimap_insert p k qs)) \<longleftrightarrow> distinct (map snd qs) \<and> k \<notin> snd ` set qs"
  by (induction qs) auto

lemma sorted_multimap_insert: "sorted (map fst qs) \<Longrightarrow> sorted (map fst (multimap_insert p k qs))"
  by (induction qs) force+

lemma distinct_remove1_pair:
  assumes "distinct (map snd qs)" and "(p, k) \<in> set qs"
  shows "set (remove1 (p, k) qs) = set qs - {(p, k)}" and "k \<notin> snd ` set (remove1 (p, k) qs)"
    and "distinct (map snd (remove1 (p, k) qs))"
proof -
  have d: "distinct qs" using assms(1) by (simp add: distinct_map)
  then show s: "set (remove1 (p, k) qs) = set qs - {(p, k)}" by simp
  have "(p', k) \<in> set qs \<Longrightarrow> p' = p" for p'
    using assms inj_onD [of snd "set qs" "(p', k)" "(p, k)"] by (simp add: distinct_map)
  with s show "k \<notin> snd ` set (remove1 (p, k) qs)" by auto
  show "distinct (map snd (remove1 (p, k) qs))"
    using assms(1) d s by (auto simp: distinct_map inj_on_def)
qed

lemma sorted_remove1_map: "sorted (map fst qs) \<Longrightarrow> sorted (map fst (remove1 q qs))"
proof (induction qs)
  case (Cons a qs)
  then show ?case using set_remove1_subset [of q qs] by auto
qed simp

section \<open>The operations keep the cache well-formed\<close>

lemma cache_ok_new: "cache_ok cap (cache_empty\<lparr>influMap := m\<rparr>)"
  by (simp add: cache_ok_def cache_empty_def kvmap_defs)

lemma cache_ok_snd: "cache_ok cap c \<Longrightarrow> snd ` set (pk c) = dom (kvmap_lookup (kv c))"
proof -
  assume "cache_ok cap c"
  then have s: "set (pk c) = {(p, k). kvmap_lookup (kp c) k = Some p}"
    and d: "dom (kvmap_lookup (kp c)) = dom (kvmap_lookup (kv c))"
    by (simp_all add: cache_ok_def)
  have "snd ` set (pk c) = dom (kvmap_lookup (kp c))"
    unfolding s by (force simp: dom_def)
  with d show ?thesis by simp
qed

lemma cache_ok_size: "cache_ok cap c \<Longrightarrow> kvmap_size (kv c) = length (pk c)"
proof -
  assume ok: "cache_ok cap c"
  then have "card (snd ` set (pk c)) = length (pk c)"
    using distinct_card [of "map snd (pk c)"] by (simp add: cache_ok_def)
  moreover from ok have "kvmap_size (kv c) = card (dom (kvmap_lookup (kv c)))"
    by (simp add: kvmap_size_card cache_ok_def)
  ultimately show ?thesis by (simp add: cache_ok_snd [OF ok])
qed

lemma cache_ok_cached_priority:
  assumes "cache_ok cap c" and "kvmap_containsKey (kv c) k"
  obtains p where "kvmap_lookup (kp c) k = Some p" and "(p, k) \<in> set (pk c)"
proof -
  have "k \<in> dom (kvmap_lookup (kp c))"
    using assms by (auto simp: cache_ok_def smap_simps)
  then obtain p where "kvmap_lookup (kp c) k = Some p" by blast
  moreover from this have "(p, k) \<in> set (pk c)" using assms(1) by (simp add: cache_ok_def)
  ultimately show ?thesis by (rule that)
qed

lemma cache_ok_updatePrority:
  assumes ok: "cache_ok cap c" and hit: "kvmap_containsKey (kv c) k"
  shows "\<exists>c'. cache_updatePrority c k p = Inr c' \<and> cache_ok cap c' \<and> kv c' = kv c \<and>
           influMap c' = influMap c \<and> kvmap_lookup (kp c') = (kvmap_lookup (kp c))(k \<mapsto> p)"
proof -
  obtain q where q: "kvmap_lookup (kp c) k = Some q" "(q, k) \<in> set (pk c)"
    using cache_ok_cached_priority [OF ok hit] .
  note d = distinct_remove1_pair [of "pk c" q k]
  have dp: "distinct (map snd (pk c))" using ok by (simp add: cache_ok_def)
  let ?c' = "c\<lparr>pk := multimap_insert p k (remove1 (q, k) (pk c)),
              kp := kvmap_add (kvmap_remove (kp c) k) k p\<rparr>"
  have kp': "kvmap_lookup (kp ?c') = (kvmap_lookup (kp c))(k \<mapsto> p)"
    using ok by (simp add: cache_ok_def smap_simps)
  have "set (pk ?c') = {(p', k'). kvmap_lookup (kp ?c') k' = Some p'}"
    unfolding kp' using ok d(1) [OF dp q(2)] q(1) by (auto simp: cache_ok_def split: if_splits)
  then have "cache_ok cap ?c'"
    using ok kp' q d(2,3) [OF dp q(2)]
    by (auto simp: cache_ok_def mset_snd_multimap_insert sorted_multimap_insert
        sorted_remove1_map smap_simps)
  with kp' q show ?thesis
    by (simp add: cache_updatePrority_def smap_simps)
qed

lemma cache_ok_add:
  assumes ok: "cache_ok cap c" and miss: "\<not> kvmap_containsKey (kv c) k"
    and room: "kvmap_size (kv c) < cap"
  shows "cache_ok cap (cache_add c k v p)"
proof -
  have k: "kvmap_lookup (kv c) k = None" using miss by (simp add: smap_simps)
  with ok have kp: "kvmap_lookup (kp c) k = None" by (auto simp: cache_ok_def)
  have size: "kvmap_size (kvmap_add (kv c) k v) = Suc (kvmap_size (kv c))"
    using ok k by (simp add: kvmap_size_card cache_ok_def smap_simps domIff)
  have notin: "k \<notin> snd ` set (pk c)"
    using cache_ok_snd [OF ok] k by auto
  have set: "insert (p, k) (set (pk c)) = {(p', k'). ((kvmap_lookup (kp c))(k \<mapsto> p)) k' = Some p'}"
    using ok kp by (auto simp: cache_ok_def)
  show ?thesis
    using ok size room notin set
    by (auto simp: cache_ok_def cache_add_def smap_simps mset_snd_multimap_insert
        sorted_multimap_insert)
qed

lemma cache_deleteMin_cases:
  assumes ok: "cache_ok cap c" and ne: "pk c \<noteq> []"
  obtains (kept) val key rest where "pk c = (val, key) # rest" "\<not> val + 2 / 100 < p"
      "cache_deleteMin c p = Inr (False, c)"
  | (deleted) val key rest c' where "pk c = (val, key) # rest" "val + 2 / 100 < p"
      "cache_deleteMin c p = Inr (True, c')" "pk c' = rest"
      "kvmap_lookup (kv c') = (kvmap_lookup (kv c))(key := None)"
      "influMap c' = influMap c" "cache_ok cap c'" "kvmap_size (kv c') < kvmap_size (kv c)"
proof -
  obtain val key rest where pk: "pk c = (val, key) # rest" using ne by (cases "pk c") auto
  show ?thesis
  proof (cases "val + 2 / 100 < p")
    case False
    with pk show ?thesis by (intro kept [of val key rest]) (simp_all add: cache_deleteMin_def)
  next
    case True
    let ?c' = "c\<lparr>pk := rest, kp := kvmap_remove (kp c) key, kv := kvmap_remove (kv c) key\<rparr>"
    have d: "key \<notin> snd ` set rest" "distinct (map snd rest)"
      using ok pk by (auto simp: cache_ok_def)
    have s: "insert (val, key) (set rest) = {(p, k). kvmap_lookup (kp c) k = Some p}"
      using ok pk by (simp add: cache_ok_def)
    have set': "set rest = {(p, k). ((kvmap_lookup (kp c))(key := None)) k = Some p}"
    proof -
      have "(p, k) \<in> set rest \<longleftrightarrow> ((kvmap_lookup (kp c))(key := None)) k = Some p" for p k
        using s d(1) by (cases "k = key") (force simp: set_eq_iff)+
      then show ?thesis by auto
    qed
    have "kvmap_size (kv ?c') < kvmap_size (kv c)"
    proof -
      have "kvmap_lookup (kv c) key \<noteq> None"
        using cache_ok_snd [OF ok] pk by (auto simp: set_eq_iff domIff)
      then show ?thesis
        using ok length_smap_erase_present [of "elements (kv c)" key]
        by (auto simp: cache_ok_def kvmap_defs split: option.splits)
    qed
    moreover from this have "cache_ok cap ?c'"
      using ok pk d(2) set' by (auto simp: cache_ok_def smap_simps)
    ultimately show ?thesis
      using True pk
      by (intro deleted [of val key rest ?c']) (simp_all add: cache_deleteMin_def smap_simps)
  qed
qed

section \<open>addCache\<close>

text \<open>The three outcomes of \<open>cache_addCache\<close> on a well-formed cache.\<close>

lemma cache_addCache_cases:
  assumes ok: "cache_ok cap c" and cap: "0 < cap"
  obtains (hit) c' where "kvmap_lookup (kv c) k \<noteq> None" "cache_addCache cap c k v p = Inr c'"
      "cache_ok cap c'" "kvmap_lookup (kv c') = kvmap_lookup (kv c)" "influMap c' = influMap c"
      "kvmap_lookup (kp c') = (kvmap_lookup (kp c))(k \<mapsto> p)"
  | (room) c' where "kvmap_lookup (kv c) k = None" "kvmap_size (kv c) < cap"
      "cache_addCache cap c k v p = Inr c'" "cache_ok cap c'"
      "kvmap_lookup (kv c') = (kvmap_lookup (kv c))(k \<mapsto> v)" "influMap c' = influMap c"
  | (cold) val key rest where "kvmap_lookup (kv c) k = None" "kvmap_size (kv c) = cap"
      "pk c = (val, key) # rest" "\<not> val + 2 / 100 < p" "cache_addCache cap c k v p = Inr c"
  | (evict) c' val key rest where "kvmap_lookup (kv c) k = None" "kvmap_size (kv c) = cap"
      "pk c = (val, key) # rest" "val + 2 / 100 < p"
      "cache_addCache cap c k v p = Inr c'" "cache_ok cap c'"
      "kvmap_lookup (kv c') = ((kvmap_lookup (kv c))(key := None))(k \<mapsto> v)"
      "influMap c' = influMap c"
proof (cases "kvmap_containsKey (kv c) k")
  case True
  obtain c' where "cache_updatePrority c k p = Inr c'" "cache_ok cap c'" "kv c' = kv c"
    "influMap c' = influMap c" "kvmap_lookup (kp c') = (kvmap_lookup (kp c))(k \<mapsto> p)"
    using cache_ok_updatePrority [OF ok True] by blast
  with True show ?thesis
    by (intro hit [of c']) (simp_all add: cache_addCache_def smap_simps)
next
  case False
  then have None: "kvmap_lookup (kv c) k = None" by (simp add: smap_simps)
  show ?thesis
  proof (cases "kvmap_size (kv c) < cap")
    case True
    from None False True show ?thesis
      using cache_ok_add [OF ok False True, of v p] ok
      by (intro room [of "cache_add c k v p"])
        (simp_all add: cache_addCache_def cache_add_def smap_simps cache_ok_def)
  next
    case full: False
    then have size: "kvmap_size (kv c) = cap" using ok by (simp add: cache_ok_def)
    with cap cache_ok_size [OF ok] have ne: "pk c \<noteq> []" by auto
    from ok ne show ?thesis
    proof (cases rule: cache_deleteMin_cases [of cap c p])
      case (kept val key rest)
      with None size False full show ?thesis
        by (intro cold [of val key rest]) (simp_all add: cache_addCache_def)
    next
      case (deleted val key rest c1)
      have miss: "\<not> kvmap_containsKey (kv c1) k"
        using None deleted(5) by (simp add: smap_simps)
      have room1: "kvmap_size (kv c1) < cap" using deleted(8) size by simp
      show ?thesis
        using None size False full deleted cache_ok_add [OF deleted(7) miss room1, of v p]
        by (intro evict [of val key rest "cache_add c1 k v p"])
          (simp_all add: cache_addCache_def cache_add_def smap_simps cache_ok_def)
    qed
  qed
qed

interpretation hot: bounded_cache "\<lambda>c :: ('k::linorder, 'v) Cache. kvmap_lookup (kv c)"
  "\<lambda>p k v c. cache_addCache cap c k v p" "\<lambda>c. 0 < cap \<and> cache_ok cap c" cap
  for cap :: nat
proof unfold_locales
  fix c :: "('k, 'v) Cache" and p k v
  assume ok: "0 < cap \<and> cache_ok cap c"
  then have ok': "cache_ok cap c" "0 < cap" by auto
  note outcomes = cache_addCache_cases [OF ok', of k v p]
  show "\<exists>c'. cache_addCache cap c k v p = Inr c' \<and> 0 < cap \<and> cache_ok cap c'"
    by (cases rule: outcomes) (use ok in auto)
  fix c' k' v'
  assume "cache_addCache cap c k v p = Inr c'" and "kvmap_lookup (kv c') k' = Some v'"
  then show "kvmap_lookup (kv c) k' = Some v' \<or> (k' = k \<and> v' = v)"
    by (cases rule: outcomes) (auto split: if_splits)
next
  fix c :: "('k, 'v) Cache"
  assume "0 < cap \<and> cache_ok cap c"
  then show "finite (dom (kvmap_lookup (kv c))) \<and> card (dom (kvmap_lookup (kv c))) \<le> cap"
    by (auto simp: cache_ok_def kvmap_size_card)
qed

section \<open>Properties\<close>

text \<open>
  C31: on a well-formed cache of positive capacity, \<^verbatim>\<open>addCache\<close> always returns and leaves a
  well-formed cache: the priority index \<open>pk\<close>, the priorities \<open>kp\<close> and the values \<open>kv\<close> stay
  in step and at most \<open>cap\<close> keys are cached.
\<close>

theorem addCache_keeps_ok:
  assumes "0 < cap" and "cache_ok cap c"
  shows "\<exists>c'. cache_addCache cap c k v p = Inr c' \<and> cache_ok cap c'"
  using hot.add_total [of cap c k v p] assms by blast

lemma cache_ok_ex1: "cache_ok 2 (cache_add (cache_add cache_empty (7::int) ''a'' 3) 9 ''b'' 1)"
  by (intro cache_ok_add cache_ok_new [where m = kvmap_new, simplified cache_empty_def, simplified,
        folded cache_empty_def])
    (simp_all add: cache_add_def cache_empty_def kvmap_defs smap_erase_def)

theorem addCache_keeps_ok_witness:
  "\<exists>c'. cache_addCache 2 (cache_add (cache_add cache_empty (7::int) ''a'' 3) 9 ''b'' 1) 8 ''c'' 2
     = Inr c' \<and> cache_ok 2 c'"
  by (rule addCache_keeps_ok [OF _ cache_ok_ex1]) simp

text \<open>
  The eviction policy. When a new key is offered to a full cache, the victim is a cached
  key of minimal priority; it is replaced by the new entry exactly when the offered priority
  exceeds its priority by more than 0.02, and otherwise the cached values do not change.
\<close>

lemma addCache_evicts_coldest:
  assumes "0 < cap" and "cache_ok cap c" and "kvmap_lookup (kv c) k = None"
    and "kvmap_size (kv c) = cap"
  shows "\<exists>victim q c'.
     kvmap_lookup (kp c) victim = Some q \<and>
     (\<forall>k' q'. kvmap_lookup (kp c) k' = Some q' \<longrightarrow> q \<le> q') \<and>
     cache_addCache cap c k v p = Inr c' \<and>
     kvmap_lookup (kv c') =
       (if q + 2 / 100 < p then ((kvmap_lookup (kv c))(victim := None))(k \<mapsto> v)
        else kvmap_lookup (kv c))"
proof -
  have coldest: "kvmap_lookup (kp c) key = Some val \<and>
      (\<forall>k' q'. kvmap_lookup (kp c) k' = Some q' \<longrightarrow> val \<le> q')"
    if pk: "pk c = (val, key) # rest" for val key rest
  proof -
    have s: "set (pk c) = {(p, k). kvmap_lookup (kp c) k = Some p}" and
      so: "sorted (map fst (pk c))" using assms(2) by (simp_all add: cache_ok_def)
    have "(val, key) \<in> set (pk c)" using pk by simp
    then have "kvmap_lookup (kp c) key = Some val" by (simp add: s)
    moreover have "val \<le> q'" if "kvmap_lookup (kp c) k' = Some q'" for k' q'
    proof -
      from that have "(q', k') \<in> set (pk c)" by (simp add: s)
      with so pk show ?thesis by auto
    qed
    ultimately show ?thesis by blast
  qed
  from assms(2,1) show ?thesis
  proof (cases rule: cache_addCache_cases [of cap c k v p])
    case (cold val key rest)
    with coldest [OF cold(3)] show ?thesis
      by (intro exI [of _ key] exI [of _ val] exI [of _ c]) simp
  next
    case (evict c' val key rest)
    with coldest [OF evict(3)] show ?thesis
      by (intro exI [of _ key] exI [of _ val] exI [of _ c']) simp
  qed (use assms in auto)
qed

text \<open>
  \<^verbatim>\<open>Cache::remove\<close> drops the key from \<open>kv\<close> and \<open>kp\<close> but leaves its pair in \<open>pk\<close>, so on
  a cached key it always leaves the structures out of step.
\<close>

lemma cache_remove_leaves_stale_pair:
  assumes "cache_ok cap c" and "kvmap_containsKey (kv c) k"
  shows "\<not> cache_ok cap' (cache_remove c k)"
proof
  assume "cache_ok cap' (cache_remove c k)"
  from cache_ok_snd [OF this] have "k \<notin> snd ` set (pk c)"
    by (simp add: cache_remove_def smap_simps)
  with cache_ok_snd [OF assms(1)] assms(2) show False by (auto simp: smap_simps)
qed

end
