(* ===== verification/FifoCache.thy ===== *)
theory FifoCache
  imports KVMap CacheSpec
begin

text \<open>
  \<^verbatim>\<open>src/store/fifocache.h\<close>: a cache that evicts in insertion order. \<open>fifo_keys\<close> is the
  \<^verbatim>\<open>std::queue\<close>, front first. \<open>cap\<close> is \<^verbatim>\<open>CACHE_SIZE\<close>.
\<close>

record ('k, 'v) FIFOCache =
  fifo_elements :: "('k, 'v) KVMap"
  fifo_keys :: "'k list"

definition fifo_new :: "('k, 'v) FIFOCache" where
  "fifo_new = \<lparr>fifo_elements = kvmap_new, fifo_keys = []\<rparr>"

definition fifo_getValue :: "('k, 'v) FIFOCache \<Rightarrow> 'k \<Rightarrow> 'v result" where
  "fifo_getValue c key = kvmap_index (fifo_elements c) key"

definition fifo_containsKey :: "('k, 'v) FIFOCache \<Rightarrow> 'k \<Rightarrow> bool" where
  "fifo_containsKey c key = kvmap_containsKey (fifo_elements c) key"

definition fifo_addCache :: "nat \<Rightarrow> ('k::linorder, 'v) FIFOCache \<Rightarrow> 'k \<Rightarrow> 'v
    \<Rightarrow> ('k, 'v) FIFOCache result" where
  "fifo_addCache cap c key val =
     (if fifo_containsKey c key then Inr c
      else rbind
        (if cap - 1 < length (fifo_keys c)
         then (case fifo_keys c of
                 [] \<Rightarrow> Inl NullDeref
               | k # ks \<Rightarrow> Inr (c\<lparr>fifo_keys := ks, fifo_elements := kvmap_remove (fifo_elements c) k\<rparr>))
         else Inr c)
        (\<lambda>c. Inr (c\<lparr>fifo_elements := kvmap_add (fifo_elements c) key val,
                    fifo_keys := fifo_keys c @ [key]\<rparr>)))"

text \<open>\<^verbatim>\<open>show\<close> prints the queue by popping it: it returns the keys and an empty queue.\<close>

definition fifo_show :: "('k, 'v) FIFOCache \<Rightarrow> 'k list \<times> ('k, 'v) FIFOCache" where
  "fifo_show c = (fifo_keys c, c\<lparr>fifo_keys := []\<rparr>)"

definition fifo_ok :: "nat \<Rightarrow> ('k::linorder, 'v) FIFOCache \<Rightarrow> bool" where
  "fifo_ok cap c \<longleftrightarrow> kvmap_ok (fifo_elements c) \<and> distinct (fifo_keys c) \<and>
     set (fifo_keys c) = dom (kvmap_lookup (fifo_elements c)) \<and> length (fifo_keys c) \<le> cap"

lemma fifo_ok_new: "fifo_ok cap fifo_new"
  by (simp add: fifo_ok_def fifo_new_def kvmap_defs)

text \<open>The outcomes of \<open>fifo_addCache\<close>: hit, room, eviction of the oldest key.\<close>

lemma fifo_addCache_hit:
  "kvmap_lookup (fifo_elements c) k \<noteq> None \<Longrightarrow> fifo_addCache cap c k v = Inr c"
  by (simp add: fifo_addCache_def fifo_containsKey_def smap_simps)

lemma fifo_addCache_miss:
  assumes ok: "fifo_ok cap c" and cap: "0 < cap" and miss: "kvmap_lookup (fifo_elements c) k = None"
  obtains c' where "fifo_addCache cap c k v = Inr c'" and "fifo_ok cap c'"
    and "fifo_keys c' = (if length (fifo_keys c) = cap then tl (fifo_keys c) else fifo_keys c) @ [k]"
    and "kvmap_lookup (fifo_elements c') =
       (if length (fifo_keys c) = cap
        then (kvmap_lookup (fifo_elements c))(hd (fifo_keys c) := None)
        else kvmap_lookup (fifo_elements c))(k \<mapsto> v)"
proof (cases "length (fifo_keys c) = cap")
  case True
  with cap obtain old ks where ks: "fifo_keys c = old # ks" by (cases "fifo_keys c") auto
  let ?c = "c\<lparr>fifo_elements := kvmap_add (kvmap_remove (fifo_elements c) old) k v, fifo_keys := ks @ [k]\<rparr>"
  have set: "insert old (set ks) = dom (kvmap_lookup (fifo_elements c))" and "old \<notin> set ks"
    using ok ks by (auto simp: fifo_ok_def)
  then have "set ks = dom (kvmap_lookup (fifo_elements c)) - {old}" by auto
  then have "fifo_ok cap ?c"
    using ok ks miss cap by (auto simp: fifo_ok_def smap_simps split: if_splits)
  with True ks miss cap ok show ?thesis
    by (intro that [of ?c])
      (auto simp: fifo_addCache_def fifo_containsKey_def smap_simps fifo_ok_def)
next
  case False
  with ok have "length (fifo_keys c) < cap" by (simp add: fifo_ok_def)
  moreover from this have "\<not> cap - 1 < length (fifo_keys c)" by simp
  ultimately show ?thesis
    using ok miss False
    by (intro that [of "c\<lparr>fifo_elements := kvmap_add (fifo_elements c) k v, fifo_keys := fifo_keys c @ [k]\<rparr>"])
      (auto simp: fifo_addCache_def fifo_containsKey_def smap_simps fifo_ok_def)
qed

interpretation fifo: bounded_cache "\<lambda>c :: ('k::linorder, 'v) FIFOCache. kvmap_lookup (fifo_elements c)"
  "\<lambda>(u::unit) k v c. fifo_addCache cap c k v" "\<lambda>c. 0 < cap \<and> fifo_ok cap c" cap
  for cap :: nat
proof unfold_locales
  fix c :: "('k, 'v) FIFOCache" and k v
  assume ok: "0 < cap \<and> fifo_ok cap c"
  have outcome: "\<exists>c'. fifo_addCache cap c k v = Inr c' \<and> fifo_ok cap c' \<and>
      (\<forall>k' v'. kvmap_lookup (fifo_elements c') k' = Some v' \<longrightarrow>
        kvmap_lookup (fifo_elements c) k' = Some v' \<or> (k' = k \<and> v' = v))"
  proof (cases "kvmap_lookup (fifo_elements c) k")
    case None
    with ok obtain c' where "fifo_addCache cap c k v = Inr c'" and "fifo_ok cap c'"
      and "kvmap_lookup (fifo_elements c') =
       (if length (fifo_keys c) = cap
        then (kvmap_lookup (fifo_elements c))(hd (fifo_keys c) := None)
        else kvmap_lookup (fifo_elements c))(k \<mapsto> v)"
      using fifo_addCache_miss [of cap c k v] by metis
    then show ?thesis by (auto split: if_splits)
  next
    case (Some w)
    with ok show ?thesis by (auto simp: fifo_addCache_hit)
  qed
  then show "\<exists>c'. fifo_addCache cap c k v = Inr c' \<and> 0 < cap \<and> fifo_ok cap c'"
    using ok by blast
  fix c' k' v'
  assume "fifo_addCache cap c k v = Inr c'" and "kvmap_lookup (fifo_elements c') k' = Some v'"
  with outcome show "kvmap_lookup (fifo_elements c) k' = Some v' \<or> (k' = k \<and> v' = v)"
    by auto
next
  fix c :: "('k, 'v) FIFOCache"
  assume "0 < cap \<and> fifo_ok cap c"
  then have "card (set (fifo_keys c)) \<le> cap" and "set (fifo_keys c) = dom (kvmap_lookup (fifo_elements c))"
    using distinct_card [of "fifo_keys c"] by (auto simp: fifo_ok_def)
  then show "finite (dom (kvmap_lookup (fifo_elements c))) \<and>
      card (dom (kvmap_lookup (fifo_elements c))) \<le> cap" by simp
qed

section \<open>Properties\<close>

lemma fifo_window_from:
  assumes "0 < cap" and "fifo_ok cap c" and "distinct ks"
    and "set ks \<inter> set (fifo_keys c) = {}"
    and "hist = pre @ fifo_keys c" and "pre = [] \<or> length (fifo_keys c) = cap"
    and "set ks \<inter> set pre = {}"
  shows "\<exists>c'. rfold (\<lambda>k c. fifo_addCache cap c k (f k)) ks c = Inr c' \<and>
     fifo_keys c' = drop (length (hist @ ks) - cap) (hist @ ks)"
  using assms
proof (induction ks arbitrary: c hist pre)
  case Nil
  then show ?case by (auto simp: fifo_ok_def)
next
  case (Cons k ks)
  have miss: "kvmap_lookup (fifo_elements c) k = None"
    using Cons.prems(2,4) by (auto simp: fifo_ok_def dom_def)
  obtain c1 where c1: "fifo_addCache cap c k (f k) = Inr c1" "fifo_ok cap c1"
    "fifo_keys c1 = (if length (fifo_keys c) = cap then tl (fifo_keys c) else fifo_keys c) @ [k]"
    by (rule fifo_addCache_miss [OF Cons.prems(2,1) miss])
  have len: "length (fifo_keys c) \<le> cap" using Cons.prems(2) by (simp add: fifo_ok_def)
  define pre1 where "pre1 = (if length (fifo_keys c) = cap then pre @ [hd (fifo_keys c)] else pre)"
  have ne: "length (fifo_keys c) = cap \<Longrightarrow> fifo_keys c \<noteq> []" using Cons.prems(1) by auto
  have sub: "set (fifo_keys c1) \<subseteq> insert k (set (fifo_keys c))"
    using ne by (auto simp: c1(3) dest: list.set_sel(2))
  have "\<exists>c'. rfold (\<lambda>k c. fifo_addCache cap c k (f k)) ks c1 = Inr c' \<and>
     fifo_keys c' = drop (length ((hist @ [k]) @ ks) - cap) ((hist @ [k]) @ ks)"
  proof (rule Cons.IH [where pre = pre1])
    show "set ks \<inter> set (fifo_keys c1) = {}" using Cons.prems(3,4) sub by auto
    show "hist @ [k] = pre1 @ fifo_keys c1"
      using ne Cons.prems(5) by (simp add: pre1_def c1(3))
    show "pre1 = [] \<or> length (fifo_keys c1) = cap"
      using ne Cons.prems(1,6) by (auto simp: pre1_def c1(3))
    show "set ks \<inter> set pre1 = {}"
      using ne Cons.prems(4,7) by (auto simp: pre1_def)
  qed (use Cons.prems c1 in auto)
  with c1(1) show ?case by simp
qed

text \<open>
  First in, first out. Offering distinct keys one after the other to an empty cache of
  positive capacity leaves exactly the last \<open>cap\<close> of them in the queue, in their order.
\<close>

lemma fifo_keeps_last_cap:
  assumes "0 < cap" and "distinct ks"
  shows "\<exists>c'. rfold (\<lambda>k c. fifo_addCache cap c k (f k)) ks fifo_new = Inr c' \<and>
     fifo_keys c' = drop (length ks - cap) ks"
  using fifo_window_from [OF assms(1) fifo_ok_new assms(2), of "[]" "[]" f] by (simp add: fifo_new_def)

text \<open>
  \<^verbatim>\<open>FIFOCache::show\<close> pops every key it prints and leaves the values in place. On a
  non-empty cache this breaks the invariant: the queue no longer lists the cached keys, so
  they can never be evicted.
\<close>

lemma fifo_show_breaks_queue:
  assumes "fifo_ok cap c" and "fifo_keys c \<noteq> []"
  shows "\<not> fifo_ok cap' (snd (fifo_show c)) \<and>
     fifo_elements (snd (fifo_show c)) = fifo_elements c"
  using assms by (auto simp: fifo_ok_def fifo_show_def)

end
