(* ===== verification/LruList.thy ===== *)
theory LruList
  imports Prelude
begin

text \<open>
  \<^verbatim>\<open>src/store/lrucache.h\<close>, \<^verbatim>\<open>Node\<close> and \<^verbatim>\<open>List\<close>: a doubly linked list whose nodes live in an
  explicit heap from addresses to nodes. \<open>None\<close> is the null pointer; following it, or an
  address that is not allocated, is \<open>NullDeref\<close>. The lemmas show that \<open>pop\<close>, \<open>remove\<close> and
  \<open>push\<close> implement the operations of a sequence of addresses: \<open>dll_list h l xs\<close> states that
  the list \<open>l\<close> represents \<open>xs\<close> in the heap \<open>h\<close>.
\<close>

type_synonym addr = nat

record ('k, 'v) Node =
  prev :: "addr option"
  next_node :: "addr option"
  nkey :: 'k
  nvalue :: 'v

type_synonym ('k, 'v) heap = "addr \<Rightarrow> ('k, 'v) Node option"

record DList =
  head :: "addr option"
  tail :: "addr option"
  lsize :: nat

definition deref :: "('k, 'v) heap \<Rightarrow> addr \<Rightarrow> ('k, 'v) Node result" where
  "deref h a = (case h a of None \<Rightarrow> Inl NullDeref | Some n \<Rightarrow> Inr n)"

definition set_prev :: "('k, 'v) heap \<Rightarrow> addr \<Rightarrow> addr option \<Rightarrow> ('k, 'v) heap result" where
  "set_prev h a p = rbind (deref h a) (\<lambda>n. Inr (h(a \<mapsto> n\<lparr>prev := p\<rparr>)))"

definition set_next :: "('k, 'v) heap \<Rightarrow> addr \<Rightarrow> addr option \<Rightarrow> ('k, 'v) heap result" where
  "set_next h a p = rbind (deref h a) (\<lambda>n. Inr (h(a \<mapsto> n\<lparr>next_node := p\<rparr>)))"

definition node_unlink :: "('k, 'v) heap \<Rightarrow> addr \<Rightarrow> ('k, 'v) heap result" where
  "node_unlink h a =
     rbind (deref h a) (\<lambda>n.
     rbind (case next_node n of Some b \<Rightarrow> set_prev h b (prev n) | None \<Rightarrow> Inr h) (\<lambda>h.
     rbind (case prev n of Some b \<Rightarrow> set_next h b (next_node n) | None \<Rightarrow> Inr h) (\<lambda>h.
     rbind (set_next h a None) (\<lambda>h. set_prev h a None))))"

definition list_new :: DList where
  "list_new = \<lparr>head = None, tail = None, lsize = 0\<rparr>"

definition list_pop :: "('k, 'v) heap \<Rightarrow> DList \<Rightarrow> (addr option \<times> ('k, 'v) heap \<times> DList) result" where
  "list_pop h l =
     (case head l of
        None \<Rightarrow> Inr (None, h, l)
      | Some a \<Rightarrow>
          rbind (deref h a) (\<lambda>n.
          rbind (node_unlink h a) (\<lambda>h'.
            let l' = l\<lparr>head := next_node n, lsize := lsize l - 1\<rparr>
            in Inr (Some a, h', if lsize l' = 0 then l'\<lparr>tail := None\<rparr> else l'))))"

definition list_remove :: "('k, 'v) heap \<Rightarrow> DList \<Rightarrow> addr \<Rightarrow> (('k, 'v) heap \<times> DList) result" where
  "list_remove h l a =
     rbind (deref h a) (\<lambda>n.
       let l1 = (if head l = Some a then l\<lparr>head := next_node n\<rparr> else l);
           l2 = (if tail l1 = Some a then l1\<lparr>tail := prev n\<rparr> else l1)
       in rbind (node_unlink h a) (\<lambda>h'. Inr (h', l2\<lparr>lsize := lsize l2 - 1\<rparr>)))"

definition list_push :: "('k, 'v) heap \<Rightarrow> DList \<Rightarrow> addr \<Rightarrow> (('k, 'v) heap \<times> DList) result" where
  "list_push h l a =
     rbind (node_unlink h a) (\<lambda>h.
     rbind
       (case head l of
          None \<Rightarrow> Inr (h, l\<lparr>head := Some a\<rparr>)
        | Some b \<Rightarrow>
            if head l = tail l
            then rbind (set_next h b (Some a)) (\<lambda>h. rbind (set_prev h a (Some b)) (\<lambda>h. Inr (h, l)))
            else (case tail l of
                    None \<Rightarrow> Inl NullDeref
                  | Some t \<Rightarrow>
                      rbind (set_next h t (Some a)) (\<lambda>h. rbind (set_prev h a (Some t)) (\<lambda>h. Inr (h, l)))))
       (\<lambda>(h, l). Inr (h, l\<lparr>tail := Some a, lsize := lsize l + 1\<rparr>)))"

text \<open>
  \<^verbatim>\<open>delete node\<close> runs \<open>cleanup\<close>, which deletes the chain of next nodes first. The fuel is
  the length of the longest chain the caller allows; running out is \<open>Diverges\<close>.
\<close>

fun node_delete :: "nat \<Rightarrow> ('k, 'v) heap \<Rightarrow> addr \<Rightarrow> ('k, 'v) heap result" where
  "node_delete 0 h a = Inl Diverges"
| "node_delete (Suc fuel) h a =
     rbind (deref h a) (\<lambda>n.
     rbind (case next_node n of Some b \<Rightarrow> node_delete fuel h b | None \<Rightarrow> Inr h)
       (\<lambda>h. Inr (h(a := None))))"

definition list_clear :: "('k, 'v) heap \<Rightarrow> DList \<Rightarrow> (('k, 'v) heap \<times> DList) result" where
  "list_clear h l =
     rbind (case head l of Some a \<Rightarrow> node_delete (lsize l) h a | None \<Rightarrow> Inr h)
       (\<lambda>h. Inr (h, l\<lparr>head := None, tail := None, lsize := 0\<rparr>))"

section \<open>Segments of the list\<close>

fun first_or :: "addr option \<Rightarrow> addr list \<Rightarrow> addr option" where
  "first_or q [] = q"
| "first_or q (a # as) = Some a"

fun last_or :: "addr option \<Rightarrow> addr list \<Rightarrow> addr option" where
  "last_or p [] = p"
| "last_or p (a # as) = last_or (Some a) as"

fun dll :: "('k, 'v) heap \<Rightarrow> addr option \<Rightarrow> addr list \<Rightarrow> addr option \<Rightarrow> bool" where
  "dll h p [] q = True"
| "dll h p (a # as) q =
     (case h a of None \<Rightarrow> False
      | Some n \<Rightarrow> prev n = p \<and> next_node n = first_or q as \<and> dll h (Some a) as q)"

definition dll_list :: "('k, 'v) heap \<Rightarrow> DList \<Rightarrow> addr list \<Rightarrow> bool" where
  "dll_list h l xs \<longleftrightarrow> head l = first_or None xs \<and> tail l = last_or None xs \<and>
     lsize l = length xs \<and> distinct xs \<and> dll h None xs None"

lemma last_or_append [simp]: "last_or p (xs @ ys) = last_or (last_or p xs) ys"
  by (induction xs arbitrary: p) auto

lemma first_or_append [simp]: "first_or q (xs @ ys) = first_or (first_or q ys) xs"
  by (cases xs) auto

lemma last_or_mem: "last_or p xs = Some a \<Longrightarrow> p = Some a \<or> a \<in> set xs"
  by (induction xs arbitrary: p) auto

lemma last_or_nonempty: "xs \<noteq> [] \<Longrightarrow> last_or p xs = Some (last xs)"
  by (induction xs arbitrary: p) auto

lemma first_or_mem: "first_or q xs = Some a \<Longrightarrow> q = Some a \<or> a \<in> set xs"
  by (cases xs) auto

lemma dll_append:
  "dll h p (xs @ ys) q \<longleftrightarrow> dll h p xs (first_or q ys) \<and> dll h (last_or p xs) ys q"
  by (induction xs arbitrary: p) (auto split: option.splits)

lemma dll_upd [simp]: "a \<notin> set xs \<Longrightarrow> dll (h(a := n)) p xs q = dll h p xs q"
  by (induction xs arbitrary: p) (auto split: option.splits)

lemma dll_mem: "dll h p xs q \<Longrightarrow> a \<in> set xs \<Longrightarrow> h a \<noteq> None"
  by (induction xs arbitrary: p) (auto split: option.splits)

text \<open>Two heaps agree on the payload of the nodes of a set.\<close>

definition same_payload :: "('k, 'v) heap \<Rightarrow> ('k, 'v) heap \<Rightarrow> bool" where
  "same_payload h h' \<longleftrightarrow> (\<forall>a. map_option (\<lambda>n. (nkey n, nvalue n)) (h' a) =
     map_option (\<lambda>n. (nkey n, nvalue n)) (h a))"

lemma same_payload_refl [simp]: "same_payload h h"
  by (simp add: same_payload_def)

lemma same_payload_trans: "same_payload h h' \<Longrightarrow> same_payload h' h'' \<Longrightarrow> same_payload h h''"
  by (simp add: same_payload_def)

lemma set_prev_eq: "h a = Some n \<Longrightarrow> set_prev h a p = Inr (h(a \<mapsto> n\<lparr>prev := p\<rparr>))"
  by (simp add: set_prev_def deref_def)

lemma set_next_eq: "h a = Some n \<Longrightarrow> set_next h a p = Inr (h(a \<mapsto> n\<lparr>next_node := p\<rparr>))"
  by (simp add: set_next_def deref_def)

lemma same_payload_upd:
  "h a = Some n \<Longrightarrow> nkey n' = nkey n \<Longrightarrow> nvalue n' = nvalue n \<Longrightarrow> same_payload h (h(a \<mapsto> n'))"
  by (simp add: same_payload_def)

text \<open>Redirecting the last node of a segment, or the first one.\<close>

lemma dll_set_last:
  assumes "dll h p (us @ [b]) q" and "distinct (us @ [b])"
  obtains n where "h b = Some n" and "prev n = last_or p us"
    and "dll (h(b \<mapsto> n\<lparr>next_node := r\<rparr>)) p (us @ [b]) r"
proof -
  from assms(1) obtain n where n: "h b = Some n" "prev n = last_or p us" "dll h p us (Some b)"
    by (auto simp: dll_append split: option.splits)
  with assms(2) show ?thesis by (intro that [of n]) (auto simp: dll_append)
qed

lemma dll_set_first:
  assumes "dll h p (b # vs) q" and "distinct (b # vs)"
  obtains n where "h b = Some n" and "next_node n = first_or q vs"
    and "dll (h(b \<mapsto> n\<lparr>prev := r\<rparr>)) r (b # vs) q"
  using assms by (auto split: option.splits)

section \<open>Unlinking a node\<close>

lemma node_unlink_isolated:
  assumes "h a = Some n" and "prev n = None" and "next_node n = None"
  shows "node_unlink h a = Inr h"
  using assms by (cases n) (auto simp: node_unlink_def deref_def set_prev_def set_next_def fun_upd_idem)

lemma node_unlink_dll:
  assumes dll: "dll h None (us @ a # vs) None" and dist: "distinct (us @ a # vs)"
  obtains h' n where "node_unlink h a = Inr h'" and "dll h' None (us @ vs) None"
    and "h' a = Some n" and "prev n = None" and "next_node n = None" and "same_payload h h'"
proof -
  from dll obtain n where n: "h a = Some n" "prev n = last_or None us" "next_node n = first_or None vs"
    and us: "dll h None us (Some a)" and vs: "dll h (Some a) vs None"
    by (auto simp: dll_append split: option.splits)
  have a: "a \<notin> set us" "a \<notin> set vs" and duv: "distinct us" "distinct vs" "set us \<inter> set vs = {}"
    using dist by auto
  obtain h1 where h1: "(case next_node n of Some b \<Rightarrow> set_prev h b (prev n) | None \<Rightarrow> Inr h) = Inr h1"
    "dll h1 (last_or None us) vs None" "dll h1 None us (Some a)" "h1 a = Some n" "same_payload h h1"
  proof (cases vs)
    case Nil
    with n us show ?thesis by (intro that [of h]) auto
  next
    case (Cons b vs')
    obtain m where m: "h b = Some m" "dll (h(b \<mapsto> m\<lparr>prev := last_or None us\<rparr>)) (last_or None us) vs None"
      using dll_set_first [of h "Some a" b vs' None "last_or None us"] vs duv(2) Cons by auto
    with n us a duv Cons show ?thesis
      by (intro that [of "h(b \<mapsto> m\<lparr>prev := last_or None us\<rparr>)"])
        (auto simp: set_prev_eq intro: same_payload_upd)
  qed
  obtain h2 where h2: "(case prev n of Some b \<Rightarrow> set_next h1 b (next_node n) | None \<Rightarrow> Inr h1) = Inr h2"
    "dll h2 (last_or None us) vs None" "dll h2 None us (first_or None vs)" "h2 a = Some n"
    "same_payload h1 h2"
  proof (cases us rule: rev_cases)
    case Nil
    with n h1 show ?thesis by (intro that [of h1]) auto
  next
    case (snoc us' b)
    obtain m where m: "h1 b = Some m" "dll (h1(b \<mapsto> m\<lparr>next_node := first_or None vs\<rparr>)) None us (first_or None vs)"
      using dll_set_last [of h1 None us' b "Some a" "first_or None vs"] h1(3) duv(1) snoc by auto
    with n h1 a duv snoc show ?thesis
      by (intro that [of "h1(b \<mapsto> m\<lparr>next_node := first_or None vs\<rparr>)"])
        (auto simp: set_next_eq intro: same_payload_upd)
  qed
  let ?h = "h2(a \<mapsto> n\<lparr>next_node := None, prev := None\<rparr>)"
  have "node_unlink h a = Inr ?h"
    using n h1(1) h2(1,4) by (simp add: node_unlink_def deref_def set_next_eq set_prev_eq)
  moreover have "dll ?h None (us @ vs) None"
    using h2(2,3) a by (simp add: dll_append)
  moreover have "same_payload h ?h"
    by (rule same_payload_trans [OF h1(5) same_payload_trans [OF h2(5)]])
      (rule same_payload_upd [where n = n], use h2(4) in simp_all)
  ultimately show ?thesis
    by (intro that [of ?h "n\<lparr>next_node := None, prev := None\<rparr>"]) auto
qed

section \<open>The list operations\<close>

lemma list_remove_correct:
  assumes "dll_list h l (us @ a # vs)"
  obtains h' l' n where "list_remove h l a = Inr (h', l')" and "dll_list h' l' (us @ vs)"
    and "h' a = Some n" and "prev n = None" and "next_node n = None" and "same_payload h h'"
proof -
  from assms have dll: "dll h None (us @ a # vs) None" and dist: "distinct (us @ a # vs)"
    and hd: "head l = first_or (Some a) us" and tl: "tail l = last_or (Some a) vs"
    and size: "lsize l = length us + Suc (length vs)"
    by (simp_all add: dll_list_def)
  obtain h' n where h': "node_unlink h a = Inr h'" "dll h' None (us @ vs) None"
    "h' a = Some n" "prev n = None" "next_node n = None" "same_payload h h'"
    by (rule node_unlink_dll [OF dll dist])
  from dll obtain m where m: "h a = Some m" "prev m = last_or None us" "next_node m = first_or None vs"
    by (auto simp: dll_append split: option.splits)
  have hd': "(if head l = Some a then next_node m else head l) = first_or None (us @ vs)"
    using hd m dist by (cases us) auto
  have tl': "(if tail l = Some a then prev m else tail l) = last_or None (us @ vs)"
  proof (cases vs rule: rev_cases)
    case Nil
    with tl m show ?thesis by simp
  next
    case (snoc vs' b)
    with tl dist show ?thesis by auto
  qed
  let ?l = "\<lparr>head = first_or None (us @ vs), tail = last_or None (us @ vs), lsize = length (us @ vs)\<rparr>"
  have "list_remove h l a = Inr (h', ?l)"
    using m h'(1) hd' tl' size
    by (cases l) (auto simp: list_remove_def deref_def Let_def split: if_splits)
  moreover have "dll_list h' ?l (us @ vs)"
    using h'(2) dist by (simp add: dll_list_def)
  ultimately show ?thesis using h' by (intro that [of h' ?l n]) auto
qed

lemma list_push_correct:
  assumes "dll_list h l xs" and "a \<notin> set xs" and a: "h a = Some n"
    and iso: "prev n = None" "next_node n = None"
  obtains h' l' where "list_push h l a = Inr (h', l')" and "dll_list h' l' (xs @ [a])"
    and "same_payload h h'"
proof -
  have un: "node_unlink h a = Inr h" using a iso by (rule node_unlink_isolated)
  show ?thesis
  proof (cases xs rule: rev_cases)
    case Nil
    with assms un show ?thesis
      by (intro that [of h "\<lparr>head = Some a, tail = Some a, lsize = 1\<rparr>"])
        (cases l, auto simp: list_push_def dll_list_def)
  next
    case (snoc ys b)
    from assms(1) snoc have l: "head l = first_or (Some b) ys" "tail l = Some b" "lsize l = length xs"
      and dll: "dll h None (ys @ [b]) None" and dist: "distinct (ys @ [b])"
      by (simp_all add: dll_list_def)
    obtain m where m: "h b = Some m" "dll (h(b \<mapsto> m\<lparr>next_node := Some a\<rparr>)) None (ys @ [b]) (Some a)"
      using dll_set_last [OF dll dist, of "Some a"] by auto
    have ab: "a \<noteq> b" "a \<notin> set ys" using assms(2) snoc by auto
    let ?h = "h(b \<mapsto> m\<lparr>next_node := Some a\<rparr>, a \<mapsto> n\<lparr>prev := Some b\<rparr>)"
    obtain c where c: "head l = Some c" and "head l = tail l \<Longrightarrow> c = b"
      using l by (cases ys) auto
    then have "list_push h l a = Inr (?h, l\<lparr>tail := Some a, lsize := lsize l + 1\<rparr>)"
      using un l m a ab by (auto simp: list_push_def set_next_eq set_prev_eq)
    moreover have "dll_list ?h (l\<lparr>tail := Some a, lsize := lsize l + 1\<rparr>) (xs @ [a])"
      using l m(2) ab dist iso snoc by (auto simp: dll_list_def dll_append)
    moreover have "same_payload h ?h"
      using m(1) a ab by (auto simp: same_payload_def)
    ultimately show ?thesis by (rule that)
  qed
qed

lemma list_pop_correct:
  assumes "dll_list h l (a # vs)"
  obtains h' l' n where "list_pop h l = Inr (Some a, h', l')" and "dll_list h' l' vs"
    and "h' a = Some n" and "next_node n = None" and "same_payload h h'"
proof -
  from assms have dll: "dll h None ([] @ a # vs) None" and dist: "distinct ([] @ a # vs)"
    and l: "head l = Some a" "tail l = last_or (Some a) vs" "lsize l = Suc (length vs)"
    by (simp_all add: dll_list_def)
  obtain h' n where h': "node_unlink h a = Inr h'" "dll h' None ([] @ vs) None"
    "h' a = Some n" "prev n = None" "next_node n = None" "same_payload h h'"
    by (rule node_unlink_dll [OF dll dist])
  from dll obtain m where m: "h a = Some m" "next_node m = first_or None vs"
    by (auto split: option.splits)
  let ?l = "\<lparr>head = first_or None vs, tail = last_or None vs, lsize = length vs\<rparr>"
  have "list_pop h l = Inr (Some a, h', ?l)"
    using l m h'(1) by (cases l, cases vs) (auto simp: list_pop_def deref_def Let_def)
  moreover have "dll_list h' ?l vs"
    using h'(2) dist by (simp add: dll_list_def)
  ultimately show ?thesis using h' by (intro that [of h' ?l n]) auto
qed

text \<open>Deleting the head frees every node of the list and nothing else.\<close>

lemma node_delete_chain:
  assumes "dll h p (a # xs) None" and "distinct (a # xs)" and "length (a # xs) \<le> fuel"
  shows "node_delete fuel h a = Inr (\<lambda>b. if b \<in> set (a # xs) then None else h b)"
  using assms
proof (induction xs arbitrary: a p fuel)
  case Nil
  then obtain f where "fuel = Suc f" by (cases fuel) auto
  with Nil show ?case by (auto simp: deref_def fun_eq_iff split: option.splits)
next
  case (Cons b xs)
  from Cons.prems(3) obtain f where f: "fuel = Suc f" by (cases fuel) auto
  from Cons.prems obtain n where n: "h a = Some n" "next_node n = Some b"
    and rest: "dll h (Some a) (b # xs) None" by (auto split: option.splits)
  have "node_delete f h b = Inr (\<lambda>c. if c \<in> set (b # xs) then None else h c)"
    using Cons.IH [OF rest, of f] Cons.prems(2,3) f by simp
  with n f show ?case by (auto simp: deref_def fun_eq_iff)
qed

lemma list_clear_correct:
  assumes "dll_list h l xs"
  shows "list_clear h l = Inr (\<lambda>b. if b \<in> set xs then None else h b, list_new)"
proof (cases xs)
  case Nil
  with assms show ?thesis by (cases l) (simp add: list_clear_def dll_list_def list_new_def)
next
  case (Cons a as)
  with assms node_delete_chain [of h None a as "lsize l"] show ?thesis
    by (cases l) (simp add: list_clear_def dll_list_def list_new_def)
qed

end
