(* ===== verification/LruCache.thy ===== *)
theory LruCache
  imports LruList CacheSpec
begin

text \<open>
  \<^verbatim>\<open>src/store/lrucache.h\<close>, \<^verbatim>\<open>LRUCache\<close>: a \<^verbatim>\<open>std::map\<close> from keys to node addresses and the
  linked list of \<open>LruList\<close>, least recently used first. The abstract specification is a
  sequence of entries with distinct keys; \<open>lru_rel c kvs\<close> relates a cache to it, and the
  lemmas show that \<open>insert\<close>, \<open>get\<close>, \<open>remove\<close> and \<open>clear\<close> refine the operations on sequences.
\<close>

record ('k, 'v) LRUCache =
  nodes :: "('k, 'v) heap"
  fresh :: addr
  m_cache :: "('k \<times> addr) list"
  m_keys :: DList
  m_maxSize :: nat
  m_elasticity :: nat

definition lru_new :: "nat \<Rightarrow> nat \<Rightarrow> ('k, 'v) LRUCache" where
  "lru_new maxSize elasticity =
     \<lparr>nodes = (\<lambda>_. None), fresh = 0, m_cache = [], m_keys = list_new,
      m_maxSize = maxSize, m_elasticity = elasticity\<rparr>"

definition lru_clear :: "('k, 'v) LRUCache \<Rightarrow> ('k, 'v) LRUCache result" where
  "lru_clear c =
     rbind (list_clear (nodes c) (m_keys c)) (\<lambda>(h, l).
       Inr (c\<lparr>m_cache := [], nodes := h, m_keys := l\<rparr>))"

text \<open>The loop of \<open>prune\<close>; the fuel bounds its rounds.\<close>

fun prune_loop :: "nat \<Rightarrow> ('k, 'v) LRUCache \<Rightarrow> nat \<Rightarrow> (nat \<times> ('k, 'v) LRUCache) result" where
  "prune_loop 0 c count = Inl Diverges"
| "prune_loop (Suc fuel) c count =
     (if m_maxSize c < length (m_cache c)
      then rbind (list_pop (nodes c) (m_keys c)) (\<lambda>(p, h, l).
           (case p of
              None \<Rightarrow> Inl NullDeref
            | Some a \<Rightarrow>
                rbind (deref h a) (\<lambda>n.
                rbind (node_delete (fresh c) h a) (\<lambda>h'.
                  prune_loop fuel
                    (c\<lparr>nodes := h', m_keys := l, m_cache := smap_erase (nkey n) (m_cache c)\<rparr>)
                    (count + 1)))))
      else Inr (count, c))"

definition lru_prune :: "('k, 'v) LRUCache \<Rightarrow> (nat \<times> ('k, 'v) LRUCache) result" where
  "lru_prune c =
     (if 0 < m_maxSize c \<and> m_maxSize c + m_elasticity c \<le> length (m_cache c)
      then prune_loop (Suc (length (m_cache c))) c 0
      else Inr (0, c))"

definition lru_refresh :: "('k, 'v) LRUCache \<Rightarrow> addr \<Rightarrow> ('k, 'v) LRUCache result" where
  "lru_refresh c a =
     rbind (list_remove (nodes c) (m_keys c) a) (\<lambda>(h, l).
     rbind (list_push h l a) (\<lambda>(h, l). Inr (c\<lparr>nodes := h, m_keys := l\<rparr>)))"

definition lru_insert :: "('k::linorder, 'v) LRUCache \<Rightarrow> 'k \<Rightarrow> 'v \<Rightarrow> ('k, 'v) LRUCache result" where
  "lru_insert c key val =
     (case map_of (m_cache c) key of
        Some a \<Rightarrow> lru_refresh c a
      | None \<Rightarrow>
          let n = fresh c;
              c1 = c\<lparr>fresh := Suc n,
                     nodes := (nodes c)(n \<mapsto> \<lparr>prev = None, next_node = None, nkey = key, nvalue = val\<rparr>),
                     m_cache := smap_put key n (m_cache c)\<rparr>
          in rbind (list_push (nodes c1) (m_keys c1) n) (\<lambda>(h, l).
             rbind (lru_prune (c1\<lparr>nodes := h, m_keys := l\<rparr>)) (\<lambda>(_, c2). Inr c2)))"

definition lru_get :: "('k, 'v) LRUCache \<Rightarrow> 'k \<Rightarrow> ('v \<times> ('k, 'v) LRUCache) result" where
  "lru_get c key =
     (case map_of (m_cache c) key of
        None \<Rightarrow> Inl KeyNotFound
      | Some a \<Rightarrow>
          rbind (lru_refresh c a) (\<lambda>c.
          rbind (deref (nodes c) a) (\<lambda>n. Inr (nvalue n, c))))"

text \<open>\<open>remove\<close> takes the node out of the list and the map but does not free it.\<close>

definition lru_remove :: "('k, 'v) LRUCache \<Rightarrow> 'k \<Rightarrow> ('k, 'v) LRUCache result" where
  "lru_remove c key =
     (case map_of (m_cache c) key of
        None \<Rightarrow> Inr c
      | Some a \<Rightarrow>
          rbind (list_remove (nodes c) (m_keys c) a) (\<lambda>(h, l).
            Inr (c\<lparr>nodes := h, m_keys := l, m_cache := smap_erase key (m_cache c)\<rparr>)))"

definition lru_contains :: "('k, 'v) LRUCache \<Rightarrow> 'k \<Rightarrow> bool" where
  "lru_contains c key = (map_of (m_cache c) key \<noteq> None)"

section \<open>Abstract specification\<close>

definition touch :: "'k \<Rightarrow> ('k \<times> 'v) list \<Rightarrow> ('k \<times> 'v) list" where
  "touch k kvs = filter (\<lambda>p. fst p \<noteq> k) kvs @ filter (\<lambda>p. fst p = k) kvs"

definition spec_insert :: "nat \<Rightarrow> nat \<Rightarrow> ('k \<times> 'v) list \<Rightarrow> 'k \<Rightarrow> 'v \<Rightarrow> ('k \<times> 'v) list" where
  "spec_insert maxSize elasticity kvs k v =
     (if k \<in> fst ` set kvs then touch k kvs
      else let kvs' = kvs @ [(k, v)]
           in if 0 < maxSize \<and> maxSize + elasticity \<le> length kvs'
              then drop (length kvs' - maxSize) kvs' else kvs')"

definition entries :: "('k, 'v) heap \<Rightarrow> addr list \<Rightarrow> ('k \<times> 'v) list" where
  "entries h xs = map (\<lambda>a. (nkey (the (h a)), nvalue (the (h a)))) xs"

definition lru_ok :: "('k::linorder, 'v) LRUCache \<Rightarrow> addr list \<Rightarrow> bool" where
  "lru_ok c xs \<longleftrightarrow> dll_list (nodes c) (m_keys c) xs \<and> smap_ok (m_cache c) \<and>
     (\<forall>k a. map_of (m_cache c) k = Some a \<longleftrightarrow> a \<in> set xs \<and> nkey (the (nodes c a)) = k) \<and>
     (\<forall>a. nodes c a \<noteq> None \<longrightarrow> a < fresh c)"

definition lru_rel :: "('k::linorder, 'v) LRUCache \<Rightarrow> ('k \<times> 'v) list \<Rightarrow> bool" where
  "lru_rel c kvs \<longleftrightarrow> (\<exists>xs. lru_ok c xs \<and> kvs = entries (nodes c) xs)"

lemma lru_okD:
  assumes "lru_ok c xs"
  shows "dll_list (nodes c) (m_keys c) xs" and "smap_ok (m_cache c)"
    and "map_of (m_cache c) k = Some a \<longleftrightarrow> a \<in> set xs \<and> nkey (the (nodes c a)) = k"
    and "nodes c a \<noteq> None \<Longrightarrow> a < fresh c" and "distinct xs"
    and "a \<in> set xs \<Longrightarrow> \<exists>n. nodes c a = Some n"
  using assms by (auto simp: lru_ok_def dll_list_def dest: dll_mem)

lemma lru_ok_inj: "lru_ok c xs \<Longrightarrow> a \<in> set xs \<Longrightarrow> b \<in> set xs \<Longrightarrow>
    nkey (the (nodes c a)) = nkey (the (nodes c b)) \<Longrightarrow> a = b"
  using lru_okD(3) [of c xs "nkey (the (nodes c b))" a] lru_okD(3) [of c xs "nkey (the (nodes c b))" b]
  by simp

lemma lru_ok_length: "lru_ok c xs \<Longrightarrow> length (m_cache c) = length xs"
proof -
  assume ok: "lru_ok c xs"
  have "fst ` set (m_cache c) = (\<lambda>a. nkey (the (nodes c a))) ` set xs"
    using lru_okD(3) [OF ok] by (auto simp: dom_map_of_conv_image_fst [symmetric] dom_def)
  moreover have "card (fst ` set (m_cache c)) = length (m_cache c)"
    using distinct_card [OF smap_ok_distinct [OF lru_okD(2) [OF ok]]] by simp
  moreover have "card ((\<lambda>a. nkey (the (nodes c a))) ` set xs) = length xs"
    using lru_ok_inj [OF ok] distinct_card [OF lru_okD(5) [OF ok]]
    by (subst card_image) (auto simp: inj_on_def)
  ultimately show ?thesis by simp
qed

lemma same_payloadD:
  assumes "same_payload h h'"
  shows "h' a \<noteq> None \<longleftrightarrow> h a \<noteq> None"
    and "h a \<noteq> None \<Longrightarrow> nkey (the (h' a)) = nkey (the (h a)) \<and> nvalue (the (h' a)) = nvalue (the (h a))"
proof -
  have e: "map_option (\<lambda>n. (nkey n, nvalue n)) (h' a) = map_option (\<lambda>n. (nkey n, nvalue n)) (h a)"
    using assms by (simp add: same_payload_def)
  then show "h' a \<noteq> None \<longleftrightarrow> h a \<noteq> None" by (cases "h' a"; cases "h a") auto
  from e show "h a \<noteq> None \<Longrightarrow> nkey (the (h' a)) = nkey (the (h a)) \<and>
      nvalue (the (h' a)) = nvalue (the (h a))" by (cases "h' a"; cases "h a") auto
qed

lemma entries_same_payload:
  "same_payload h h' \<Longrightarrow> \<forall>a \<in> set xs. h a \<noteq> None \<Longrightarrow> entries h' xs = entries h xs"
  by (auto simp: entries_def same_payloadD(2) [of h h'])

lemma entries_key_set: "fst ` set (entries h xs) = (\<lambda>a. nkey (the (h a))) ` set xs"
  by (simp add: entries_def image_image)

lemma entries_append: "entries h (xs @ ys) = entries h xs @ entries h ys"
  by (simp add: entries_def)

lemma entries_Cons: "entries h (a # xs) = (nkey (the (h a)), nvalue (the (h a))) # entries h xs"
  by (simp add: entries_def)

lemma length_entries [simp]: "length (entries h xs) = length xs"
  by (simp add: entries_def)

lemma lru_ok_keys: "lru_ok c xs \<Longrightarrow>
    (k \<in> fst ` set (entries (nodes c) xs)) = (map_of (m_cache c) k \<noteq> None)"
  using lru_okD(3) [of c xs k] by (auto simp: entries_key_set)

lemma touch_entries:
  assumes ok: "lru_ok c (us @ a # vs)"
  shows "touch (nkey (the (nodes c a))) (entries (nodes c) (us @ a # vs)) =
     entries (nodes c) (us @ vs @ [a])"
proof -
  have d: "a \<notin> set us" "a \<notin> set vs" using lru_okD(5) [OF ok] by auto
  have "nkey (the (nodes c b)) \<noteq> nkey (the (nodes c a))" if "b \<in> set us \<union> set vs" for b
    using lru_ok_inj [OF ok, of b a] that d by auto
  then show ?thesis
    by (auto simp: touch_def entries_def filter_map comp_def
        intro!: filter_True filter_False)
qed

section \<open>Refinement\<close>

lemma lru_ok_heap:
  assumes ok: "lru_ok c xs" and dl: "dll_list h l ys" and same: "same_payload (nodes c) h"
    and set: "set ys = set xs"
  shows "lru_ok (c\<lparr>nodes := h, m_keys := l\<rparr>) ys"
proof -
  have "nkey (the (h a)) = nkey (the (nodes c a))" if "a \<in> set xs" for a
    using same_payloadD(2) [OF same] lru_okD(6) [OF ok that] by auto
  then show ?thesis
    using ok dl set same_payloadD(1) [OF same] by (auto simp: lru_ok_def)
qed

lemma lru_refresh_correct:
  assumes ok: "lru_ok c xs" and a: "map_of (m_cache c) k = Some a"
  obtains c' ys where "lru_refresh c a = Inr c'" and "lru_ok c' ys"
    and "entries (nodes c') ys = touch k (entries (nodes c) xs)"
    and "m_maxSize c' = m_maxSize c" and "m_elasticity c' = m_elasticity c"
    and "m_cache c' = m_cache c"
    and "same_payload (nodes c) (nodes c')"
proof -
  have a': "a \<in> set xs" "nkey (the (nodes c a)) = k" using a lru_okD(3) [OF ok] by auto
  obtain us vs where xs: "xs = us @ a # vs" using a'(1) by (meson split_list)
  have dl0: "dll_list (nodes c) (m_keys c) (us @ a # vs)" using lru_okD(1) [OF ok] xs by simp
  obtain h l n where r: "list_remove (nodes c) (m_keys c) a = Inr (h, l)" "dll_list h l (us @ vs)"
    "h a = Some n" "prev n = None" "next_node n = None" "same_payload (nodes c) h"
    by (rule list_remove_correct [OF dl0])
  have na: "a \<notin> set (us @ vs)" using lru_okD(5) [OF ok] xs by auto
  obtain h' l' where p: "list_push h l a = Inr (h', l')" "dll_list h' l' ((us @ vs) @ [a])"
    "same_payload h h'"
    using r(2) na r(3-5) by (rule list_push_correct)
  have same: "same_payload (nodes c) h'" by (rule same_payload_trans [OF r(6) p(3)])
  have alloc: "\<forall>b \<in> set (us @ vs @ [a]). nodes c b \<noteq> None"
    using lru_okD(6) [OF ok] xs by auto
  have dl: "dll_list h' l' (us @ vs @ [a])" using p(2) by simp
  have "lru_ok (c\<lparr>nodes := h', m_keys := l'\<rparr>) (us @ vs @ [a])"
    by (rule lru_ok_heap [OF ok dl same]) (use xs in auto)
  moreover have "entries h' (us @ vs @ [a]) = touch k (entries (nodes c) xs)"
    using entries_same_payload [OF same alloc] touch_entries [of c us a vs] ok xs a'(2) by simp
  ultimately show ?thesis
    using r(1) p(1) same
    by (intro that [of "c\<lparr>nodes := h', m_keys := l'\<rparr>" "us @ vs @ [a]"]) (simp_all add: lru_refresh_def)
qed

lemma prune_loop_correct:
  assumes "lru_ok c xs" and "length xs - m_maxSize c < fuel"
  shows "\<exists>c'. prune_loop fuel c count = Inr (count + (length xs - m_maxSize c), c') \<and>
     lru_ok c' (drop (length xs - m_maxSize c) xs) \<and>
     entries (nodes c') (drop (length xs - m_maxSize c) xs) =
       drop (length xs - m_maxSize c) (entries (nodes c) xs) \<and>
     m_maxSize c' = m_maxSize c \<and> m_elasticity c' = m_elasticity c"
  using assms
proof (induction fuel arbitrary: c xs count)
  case (Suc fuel)
  note ok = Suc.prems(1)
  show ?case
  proof (cases "m_maxSize c < length xs")
    case False
    with Suc.prems show ?thesis by (simp add: lru_ok_length [OF ok])
  next
    case True
    then obtain a vs where xs: "xs = a # vs" by (cases xs) auto
    obtain h l n where p: "list_pop (nodes c) (m_keys c) = Inr (Some a, h, l)" "dll_list h l vs"
      "h a = Some n" "next_node n = None" "same_payload (nodes c) h"
      using lru_okD(1) [OF ok] list_pop_correct [of "nodes c" "m_keys c" a vs] xs by metis
    have av: "a \<notin> set vs" using lru_okD(5) [OF ok] xs by simp
    obtain n0 where n0: "nodes c a = Some n0" using lru_okD(6) [OF ok, of a] xs by auto
    then have "a < fresh c" using lru_okD(4) [OF ok] by simp
    then obtain f where "fresh c = Suc f" by (cases "fresh c") auto
    then have del: "node_delete (fresh c) h a = Inr (h(a := None))"
      using p(3,4) by (simp add: deref_def)
    have key: "nkey n = nkey n0" using same_payloadD(2) [OF p(5), of a] p(3) n0 by simp
    let ?c = "c\<lparr>nodes := h(a := None), m_keys := l, m_cache := smap_erase (nkey n) (m_cache c)\<rparr>"
    have payload: "nkey (the (h b)) = nkey (the (nodes c b)) \<and> nvalue (the (h b)) = nvalue (the (nodes c b))"
      if "b \<in> set vs" for b
      using same_payloadD(2) [OF p(5)] lru_okD(6) [OF ok, of b] that xs by auto
    have "map_of (smap_erase (nkey n) (m_cache c)) k = Some b \<longleftrightarrow>
        b \<in> set vs \<and> nkey (the ((h(a := None)) b)) = k" for k b
      using lru_okD(3) [OF ok, of k b] lru_ok_inj [OF ok, of a b] payload [of b] av xs n0 key
      by (auto simp: smap_simps)
    then have ok': "lru_ok ?c vs"
      using ok p(2) av same_payloadD(1) [OF p(5)]
      by (auto simp: lru_ok_def dll_list_def smap_simps)
    have ent: "entries (h(a := None)) vs = entries (nodes c) vs"
      using av payload by (auto simp: entries_def)
    have d: "length xs - m_maxSize c = Suc (length vs - m_maxSize ?c)" using True xs by simp
    have fuel: "length vs - m_maxSize ?c < fuel" using Suc.prems(2) d by simp
    obtain c' where c': "prune_loop fuel ?c (count + 1) = Inr (count + 1 + (length vs - m_maxSize ?c), c')"
      "lru_ok c' (drop (length vs - m_maxSize ?c) vs)"
      "entries (nodes c') (drop (length vs - m_maxSize ?c) vs) =
         drop (length vs - m_maxSize ?c) (entries (nodes ?c) vs)"
      "m_maxSize c' = m_maxSize ?c" "m_elasticity c' = m_elasticity ?c"
      using Suc.IH [OF ok' fuel, of "count + 1"] by blast
    have "prune_loop (Suc fuel) c count = prune_loop fuel ?c (count + 1)"
      using True p(1,3) del by (simp add: lru_ok_length [OF ok] deref_def)
    moreover have "entries (nodes c') (drop (length xs - m_maxSize c) xs) =
        drop (length xs - m_maxSize c) (entries (nodes c) xs)"
      unfolding d unfolding xs using c'(3) ent by (simp add: entries_Cons del: fun_upd_apply)
    ultimately show ?thesis using c' d xs by (intro exI [of _ c']) simp
  qed
qed simp

lemma lru_insert_absent:
  assumes ok: "lru_ok c xs" and none: "map_of (m_cache c) k = None"
  obtains c1 where "lru_ok c1 (xs @ [fresh c])"
    and "entries (nodes c1) (xs @ [fresh c]) = entries (nodes c) xs @ [(k, v)]"
    and "m_maxSize c1 = m_maxSize c" and "m_elasticity c1 = m_elasticity c"
    and "lru_insert c k v = rbind (lru_prune c1) (\<lambda>(_, c2). Inr c2)"
proof -
  let ?n = "fresh c"
  let ?node = "\<lparr>prev = None, next_node = None, nkey = k, nvalue = v\<rparr>"
  let ?h0 = "(nodes c)(?n \<mapsto> ?node)"
  have nx: "?n \<notin> set xs" using lru_okD(4,6) [OF ok] by fastforce
  have dl: "dll_list ?h0 (m_keys c) xs" using lru_okD(1) [OF ok] nx by (simp add: dll_list_def)
  obtain h l where p: "list_push ?h0 (m_keys c) ?n = Inr (h, l)" "dll_list h l (xs @ [?n])"
    "same_payload ?h0 h"
    using list_push_correct [OF dl nx, of ?node] by auto
  define c1 where "c1 = c\<lparr>fresh := Suc ?n, m_cache := smap_put k ?n (m_cache c), nodes := h, m_keys := l\<rparr>"
  have hn: "nkey (the (h ?n)) = k" "nvalue (the (h ?n)) = v"
    using same_payloadD(2) [OF p(3), of ?n] by simp_all
  have hx: "nkey (the (h b)) = nkey (the (nodes c b)) \<and> nvalue (the (h b)) = nvalue (the (nodes c b))"
    if "b \<in> set xs" for b
    using same_payloadD(2) [OF p(3), of b] lru_okD(6) [OF ok that] nx that by (auto split: if_splits)
  have "map_of (smap_put k ?n (m_cache c)) k' = Some b \<longleftrightarrow>
      b \<in> set (xs @ [?n]) \<and> nkey (the (h b)) = k'" for k' b
    using lru_okD(2) [OF ok] lru_okD(3) [OF ok, of k' b] lru_okD(3) [OF ok, of k b] none hn hx [of b] nx
    by (auto simp: smap_simps)
  moreover have "b < Suc ?n" if "h b \<noteq> None" for b
    using same_payloadD(1) [OF p(3), of b] that lru_okD(4) [OF ok, of b]
    by (auto simp: less_Suc_eq split: if_splits)
  ultimately have "lru_ok c1 (xs @ [?n])"
    using p(2) lru_okD(2) [OF ok] unfolding lru_ok_def c1_def by (simp add: smap_simps)
  moreover have "entries (nodes c1) (xs @ [?n]) = entries (nodes c) xs @ [(k, v)]"
    using hn hx by (auto simp: c1_def entries_def)
  moreover have "lru_insert c k v = rbind (lru_prune c1) (\<lambda>(_, c2). Inr c2)"
    using none p(1) by (simp add: lru_insert_def Let_def c1_def)
  ultimately show ?thesis by (intro that [of c1]) (simp_all add: c1_def)
qed

lemma lru_insert_refines:
  assumes rel: "lru_rel c kvs"
  shows "\<exists>c'. lru_insert c k v = Inr c' \<and>
     lru_rel c' (spec_insert (m_maxSize c) (m_elasticity c) kvs k v) \<and>
     m_maxSize c' = m_maxSize c \<and> m_elasticity c' = m_elasticity c"
proof -
  obtain xs where ok: "lru_ok c xs" and kvs: "kvs = entries (nodes c) xs"
    using rel by (auto simp: lru_rel_def)
  show ?thesis
  proof (cases "map_of (m_cache c) k")
    case (Some a)
    obtain c' ys where c': "lru_refresh c a = Inr c'" "lru_ok c' ys"
      "entries (nodes c') ys = touch k (entries (nodes c) xs)"
      "m_maxSize c' = m_maxSize c" "m_elasticity c' = m_elasticity c"
      by (rule lru_refresh_correct [OF ok Some]) blast
    then have "lru_rel c' (touch k kvs)" unfolding lru_rel_def kvs by metis
    with c' Some lru_ok_keys [OF ok, of k] show ?thesis
      by (intro exI [of _ c']) (simp add: lru_insert_def spec_insert_def kvs)
  next
    case None
    obtain c1 where c1: "lru_ok c1 (xs @ [fresh c])"
      "entries (nodes c1) (xs @ [fresh c]) = entries (nodes c) xs @ [(k, v)]"
      "m_maxSize c1 = m_maxSize c" "m_elasticity c1 = m_elasticity c"
      "lru_insert c k v = rbind (lru_prune c1) (\<lambda>(_, c2). Inr c2)"
      by (rule lru_insert_absent [OF ok None])
    have k: "k \<notin> fst ` set kvs" using None lru_ok_keys [OF ok, of k] kvs by simp
    show ?thesis
    proof (cases "0 < m_maxSize c \<and> m_maxSize c + m_elasticity c \<le> length (m_cache c1)")
      case False
      then have pr: "lru_prune c1 = Inr (0, c1)" by (simp only: lru_prune_def c1(3,4) if_False)
      have "lru_rel c1 (kvs @ [(k, v)])" unfolding lru_rel_def kvs using c1(1,2) by metis
      with False pr c1 k kvs show ?thesis
        by (intro exI [of _ c1]) (auto simp: spec_insert_def Let_def lru_ok_length [OF c1(1)])
    next
      case True
      have len: "length (m_cache c1) = length (xs @ [fresh c])" by (rule lru_ok_length [OF c1(1)])
      have fuel: "length (xs @ [fresh c]) - m_maxSize c1 < Suc (length (m_cache c1))"
        by (simp add: len)
      obtain c2 where c2: "prune_loop (Suc (length (m_cache c1))) c1 0 =
          Inr (0 + (length (xs @ [fresh c]) - m_maxSize c1), c2)"
        "lru_ok c2 (drop (length (xs @ [fresh c]) - m_maxSize c1) (xs @ [fresh c]))"
        "entries (nodes c2) (drop (length (xs @ [fresh c]) - m_maxSize c1) (xs @ [fresh c])) =
           drop (length (xs @ [fresh c]) - m_maxSize c1) (entries (nodes c1) (xs @ [fresh c]))"
        "m_maxSize c2 = m_maxSize c1" "m_elasticity c2 = m_elasticity c1"
        using prune_loop_correct [OF c1(1) fuel, of 0] by blast
      have "lru_rel c2 (drop (length (kvs @ [(k, v)]) - m_maxSize c) (kvs @ [(k, v)]))"
        unfolding lru_rel_def using c2(2,3) c1(2,3) kvs by (intro exI) auto
      with True c1 c2(1,4,5) k show ?thesis
        by (intro exI [of _ c2]) (simp add: spec_insert_def Let_def lru_prune_def len kvs)
    qed
  qed
qed

lemma lru_get_refines:
  assumes rel: "lru_rel c kvs"
  shows "case map_of kvs k of
     None \<Rightarrow> lru_get c k = Inl KeyNotFound
   | Some v \<Rightarrow> \<exists>c'. lru_get c k = Inr (v, c') \<and> lru_rel c' (touch k kvs)"
proof -
  obtain xs where ok: "lru_ok c xs" and kvs: "kvs = entries (nodes c) xs"
    using rel by (auto simp: lru_rel_def)
  show ?thesis
  proof (cases "map_of (m_cache c) k")
    case None
    then have "map_of kvs k = None"
      using lru_ok_keys [OF ok, of k] by (simp add: kvs map_of_None_keys)
    with None show ?thesis by (simp add: lru_get_def)
  next
    case (Some a)
    then have a: "a \<in> set xs" "nkey (the (nodes c a)) = k" using lru_okD(3) [OF ok] by auto
    have "distinct (map fst kvs)"
      using lru_okD(5) [OF ok] lru_ok_inj [OF ok]
      by (auto simp: kvs entries_def distinct_map inj_on_def comp_def)
    moreover have "(k, nvalue (the (nodes c a))) \<in> set kvs" using a by (force simp: kvs entries_def)
    ultimately have v: "map_of kvs k = Some (nvalue (the (nodes c a)))" by simp
    obtain c' ys where c': "lru_refresh c a = Inr c'" "lru_ok c' ys"
      "entries (nodes c') ys = touch k (entries (nodes c) xs)" "same_payload (nodes c) (nodes c')"
      by (rule lru_refresh_correct [OF ok Some]) blast
    have "lru_rel c' (touch k kvs)" unfolding lru_rel_def kvs using c'(2,3) by metis
    moreover have "\<exists>n. nodes c' a = Some n \<and> nvalue n = nvalue (the (nodes c a))"
      using same_payloadD [OF c'(4), of a] lru_okD(6) [OF ok a(1)] by auto
    ultimately show ?thesis using c'(1) Some v by (auto simp: lru_get_def deref_def)
  qed
qed

lemma lru_rel_new: "lru_rel (lru_new m e) []"
  unfolding lru_rel_def
  by (rule exI [of _ "[]"]) (simp add: lru_ok_def lru_new_def list_new_def dll_list_def entries_def)

lemma lru_clear_refines:
  assumes "lru_rel c kvs"
  shows "\<exists>c'. lru_clear c = Inr c' \<and> lru_rel c' []"
proof -
  obtain xs where ok: "lru_ok c xs" using assms by (auto simp: lru_rel_def)
  have "lru_clear c = Inr (c\<lparr>m_cache := [], nodes := \<lambda>b. if b \<in> set xs then None else nodes c b,
      m_keys := list_new\<rparr>)" (is "_ = Inr ?c")
    by (simp add: lru_clear_def list_clear_correct [OF lru_okD(1) [OF ok]])
  moreover have "lru_ok ?c []"
    using lru_okD(4) [OF ok] by (auto simp: lru_ok_def dll_list_def list_new_def)
  ultimately show ?thesis by (auto simp: lru_rel_def entries_def)
qed

lemma lru_remove_refines:
  assumes "lru_rel c kvs"
  shows "\<exists>c'. lru_remove c k = Inr c' \<and> lru_rel c' (filter (\<lambda>p. fst p \<noteq> k) kvs)"
proof -
  obtain xs where ok: "lru_ok c xs" and kvs: "kvs = entries (nodes c) xs"
    using assms by (auto simp: lru_rel_def)
  show ?thesis
  proof (cases "map_of (m_cache c) k")
    case None
    then have "filter (\<lambda>p. fst p \<noteq> k) kvs = kvs"
      using lru_ok_keys [OF ok, of k] by (auto simp: kvs intro!: filter_True)
    with None assms show ?thesis by (simp add: lru_remove_def)
  next
    case (Some a)
    then have a: "a \<in> set xs" "nkey (the (nodes c a)) = k" using lru_okD(3) [OF ok] by auto
    obtain us vs where xs: "xs = us @ a # vs" using a(1) by (meson split_list)
    have dl0: "dll_list (nodes c) (m_keys c) (us @ a # vs)" using lru_okD(1) [OF ok] xs by simp
    obtain h l n where r: "list_remove (nodes c) (m_keys c) a = Inr (h, l)" "dll_list h l (us @ vs)"
      "h a = Some n" "same_payload (nodes c) h"
      by (rule list_remove_correct [OF dl0])
    have na: "a \<notin> set us" "a \<notin> set vs" using lru_okD(5) [OF ok] xs by auto
    have pay: "nkey (the (h b)) = nkey (the (nodes c b)) \<and> nvalue (the (h b)) = nvalue (the (nodes c b))"
      if "b \<in> set xs" for b
      using same_payloadD(2) [OF r(4)] lru_okD(6) [OF ok that] by auto
    have neq: "nkey (the (nodes c b)) \<noteq> k" if "b \<in> set us \<union> set vs" for b
      using lru_ok_inj [OF ok, of b a] that na a xs by auto
    let ?c = "c\<lparr>nodes := h, m_keys := l, m_cache := smap_erase k (m_cache c)\<rparr>"
    have "map_of (smap_erase k (m_cache c)) k' = Some b \<longleftrightarrow>
        b \<in> set (us @ vs) \<and> nkey (the (h b)) = k'" for k' b
      using lru_okD(3) [OF ok, of k' b] pay [of b] neq [of b] a na xs by (auto simp: smap_simps)
    then have "lru_ok ?c (us @ vs)"
      using r(2) lru_okD(2,4) [OF ok] same_payloadD(1) [OF r(4)]
      by (auto simp: lru_ok_def smap_simps)
    moreover have "entries h (us @ vs) = filter (\<lambda>p. fst p \<noteq> k) kvs"
      using pay neq a xs na
      by (auto simp: kvs entries_def filter_map comp_def intro!: filter_True [symmetric])
    ultimately have "lru_rel ?c (filter (\<lambda>p. fst p \<noteq> k) kvs)"
      unfolding lru_rel_def by (intro exI [of _ "us @ vs"]) simp
    with r(1) Some show ?thesis by (auto simp: lru_remove_def)
  qed
qed

section \<open>The cache contract\<close>

definition lru_lookup :: "('k, 'v) LRUCache \<Rightarrow> 'k \<rightharpoonup> 'v" where
  "lru_lookup c k =
     (case map_of (m_cache c) k of None \<Rightarrow> None | Some a \<Rightarrow> map_option nvalue (nodes c a))"

lemma lru_rel_distinct: "lru_rel c kvs \<Longrightarrow> distinct (map fst kvs)"
proof -
  assume "lru_rel c kvs"
  then obtain xs where ok: "lru_ok c xs" and kvs: "kvs = entries (nodes c) xs"
    by (auto simp: lru_rel_def)
  show ?thesis
    using lru_okD(5) [OF ok] lru_ok_inj [OF ok]
    by (auto simp: kvs entries_def distinct_map inj_on_def comp_def)
qed

lemma lru_rel_lookup: "lru_rel c kvs \<Longrightarrow> lru_lookup c = map_of kvs"
proof
  fix k
  assume rel: "lru_rel c kvs"
  then obtain xs where ok: "lru_ok c xs" and kvs: "kvs = entries (nodes c) xs"
    by (auto simp: lru_rel_def)
  show "lru_lookup c k = map_of kvs k"
  proof (cases "map_of (m_cache c) k")
    case None
    then have "map_of kvs k = None"
      using lru_ok_keys [OF ok, of k] by (simp add: kvs map_of_None_keys)
    with None show ?thesis by (simp add: lru_lookup_def)
  next
    case (Some a)
    then have a: "a \<in> set xs" "nkey (the (nodes c a)) = k" using lru_okD(3) [OF ok] by auto
    obtain n where n: "nodes c a = Some n" using lru_okD(6) [OF ok a(1)] by blast
    have "(k, nvalue n) \<in> set kvs" using a n by (force simp: kvs entries_def)
    with lru_rel_distinct [OF rel] have "map_of kvs k = Some (nvalue n)" by simp
    with Some n show ?thesis by (simp add: lru_lookup_def)
  qed
qed

lemma length_touch: "length (touch k kvs) = length kvs"
  using sum_length_filter_compl [of "\<lambda>p. fst p \<noteq> k" kvs] by (simp add: touch_def)

lemma set_touch: "set (touch k kvs) = set kvs"
  by (auto simp: touch_def)

lemma set_spec_insert: "set (spec_insert m e kvs k v) \<subseteq> insert (k, v) (set kvs)"
  by (auto simp: spec_insert_def Let_def set_touch dest: in_set_dropD)

lemma length_spec_insert:
  "0 < m \<Longrightarrow> length kvs \<le> m + e \<Longrightarrow> length (spec_insert m e kvs k v) \<le> m + e"
  by (auto simp: spec_insert_def Let_def length_touch)

definition lru_bounded :: "nat \<Rightarrow> nat \<Rightarrow> ('k::linorder, 'v) LRUCache \<Rightarrow> bool" where
  "lru_bounded m e c \<longleftrightarrow> 0 < m \<and> m_maxSize c = m \<and> m_elasticity c = e \<and>
     (\<exists>kvs. lru_rel c kvs \<and> length kvs \<le> m + e)"

interpretation lru: bounded_cache "lru_lookup :: ('k::linorder, 'v) LRUCache \<Rightarrow> 'k \<rightharpoonup> 'v"
  "\<lambda>(u::unit) k v c. lru_insert c k v" "lru_bounded m e" "m + e"
  for m e :: nat
proof unfold_locales
  fix c :: "('k, 'v) LRUCache" and k v
  assume b: "lru_bounded m e c"
  then obtain kvs where rel: "lru_rel c kvs" and len: "length kvs \<le> m + e" and m: "0 < m"
    and me: "m_maxSize c = m" "m_elasticity c = e" by (auto simp: lru_bounded_def)
  obtain c' where c': "lru_insert c k v = Inr c'" "lru_rel c' (spec_insert m e kvs k v)"
    "m_maxSize c' = m" "m_elasticity c' = e"
    using lru_insert_refines [OF rel, of k v] me by auto
  have "lru_bounded m e c'"
    using c' m length_spec_insert [OF m len] by (auto simp: lru_bounded_def)
  with c'(1) show "\<exists>c'. lru_insert c k v = Inr c' \<and> lru_bounded m e c'" by blast
  fix c'' k' v'
  assume "lru_insert c k v = Inr c''" and "lru_lookup c'' k' = Some v'"
  with c'(1,2) have "map_of (spec_insert m e kvs k v) k' = Some v'"
    by (simp add: lru_rel_lookup)
  then have "(k', v') \<in> insert (k, v) (set kvs)"
    using set_spec_insert [of m e kvs k v] by (auto dest: map_of_SomeD)
  then show "lru_lookup c k' = Some v' \<or> (k' = k \<and> v' = v)"
    using lru_rel_distinct [OF rel] by (auto simp: lru_rel_lookup [OF rel])
next
  fix c :: "('k, 'v) LRUCache"
  assume "lru_bounded m e c"
  then obtain kvs where rel: "lru_rel c kvs" and len: "length kvs \<le> m + e"
    by (auto simp: lru_bounded_def)
  have "card (dom (map_of kvs)) = length kvs"
    using distinct_card [OF lru_rel_distinct [OF rel]] by (simp add: dom_map_of_conv_image_fst)
  with len show "finite (dom (lru_lookup c)) \<and> card (dom (lru_lookup c)) \<le> m + e"
    by (simp add: lru_rel_lookup [OF rel] finite_dom_map_of)
qed

section \<open>Properties\<close>


text \<open>
  Lookups. On a cache that represents the sequence \<open>kvs\<close>, \<open>get\<close> throws
  \<^verbatim>\<open>KeyNotFound\<close> exactly for the keys that do not occur in it; otherwise it returns the
  value of the key, and the entry becomes the most recently used one.
\<close>

lemma lru_get_correct:
  assumes "lru_rel c kvs"
  shows "case map_of kvs k of
     None \<Rightarrow> lru_get c k = Inl KeyNotFound
   | Some v \<Rightarrow> \<exists>c'. lru_get c k = Inr (v, c') \<and> lru_rel c' (touch k kvs)"
  by (rule lru_get_refines [OF assms])

end
