(* ===== verification/OpenTable.thy ===== *)
theory OpenTable
  imports Prelude
begin

text \<open>
  What \<^verbatim>\<open>DeltaTable\<close> and \<^verbatim>\<open>StateTable\<close> share: a vector of buckets with a key and an
  \<open>in_use\<close> flag, searched by linear probing from the hash of the key. The bucket records of
  the two tables extend \<open>slot\<close>, so the probe loop and its laws are stated once, for any
  extension. Sizes and positions are natural numbers; the tables are assumed to stay below
  \<open>2 ^ 31\<close> buckets, where the C++ conversions between \<^verbatim>\<open>int\<close>, \<^verbatim>\<open>uint32_t\<close> and
  \<^verbatim>\<open>int64_t\<close> lose nothing.
\<close>

named_theorems table_simps \<open>laws of bucket arrays\<close>

record 'k slot =
  skey :: 'k
  in_use :: bool

datatype probe_end = Found nat | Free nat | Full

text \<open>
  The loop \<^verbatim>\<open>do { ... b = (b + 1) % size_; } while (b != start)\<close> of \<^verbatim>\<open>bucket_for_key\<close> and of
  \<^verbatim>\<open>put\<close>, with the reason why it ended. The fuel bounds the rounds; the loop runs at most
  once per bucket.
\<close>

fun probe :: "nat \<Rightarrow> ('k, 'z) slot_scheme list \<Rightarrow> nat \<Rightarrow> 'k \<Rightarrow> nat \<Rightarrow> nat \<Rightarrow> probe_end result" where
  "probe 0 bs n k start b = Inl Diverges"
| "probe (Suc fuel) bs n k start b =
     rbind (vec_at bs (int b)) (\<lambda>s.
       if \<not> in_use s then Inr (Free b)
       else if skey s = k then Inr (Found b)
       else let b' = (b + 1) mod n
            in if b' = start then Inr Full else probe fuel bs n k start b')"

text \<open>
  \<^verbatim>\<open>do { ++pos; } while (pos < size_ && !buckets_[pos].in_use)\<close>, entered with the position after
  the increment: the move of both tables' iterators.
\<close>

function scan :: "('k, 'z) slot_scheme list \<Rightarrow> nat \<Rightarrow> nat \<Rightarrow> nat result" where
  "scan bs n p = (if p < n then rbind (vec_at bs (int p)) (\<lambda>s. if in_use s then Inr p else scan bs n (p + 1))
     else Inr p)"
  by pat_completeness auto

termination scan
  by (relation "measure (\<lambda>(bs, n, p). n - p)") auto

declare scan.simps [simp del]

text \<open>
  A bucket array is well-formed for the start positions \<open>idx\<close> when no key is stored twice
  and every stored key can be reached from its start position over used buckets only.
\<close>

definition pos :: "nat \<Rightarrow> nat \<Rightarrow> nat \<Rightarrow> nat" where
  "pos n start j = (start + j) mod n"

definition open_ok :: "('k \<Rightarrow> nat) \<Rightarrow> ('k, 'z) slot_scheme list \<Rightarrow> bool" where
  "open_ok idx bs \<longleftrightarrow> bs \<noteq> [] \<and> (\<forall>k. idx k < length bs) \<and>
     (\<forall>p < length bs. \<forall>q < length bs.
        in_use (bs ! p) \<and> in_use (bs ! q) \<and> skey (bs ! p) = skey (bs ! q) \<longrightarrow> p = q) \<and>
     (\<forall>p < length bs. in_use (bs ! p) \<longrightarrow>
        (\<exists>j < length bs. p = pos (length bs) (idx (skey (bs ! p))) j \<and>
           (\<forall>i < j. in_use (bs ! pos (length bs) (idx (skey (bs ! p))) i))))"

text \<open>The stored entries as a map, and their number.\<close>

definition stored :: "('k, 'z) slot_scheme list \<Rightarrow> 'k \<rightharpoonup> ('k, 'z) slot_scheme" where
  "stored bs = map_of (map (\<lambda>s. (skey s, s)) (filter in_use bs))"

definition used :: "('k, 'z) slot_scheme list \<Rightarrow> nat" where
  "used bs = length (filter in_use bs)"

section \<open>Positions\<close>

lemma pos_less: "0 < n \<Longrightarrow> pos n start j < n"
  by (simp add: pos_def)

lemma pos_0: "start < n \<Longrightarrow> pos n start 0 = start"
  by (simp add: pos_def)

lemma pos_Suc: "(pos n start j + 1) mod n = pos n start (Suc j)"
  by (simp add: pos_def mod_Suc_eq)

lemma pos_inj_le:
  assumes "i \<le> j" and "j < n" and "pos n start i = pos n start j"
  shows "i = j"
proof -
  have "n dvd (start + j) - (start + i)"
    using assms mod_eq_dvd_iff_nat [of "start + i" "start + j" n] by (simp add: pos_def)
  then have "n dvd j - i" by simp
  then show ?thesis using assms(1,2) by (auto dest: dvd_imp_le)
qed

lemma pos_inj: "i < n \<Longrightarrow> j < n \<Longrightarrow> pos n start i = pos n start j \<Longrightarrow> i = j"
  by (cases "i \<le> j") (metis pos_inj_le, metis pos_inj_le nat_le_linear)

lemma pos_surj:
  assumes "p < n" and "start < n"
  shows "\<exists>j < n. p = pos n start j"
proof (cases "start \<le> p")
  case True
  then have "p = pos n start (p - start)" using assms by (simp add: pos_def)
  then show ?thesis using assms by (intro exI [of _ "p - start"]) auto
next
  case False
  then have "p = pos n start (p + n - start)" using assms by (simp add: pos_def)
  then show ?thesis using assms False by (intro exI [of _ "p + n - start"]) auto
qed

lemma pos_wrap: "start < n \<Longrightarrow> i < n \<Longrightarrow> pos n start (Suc i) = start \<longleftrightarrow> Suc i = n"
proof
  assume "start < n" and "i < n" and w: "pos n start (Suc i) = start"
  show "Suc i = n"
  proof (rule ccontr)
    assume "Suc i \<noteq> n"
    with \<open>i < n\<close> have "Suc i < n" by simp
    with w \<open>start < n\<close> pos_inj [of "Suc i" n 0 start] show False by (simp add: pos_0)
  qed
qed (auto simp: pos_def)

section \<open>The probe loop\<close>

text \<open>The first \<open>j\<close> buckets from \<open>start\<close> are used by other keys.\<close>

definition passed :: "('k, 'z) slot_scheme list \<Rightarrow> 'k \<Rightarrow> nat \<Rightarrow> nat \<Rightarrow> bool" where
  "passed bs k start j \<longleftrightarrow>
     (\<forall>i < j. in_use (bs ! pos (length bs) start i) \<and> skey (bs ! pos (length bs) start i) \<noteq> k)"

fun probe_right :: "('k, 'z) slot_scheme list \<Rightarrow> 'k \<Rightarrow> nat \<Rightarrow> probe_end \<Rightarrow> bool" where
  "probe_right bs k start (Found b) \<longleftrightarrow> b < length bs \<and> in_use (bs ! b) \<and> skey (bs ! b) = k"
| "probe_right bs k start (Free b) \<longleftrightarrow> \<not> in_use (bs ! b) \<and>
     (\<exists>j < length bs. b = pos (length bs) start j \<and> passed bs k start j)"
| "probe_right bs k start Full \<longleftrightarrow> passed bs k start (length bs)"

lemma passed_Suc: "passed bs k start (Suc j) \<longleftrightarrow> passed bs k start j \<and>
  in_use (bs ! pos (length bs) start j) \<and> skey (bs ! pos (length bs) start j) \<noteq> k"
  by (auto simp: passed_def less_Suc_eq)

lemma probe_from:
  assumes "start < length bs" and "i < length bs" and "length bs \<le> fuel + i"
    and "passed bs k start i"
  shows "\<exists>r. probe fuel bs (length bs) k start (pos (length bs) start i) = Inr r \<and>
    probe_right bs k start r"
  using assms
proof (induction fuel arbitrary: i)
  case (Suc fuel)
  let ?n = "length bs" and ?b = "pos (length bs) start i"
  have b: "?b < ?n" using Suc.prems by (intro pos_less) auto
  show ?case
  proof (cases "in_use (bs ! ?b) \<and> skey (bs ! ?b) \<noteq> k")
    case False
    then show ?thesis using b Suc.prems by (auto simp: result_simps)
  next
    case True
    with Suc.prems have p: "passed bs k start (Suc i)" by (simp add: passed_Suc)
    have next_b: "(?b + 1) mod ?n = pos ?n start (Suc i)" by (rule pos_Suc)
    show ?thesis
    proof (cases "Suc i = ?n")
      case True
      then show ?thesis using b \<open>in_use _ \<and> _\<close> p next_b Suc.prems pos_wrap [of start ?n i]
        by (auto simp: result_simps)
    next
      case False
      then have "\<exists>r. probe fuel bs ?n k start (pos ?n start (Suc i)) = Inr r \<and>
        probe_right bs k start r"
        using Suc.prems p by (intro Suc.IH) auto
      then show ?thesis using b \<open>in_use _ \<and> _\<close> next_b Suc.prems False pos_wrap [of start ?n i]
        by (auto simp: result_simps)
    qed
  qed
qed simp

lemma probe_total:
  assumes "start < length bs"
  obtains r where "probe (length bs) bs (length bs) k start start = Inr r"
    and "probe_right bs k start r"
proof -
  have "0 < length bs" using assms by auto
  with probe_from [of start bs 0 "length bs" k] assms that show thesis
    by (auto simp: pos_0 passed_def)
qed

section \<open>Stored entries\<close>

lemma open_okD:
  assumes "open_ok idx bs"
  shows "0 < length bs" and "\<And>k. idx k < length bs"
    and "\<And>p q. p < length bs \<Longrightarrow> q < length bs \<Longrightarrow> in_use (bs ! p) \<Longrightarrow> in_use (bs ! q) \<Longrightarrow>
      skey (bs ! p) = skey (bs ! q) \<Longrightarrow> p = q"
  using assms by (auto simp: open_ok_def)

lemma open_ok_reach:
  assumes "open_ok idx bs" and "p < length bs" and "in_use (bs ! p)"
  shows "\<exists>j < length bs. p = pos (length bs) (idx (skey (bs ! p))) j \<and>
    (\<forall>i < j. in_use (bs ! pos (length bs) (idx (skey (bs ! p))) i))"
  using assms unfolding open_ok_def by blast

lemma stored_None: "stored bs k = None \<longleftrightarrow> (\<forall>p < length bs. in_use (bs ! p) \<longrightarrow> skey (bs ! p) \<noteq> k)"
  by (force simp: stored_def map_of_eq_None_iff in_set_conv_nth image_iff)

lemma stored_SomeD:
  assumes "stored bs k = Some s"
  shows "\<exists>p < length bs. bs ! p = s \<and> in_use s \<and> skey s = k"
proof -
  have "(k, s) \<in> set (map (\<lambda>s. (skey s, s)) (filter in_use bs))"
    using assms unfolding stored_def by (rule map_of_SomeD)
  then show ?thesis by (auto simp: in_set_conv_nth)
qed

lemma stored_Some:
  assumes "open_ok idx bs" and "p < length bs" and "in_use (bs ! p)" and "skey (bs ! p) = k"
  shows "stored bs k = Some (bs ! p)"
proof (cases "stored bs k")
  case None
  with assms show ?thesis by (auto simp: stored_None)
next
  case (Some s)
  from stored_SomeD [OF this]
  obtain q where q: "q < length bs" "bs ! q = s" "in_use s" "skey s = k" by blast
  have "p = q" by (rule open_okD(3) [OF assms(1)]) (simp_all add: assms q)
  with Some q show ?thesis by simp
qed

lemma stored_iff:
  assumes "open_ok idx bs"
  shows "stored bs k = Some s \<longleftrightarrow> (\<exists>p < length bs. bs ! p = s \<and> in_use s \<and> skey s = k)"
  using stored_SomeD [of bs k s] stored_Some [OF assms] by blast

lemma stored_eqI:
  assumes "open_ok idx bs" and "\<And>k s. m k = Some s \<longleftrightarrow> (\<exists>p < length bs. bs ! p = s \<and> in_use s \<and> skey s = k)"
  shows "stored bs = m"
proof
  fix k
  show "stored bs k = m k"
    using stored_iff [OF assms(1), of k] assms(2) [of k]
    by (cases "stored bs k"; cases "m k") (simp_all add: stored_None, blast+)
qed

lemma open_ok_distinct:
  assumes "open_ok idx bs"
  shows "distinct (map skey (filter in_use bs))"
proof -
  have "inj_on skey (set (filter in_use bs))"
    using open_okD(3) [OF assms] by (auto simp: inj_on_def in_set_conv_nth)
  moreover have "distinct (filter in_use bs)"
  proof -
    have "filter in_use bs = map ((!) bs) (filter (\<lambda>p. in_use (bs ! p)) [0..<length bs])"
      by (subst map_nth [of bs, symmetric], subst filter_map) (simp add: comp_def map_nth)
    moreover have "inj_on ((!) bs) (set (filter (\<lambda>p. in_use (bs ! p)) [0..<length bs]))"
      using open_okD(3) [OF assms] by (auto simp: inj_on_def)
    ultimately show ?thesis by (simp add: distinct_map)
  qed
  ultimately show ?thesis by (simp add: distinct_map)
qed

lemma card_stored: "open_ok idx bs \<Longrightarrow> card (dom (stored bs)) = used bs"
  using open_ok_distinct [of idx bs] distinct_card [of "map skey (filter in_use bs)"]
  by (simp add: stored_def used_def dom_map_of_conv_image_fst image_image)

lemma used_le: "used bs \<le> length bs"
  by (simp add: used_def)

lemma used_full: "(\<And>p. p < length bs \<Longrightarrow> in_use (bs ! p)) \<Longrightarrow> used bs = length bs"
  by (auto simp: used_def in_set_conv_nth intro!: arg_cong [of _ _ length] filter_True)

lemma used_insert:
  assumes "p < length bs" and "\<not> in_use (bs ! p)" and "in_use s"
  shows "used (bs[p := s]) = Suc (used bs)"
proof -
  have "{i. i < length bs \<and> in_use (bs[p := s] ! i)} = insert p {i. i < length bs \<and> in_use (bs ! i)}"
    using assms by (auto simp: nth_list_update split: if_splits)
  then show ?thesis using assms by (simp add: used_def length_filter_conv_card)
qed

lemma used_replace:
  assumes "p < length bs" and "in_use (bs ! p)" and "in_use s"
  shows "used (bs[p := s]) = used bs"
proof -
  have "{i. i < length bs \<and> in_use (bs[p := s] ! i)} = {i. i < length bs \<and> in_use (bs ! i)}"
    using assms by (auto simp: nth_list_update split: if_splits)
  then show ?thesis by (simp add: used_def length_filter_conv_card)
qed

section \<open>What the probe finds, and writing where it ended\<close>

lemma passed_absent:
  assumes ok: "open_ok idx bs" and "passed bs k (idx k) j" and "j \<le> length bs"
    and stop: "j = length bs \<or> \<not> in_use (bs ! pos (length bs) (idx k) j)"
  shows "stored bs k = None"
proof (unfold stored_None, intro allI impI notI)
  fix p
  assume p: "p < length bs" "in_use (bs ! p)" and k: "skey (bs ! p) = k"
  from open_ok_reach [OF ok p] obtain i where i: "i < length bs" "p = pos (length bs) (idx k) i"
    "\<forall>l < i. in_use (bs ! pos (length bs) (idx k) l)"
    unfolding k by blast
  have "\<not> i < j" using assms(2) i(2) k by (auto simp: passed_def)
  moreover have "\<not> j < i" using stop i by auto
  ultimately have "i = j" by simp
  then show False using stop i p by auto
qed

lemma probe_Found: "open_ok idx bs \<Longrightarrow> probe_right bs k (idx k) (Found b) \<Longrightarrow>
  b < length bs \<and> in_use (bs ! b) \<and> skey (bs ! b) = k \<and> stored bs k = Some (bs ! b)"
  using stored_Some [of idx bs b k] by simp

lemma probe_Free:
  assumes "open_ok idx bs" and "probe_right bs k (idx k) (Free b)"
  shows "b < length bs \<and> \<not> in_use (bs ! b) \<and> stored bs k = None"
  using assms passed_absent [of idx bs k] pos_less [OF open_okD(1) [OF assms(1)]]
  by (auto simp: less_imp_le)

lemma probe_Full:
  assumes "open_ok idx bs" and "probe_right bs k (idx k) Full"
  shows "stored bs k = None \<and> used bs = length bs"
proof
  show "stored bs k = None"
    using assms passed_absent [of idx bs k "length bs"] by simp
  show "used bs = length bs"
  proof (rule used_full)
    fix p assume "p < length bs"
    with pos_surj [OF this open_okD(2) [OF assms(1), of k]] show "in_use (bs ! p)"
      using assms(2) by (auto simp: passed_def)
  qed
qed

lemma open_ok_replace:
  assumes ok: "open_ok idx bs" and b: "b < length bs" "in_use (bs ! b)"
    and s: "in_use s" "skey s = skey (bs ! b)"
  shows "open_ok idx (bs[b := s])"
proof -
  have use: "in_use (bs[b := s] ! p) = in_use (bs ! p)" "skey (bs[b := s] ! p) = skey (bs ! p)" for p
    using b s by (cases "p = b"; simp)+
  show ?thesis using ok by (simp add: open_ok_def use)
qed

lemma stored_replace:
  assumes ok: "open_ok idx bs" and b: "b < length bs" "in_use (bs ! b)"
    and s: "in_use s" "skey s = skey (bs ! b)"
  shows "stored (bs[b := s]) = (stored bs)(skey s \<mapsto> s)"
proof (rule stored_eqI [OF open_ok_replace [OF assms]])
  fix k t
  have other: "p < length bs \<Longrightarrow> in_use (bs ! p) \<Longrightarrow> skey (bs ! p) = skey (bs ! b) \<Longrightarrow> p = b" for p
    using open_okD(3) [OF ok] b by blast
  show "((stored bs)(skey s \<mapsto> s)) k = Some t \<longleftrightarrow>
    (\<exists>p < length (bs[b := s]). bs[b := s] ! p = t \<and> in_use t \<and> skey t = k)"
  proof (cases "k = skey s")
    case True
    have "(\<exists>p < length bs. bs[b := s] ! p = t \<and> in_use t \<and> skey t = skey s) \<longleftrightarrow> t = s"
      using b s other by (auto simp: nth_list_update split: if_splits)
    with True show ?thesis by auto
  next
    case False
    have "(\<exists>p < length bs. bs[b := s] ! p = t \<and> in_use t \<and> skey t = k) \<longleftrightarrow>
      (\<exists>p < length bs. bs ! p = t \<and> in_use t \<and> skey t = k)"
      using False s b by (metis nth_list_update)
    with False stored_iff [OF ok, of k t] show ?thesis by simp
  qed
qed

lemma open_ok_insert:
  assumes ok: "open_ok idx bs" and free: "probe_right bs (skey s) (idx (skey s)) (Free b)"
    and s: "in_use s"
  shows "open_ok idx (bs[b := s])"
proof -
  let ?n = "length bs" and ?k = "skey s"
  from probe_Free [OF ok free] have b: "b < ?n" "\<not> in_use (bs ! b)" "stored bs ?k = None" by auto
  then have fresh: "in_use (bs ! p) \<Longrightarrow> p < ?n \<Longrightarrow> skey (bs ! p) \<noteq> ?k" for p
    by (simp add: stored_None)
  have use: "in_use (bs[b := s] ! p) \<longleftrightarrow> p = b \<or> in_use (bs ! p)" for p
    using b s by (cases "p = b") auto
  have key: "skey (bs[b := s] ! p) = (if p = b then ?k else skey (bs ! p))" for p
    using b by (cases "p = b") auto
  have reach: "\<exists>j < ?n. p = pos ?n (idx (skey (bs[b := s] ! p))) j \<and>
      (\<forall>i < j. in_use (bs[b := s] ! pos ?n (idx (skey (bs[b := s] ! p))) i))"
    if p: "p < ?n" "in_use (bs[b := s] ! p)" for p
  proof (cases "p = b")
    case True
    with free show ?thesis by (auto simp: use key passed_def)
  next
    case False
    with p have "in_use (bs ! p)" by (simp add: use)
    from open_ok_reach [OF ok p(1) this] False show ?thesis by (auto simp: use key)
  qed
  have dist: "p = q" if "p < ?n" "q < ?n" "in_use (bs[b := s] ! p)" "in_use (bs[b := s] ! q)"
    "skey (bs[b := s] ! p) = skey (bs[b := s] ! q)" for p q
    using that fresh [of p] fresh [of q] open_okD(3) [OF ok, of p q]
    by (auto simp: use key split: if_splits)
  show ?thesis
    unfolding open_ok_def length_list_update
    using open_okD(1,2) [OF ok] reach dist by (intro conjI allI impI) auto
qed

lemma stored_insert:
  assumes ok: "open_ok idx bs" and free: "probe_right bs (skey s) (idx (skey s)) (Free b)"
    and s: "in_use s"
  shows "stored (bs[b := s]) = (stored bs)(skey s \<mapsto> s)"
proof (rule stored_eqI [OF open_ok_insert [OF assms]])
  fix k t
  from probe_Free [OF ok free] have b: "b < length bs" "\<not> in_use (bs ! b)"
    "\<forall>p < length bs. in_use (bs ! p) \<longrightarrow> skey (bs ! p) \<noteq> skey s" by (auto simp: stored_None)
  show "((stored bs)(skey s \<mapsto> s)) k = Some t \<longleftrightarrow>
    (\<exists>p < length (bs[b := s]). bs[b := s] ! p = t \<and> in_use t \<and> skey t = k)"
  proof (cases "k = skey s")
    case True
    have "(\<exists>p < length bs. bs[b := s] ! p = t \<and> in_use t \<and> skey t = skey s) \<longleftrightarrow> t = s"
      using b s by (auto simp: nth_list_update split: if_splits)
    with True show ?thesis by auto
  next
    case False
    have "(\<exists>p < length bs. bs[b := s] ! p = t \<and> in_use t \<and> skey t = k) \<longleftrightarrow>
      (\<exists>p < length bs. bs ! p = t \<and> in_use t \<and> skey t = k)"
      using False s b by (metis nth_list_update)
    with False stored_iff [OF ok, of k t] show ?thesis by simp
  qed
qed

lemma open_ok_cleared:
  assumes "bs \<noteq> []" and "\<And>k. idx k < length bs" and "\<And>s. s \<in> set bs \<Longrightarrow> \<not> in_use s"
  shows "open_ok idx bs" and "stored bs = Map.empty" and "used bs = 0"
  using assms by (auto simp: open_ok_def stored_def used_def filter_empty_conv)

section \<open>Iteration\<close>

text \<open>The used slots from a position on, which is what an iterator there still has to visit.\<close>

definition rest :: "('k, 'z) slot_scheme list \<Rightarrow> nat \<Rightarrow> ('k, 'z) slot_scheme list" where
  "rest bs p = filter in_use (drop p bs)"

lemma rest_end [simp]: "length bs \<le> p \<Longrightarrow> rest bs p = []"
  by (simp add: rest_def)

lemma rest_0 [simp]: "rest bs 0 = filter in_use bs"
  by (simp add: rest_def)

lemma rest_step:
  "p < length bs \<Longrightarrow> rest bs p = (if in_use (bs ! p) then bs ! p # rest bs (Suc p) else rest bs (Suc p))"
  by (simp add: rest_def Cons_nth_drop_Suc [symmetric])

lemma scan_spec:
  assumes "p \<le> length bs"
  shows "\<exists>q. scan bs (length bs) p = Inr q \<and> p \<le> q \<and> q \<le> length bs \<and> rest bs p = rest bs q \<and>
    (q < length bs \<longrightarrow> in_use (bs ! q))"
  using assms
proof (induction "length bs - p" arbitrary: p)
  case 0
  then have "p = length bs" by simp
  then show ?case by (simp add: scan.simps)
next
  case (Suc n)
  then have p: "p < length bs" and IH: "\<exists>q. scan bs (length bs) (p + 1) = Inr q \<and> p + 1 \<le> q \<and>
    q \<le> length bs \<and> rest bs (p + 1) = rest bs q \<and> (q < length bs \<longrightarrow> in_use (bs ! q))"
    by simp_all
  show ?case
  proof (cases "in_use (bs ! p)")
    case True
    with p show ?thesis by (subst scan.simps) (auto simp: result_simps)
  next
    case False
    with p have "scan bs (length bs) p = scan bs (length bs) (p + 1)"
      by (subst scan.simps) (simp add: result_simps)
    with IH p False show ?thesis by (auto simp: rest_step [OF p])
  qed
qed

section \<open>Refilling a table\<close>

text \<open>
  \<open>resize\<close> empties the table and puts the old entries back. The contract under which that restores
  the contents: below a bound on the entries, \<open>put\<close> of a new key succeeds, keeps the invariant and
  adds exactly that key.
\<close>

locale probed_table =
  fixes ok :: "'t \<Rightarrow> bool"
    and lookup :: "'t \<Rightarrow> 'k \<rightharpoonup> 'e"
    and cnt :: "'t \<Rightarrow> nat"
    and put :: "'k \<Rightarrow> 'e \<Rightarrow> 't \<Rightarrow> 't result"
    and bound :: nat
  assumes put_new: "ok t \<Longrightarrow> lookup t k = None \<Longrightarrow> cnt t < bound \<Longrightarrow>
      \<exists>t'. put k e t = Inr t' \<and> ok t' \<and> lookup t' = (lookup t)(k \<mapsto> e)"
    and cnt_card: "ok t \<Longrightarrow> finite (dom (lookup t)) \<and> cnt t = card (dom (lookup t))"
begin

lemma cnt_put: "ok t \<Longrightarrow> ok t' \<Longrightarrow> lookup t k = None \<Longrightarrow> lookup t' = (lookup t)(k \<mapsto> e) \<Longrightarrow> cnt t' = Suc (cnt t)"
  using cnt_card [of t] cnt_card [of t'] by (auto simp: card_insert_if domIff)

lemma put_all:
  assumes "ok t" and "cnt t + length ps \<le> bound" and "distinct (map fst ps)"
    and "\<And>p. p \<in> set ps \<Longrightarrow> lookup t (fst p) = None"
  shows "\<exists>t'. rfold (\<lambda>p. put (fst p) (snd p)) ps t = Inr t' \<and> ok t' \<and> lookup t' = lookup t ++ map_of ps"
  using assms
proof (induction ps arbitrary: t)
  case (Cons p ps)
  from put_new [OF Cons.prems(1), of "fst p" "snd p"] Cons.prems
  obtain t' where t': "put (fst p) (snd p) t = Inr t'" "ok t'" "lookup t' = (lookup t)(fst p \<mapsto> snd p)" by auto
  have "cnt t' = Suc (cnt t)"
    by (rule cnt_put [OF Cons.prems(1) t'(2) _ t'(3)]) (simp add: Cons.prems(4))
  then have "cnt t' + length ps \<le> bound" using Cons.prems(2) by simp
  moreover have "lookup t' (fst q) = None" if "q \<in> set ps" for q
  proof -
    have "fst q \<noteq> fst p" using that Cons.prems(3) by (auto simp: image_iff)
    then show ?thesis using that Cons.prems(4) [of q] t'(3) by simp
  qed
  ultimately obtain t'' where t'': "rfold (\<lambda>p. put (fst p) (snd p)) ps t' = Inr t''" "ok t''"
    "lookup t'' = lookup t' ++ map_of ps"
    using Cons.IH [OF t'(2)] Cons.prems(3) by auto
  have "map_of ps (fst p) = None" using Cons.prems(3) by (simp add: map_of_eq_None_iff)
  then have eq: "lookup t' ++ map_of ps = lookup t ++ map_of (p # ps)"
    unfolding t'(3) by (cases p) (auto simp: fun_eq_iff map_add_def split: option.splits)
  have "rfold (\<lambda>p. put (fst p) (snd p)) (p # ps) t = Inr t''" using t'(1) t''(1) by simp
  with t''(2) t''(3) [unfolded eq] show ?case by blast
qed simp

end

lemma map_option_map_of:
  "map_option f (map_of (map (\<lambda>s. (g s, s)) ss) k) = map_of (map (\<lambda>s. (g s, f s)) ss) k"
  by (induction ss) auto

end
