(* ===== verification/Table.thy ===== *)
theory Table
  imports Complex_Main Prelude "HOL-Library.Signed_Division"
begin

text \<open>
  \<^verbatim>\<open>src/kernel/table.h\<close>: the sharding functions, the termination checker \<^verbatim>\<open>TermCheckers::Diff\<close>,
  table descriptors with their triggers, the kernel interface \<^verbatim>\<open>IterateKernel\<close>, and the decode
  iterators into which a received or restored batch of entries is unpacked. \<^verbatim>\<open>double\<close> values are
  rationals, without rounding. Two contracts are stated as locales: \<open>sharder\<close>, what a table
  relies on to route a key, and \<open>marshaller\<close>, what it relies on to send one.
\<close>

named_theorems table_defs \<open>definitions of table.h\<close>

section \<open>Sharding\<close>

text \<open>\<open>%\<close> of C++ on signed operands truncates towards zero, and is undefined on zero.\<close>

definition shard_Mod :: "int \<Rightarrow> int \<Rightarrow> int result" where
  "shard_Mod key shards = (if shards = 0 then Inl DivByZero else Inr (key smod shards))"

definition shard_UintMod :: "int \<Rightarrow> int \<Rightarrow> int result" where
  "shard_UintMod key shards =
     (if shards = 0 then Inl DivByZero else Inr (key mod (shards mod 2 ^ 32)))"

text \<open>\<^verbatim>\<open>Mod_str\<close>: the number before the first \<open>_\<close>; \<^verbatim>\<open>boost::lexical_cast<int>\<close> is \<open>lc\<close>.\<close>

definition shard_Mod_str :: "(string \<Rightarrow> int option) \<Rightarrow> string \<Rightarrow> int \<Rightarrow> int result" where
  "shard_Mod_str lc k shards =
     (case lc (takeWhile (\<lambda>c. c \<noteq> CHR ''_'') k) of
        None \<Rightarrow> Inl BadLexicalCast
      | Some p \<Rightarrow> shard_Mod p shards)"

definition shard_String :: "(string \<Rightarrow> nat) \<Rightarrow> string \<Rightarrow> int \<Rightarrow> int result" where
  "shard_String hash k shards = shard_UintMod (int (hash k)) shards"

text \<open>What the tables rely on: a shard number inside the range, a function of the key.\<close>

locale sharder =
  fixes shard :: "'k \<Rightarrow> int \<Rightarrow> int result"
    and valid :: "'k \<Rightarrow> bool"
  assumes shard_range: "valid k \<Longrightarrow> 0 < n \<Longrightarrow> n < 2 ^ 31 \<Longrightarrow> \<exists>s. shard k n = Inr s \<and> 0 \<le> s \<and> s < n"
begin

lemma shard_total: "valid k \<Longrightarrow> 0 < n \<Longrightarrow> n < 2 ^ 31 \<Longrightarrow> \<exists>i < nat n. shard k n = Inr (int i)"
proof -
  assume "valid k" "0 < n" "n < 2 ^ 31"
  then obtain s where "shard k n = Inr s" "0 \<le> s" "s < n" using shard_range by blast
  then show ?thesis by (intro exI [of _ "nat s"]) auto
qed

lemma one_shard: "valid k \<Longrightarrow> shard k 1 = Inr 0"
  using shard_range [of k 1] by force

end

lemma smod_range: "0 \<le> (k :: int) \<Longrightarrow> 0 < n \<Longrightarrow> 0 \<le> k smod n \<and> k smod n < n"
  by (simp add: signed_modulo_int_def signed_divide_int_def sgn_if minus_div_mult_eq_mod)

interpretation mod_sharder: sharder shard_Mod "\<lambda>k. 0 \<le> k"
  by unfold_locales (simp add: shard_Mod_def smod_range)

interpretation uint_sharder: sharder shard_UintMod "\<lambda>k. 0 \<le> k \<and> k < 2 ^ 32"
  by unfold_locales (simp add: shard_UintMod_def)

interpretation string_sharder: sharder "shard_String hash" "\<lambda>_. True" for hash :: "string \<Rightarrow> nat"
  by unfold_locales (simp add: shard_String_def shard_UintMod_def)

interpretation str_sharder: sharder "shard_Mod_str lc"
    "\<lambda>k. \<exists>p \<ge> 0. lc (takeWhile (\<lambda>c. c \<noteq> CHR ''_'') k) = Some p" for lc :: "string \<Rightarrow> int option"
  by unfold_locales (auto simp: shard_Mod_str_def shard_Mod_def smod_range)

section \<open>Marshalling\<close>

text \<open>\<^verbatim>\<open>Marshal<T>\<close> (\<^verbatim>\<open>util/common.h\<close>): what is written can be read back.\<close>

locale marshaller =
  fixes marshal :: "'a \<Rightarrow> string" and unmarshal :: "string \<Rightarrow> 'a"
  assumes unmarshal_marshal: "unmarshal (marshal x) = x"
begin

lemma marshal_inj: "marshal x = marshal y \<Longrightarrow> x = y"
  by (metis unmarshal_marshal)

lemma unmarshal_all: "map unmarshal (map marshal xs) = xs"
  by (simp add: comp_def unmarshal_marshal)

end

text \<open>The specialisation for \<^verbatim>\<open>string\<close>.\<close>

definition marshal_string :: "string \<Rightarrow> string" where
  "marshal_string t = t"

definition unmarshal_string :: "string \<Rightarrow> string" where
  "unmarshal_string s = s"

interpretation string_marshal: marshaller marshal_string unmarshal_string
  by unfold_locales (simp add: marshal_string_def unmarshal_string_def)

section \<open>The kernel interface\<close>

text \<open>
  \<^verbatim>\<open>IterateKernel<K, V, D>\<close>: the virtual functions a table and the engine call. The reference
  arguments that a function assigns are its results; \<open>k_priority\<close> gets the old priority too.
\<close>

record ('k, 'v, 'd) IterateKernel =
  k_default_v :: 'v
  k_init_c :: "'k \<Rightarrow> 'd \<Rightarrow> 'v"
  k_init_v :: "'k \<Rightarrow> 'd \<Rightarrow> 'v"
  k_accumulate :: "'v \<Rightarrow> 'v \<Rightarrow> 'v"
  k_process_delta_v :: "'k \<Rightarrow> 'v \<Rightarrow> 'v \<Rightarrow> 'd \<Rightarrow> 'v \<times> 'v"
  k_priority :: "'v \<Rightarrow> 'v \<Rightarrow> 'v \<Rightarrow> 'v"
  k_g_func :: "'k \<Rightarrow> 'v \<Rightarrow> 'v \<Rightarrow> 'd \<Rightarrow> ('k \<times> 'v) list"

section \<open>Termination check\<close>

record Diff =
  diff_last :: rat
  diff_curr :: rat

text \<open>\<^verbatim>\<open>std::numeric_limits<double>::max()\<close>.\<close>

definition double_max :: rat where
  "double_max = (2 ^ 53 - 1) * 2 ^ 971"

definition diff_new :: Diff where
  "diff_new = \<lparr>diff_last = - double_max, diff_curr = 0\<rparr>"

definition diff_set_curr :: "Diff \<Rightarrow> rat" where
  "diff_set_curr c = diff_curr c"

definition diff_terminate :: "rat \<Rightarrow> rat list \<Rightarrow> Diff \<Rightarrow> bool \<times> Diff" where
  "diff_terminate threshold local_reports c =
     (let c' = c\<lparr>diff_curr := fold (+) local_reports 0\<rparr>
      in if \<bar>diff_curr c' - diff_last c'\<bar> \<le> threshold then (True, c')
         else (False, c'\<lparr>diff_last := diff_curr c'\<rparr>))"

text \<open>
  \<^verbatim>\<open>estimate_prog\<close> over any table iterator: \<open>is_done\<close>, \<open>step\<close> and \<open>val2\<close> are its \<open>done\<close>, \<open>Next\<close>
  (the new state and whether there is an element) and \<open>value2\<close>; \<open>Diverges\<close> when the fuel, one unit
  per round, runs out.
\<close>

fun diff_estimate_prog :: "nat \<Rightarrow> ('i \<Rightarrow> bool) \<Rightarrow> ('i \<Rightarrow> ('i \<times> bool) result) \<Rightarrow> ('i \<Rightarrow> rat result) \<Rightarrow> rat \<Rightarrow> 'i \<Rightarrow> rat \<Rightarrow> rat result" where
  "diff_estimate_prog 0 is_done step val2 defaultv it partial_curr = Inl Diverges"
| "diff_estimate_prog (Suc fuel) is_done step val2 defaultv it partial_curr =
     (if is_done it then Inr partial_curr
      else rbind (step it) (\<lambda>(it', cont).
        if \<not> cont then Inr partial_curr
        else rbind (val2 it') (\<lambda>v.
          diff_estimate_prog fuel is_done step val2 defaultv it'
            (if v \<noteq> defaultv then partial_curr + v else partial_curr))))"

section \<open>Descriptors and triggers\<close>

record Trigger =
  tr_table :: "nat option"
  tr_helper :: "nat option"
  tr_triggerid :: int
  tr_enabled :: bool

definition trigger_new :: Trigger where
  "trigger_new = \<lparr>tr_table = None, tr_helper = None, tr_triggerid = 0, tr_enabled = True\<rparr>"

definition trigger_enable :: "bool \<Rightarrow> Trigger \<Rightarrow> Trigger" where
  "trigger_enable e t = t\<lparr>tr_enabled := e\<rparr>"

text \<open>
  \<^verbatim>\<open>TableDescriptor\<close>: pointers are \<open>None\<close> when null; \<open>td_marshal_set\<close> tells for the four marshal
  pointers whether they are set.
\<close>

record TableDescriptor =
  td_table_id :: int
  td_num_shards :: int
  td_shard :: int
  td_default_shard_size :: int
  td_schedule_portion :: rat
  td_triggers :: "Trigger list"
  td_marshal_set :: "bool list"
  td_max_stale_time :: rat
  td_helper :: "nat option"

definition td_Reset :: "TableDescriptor \<Rightarrow> TableDescriptor" where
  "td_Reset d = d\<lparr>td_table_id := -1, td_num_shards := -1, td_max_stale_time := 0, td_helper := None,
     td_marshal_set := [False, False, False, False]\<rparr>"

definition td_new :: "TableDescriptor \<Rightarrow> int \<Rightarrow> int \<Rightarrow> TableDescriptor" where
  "td_new d0 i shards = (td_Reset d0)\<lparr>td_table_id := i, td_num_shards := shards\<rparr>"

record TableBase =
  tb_info :: TableDescriptor
  tb_terminated :: bool

definition tb_Init :: "TableDescriptor \<Rightarrow> TableBase \<Rightarrow> TableBase result" where
  "tb_Init d t = rbind (check (list_all id (td_marshal_set d)))
     (\<lambda>_. Inr (t\<lparr>tb_info := d, tb_terminated := False\<rparr>))"

definition tb_register_trigger :: "nat \<Rightarrow> Trigger \<Rightarrow> TableBase \<Rightarrow> int \<times> TableBase" where
  "tb_register_trigger this tr t =
     (let d = tb_info t; i = int (length (td_triggers d));
          tr1 = (case td_helper d of None \<Rightarrow> tr | Some w \<Rightarrow> tr\<lparr>tr_helper := Some w\<rparr>);
          tr2 = tr1\<lparr>tr_table := Some this, tr_triggerid := i\<rparr>
      in (i, t\<lparr>tb_info := d\<lparr>td_triggers := td_triggers d @ [tr2]\<rparr>\<rparr>))"

definition tb_set_helper :: "nat option \<Rightarrow> TableBase \<Rightarrow> TableBase" where
  "tb_set_helper w t = (let d = tb_info t in
     t\<lparr>tb_info := d\<lparr>td_triggers := map (tr_helper_update (\<lambda>_. w)) (td_triggers d), td_helper := w\<rparr>\<rparr>)"

definition tb_terminate :: "TableBase \<Rightarrow> TableBase" where
  "tb_terminate t = t\<lparr>tb_terminated := True\<rparr>"

section \<open>Decode iterators\<close>

text \<open>
  \<^verbatim>\<open>NetDecodeIterator\<close> and \<^verbatim>\<open>FileDecodeIterator\<close>: a vector of decoded entries and a position in
  it. The entries are pairs for the net, tuples of four for files; both classes have the same
  operations. \<open>Next\<close> past the end is undefined in C++.
\<close>

record 'e DecodeIterator =
  decodedeque :: "'e list"
  intit :: nat

definition di_clear :: "'e DecodeIterator \<Rightarrow> 'e DecodeIterator" where
  "di_clear it = it\<lparr>decodedeque := []\<rparr>"

definition di_rewind :: "'e DecodeIterator \<Rightarrow> 'e DecodeIterator" where
  "di_rewind it = it\<lparr>intit := 0\<rparr>"

definition di_new :: "'e DecodeIterator" where
  "di_new = di_rewind (di_clear \<lparr>decodedeque = [], intit = 0\<rparr>)"

definition di_append :: "'e \<Rightarrow> 'e DecodeIterator \<Rightarrow> 'e DecodeIterator" where
  "di_append e it = it\<lparr>decodedeque := decodedeque it @ [e]\<rparr>"

definition di_done :: "'e DecodeIterator \<Rightarrow> bool" where
  "di_done it \<longleftrightarrow> intit it = length (decodedeque it)"

definition di_Next :: "'e DecodeIterator \<Rightarrow> 'e DecodeIterator result" where
  "di_Next it = (if di_done it then Inl OutOfBounds else Inr (it\<lparr>intit := intit it + 1\<rparr>))"

text \<open>The entry under the iterator; at the end, the value the last call left in the static.\<close>

definition di_entry :: "'e \<Rightarrow> 'e DecodeIterator \<Rightarrow> 'e" where
  "di_entry stale it = (if di_done it then stale else decodedeque it ! intit it)"

text \<open>The loops \<^verbatim>\<open>while (in->ReadEntry(...)) { unmarshal; it->append(...); } it->rewind()\<close>.\<close>

definition decode_all :: "('w \<Rightarrow> 'e) \<Rightarrow> 'w list \<Rightarrow> 'e DecodeIterator \<Rightarrow> 'e DecodeIterator" where
  "decode_all dec ws it = di_rewind (fold (\<lambda>w. di_append (dec w)) ws (di_clear it))"

lemma decode_all_eq [simp]: "decode_all dec ws it = it\<lparr>decodedeque := map dec ws, intit := 0\<rparr>"
proof -
  have "fold (\<lambda>w. di_append (dec w)) ws it' = it'\<lparr>decodedeque := decodedeque it' @ map dec ws\<rparr>" for it'
    by (induction ws arbitrary: it') (simp_all add: di_append_def)
  then show ?thesis by (simp add: decode_all_def di_clear_def di_rewind_def)
qed

section \<open>Properties\<close>

lemma fold_plus_sum: "fold (+) xs (a :: 'a :: comm_monoid_add) = a + sum_list xs"
  by (induction xs arbitrary: a) (simp_all add: ac_simps)

lemma terminate_iff:
  "fst (diff_terminate th rs c) \<longleftrightarrow> \<bar>sum_list rs - diff_last c\<bar> \<le> th"
  by (simp add: diff_terminate_def Let_def fold_plus_sum)

lemma terminate_state:
  "diff_curr (snd (diff_terminate th rs c)) = sum_list rs \<and>
   diff_last (snd (diff_terminate th rs c)) =
     (if \<bar>sum_list rs - diff_last c\<bar> \<le> th then diff_last c else sum_list rs)"
  by (simp add: diff_terminate_def Let_def fold_plus_sum)

text \<open>One check per round of reports, until the checker says yes; the round is returned.\<close>

fun diff_rounds :: "rat \<Rightarrow> rat list list \<Rightarrow> Diff \<Rightarrow> (nat \<times> Diff) option" where
  "diff_rounds th [] c = None"
| "diff_rounds th (rs # rss) c =
     (case diff_terminate th rs c of
        (True, c') \<Rightarrow> Some (0, c')
      | (False, c') \<Rightarrow> map_option (\<lambda>(n, d). (Suc n, d)) (diff_rounds th rss c'))"

definition round_diff :: "rat \<Rightarrow> rat list list \<Rightarrow> nat \<Rightarrow> rat" where
  "round_diff l rss n = \<bar>sum_list (rss ! n) - (if n = 0 then l else sum_list (rss ! (n - 1)))\<bar>"

lemma round_diff_Cons: "round_diff l (rs # rss) (Suc n) = round_diff (sum_list rs) rss n"
  by (cases n) (simp_all add: round_diff_def)

text \<open>
  \<^verbatim>\<open>TermCheckers::Diff\<close> over a sequence of rounds of worker reports stops at the first round
  whose total differs from the total of the round before by at most the threshold, and in no
  earlier one.
\<close>

lemma diff_stops_at_first_small_change:
  "(\<exists>c'. diff_rounds th rss c = Some (n, c')) \<longleftrightarrow>
     n < length rss \<and> round_diff (diff_last c) rss n \<le> th \<and>
     (\<forall>m. m < n \<longrightarrow> th < round_diff (diff_last c) rss m)"
proof (induction rss arbitrary: c n)
  case (Cons rs rss)
  show ?case
  proof (cases "\<bar>sum_list rs - diff_last c\<bar> \<le> th")
    case True
    then have "diff_rounds th (rs # rss) c = Some (0, snd (diff_terminate th rs c))"
      using terminate_iff [of th rs c] by (cases "diff_terminate th rs c") simp
    then show ?thesis using True by (cases n) (force simp: round_diff_def)+
  next
    case False
    let ?c = "snd (diff_terminate th rs c)"
    have r: "diff_rounds th (rs # rss) c = map_option (\<lambda>(n, d). (Suc n, d)) (diff_rounds th rss ?c)"
      using False terminate_iff [of th rs c] by (cases "diff_terminate th rs c") simp
    have l: "diff_last ?c = sum_list rs" using False terminate_state [of th rs c] by simp
    show ?thesis
    proof (cases n)
      case 0
      then show ?thesis using r False by (auto simp: round_diff_def)
    next
      case (Suc m)
      have "(\<exists>c'. diff_rounds th (rs # rss) c = Some (n, c')) \<longleftrightarrow> (\<exists>c'. diff_rounds th rss ?c = Some (m, c'))"
        unfolding r Suc by auto
      also have "\<dots> \<longleftrightarrow> m < length rss \<and> round_diff (sum_list rs) rss m \<le> th \<and>
          (\<forall>i. i < m \<longrightarrow> th < round_diff (sum_list rs) rss i)"
        using Cons.IH [of ?c m] by (simp add: l)
      also have "\<dots> \<longleftrightarrow> n < length (rs # rss) \<and> round_diff (diff_last c) (rs # rss) n \<le> th \<and>
          (\<forall>i. i < n \<longrightarrow> th < round_diff (diff_last c) (rs # rss) i)"
        using False round_diff_Cons [of "diff_last c" rs rss]
        by (auto simp: Suc less_Suc_eq_0_disj) (simp add: round_diff_def)
      finally show ?thesis .
    qed
  qed
qed simp

end
