(* ===== verification/DeltaTable.thy ===== *)
theory DeltaTable
  imports OpenTable Table
begin

text \<open>
  \<^verbatim>\<open>src/kernel/deltatable.h\<close>: the buffer of outgoing updates, an open-addressing hash table
  that doubles when more than \<^verbatim>\<open>kLoadFactor = 0.8\<close> (\<^verbatim>\<open>local-table.h\<close>) of its buckets are used.
  The \<^verbatim>\<open>std::tr1::hash\<close> of the key type is the argument \<open>h\<close>, a value-initialised bucket is \<open>nb\<close>,
  the kernel's \<^verbatim>\<open>accumulate\<close> is \<open>acc\<close>. \<open>put\<close> and \<open>resize\<close> call each other; the fuel bounds
  that depth and \<open>dt_fuel\<close> is shown to be enough from every well-formed table.
\<close>

record ('k, 'v) dbucket = "'k slot" +
  v1 :: 'v

record ('k, 'v) DeltaTable =
  dt_buckets :: "('k, 'v) dbucket list"
  dt_entries :: nat
  dt_size :: nat

text \<open>\<open>entries_ > size_ * kLoadFactor\<close>, without the rounding of the double product.\<close>

definition over_load :: "nat \<Rightarrow> nat \<Rightarrow> bool" where
  "over_load entries n \<longleftrightarrow> n * 4 < entries * 5"

definition dt_bucket_idx :: "('k \<Rightarrow> nat) \<Rightarrow> ('k, 'v) DeltaTable \<Rightarrow> 'k \<Rightarrow> nat result" where
  "dt_bucket_idx h t k = (if dt_size t = 0 then Inl DivByZero else Inr (h k mod dt_size t))"

definition dt_bucket_for_key :: "('k \<Rightarrow> nat) \<Rightarrow> ('k, 'v) DeltaTable \<Rightarrow> 'k \<Rightarrow> int result" where
  "dt_bucket_for_key h t k = rbind (dt_bucket_idx h t k) (\<lambda>start.
     rbind (probe (dt_size t) (dt_buckets t) (dt_size t) k start start) (\<lambda>r.
       Inr (case r of Found b \<Rightarrow> int b | _ \<Rightarrow> -1)))"

definition dt_clear :: "('k, 'v) DeltaTable \<Rightarrow> ('k, 'v) DeltaTable" where
  "dt_clear t = t\<lparr>dt_buckets := map (in_use_update (\<lambda>_. False)) (take (dt_size t) (dt_buckets t)) @
     drop (dt_size t) (dt_buckets t), dt_entries := 0\<rparr>"

text \<open>\<^verbatim>\<open>vector::resize\<close>.\<close>

definition vec_resize :: "'a \<Rightarrow> nat \<Rightarrow> 'a list \<Rightarrow> 'a list" where
  "vec_resize d n xs = take n xs @ replicate (n - length xs) d"

definition dt_set_v1 :: "nat \<Rightarrow> 'v \<Rightarrow> ('k, 'v) DeltaTable \<Rightarrow> ('k, 'v) DeltaTable" where
  "dt_set_v1 b v t = t\<lparr>dt_buckets := (dt_buckets t)[b := (dt_buckets t ! b)\<lparr>v1 := v\<rparr>]\<rparr>"

definition dt_insert_at :: "nat \<Rightarrow> 'k \<Rightarrow> 'v \<Rightarrow> ('k, 'v) DeltaTable \<Rightarrow> ('k, 'v) DeltaTable" where
  "dt_insert_at b k v t =
     t\<lparr>dt_buckets := (dt_buckets t)[b := \<lparr>skey = k, in_use = True, v1 = v\<rparr>], dt_entries := dt_entries t + 1\<rparr>"

fun dt_put :: "nat \<Rightarrow> ('k \<Rightarrow> nat) \<Rightarrow> ('k, 'v) dbucket \<Rightarrow> 'k \<Rightarrow> 'v \<Rightarrow> ('k, 'v) DeltaTable \<Rightarrow>
    ('k, 'v) DeltaTable result"
  and dt_resize :: "nat \<Rightarrow> ('k \<Rightarrow> nat) \<Rightarrow> ('k, 'v) dbucket \<Rightarrow> int \<Rightarrow> ('k, 'v) DeltaTable \<Rightarrow>
    ('k, 'v) DeltaTable result" where
  "dt_put 0 h nb k v t = Inl Diverges"
| "dt_put (Suc f) h nb k v t = rbind (dt_bucket_idx h t k) (\<lambda>start.
     rbind (probe (dt_size t) (dt_buckets t) (dt_size t) k start start) (\<lambda>r.
       case r of
         Found b \<Rightarrow> Inr (dt_set_v1 b v t)
       | _ \<Rightarrow>
         if over_load (dt_entries t) (dt_size t)
         then rbind (dt_resize f h nb (1 + int (dt_size t) * 2) t) (dt_put f h nb k v)
         else Inr (dt_insert_at (case r of Free b \<Rightarrow> b | _ \<Rightarrow> start) k v t)))"
| "dt_resize 0 h nb n t = Inl Diverges"
| "dt_resize (Suc f) h nb n t =
     (if n \<le> 0 then Inl CheckFailed
      else if int (dt_size t) = n then Inr t
      else
        let t0 = dt_clear (t\<lparr>dt_buckets := vec_resize nb (nat n) (dt_buckets t), dt_size := nat n\<rparr>)
        in rbind (rfold (\<lambda>s t. if in_use s then dt_put f h nb (skey s) (v1 s) t else Inr t) (dt_buckets t) t0)
             (\<lambda>t'. rbind (check (dt_entries t = dt_entries t')) (\<lambda>_. Inr t')))"

definition dt_fuel :: nat where
  "dt_fuel = 4"

lemma dt_fuel_Suc: "dt_fuel = Suc (Suc (Suc (Suc 0)))"
  by (simp add: dt_fuel_def)

definition dt_new :: "('k \<Rightarrow> nat) \<Rightarrow> ('k, 'v) dbucket \<Rightarrow> int \<Rightarrow> ('k, 'v) DeltaTable result" where
  "dt_new h nb n = dt_resize dt_fuel h nb n
     (dt_clear \<lparr>dt_buckets = [], dt_entries = 0, dt_size = 0\<rparr>)"

definition dt_reset :: "('k \<Rightarrow> nat) \<Rightarrow> ('k, 'v) dbucket \<Rightarrow> ('k, 'v) DeltaTable \<Rightarrow> ('k, 'v) DeltaTable result" where
  "dt_reset h nb t = dt_resize dt_fuel h nb 1 (t\<lparr>dt_buckets := [], dt_size := 0, dt_entries := 0\<rparr>)"

definition dt_count :: "('k, 'v) DeltaTable \<Rightarrow> nat" where
  "dt_count t = dt_entries t"

definition dt_empty :: "('k, 'v) DeltaTable \<Rightarrow> bool" where
  "dt_empty t \<longleftrightarrow> dt_count t = 0"

definition dt_contains :: "('k \<Rightarrow> nat) \<Rightarrow> 'k \<Rightarrow> ('k, 'v) DeltaTable \<Rightarrow> bool result" where
  "dt_contains h k t = rbind (dt_bucket_for_key h t k) (\<lambda>b. Inr (b \<noteq> -1))"

definition dt_get :: "('k \<Rightarrow> nat) \<Rightarrow> 'k \<Rightarrow> ('k, 'v) DeltaTable \<Rightarrow> 'v result" where
  "dt_get h k t = rbind (dt_bucket_for_key h t k) (\<lambda>b. rbind (check (b \<noteq> -1)) (\<lambda>_.
     rbind (vec_at (dt_buckets t) b) (\<lambda>s. Inr (v1 s))))"

definition dt_update :: "('k \<Rightarrow> nat) \<Rightarrow> 'k \<Rightarrow> 'v \<Rightarrow> ('k, 'v) DeltaTable \<Rightarrow> ('k, 'v) DeltaTable result" where
  "dt_update h k v t = rbind (dt_bucket_for_key h t k) (\<lambda>b. rbind (check (b \<noteq> -1)) (\<lambda>_.
     Inr (dt_set_v1 (nat b) v t)))"

definition dt_accumulate :: "('k \<Rightarrow> nat) \<Rightarrow> ('k, 'v) dbucket \<Rightarrow> ('v \<Rightarrow> 'v \<Rightarrow> 'v) \<Rightarrow> 'k \<Rightarrow> 'v \<Rightarrow>
    ('k, 'v) DeltaTable \<Rightarrow> ('k, 'v) DeltaTable result" where
  "dt_accumulate h nb acc k v t = rbind (dt_bucket_for_key h t k) (\<lambda>b.
     if b = -1 then dt_put dt_fuel h nb k v t
     else rbind (vec_at (dt_buckets t) b) (\<lambda>s. Inr (dt_set_v1 (nat b) (acc (v1 s) v) t)))"

definition dt_remove :: "'k \<Rightarrow> ('k, 'v) DeltaTable \<Rightarrow> bool result" where
  "dt_remove k t = Inl Fatal"

section \<open>Iterator and serialisation\<close>

text \<open>
  \<^verbatim>\<open>DeltaTable::Iterator\<close> is its position; the constructor starts at -1 and calls \<open>Next\<close>.
  Serialisation is the loop \<^verbatim>\<open>while (!i->done()) { write; i->Next(); }\<close> with \<open>w\<close> the entry that is
  written; the fuel is one unit per bucket and one for the end test.
\<close>

definition dt_iter_new :: "('k, 'v) DeltaTable \<Rightarrow> nat result" where
  "dt_iter_new t = scan (dt_buckets t) (dt_size t) 0"

definition dt_iter_Next :: "('k, 'v) DeltaTable \<Rightarrow> nat \<Rightarrow> (nat \<times> bool) result" where
  "dt_iter_Next t p = rbind (scan (dt_buckets t) (dt_size t) (p + 1)) (\<lambda>q. Inr (q, q < dt_size t))"

definition dt_iter_done :: "('k, 'v) DeltaTable \<Rightarrow> nat \<Rightarrow> bool" where
  "dt_iter_done t p \<longleftrightarrow> p = dt_size t"

fun dt_write_from :: "nat \<Rightarrow> (('k, 'v) dbucket \<Rightarrow> 'w) \<Rightarrow> ('k, 'v) DeltaTable \<Rightarrow> nat \<Rightarrow> 'w list \<Rightarrow> 'w list result" where
  "dt_write_from 0 w t p out = Inl Diverges"
| "dt_write_from (Suc fuel) w t p out =
     (if dt_iter_done t p then Inr out
      else rbind (vec_at (dt_buckets t) (int p)) (\<lambda>s.
        rbind (dt_iter_Next t p) (\<lambda>(q, _). dt_write_from fuel w t q (out @ [w s]))))"

definition dt_serializeToNet :: "('k \<Rightarrow> string) \<Rightarrow> ('v \<Rightarrow> string) \<Rightarrow> ('k, 'v) DeltaTable \<Rightarrow> (string \<times> string) list result" where
  "dt_serializeToNet mk mv t = rbind (dt_iter_new t) (\<lambda>p.
     dt_write_from (dt_size t + 1) (\<lambda>s. (mk (skey s), mv (v1 s))) t p [])"

definition dt_serializeToFile :: "('k \<Rightarrow> string) \<Rightarrow> ('v \<Rightarrow> string) \<Rightarrow> ('k, 'v) DeltaTable \<Rightarrow>
    (string \<times> string \<times> string \<times> string) list result" where
  "dt_serializeToFile mk mv t = rbind (dt_iter_new t) (\<lambda>p.
     dt_write_from (dt_size t + 1) (\<lambda>s. (mk (skey s), mv (v1 s), [], [])) t p [])"

definition dt_deserializeFromNet :: "(string \<Rightarrow> 'k) \<Rightarrow> (string \<Rightarrow> 'v) \<Rightarrow> (string \<times> string) list \<Rightarrow>
    ('k \<times> 'v) DecodeIterator \<Rightarrow> ('k \<times> 'v) DecodeIterator" where
  "dt_deserializeFromNet uk uv ws it = decode_all (\<lambda>(kt, v1t). (uk kt, uv v1t)) ws it"

definition dt_deserializeFromFile :: "(string \<Rightarrow> 'k) \<Rightarrow> (string \<Rightarrow> 'v) \<Rightarrow> (string \<times> string \<times> string \<times> string) list \<Rightarrow>
    ('k \<times> 'v \<times> int \<times> int) DecodeIterator \<Rightarrow> ('k \<times> 'v \<times> int \<times> int) DecodeIterator" where
  "dt_deserializeFromFile uk uv ws it = decode_all (\<lambda>(kt, v1t, v2t, v3t). (uk kt, uv v1t, 0, 0)) ws it"

section \<open>Well-formed tables and their contents\<close>

definition dt_ok :: "('k \<Rightarrow> nat) \<Rightarrow> ('k, 'v) DeltaTable \<Rightarrow> bool" where
  "dt_ok h t \<longleftrightarrow> dt_size t = length (dt_buckets t) \<and> dt_entries t = used (dt_buckets t) \<and>
     open_ok (\<lambda>k. h k mod dt_size t) (dt_buckets t)"

definition dt_lookup :: "('k, 'v) DeltaTable \<Rightarrow> 'k \<rightharpoonup> 'v" where
  "dt_lookup t k = map_option v1 (stored (dt_buckets t) k)"

lemma dt_okD:
  assumes "dt_ok h t"
  shows "dt_size t = length (dt_buckets t)" and "dt_entries t = used (dt_buckets t)"
    and "open_ok (\<lambda>k. h k mod dt_size t) (dt_buckets t)" and "0 < dt_size t"
proof -
  show d: "dt_size t = length (dt_buckets t)" "dt_entries t = used (dt_buckets t)"
    and op: "open_ok (\<lambda>k. h k mod dt_size t) (dt_buckets t)"
    using assms unfolding dt_ok_def by blast+
  show "0 < dt_size t" using open_okD(1) [OF op] d(1) by simp
qed

lemma dt_probe_cases:
  assumes ok: "dt_ok h t"
  obtains b where "probe (dt_size t) (dt_buckets t) (dt_size t) k (h k mod dt_size t) (h k mod dt_size t) = Inr (Found b)"
      and "b < length (dt_buckets t)" and "in_use (dt_buckets t ! b)" and "skey (dt_buckets t ! b) = k"
      and "dt_lookup t k = Some (v1 (dt_buckets t ! b))"
  | r where "probe (dt_size t) (dt_buckets t) (dt_size t) k (h k mod dt_size t) (h k mod dt_size t) = Inr r"
      and "\<And>b. r \<noteq> Found b" and "dt_lookup t k = None"
      and "probe_right (dt_buckets t) k (h k mod dt_size t) r"
proof -
  note d = dt_okD [OF ok]
  have "h k mod dt_size t < length (dt_buckets t)" using d(1,4) by simp
  from probe_total [OF this, of k] obtain r
    where r: "probe (dt_size t) (dt_buckets t) (dt_size t) k (h k mod dt_size t) (h k mod dt_size t) = Inr r"
      "probe_right (dt_buckets t) k (h k mod dt_size t) r"
    unfolding d(1) .
  show thesis
  proof (cases r)
    case (Found b)
    have "b < length (dt_buckets t) \<and> in_use (dt_buckets t ! b) \<and> skey (dt_buckets t ! b) = k \<and>
      stored (dt_buckets t) k = Some (dt_buckets t ! b)"
      using r(2) unfolding Found by (rule probe_Found [OF d(3)])
    then show ?thesis using r(1) unfolding Found by (intro that(1)) (simp_all add: dt_lookup_def)
  next
    case (Free b)
    have "stored (dt_buckets t) k = None" using r(2) probe_Free [OF d(3), of k b] unfolding Free by blast
    then have "dt_lookup t k = None" by (simp add: dt_lookup_def)
    then show ?thesis using Free by (intro that(2) [OF r(1) _ _ r(2)]) simp_all
  next
    case Full
    have "stored (dt_buckets t) k = None" using r(2) probe_Full [OF d(3), of k] unfolding Full by blast
    then have "dt_lookup t k = None" by (simp add: dt_lookup_def)
    then show ?thesis using Full by (intro that(2) [OF r(1) _ _ r(2)]) simp_all
  qed
qed

lemma card_dt_lookup: "dt_ok h t \<Longrightarrow> card (dom (dt_lookup t)) = dt_entries t"
  using card_stored [OF dt_okD(3), of h t] dt_okD(2) [of h t]
  by (simp add: dt_lookup_def dom_def)

lemma dt_set_v1_ok:
  assumes ok: "dt_ok h t" and b: "b < length (dt_buckets t)" "in_use (dt_buckets t ! b)"
  shows "dt_ok h (dt_set_v1 b v t)" and "dt_lookup (dt_set_v1 b v t) = (dt_lookup t)(skey (dt_buckets t ! b) \<mapsto> v)"
    and "dt_size (dt_set_v1 b v t) = dt_size t" and "dt_entries (dt_set_v1 b v t) = dt_entries t"
proof -
  note d = dt_okD [OF ok]
  let ?s = "(dt_buckets t ! b)\<lparr>v1 := v\<rparr>"
  have s: "in_use ?s" "skey ?s = skey (dt_buckets t ! b)" using b by simp_all
  show "dt_ok h (dt_set_v1 b v t)"
    using open_ok_replace [OF d(3) b s] used_replace [OF b s(1)] d(1,2) by (simp add: dt_ok_def dt_set_v1_def)
  show "dt_lookup (dt_set_v1 b v t) = (dt_lookup t)(skey (dt_buckets t ! b) \<mapsto> v)"
    using stored_replace [OF d(3) b s] by (simp add: dt_lookup_def dt_set_v1_def fun_eq_iff)
qed (simp_all add: dt_set_v1_def)

lemma dt_insert_at_ok:
  assumes ok: "dt_ok h t" and free: "probe_right (dt_buckets t) k (h k mod dt_size t) (Free b)"
  shows "dt_ok h (dt_insert_at b k v t)" and "dt_lookup (dt_insert_at b k v t) = (dt_lookup t)(k \<mapsto> v)"
    and "dt_size (dt_insert_at b k v t) = dt_size t"
proof -
  note d = dt_okD [OF ok]
  let ?s = "\<lparr>skey = k, in_use = True, v1 = v\<rparr>"
  have b: "b < length (dt_buckets t)" "\<not> in_use (dt_buckets t ! b)" using probe_Free [OF d(3) free] by auto
  have free': "probe_right (dt_buckets t) (skey ?s) (h (skey ?s) mod dt_size t) (Free b)" using free by simp
  show "dt_ok h (dt_insert_at b k v t)"
    using open_ok_insert [OF d(3) free'] used_insert [OF b, of ?s] d(1,2)
    by (simp add: dt_ok_def dt_insert_at_def)
  show "dt_lookup (dt_insert_at b k v t) = (dt_lookup t)(k \<mapsto> v)"
    using stored_insert [OF d(3) free'] by (simp add: dt_lookup_def dt_insert_at_def fun_eq_iff)
qed (simp_all add: dt_insert_at_def)

section \<open>Inserting and growing\<close>

lemma dt_put_plain:
  assumes ok: "dt_ok h t" and room: "dt_lookup t k = None \<Longrightarrow> \<not> over_load (dt_entries t) (dt_size t)"
  shows "\<exists>t'. dt_put (Suc f) h nb k v t = Inr t' \<and> dt_ok h t' \<and> dt_lookup t' = (dt_lookup t)(k \<mapsto> v) \<and>
    dt_size t' = dt_size t"
proof (cases rule: dt_probe_cases [OF ok, of k])
  case (1 b)
  then show ?thesis using dt_set_v1_ok [OF ok, of b v] dt_okD(4) [OF ok] by (simp add: dt_bucket_idx_def)
next
  case (2 r)
  note d = dt_okD [OF ok]
  have room: "\<not> over_load (dt_entries t) (dt_size t)" using room 2 by simp
  have "r \<noteq> Full"
    using 2(4) room d probe_Full [OF d(3), of k] by (auto simp: over_load_def)
  with 2(2) obtain b where "r = Free b" by (cases r) auto
  with 2 room d(4) dt_insert_at_ok [OF ok, of k b v] show ?thesis by (simp add: dt_bucket_idx_def)
qed

lemma dt_put_grow:
  assumes ok: "dt_ok h t" and "dt_lookup t k = None" and "over_load (dt_entries t) (dt_size t)"
  shows "dt_put (Suc f) h nb k v t = rbind (dt_resize f h nb (1 + int (dt_size t) * 2) t) (dt_put f h nb k v)"
proof (cases rule: dt_probe_cases [OF ok, of k])
  case (1 b)
  with assms show ?thesis by simp
next
  case (2 r)
  with assms dt_okD(4) [OF ok] show ?thesis by (cases r) (auto simp: dt_bucket_idx_def)
qed

lemma dt_lookup_map_of:
  "dt_lookup t = map_of (map (\<lambda>s. (skey s, v1 s)) (filter in_use (dt_buckets t)))"
  by (simp add: dt_lookup_def stored_def fun_eq_iff map_option_map_of)

lemma finite_dt_lookup: "finite (dom (dt_lookup t))"
  by (simp add: dt_lookup_map_of finite_dom_map_of)

interpretation dt_grow: probed_table "\<lambda>t. dt_ok h t \<and> dt_size t = 1 + m * 2" dt_lookup dt_entries
    "dt_put (Suc f) h nb" m
  for h :: "'k \<Rightarrow> nat" and nb :: "('k, 'v) dbucket" and f m
proof unfold_locales
  fix t :: "('k, 'v) DeltaTable" and k v
  assume t: "dt_ok h t \<and> dt_size t = 1 + m * 2" and "dt_entries t < m"
  then have "\<not> over_load (dt_entries t) (dt_size t)" by (simp add: over_load_def)
  then show "\<exists>t'. dt_put (Suc f) h nb k v t = Inr t' \<and> (dt_ok h t' \<and> dt_size t' = 1 + m * 2) \<and>
      dt_lookup t' = (dt_lookup t)(k \<mapsto> v)"
    using t dt_put_plain [of h t k f nb v] by auto
qed (auto simp: card_dt_lookup [symmetric] finite_dt_lookup)

lemma dt_cleared:
  assumes "0 < n"
  shows "dt_ok h (dt_clear (t\<lparr>dt_buckets := vec_resize nb n bs, dt_size := n\<rparr>))"
    and "dt_lookup (dt_clear (t\<lparr>dt_buckets := vec_resize nb n bs, dt_size := n\<rparr>)) = Map.empty"
proof -
  let ?bs = "map (in_use_update (\<lambda>_. False)) (vec_resize nb n bs)"
  have len: "length (vec_resize nb n bs) = n" by (simp add: vec_resize_def)
  have "?bs \<noteq> []" using assms len by auto
  moreover have "h k mod n < length ?bs" for k using assms len by simp
  ultimately have "open_ok (\<lambda>k. h k mod n) ?bs" "stored ?bs = Map.empty" "used ?bs = 0"
    by (rule open_ok_cleared; auto)+
  then show "dt_ok h (dt_clear (t\<lparr>dt_buckets := vec_resize nb n bs, dt_size := n\<rparr>))"
    and "dt_lookup (dt_clear (t\<lparr>dt_buckets := vec_resize nb n bs, dt_size := n\<rparr>)) = Map.empty"
    using len by (simp_all add: dt_clear_def dt_ok_def dt_lookup_def fun_eq_iff)
qed

lemma dt_clear_spec:
  assumes "dt_ok h t"
  shows "dt_ok h (dt_clear t) \<and> dt_lookup (dt_clear t) = Map.empty \<and> dt_entries (dt_clear t) = 0"
proof -
  have "vec_resize nb (dt_size t) (dt_buckets t) = dt_buckets t" for nb
    using dt_okD(1) [OF assms] by (simp add: vec_resize_def)
  then show ?thesis
    using dt_cleared(1) [OF dt_okD(4) [OF assms], where h = h and t = t and bs = "dt_buckets t"]
      dt_cleared(2) [OF dt_okD(4) [OF assms], where t = t and bs = "dt_buckets t"]
    by (simp add: dt_clear_def)
qed

text \<open>\<open>resize\<close> keeps the contents whenever the re-insertions under the invariant \<open>I\<close> do.\<close>

lemma dt_resize_by:
  assumes ok: "dt_ok h t" and n: "0 < n" "int (dt_size t) \<noteq> n"
    and I: "\<And>t. I t \<Longrightarrow> dt_ok h t"
    and start: "\<And>t'. dt_ok h t' \<Longrightarrow> dt_size t' = nat n \<Longrightarrow> I t'"
    and put: "probed_table I dt_lookup dt_entries (dt_put f h nb) b" and b: "dt_entries t \<le> b"
  shows "\<exists>t'. dt_resize (Suc f) h nb n t = Inr t' \<and> I t' \<and> dt_lookup t' = dt_lookup t"
proof -
  let ?ss = "filter in_use (dt_buckets t)"
  let ?ps = "map (\<lambda>s. (skey s, v1 s)) ?ss"
  let ?t0 = "dt_clear (t\<lparr>dt_buckets := vec_resize nb (nat n) (dt_buckets t), dt_size := nat n\<rparr>)"
  have t0: "dt_ok h ?t0" "dt_lookup ?t0 = Map.empty"
    using n by (simp_all add: dt_cleared)
  have "I ?t0" using t0(1) by (rule start) (simp add: dt_clear_def)
  moreover have "dt_entries ?t0 + length ?ps \<le> b"
    using dt_okD(2) [OF ok] b by (simp add: dt_clear_def used_def)
  moreover have "distinct (map fst ?ps)"
    using open_ok_distinct [OF dt_okD(3) [OF ok]] by (simp add: comp_def)
  ultimately obtain t' where t': "rfold (\<lambda>p. dt_put f h nb (fst p) (snd p)) ?ps ?t0 = Inr t'" "I t'"
    "dt_lookup t' = dt_lookup ?t0 ++ map_of ?ps"
    using probed_table.put_all [OF put, of ?t0 ?ps] t0(2) by auto
  have same: "dt_lookup t' = dt_lookup t" using t'(3) t0(2) by (simp add: dt_lookup_map_of)
  have "dt_entries t' = dt_entries t"
    using card_dt_lookup [OF I [OF t'(2)]] card_dt_lookup [OF ok] same by simp
  then have "dt_resize (Suc f) h nb n t = Inr t'"
    using n t'(1) by (simp add: Let_def rfold_filter rfold_map check_def)
  with t'(2) same show ?thesis by blast
qed

lemma dt_resize_same: "0 < n \<Longrightarrow> int (dt_size t) = n \<Longrightarrow> dt_resize (Suc f) h nb n t = Inr t"
  by simp

lemma dt_resize_grow:
  assumes ok: "dt_ok h t"
  shows "\<exists>t'. dt_resize (Suc (Suc f)) h nb (1 + int (dt_size t) * 2) t = Inr t' \<and>
    (dt_ok h t' \<and> dt_size t' = 1 + dt_size t * 2) \<and> dt_lookup t' = dt_lookup t"
proof (rule dt_resize_by [OF ok _ _ _ _ dt_grow.probed_table_axioms])
  show "dt_entries t \<le> dt_size t" using dt_okD(1,2) [OF ok] used_le [of "dt_buckets t"] by simp
qed auto

text \<open>\<open>put\<close> from every well-formed table.\<close>

lemma dt_put_ok:
  assumes ok: "dt_ok h t"
  shows "\<exists>t'. dt_put (Suc (Suc (Suc f))) h nb k v t = Inr t' \<and> dt_ok h t' \<and> dt_lookup t' = (dt_lookup t)(k \<mapsto> v)"
proof (cases "dt_lookup t k = None \<and> over_load (dt_entries t) (dt_size t)")
  case False
  then show ?thesis using dt_put_plain [OF ok, of k "Suc (Suc f)" nb v] by auto
next
  case True
  from dt_resize_grow [OF ok, of f nb] obtain t1
    where t1: "dt_resize (Suc (Suc f)) h nb (1 + int (dt_size t) * 2) t = Inr t1" "dt_ok h t1"
      "dt_lookup t1 = dt_lookup t" "dt_size t1 = 1 + dt_size t * 2" by blast
  have "dt_entries t1 = dt_entries t" using card_dt_lookup [OF ok] card_dt_lookup [OF t1(2)] t1(3) by simp
  then have "\<not> over_load (dt_entries t1) (dt_size t1)"
    using t1(4) dt_okD(1,2) [OF ok] used_le [of "dt_buckets t"] by (simp add: over_load_def)
  from dt_put_plain [OF t1(2), of k "Suc f" nb v] this t1(3)
  obtain t2 where t2: "dt_put (Suc (Suc f)) h nb k v t1 = Inr t2" "dt_ok h t2"
    "dt_lookup t2 = (dt_lookup t)(k \<mapsto> v)" by auto
  have "dt_put (Suc (Suc (Suc f))) h nb k v t = Inr t2"
    using dt_put_grow [OF ok, of k "Suc (Suc f)" nb v] True t1(1) t2(1) by simp
  with t2(2,3) show ?thesis by blast
qed

interpretation dt_any: probed_table "dt_ok h" dt_lookup dt_entries "dt_put (Suc (Suc (Suc f))) h nb" b
  for h :: "'k \<Rightarrow> nat" and nb :: "('k, 'v) dbucket" and f b
proof unfold_locales
  fix t :: "('k, 'v) DeltaTable"
  assume "dt_ok h t"
  then show "finite (dom (dt_lookup t)) \<and> dt_entries t = card (dom (dt_lookup t))"
    by (simp add: card_dt_lookup finite_dt_lookup)
qed (rule dt_put_ok)

lemma dt_resize_ok:
  assumes ok: "dt_ok h t" and n: "0 < n"
  shows "\<exists>t'. dt_resize dt_fuel h nb n t = Inr t' \<and> dt_ok h t' \<and> dt_lookup t' = dt_lookup t"
proof (cases "int (dt_size t) = n")
  case True
  then show ?thesis using ok n by (simp add: dt_fuel_Suc)
next
  case False
  have "\<exists>t'. dt_resize (Suc (Suc (Suc (Suc 0)))) h nb n t = Inr t' \<and> dt_ok h t' \<and> dt_lookup t' = dt_lookup t"
    by (rule dt_resize_by [OF ok n False _ _ dt_any.probed_table_axioms]) auto
  then show ?thesis by (simp only: dt_fuel_Suc)
qed

lemma dt_new_ok:
  assumes "0 < n"
  shows "\<exists>t. dt_new h nb n = Inr t \<and> dt_ok h t \<and> dt_lookup t = Map.empty"
proof -
  have "dt_resize dt_fuel h nb n (dt_clear \<lparr>dt_buckets = [], dt_entries = 0, dt_size = 0\<rparr>) =
    Inr (dt_clear \<lparr>dt_buckets = vec_resize nb (nat n) [], dt_entries = 0, dt_size = nat n\<rparr>)"
    using assms by (simp add: dt_fuel_Suc dt_clear_def vec_resize_def check_def)
  then show ?thesis
    using assms dt_cleared(1) [of "nat n" h nb "[]" "\<lparr>dt_buckets = [], dt_entries = 0, dt_size = 0\<rparr>"]
      dt_cleared(2) [of "nat n" nb "[]" "\<lparr>dt_buckets = [], dt_entries = 0, dt_size = 0\<rparr>"]
    by (simp add: dt_new_def)
qed

lemma dt_reset_ok: "\<exists>t'. dt_reset h nb t = Inr t' \<and> dt_ok h t' \<and> dt_lookup t' = Map.empty"
proof -
  have "dt_reset h nb t = Inr (dt_clear (t\<lparr>dt_buckets := vec_resize nb 1 [], dt_size := 1\<rparr>))"
    by (simp add: dt_reset_def dt_fuel_Suc dt_clear_def vec_resize_def check_def)
  then show ?thesis by (simp add: dt_cleared)
qed

section \<open>Reading and accumulating\<close>

lemma dt_bucket_for_key_cases:
  assumes ok: "dt_ok h t"
  obtains b where "dt_bucket_for_key h t k = Inr (int b)" and "b < length (dt_buckets t)"
      and "in_use (dt_buckets t ! b)" and "skey (dt_buckets t ! b) = k"
      and "dt_lookup t k = Some (v1 (dt_buckets t ! b))"
  | "dt_bucket_for_key h t k = Inr (-1)" and "dt_lookup t k = None"
proof (cases rule: dt_probe_cases [OF ok, of k])
  case (1 b)
  then show thesis using dt_okD(4) [OF ok]
    by (intro that(1) [of b]) (simp_all add: dt_bucket_for_key_def dt_bucket_idx_def)
next
  case (2 r)
  then have "dt_bucket_for_key h t k = Inr (-1)" using dt_okD(4) [OF ok]
    by (cases r) (auto simp: dt_bucket_for_key_def dt_bucket_idx_def)
  with 2(3) show thesis by (rule that(2) [rotated])
qed

lemma dt_contains_lookup:
  assumes "dt_ok h t"
  shows "dt_contains h k t = Inr (dt_lookup t k \<noteq> None)"
  by (cases rule: dt_bucket_for_key_cases [OF assms, of k]) (auto simp: dt_contains_def)

lemma dt_get_lookup:
  assumes "dt_ok h t"
  shows "dt_get h k t = (case dt_lookup t k of None \<Rightarrow> Inl CheckFailed | Some v \<Rightarrow> Inr v)"
  by (cases rule: dt_bucket_for_key_cases [OF assms, of k]) (auto simp: dt_get_def check_def result_simps)

lemma dt_update_lookup:
  assumes "dt_ok h t"
  shows "if dt_lookup t k = None then dt_update h k v t = Inl CheckFailed
    else \<exists>t'. dt_update h k v t = Inr t' \<and> dt_ok h t' \<and> dt_lookup t' = (dt_lookup t)(k \<mapsto> v)"
proof (cases rule: dt_bucket_for_key_cases [OF assms, of k])
  case (1 b)
  then show ?thesis using dt_set_v1_ok [OF assms 1(2,3), of v] by (simp add: dt_update_def check_def)
next
  case 2
  then show ?thesis by (simp add: dt_update_def check_def)
qed

definition merged :: "('v \<Rightarrow> 'v \<Rightarrow> 'v) \<Rightarrow> 'v option \<Rightarrow> 'v \<Rightarrow> 'v" where
  "merged acc w v = (case w of None \<Rightarrow> v | Some u \<Rightarrow> acc u v)"

lemma dt_accumulate_ok:
  assumes ok: "dt_ok h t"
  shows "\<exists>t'. dt_accumulate h nb acc k v t = Inr t' \<and> dt_ok h t' \<and>
    dt_lookup t' = (dt_lookup t)(k \<mapsto> merged acc (dt_lookup t k) v)"
proof (cases rule: dt_bucket_for_key_cases [OF ok, of k])
  case (1 b)
  then show ?thesis using dt_set_v1_ok [OF ok 1(2,3)]
    by (simp add: dt_accumulate_def result_simps merged_def)
next
  case 2
  have "\<exists>t'. dt_put dt_fuel h nb k v t = Inr t' \<and> dt_ok h t' \<and> dt_lookup t' = (dt_lookup t)(k \<mapsto> v)"
    using dt_put_ok [OF ok, of "Suc 0" nb k v] by (simp only: dt_fuel_Suc)
  with 2 show ?thesis by (simp add: dt_accumulate_def merged_def)
qed

section \<open>Iteration and serialisation\<close>

lemma dt_write_from_rest:
  assumes "dt_size t = length (dt_buckets t)" and "p \<le> dt_size t" and "dt_size t \<le> fuel + p"
    and "p < dt_size t \<Longrightarrow> in_use (dt_buckets t ! p)"
  shows "dt_write_from (Suc fuel) w t p out = Inr (out @ map w (rest (dt_buckets t) p))"
  using assms(2-)
proof (induction fuel arbitrary: p out)
  case 0
  then show ?case using assms(1) by (simp add: dt_iter_done_def)
next
  case (Suc fuel)
  note fuel = \<open>dt_size t \<le> Suc fuel + p\<close>
  show ?case
  proof (cases "p = dt_size t")
    case True
    then show ?thesis using assms(1) by (simp add: dt_iter_done_def)
  next
    case False
    with Suc.prems assms(1) have p: "p < length (dt_buckets t)" "in_use (dt_buckets t ! p)" by auto
    from scan_spec [of "p + 1" "dt_buckets t"] p obtain q
      where q: "scan (dt_buckets t) (dt_size t) (p + 1) = Inr q" "p < q" "q \<le> dt_size t"
        "rest (dt_buckets t) (Suc p) = rest (dt_buckets t) q"
        "q < dt_size t \<longrightarrow> in_use (dt_buckets t ! q)"
      using assms(1) by auto
    have step: "dt_write_from (Suc (Suc fuel)) w t p out = dt_write_from (Suc fuel) w t q (out @ [w (dt_buckets t ! p)])"
      using False p q(1) by (simp add: dt_iter_done_def dt_iter_Next_def result_simps)
    have "dt_write_from (Suc fuel) w t q (out @ [w (dt_buckets t ! p)]) =
      Inr ((out @ [w (dt_buckets t ! p)]) @ map w (rest (dt_buckets t) q))"
      using q(2,3,5) fuel by (intro Suc.IH) auto
    then show ?thesis
      unfolding step using p q(4) by (simp add: rest_step [OF p(1)])
  qed
qed

lemma dt_serialize_all:
  assumes "dt_ok h t"
  shows "rbind (dt_iter_new t) (\<lambda>p. dt_write_from (dt_size t + 1) w t p []) =
    Inr (map w (filter in_use (dt_buckets t)))"
proof -
  note d = dt_okD [OF assms]
  from scan_spec [of 0 "dt_buckets t"] d(1) obtain q
    where "scan (dt_buckets t) (dt_size t) 0 = Inr q" "q \<le> dt_size t"
      "rest (dt_buckets t) 0 = rest (dt_buckets t) q" "q < dt_size t \<longrightarrow> in_use (dt_buckets t ! q)"
    by auto
  then show ?thesis
    using dt_write_from_rest [OF d(1), of q "dt_size t" w "[]"] by (simp add: dt_iter_new_def)
qed

section \<open>Properties\<close>

text \<open>One operation of the table's client, and what it means for the contents.\<close>

datatype ('k, 'v) dop = Put 'k 'v | Accumulate 'k 'v | Clear | Reset | Resize nat

fun dt_step :: "('k \<Rightarrow> nat) \<Rightarrow> ('k, 'v) dbucket \<Rightarrow> ('v \<Rightarrow> 'v \<Rightarrow> 'v) \<Rightarrow> ('k, 'v) dop \<Rightarrow> ('k, 'v) DeltaTable \<Rightarrow>
    ('k, 'v) DeltaTable result" where
  "dt_step h nb acc (Put k v) t = dt_put dt_fuel h nb k v t"
| "dt_step h nb acc (Accumulate k v) t = dt_accumulate h nb acc k v t"
| "dt_step h nb acc Clear t = Inr (dt_clear t)"
| "dt_step h nb acc Reset t = dt_reset h nb t"
| "dt_step h nb acc (Resize n) t = dt_resize dt_fuel h nb (int n + 1) t"

fun map_step :: "('v \<Rightarrow> 'v \<Rightarrow> 'v) \<Rightarrow> ('k, 'v) dop \<Rightarrow> ('k \<rightharpoonup> 'v) \<Rightarrow> ('k \<rightharpoonup> 'v)" where
  "map_step acc (Put k v) m = m(k \<mapsto> v)"
| "map_step acc (Accumulate k v) m = m(k \<mapsto> merged acc (m k) v)"
| "map_step acc Clear m = Map.empty"
| "map_step acc Reset m = Map.empty"
| "map_step acc (Resize n) m = m"

lemma dt_put_fuel:
  assumes "dt_ok h t"
  shows "\<exists>t'. dt_put dt_fuel h nb k v t = Inr t' \<and> dt_ok h t' \<and> dt_lookup t' = (dt_lookup t)(k \<mapsto> v)"
  using dt_put_ok [OF assms, of "Suc 0" nb k v] by (simp only: dt_fuel_Suc)

lemma dt_step_refines:
  assumes "dt_ok h t"
  shows "\<exists>t'. dt_step h nb acc x t = Inr t' \<and> dt_ok h t' \<and> dt_lookup t' = map_step acc x (dt_lookup t)"
proof (cases x)
  case (Put k v)
  then show ?thesis using dt_put_fuel [OF assms, of nb k v] by simp
next
  case (Accumulate k v)
  then show ?thesis using dt_accumulate_ok [OF assms, of nb acc k v] by simp
next
  case Clear
  then show ?thesis using dt_clear_spec [OF assms] by simp
next
  case Reset
  then show ?thesis using dt_reset_ok [of h nb t] by simp
next
  case (Resize n)
  then show ?thesis using dt_resize_ok [OF assms, of "int n + 1" nb] by simp
qed

lemma dt_run_refines:
  assumes "dt_ok h t"
  shows "\<exists>t'. rfold (dt_step h nb acc) xs t = Inr t' \<and> dt_ok h t' \<and> dt_lookup t' = fold (map_step acc) xs (dt_lookup t)"
  using assms
proof (induction xs arbitrary: t)
  case (Cons x xs)
  from dt_step_refines [OF Cons.prems, of nb acc x] obtain t1
    where "dt_step h nb acc x t = Inr t1" "dt_ok h t1" "dt_lookup t1 = map_step acc x (dt_lookup t)" by blast
  with Cons.IH [of t1] show ?case by simp
qed simp

text \<open>
  C11: every sequence of \<^verbatim>\<open>put\<close>, \<^verbatim>\<open>accumulate\<close>, \<^verbatim>\<open>clear\<close>, \<^verbatim>\<open>reset\<close> and \<^verbatim>\<open>resize\<close> on a freshly
  constructed \<^verbatim>\<open>DeltaTable\<close> ends (the probe loops end, the mutual recursion of \<^verbatim>\<open>put\<close> and \<^verbatim>\<open>resize\<close>
  is at most four deep, no CHECK fails), and what \<^verbatim>\<open>get\<close> then returns is what a plain map gives after
  the same operations; for a key that map does not have, the CHECK of \<^verbatim>\<open>get\<close> fails.
\<close>

theorem deltatable_refines_map:
  "\<exists>t0 t. dt_new h nb (int n + 1) = Inr t0 \<and> rfold (dt_step h nb acc) xs t0 = Inr t \<and>
     (\<forall>k. dt_get h k t = (case fold (map_step acc) xs Map.empty k of None \<Rightarrow> Inl CheckFailed | Some v \<Rightarrow> Inr v)) \<and>
     (\<forall>k. dt_contains h k t = Inr (k \<in> dom (fold (map_step acc) xs Map.empty))) \<and>
     dt_count t = card (dom (fold (map_step acc) xs Map.empty))"
proof -
  from dt_new_ok [of "int n + 1" h nb] obtain t0
    where t0: "dt_new h nb (int n + 1) = Inr t0" "dt_ok h t0" "dt_lookup t0 = Map.empty" by auto
  from dt_run_refines [OF t0(2), of nb acc xs] obtain t
    where t: "rfold (dt_step h nb acc) xs t0 = Inr t" "dt_ok h t"
      "dt_lookup t = fold (map_step acc) xs Map.empty" unfolding t0(3) by blast
  from t0(1) t(1) show ?thesis
    using dt_get_lookup [OF t(2)] dt_contains_lookup [OF t(2)] card_dt_lookup [OF t(2)]
    by (intro exI [of _ t0] exI [of _ t]) (simp add: t(3) dt_count_def domIff)
qed

text \<open>
  C19: a \<^verbatim>\<open>DeltaTable\<close> that is written with \<^verbatim>\<open>serializeToNet\<close> and read with
  \<^verbatim>\<open>deserializeFromNet\<close> gives the decode iterator exactly the stored pairs, each key once, provided
  the key and value marshallers read back what they write; the serialisation loop always ends.
\<close>

theorem deltatable_net_roundtrip:
  assumes "dt_ok h t" and "\<And>x. uk (mk x) = x" and "\<And>x. uv (mv x) = x"
  shows "\<exists>ws. dt_serializeToNet mk mv t = Inr ws \<and>
    (let it = dt_deserializeFromNet uk uv ws it0 in
       map_of (decodedeque it) = dt_lookup t \<and> distinct (map fst (decodedeque it)) \<and>
       length (decodedeque it) = dt_count t \<and> intit it = 0)"
proof -
  let ?ss = "filter in_use (dt_buckets t)"
  let ?ws = "map (\<lambda>s. (mk (skey s), mv (v1 s))) ?ss"
  have out: "dt_serializeToNet mk mv t = Inr ?ws"
    by (simp add: dt_serializeToNet_def dt_serialize_all [OF assms(1), simplified])
  have rd: "dt_deserializeFromNet uk uv ?ws it0 = it0\<lparr>decodedeque := map (\<lambda>s. (skey s, v1 s)) ?ss, intit := 0\<rparr>"
    by (simp add: dt_deserializeFromNet_def assms(2,3) comp_def)
  have "distinct (map skey ?ss)" by (rule open_ok_distinct [OF dt_okD(3) [OF assms(1)]])
  then show ?thesis
    using out dt_okD(2) [OF assms(1)]
    by (intro exI [of _ ?ws] conjI) (simp_all add: rd dt_lookup_map_of dt_count_def used_def comp_def)
qed

definition nb0 :: "(string, string) dbucket" where
  "nb0 = \<lparr>skey = [], in_use = False, v1 = []\<rparr>"

theorem deltatable_net_roundtrip_witness:
  "\<exists>t ws. rfold (dt_step length nb0 (@)) [Put ''a'' ''x'', Accumulate ''a'' ''y'', Put ''b'' ''z'']
       (dt_clear \<lparr>dt_buckets = [nb0], dt_entries = 0, dt_size = 1\<rparr>) = Inr t \<and>
     dt_serializeToNet id id t = Inr ws \<and>
     map_of (decodedeque (dt_deserializeFromNet id id ws di_new)) = [''a'' \<mapsto> ''xy'', ''b'' \<mapsto> ''z'']"
proof -
  let ?t0 = "dt_clear \<lparr>dt_buckets = [nb0], dt_entries = 0, dt_size = 1\<rparr>"
  let ?xs = "[Put ''a'' ''x'', Accumulate ''a'' ''y'', Put ''b'' ''z'']"
  have t0: "dt_ok length ?t0" "dt_lookup ?t0 = Map.empty"
    using dt_cleared(1) [of 1 length nb0 "[nb0]" "\<lparr>dt_buckets = [nb0], dt_entries = 0, dt_size = 1\<rparr>"]
      dt_cleared(2) [of 1 nb0 "[nb0]" "\<lparr>dt_buckets = [nb0], dt_entries = 0, dt_size = 1\<rparr>"]
    by (simp_all add: vec_resize_def)
  from dt_run_refines [OF t0(1), of nb0 "(@)" ?xs] obtain t
    where t: "rfold (dt_step length nb0 (@)) ?xs ?t0 = Inr t" "dt_ok length t"
      "dt_lookup t = fold (map_step (@)) ?xs Map.empty" unfolding t0(2) by blast
  have "dt_lookup t = [''a'' \<mapsto> ''xy'', ''b'' \<mapsto> ''z'']" by (simp add: t(3) merged_def)
  with deltatable_net_roundtrip [OF t(2), of id id id id di_new] t(1) show ?thesis
    by (metis id_apply)
qed

end
