(* ===== verification/StateTable.thy ===== *)
theory StateTable
  imports OpenTable Table
begin

text \<open>
  \<^verbatim>\<open>src/kernel/statetable.h\<close>: the local state of a worker. A row has a pending change \<open>s1\<close>, a
  value \<open>s2\<close>, static data \<open>s3\<close> and a scheduling priority. Unlike \<^verbatim>\<open>DeltaTable\<close> the table is sized in
  advance: \<open>put\<close> tests \<^verbatim>\<open>entries_ > size_\<close> and no load factor. The hash, a value-initialised
  bucket and the kernel are arguments, as in the theory of the delta table. \<open>put\<close> and \<open>resize\<close>
  call each other; the fuel bounds that depth.
\<close>

record ('k, 'v, 'd) sbucket = "'k slot" +
  s1 :: 'v
  s2 :: 'v
  s3 :: 'd
  priority :: 'v

record ('k, 'v, 'd) StateTable =
  st_buckets :: "('k, 'v, 'd) sbucket list"
  st_entries :: nat
  st_size :: nat
  st_total_curr :: rat
  st_total_updates :: int
  st_terminated :: bool

type_synonym ('k, 'v, 'd) kernel = "('k, 'v, 'd) IterateKernel"

definition st_bucket_idx :: "('k \<Rightarrow> nat) \<Rightarrow> ('k, 'v, 'd) StateTable \<Rightarrow> 'k \<Rightarrow> nat result" where
  "st_bucket_idx h t k = (if st_size t = 0 then Inl DivByZero else Inr (h k mod st_size t))"

definition st_bucket_for_key :: "('k \<Rightarrow> nat) \<Rightarrow> ('k, 'v, 'd) StateTable \<Rightarrow> 'k \<Rightarrow> int result" where
  "st_bucket_for_key h t k = rbind (st_bucket_idx h t k) (\<lambda>start.
     rbind (probe (st_size t) (st_buckets t) (st_size t) k start start) (\<lambda>r.
       Inr (case r of Found b \<Rightarrow> int b | _ \<Rightarrow> -1)))"

definition st_clear :: "('k, 'v, 'd) StateTable \<Rightarrow> ('k, 'v, 'd) StateTable" where
  "st_clear t = t\<lparr>st_buckets := map (in_use_update (\<lambda>_. False)) (take (st_size t) (st_buckets t)) @
     drop (st_size t) (st_buckets t), st_entries := 0\<rparr>"

definition st_modify :: "nat \<Rightarrow> (('k, 'v, 'd) sbucket \<Rightarrow> ('k, 'v, 'd) sbucket) \<Rightarrow> ('k, 'v, 'd) StateTable \<Rightarrow>
    ('k, 'v, 'd) StateTable" where
  "st_modify b f t = t\<lparr>st_buckets := (st_buckets t)[b := f (st_buckets t ! b)]\<rparr>"

text \<open>The three value fields and the priority of a bucket, as both branches of \<open>put\<close> set them.\<close>

definition set_row :: "('k, 'v, 'd) kernel \<Rightarrow> 'v \<Rightarrow> 'v \<Rightarrow> 'd \<Rightarrow> ('k, 'v, 'd) sbucket \<Rightarrow> ('k, 'v, 'd) sbucket" where
  "set_row ker v1 v2 v3 s = s\<lparr>s1 := v1, s2 := v2, s3 := v3, priority := k_priority ker (priority s) v2 v1\<rparr>"

definition st_insert_at :: "('k, 'v, 'd) kernel \<Rightarrow> nat \<Rightarrow> 'k \<Rightarrow> 'v \<Rightarrow> 'v \<Rightarrow> 'd \<Rightarrow> ('k, 'v, 'd) StateTable \<Rightarrow>
    ('k, 'v, 'd) StateTable" where
  "st_insert_at ker b k v1 v2 v3 t =
     (st_modify b (\<lambda>s. set_row ker v1 v2 v3 (s\<lparr>in_use := True, skey := k\<rparr>)) t)\<lparr>st_entries := st_entries t + 1\<rparr>"

fun st_put :: "nat \<Rightarrow> ('k \<Rightarrow> nat) \<Rightarrow> ('k, 'v, 'd) sbucket \<Rightarrow> ('k, 'v, 'd) kernel \<Rightarrow> 'k \<Rightarrow> 'v \<Rightarrow> 'v \<Rightarrow> 'd \<Rightarrow>
    ('k, 'v, 'd) StateTable \<Rightarrow> ('k, 'v, 'd) StateTable result"
  and st_resize :: "nat \<Rightarrow> ('k \<Rightarrow> nat) \<Rightarrow> ('k, 'v, 'd) sbucket \<Rightarrow> ('k, 'v, 'd) kernel \<Rightarrow> int \<Rightarrow>
    ('k, 'v, 'd) StateTable \<Rightarrow> ('k, 'v, 'd) StateTable result" where
  "st_put 0 h nb ker k v1 v2 v3 t = Inl Diverges"
| "st_put (Suc f) h nb ker k v1 v2 v3 t = rbind (st_bucket_idx h t k) (\<lambda>start.
     rbind (probe (st_size t) (st_buckets t) (st_size t) k start start) (\<lambda>r.
       case r of
         Found b \<Rightarrow> Inr (st_modify b (set_row ker v1 v2 v3) t)
       | _ \<Rightarrow>
         if st_size t < st_entries t
         then rbind (st_resize f h nb ker (1 + int (st_size t) * 2) t) (\<lambda>t1.
           rbind (st_put f h nb ker k v1 v2 v3 t1) (\<lambda>t2. Inr (t2\<lparr>st_entries := st_entries t2 + 1\<rparr>)))
         else Inr (st_insert_at ker (case r of Free b \<Rightarrow> b | _ \<Rightarrow> start) k v1 v2 v3 t)))"
| "st_resize 0 h nb ker n t = Inl Diverges"
| "st_resize (Suc f) h nb ker n t =
     (if n \<le> 0 then Inl CheckFailed
      else if int (st_size t) = n then Inr t
      else
        let t0 = st_clear (t\<lparr>st_buckets := take (nat n) (st_buckets t) @
                   replicate (nat n - length (st_buckets t)) nb, st_size := nat n\<rparr>)
        in rfold (\<lambda>s t. if in_use s then st_put f h nb ker (skey s) (s1 s) (s2 s) (s3 s) t else Inr t)
             (st_buckets t) t0)"

definition st_fuel :: nat where
  "st_fuel = 4"

lemma st_fuel_Suc: "st_fuel = Suc (Suc (Suc (Suc 0)))"
  by (simp add: st_fuel_def)

definition st_blank :: "('k, 'v, 'd) StateTable" where
  "st_blank = \<lparr>st_buckets = [], st_entries = 0, st_size = 0, st_total_curr = 0, st_total_updates = 0,
     st_terminated = False\<rparr>"

definition st_new :: "('k \<Rightarrow> nat) \<Rightarrow> ('k, 'v, 'd) sbucket \<Rightarrow> ('k, 'v, 'd) kernel \<Rightarrow> int \<Rightarrow>
    ('k, 'v, 'd) StateTable result" where
  "st_new h nb ker n = st_resize st_fuel h nb ker n (st_clear st_blank)"

definition st_count :: "('k, 'v, 'd) StateTable \<Rightarrow> nat" where
  "st_count t = st_entries t"

definition st_contains :: "('k \<Rightarrow> nat) \<Rightarrow> 'k \<Rightarrow> ('k, 'v, 'd) StateTable \<Rightarrow> bool result" where
  "st_contains h k t = rbind (st_bucket_for_key h t k) (\<lambda>b. Inr (b \<noteq> -1))"

text \<open>\<^verbatim>\<open>int b = bucket_for_key(k); CHECK_NE(b, -1)\<close>, the opening of every access below.\<close>

definition st_find :: "('k \<Rightarrow> nat) \<Rightarrow> 'k \<Rightarrow> ('k, 'v, 'd) StateTable \<Rightarrow> nat result" where
  "st_find h k t = rbind (st_bucket_for_key h t k) (\<lambda>b. rbind (check (b \<noteq> -1)) (\<lambda>_. Inr (nat b)))"

definition st_getF1 :: "('k \<Rightarrow> nat) \<Rightarrow> 'k \<Rightarrow> ('k, 'v, 'd) StateTable \<Rightarrow> 'v result" where
  "st_getF1 h k t = rbind (st_find h k t) (\<lambda>b. rbind (vec_at (st_buckets t) (int b)) (\<lambda>s. Inr (s1 s)))"

definition st_getF2 :: "('k \<Rightarrow> nat) \<Rightarrow> 'k \<Rightarrow> ('k, 'v, 'd) StateTable \<Rightarrow> 'v result" where
  "st_getF2 h k t = rbind (st_find h k t) (\<lambda>b. rbind (vec_at (st_buckets t) (int b)) (\<lambda>s. Inr (s2 s)))"

definition st_getF3 :: "('k \<Rightarrow> nat) \<Rightarrow> 'k \<Rightarrow> ('k, 'v, 'd) StateTable \<Rightarrow> 'd result" where
  "st_getF3 h k t = rbind (st_find h k t) (\<lambda>b. rbind (vec_at (st_buckets t) (int b)) (\<lambda>s. Inr (s3 s)))"

text \<open>\<open>get\<close> returns a \<^verbatim>\<open>ClutterRecord\<close> of the key and the three fields.\<close>

definition st_get :: "('k \<Rightarrow> nat) \<Rightarrow> 'k \<Rightarrow> ('k, 'v, 'd) StateTable \<Rightarrow> ('k \<times> 'v \<times> 'v \<times> 'd) result" where
  "st_get h k t = rbind (st_find h k t) (\<lambda>b. rbind (vec_at (st_buckets t) (int b))
     (\<lambda>s. Inr (k, s1 s, s2 s, s3 s)))"

definition st_updateF1 :: "('k \<Rightarrow> nat) \<Rightarrow> 'k \<Rightarrow> 'v::zero \<Rightarrow> ('k, 'v, 'd) StateTable \<Rightarrow> ('k, 'v, 'd) StateTable result" where
  "st_updateF1 h k v t = rbind (st_find h k t) (\<lambda>b.
     Inr ((st_modify b (\<lambda>s. s\<lparr>s1 := v, priority := 0\<rparr>) t)\<lparr>st_total_updates := st_total_updates t + 1\<rparr>))"

definition st_updateF2 :: "('k \<Rightarrow> nat) \<Rightarrow> 'k \<Rightarrow> 'v \<Rightarrow> ('k, 'v, 'd) StateTable \<Rightarrow> ('k, 'v, 'd) StateTable result" where
  "st_updateF2 h k v t = rbind (st_find h k t) (\<lambda>b. Inr (st_modify b (\<lambda>s. s\<lparr>s2 := v\<rparr>) t))"

definition st_updateF3 :: "('k \<Rightarrow> nat) \<Rightarrow> 'k \<Rightarrow> 'd \<Rightarrow> ('k, 'v, 'd) StateTable \<Rightarrow> ('k, 'v, 'd) StateTable result" where
  "st_updateF3 h k v t = rbind (st_find h k t) (\<lambda>b. Inr (st_modify b (\<lambda>s. s\<lparr>s3 := v\<rparr>) t))"

definition st_accumulateF1 :: "('k \<Rightarrow> nat) \<Rightarrow> ('k, 'v, 'd) kernel \<Rightarrow> 'k \<Rightarrow> 'v \<Rightarrow> ('k, 'v, 'd) StateTable \<Rightarrow>
    ('k, 'v, 'd) StateTable result" where
  "st_accumulateF1 h ker k v t = rbind (st_find h k t) (\<lambda>b.
     Inr (st_modify b (\<lambda>s. let s' = s\<lparr>s1 := k_accumulate ker (s1 s) v\<rparr>
       in s'\<lparr>priority := k_priority ker (priority s') (s2 s') (s1 s')\<rparr>) t))"

definition st_accumulateF2 :: "('k \<Rightarrow> nat) \<Rightarrow> ('k, 'v, 'd) kernel \<Rightarrow> 'k \<Rightarrow> 'v \<Rightarrow> ('k, 'v, 'd) StateTable \<Rightarrow>
    ('k, 'v, 'd) StateTable result" where
  "st_accumulateF2 h ker k v t = rbind (st_find h k t) (\<lambda>b.
     Inr (st_modify b (\<lambda>s. s\<lparr>s2 := k_accumulate ker (s2 s) v\<rparr>) t))"

definition st_accumulateF3 :: "'k \<Rightarrow> 'd \<Rightarrow> ('k, 'v, 'd) StateTable \<Rightarrow> ('k, 'v, 'd) StateTable result" where
  "st_accumulateF3 k v t = Inr t"

definition st_remove :: "'k \<Rightarrow> ('k, 'v, 'd) StateTable \<Rightarrow> bool result" where
  "st_remove k t = Inl Fatal"

definition st_reset :: "('k, 'v, 'd) StateTable \<Rightarrow> ('k, 'v, 'd) StateTable" where
  "st_reset t = t"

section \<open>Iterators\<close>

text \<open>
  \<^verbatim>\<open>Iterator\<close> and \<^verbatim>\<open>EntirePassIterator\<close> move in the same way: the state is the position, -1 at the
  start. The random positions that \<^verbatim>\<open>boost::variate_generator\<close> yields are a list, consumed from the
  front; an exhausted list stands for a loop that goes on drawing.
\<close>

definition it_Next :: "('k, 'v, 'd) StateTable \<Rightarrow> int \<Rightarrow> (int \<times> bool) result" where
  "it_Next t p = rbind (scan (st_buckets t) (st_size t) (nat (p + 1))) (\<lambda>q. Inr (int q, q < st_size t))"

definition it_done :: "('k, 'v, 'd) StateTable \<Rightarrow> int \<Rightarrow> bool" where
  "it_done t p \<longleftrightarrow> p + 1 = int (st_size t)"

definition it_value2 :: "('k, 'v, 'd) StateTable \<Rightarrow> int \<Rightarrow> 'v result" where
  "it_value2 t p = rbind (vec_at (st_buckets t) p) (\<lambda>s. Inr (s2 s))"

definition sample_size :: nat where
  "sample_size = 1000"

fun draw_used :: "('k, 'z) slot_scheme list \<Rightarrow> int list \<Rightarrow> (int \<times> int list) result" where
  "draw_used bs [] = Inl Diverges"
| "draw_used bs (r # rs) = rbind (vec_at bs r) (\<lambda>s. if in_use s then Inr (r, rs) else draw_used bs rs)"

text \<open>The sampling loop of \<^verbatim>\<open>Iterator::Iterator\<close>: \<open>b_no_change\<close> after at most \<open>n\<close> samples.\<close>

fun it_sample :: "nat \<Rightarrow> ('k, 'v, 'd) sbucket list \<Rightarrow> 'v \<Rightarrow> int list \<Rightarrow> bool \<Rightarrow> bool result" where
  "it_sample 0 bs defaultv rs nc = Inr nc"
| "it_sample (Suc n) bs defaultv rs nc =
     (if \<not> nc then Inr nc
      else rbind (draw_used bs rs) (\<lambda>(p, rs'). rbind (vec_at bs p) (\<lambda>s.
        it_sample n bs defaultv rs' (nc \<and> s1 s \<noteq> defaultv))))"

definition it_new :: "nat \<Rightarrow> bool \<Rightarrow> 'v \<Rightarrow> int list \<Rightarrow> ('k, 'v, 'd) StateTable \<Rightarrow> (int \<times> bool) result" where
  "it_new n bfilter defaultv rs t =
     (if bfilter then rbind (it_sample n (st_buckets t) defaultv rs True) (\<lambda>nc. Inr (-1, nc))
      else Inr (-1, False))"

record ScheduledIterator =
  si_pos :: int
  scheduled_pos :: "nat list"
  b_no_change :: bool

fun sched_sample :: "nat \<Rightarrow> ('k, 'v, 'd) sbucket list \<Rightarrow> 'v \<Rightarrow> int list \<Rightarrow> nat list \<Rightarrow> bool \<Rightarrow> (nat list \<times> bool) result" where
  "sched_sample 0 bs defaultv rs ps nc = Inr (ps, nc)"
| "sched_sample (Suc n) bs defaultv rs ps nc =
     rbind (draw_used bs rs) (\<lambda>(p, rs'). rbind (vec_at bs p) (\<lambda>s.
       sched_sample n bs defaultv rs' (ps @ [nat p]) (nc \<and> s1 s = defaultv)))"

text \<open>
  \<^verbatim>\<open>sort(sampled_pos.begin(), sampled_pos.end(), compare_priority)\<close>: decreasing priority. Positions
  of equal priority may come in any order; only their priorities are used.
\<close>

definition sort_priority :: "('k, 'v::linorder, 'd) sbucket list \<Rightarrow> nat list \<Rightarrow> nat list" where
  "sort_priority bs ps = rev (sort_key (\<lambda>p. priority (bs ! p)) ps)"

definition sched_new :: "nat \<Rightarrow> rat \<Rightarrow> bool \<Rightarrow> 'v::linorder \<Rightarrow> int list \<Rightarrow> ('k, 'v, 'd) StateTable \<Rightarrow>
    ScheduledIterator result" where
  "sched_new n portion bfilter defaultv rs t =
     (let bs = st_buckets t; upos = filter (\<lambda>i. in_use (bs ! i)) [0..<st_size t] in
      if st_entries t \<le> n then
        let nc = list_all (\<lambda>i. s1 (bs ! i) \<noteq> defaultv) upos
        in Inr \<lparr>si_pos = -1, scheduled_pos = upos, b_no_change = nc \<and> bfilter\<rparr>
      else rbind (sched_sample n bs defaultv rs [] True) (\<lambda>(sampled, nc).
        if nc \<and> bfilter then Inr \<lparr>si_pos = -1, scheduled_pos = [], b_no_change = True\<rparr>
        else
          let sorted = sort_priority bs sampled; cut_index = \<lfloor>rat_of_nat n * portion\<rfloor> in
          rbind (vec_at sorted cut_index) (\<lambda>pc.
          rbind (vec_at sorted 0) (\<lambda>p0.
            let threshold = priority (bs ! pc);
                elig = filter (\<lambda>i. s1 (bs ! i) \<noteq> defaultv) upos;
                ps = (if cut_index = 0 \<or> priority (bs ! p0) = threshold
                      then filter (\<lambda>i. threshold \<le> priority (bs ! i)) elig
                      else filter (\<lambda>i. threshold < priority (bs ! i)) elig)
            in Inr \<lparr>si_pos = -1, scheduled_pos = ps, b_no_change = nc \<and> bfilter\<rparr>))))"

definition sched_Next :: "ScheduledIterator \<Rightarrow> ScheduledIterator \<times> bool" where
  "sched_Next it = (it\<lparr>si_pos := si_pos it + 1\<rparr>, True)"

definition sched_done :: "ScheduledIterator \<Rightarrow> bool" where
  "sched_done it \<longleftrightarrow> si_pos it + 1 = int (length (scheduled_pos it))"

text \<open>
  The two passes that sum up \<open>value2\<close> when waiting has been in vain: the one in \<open>get_iterator\<close> looks
  at the result of \<open>Next\<close>, the one in \<open>schedule_iterator\<close> does not. The value is the sum and the
  position where the iterator is left.
\<close>

fun entire_sum :: "bool \<Rightarrow> nat \<Rightarrow> ('k, rat, 'd) StateTable \<Rightarrow> int \<Rightarrow> rat \<Rightarrow> (rat \<times> int) result" where
  "entire_sum looks 0 t p acc = Inl Diverges"
| "entire_sum looks (Suc fuel) t p acc =
     (if it_done t p then Inr (acc, p)
      else rbind (it_Next t p) (\<lambda>(q, cont).
        if looks \<and> \<not> cont then Inr (acc, q)
        else rbind (it_value2 t q) (\<lambda>v. entire_sum looks fuel t q (acc + v))))"

datatype 'i got = NoIterator | Got 'i | EntirePass int

text \<open>
  The waiting loop of \<open>get_iterator\<close> and \<open>schedule_iterator\<close>. \<open>handle i\<close> is the effect on this table of
  the \<open>i\<close>-th round of \<^verbatim>\<open>FlushUpdates\<close>, sleep and \<^verbatim>\<open>HandlePutRequest\<close>; \<open>mk i\<close> constructs the
  \<open>i\<close>-th iterator; the third result lists the arguments of the calls of \<^verbatim>\<open>SendTermcheck\<close>.
\<close>

function st_wait :: "bool \<Rightarrow> (nat \<Rightarrow> ('k, rat, 'd) StateTable \<Rightarrow> ('k, rat, 'd) StateTable) \<Rightarrow>
    (nat \<Rightarrow> ('k, rat, 'd) StateTable \<Rightarrow> 'i result) \<Rightarrow> ('i \<Rightarrow> bool) \<Rightarrow> nat \<Rightarrow> 'i \<Rightarrow> ('k, rat, 'd) StateTable \<Rightarrow>
    ('i got \<times> ('k, rat, 'd) StateTable \<times> (int \<times> int \<times> rat) list) result" where
  "st_wait looks handle mk nochange trial it t =
     (if \<not> nochange it then Inr (Got it, t, [])
      else
        let t1 = handle (trial + 1) t in
        if st_terminated t1 then Inr (NoIterator, t1, [])
        else rbind (mk (trial + 1) t1) (\<lambda>it'.
          if 10 \<le> trial + 1
          then rbind (entire_sum looks (st_size t1 + 1) t1 (-1) 0) (\<lambda>(total, p).
            Inr (EntirePass p, t1\<lparr>st_total_curr := total\<rparr>, [(-1, st_total_updates t1, total)]))
          else st_wait looks handle mk nochange (trial + 1) it' t1))"
  by pat_completeness auto

termination st_wait
  by (relation "measure (\<lambda>(looks, handle, mk, nochange, trial, it, t). 10 - trial)") auto

declare st_wait.simps [simp del]

definition st_get_iterator :: "(nat \<Rightarrow> ('k, rat, 'd) StateTable \<Rightarrow> ('k, rat, 'd) StateTable) option \<Rightarrow> bool \<Rightarrow> rat \<Rightarrow>
    (nat \<Rightarrow> int list) \<Rightarrow> ('k, rat, 'd) StateTable \<Rightarrow>
    ((int \<times> bool) got \<times> ('k, rat, 'd) StateTable \<times> (int \<times> int \<times> rat) list) result" where
  "st_get_iterator helper bfilter defaultv rs t =
     (if st_terminated t then Inr (NoIterator, t, [])
      else case helper of
        None \<Rightarrow> Inl NullDeref
      | Some handle \<Rightarrow>
        let t0 = handle 0 t in
        rbind (it_new sample_size True defaultv (rs 0) t0) (\<lambda>it.
          st_wait True handle (\<lambda>i. it_new sample_size bfilter defaultv (rs i)) snd 0 it t0))"

definition st_schedule_iterator :: "(nat \<Rightarrow> ('k, rat, 'd) StateTable \<Rightarrow> ('k, rat, 'd) StateTable) option \<Rightarrow> bool \<Rightarrow> rat \<Rightarrow>
    rat \<Rightarrow> (nat \<Rightarrow> int list) \<Rightarrow> ('k, rat, 'd) StateTable \<Rightarrow>
    (ScheduledIterator got \<times> ('k, rat, 'd) StateTable \<times> (int \<times> int \<times> rat) list) result" where
  "st_schedule_iterator helper bfilter portion defaultv rs t =
     (if st_terminated t then Inr (NoIterator, t, [])
      else case helper of
        None \<Rightarrow> Inl NullDeref
      | Some handle \<Rightarrow>
        let t0 = handle 0 t in
        rbind (sched_new sample_size portion bfilter defaultv (rs 0) t0) (\<lambda>it.
          st_wait False handle (\<lambda>i. sched_new sample_size portion bfilter defaultv (rs i)) b_no_change 0 it t0))"

text \<open>
  \<^verbatim>\<open>serializeToFile\<close> and \<^verbatim>\<open>serializeToNet\<close> start with \<^verbatim>\<open>get_iterator(NULL, false)\<close> and then call the
  iterator they got; with no iterator, and with no helper, that is a null dereference.
\<close>

fun st_write_from :: "nat \<Rightarrow> (('k, 'v, 'd) sbucket \<Rightarrow> 'w) \<Rightarrow> ('k, 'v, 'd) StateTable \<Rightarrow> int \<Rightarrow> 'w list \<Rightarrow> 'w list result" where
  "st_write_from 0 w t p out = Inl Diverges"
| "st_write_from (Suc fuel) w t p out =
     (if it_done t p then Inr out
      else rbind (vec_at (st_buckets t) p) (\<lambda>s.
        rbind (it_Next t p) (\<lambda>(q, _). st_write_from fuel w t q (out @ [w s]))))"

definition st_serialize :: "(('k, rat, 'd) sbucket \<Rightarrow> 'w) \<Rightarrow> rat \<Rightarrow> (nat \<Rightarrow> int list) \<Rightarrow> ('k, rat, 'd) StateTable \<Rightarrow> 'w list result" where
  "st_serialize w defaultv rs t = rbind (st_get_iterator None False defaultv rs t) (\<lambda>(g, t', _).
     case g of
       NoIterator \<Rightarrow> Inl NullDeref
     | Got (p, _) \<Rightarrow> st_write_from (st_size t' + 1) w t' p []
     | EntirePass p \<Rightarrow> st_write_from (st_size t' + 1) w t' p [])"

definition st_serializeToFile :: "('k \<Rightarrow> string) \<Rightarrow> (rat \<Rightarrow> string) \<Rightarrow> ('d \<Rightarrow> string) \<Rightarrow> rat \<Rightarrow> (nat \<Rightarrow> int list) \<Rightarrow>
    ('k, rat, 'd) StateTable \<Rightarrow> (string \<times> string \<times> string \<times> string) list result" where
  "st_serializeToFile mk mv md = st_serialize (\<lambda>s. (mk (skey s), mv (s1 s), mv (s2 s), md (s3 s)))"

definition st_serializeToNet :: "('k \<Rightarrow> string) \<Rightarrow> (rat \<Rightarrow> string) \<Rightarrow> rat \<Rightarrow> (nat \<Rightarrow> int list) \<Rightarrow>
    ('k, rat, 'd) StateTable \<Rightarrow> (string \<times> string) list result" where
  "st_serializeToNet mk mv = st_serialize (\<lambda>s. (mk (skey s), mv (s1 s)))"

definition st_deserializeFromNet :: "(string \<Rightarrow> 'k) \<Rightarrow> (string \<Rightarrow> 'v) \<Rightarrow> (string \<times> string) list \<Rightarrow>
    ('k \<times> 'v) DecodeIterator \<Rightarrow> ('k \<times> 'v) DecodeIterator" where
  "st_deserializeFromNet uk uv ws it = decode_all (\<lambda>(kt, v1t). (uk kt, uv v1t)) ws it"

definition st_deserializeFromFile :: "(string \<Rightarrow> 'k) \<Rightarrow> (string \<Rightarrow> 'v) \<Rightarrow> (string \<Rightarrow> 'd) \<Rightarrow>
    (string \<times> string \<times> string \<times> string) list \<Rightarrow> ('k \<times> 'v \<times> 'v \<times> 'd) DecodeIterator \<Rightarrow>
    ('k \<times> 'v \<times> 'v \<times> 'd) DecodeIterator" where
  "st_deserializeFromFile uk uv ud ws it =
     decode_all (\<lambda>(kt, v1t, v2t, v3t). (uk kt, uv v1t, uv v2t, ud v3t)) ws it"

definition st_serializeToSnapshot :: "rat \<Rightarrow> ('k, rat, 'd) StateTable \<Rightarrow> ((int \<times> rat) \<times> ('k, rat, 'd) StateTable) result" where
  "st_serializeToSnapshot defaultv t =
     rbind (diff_estimate_prog (st_size t + 1) (it_done t) (it_Next t) (it_value2 t) defaultv (-1) 0)
       (\<lambda>total. Inr ((st_total_updates t, total), t\<lparr>st_total_curr := total\<rparr>))"

section \<open>Well-formed tables and their rows\<close>

definition st_ok :: "('k \<Rightarrow> nat) \<Rightarrow> ('k, 'v, 'd) StateTable \<Rightarrow> bool" where
  "st_ok h t \<longleftrightarrow> st_size t = length (st_buckets t) \<and> st_entries t = used (st_buckets t) \<and>
     open_ok (\<lambda>k. h k mod st_size t) (st_buckets t)"

text \<open>The rows: pending change, value and data of every stored key.\<close>

definition row_of :: "('k, 'v, 'd) sbucket \<Rightarrow> 'v \<times> 'v \<times> 'd" where
  "row_of s = (s1 s, s2 s, s3 s)"

definition st_rows :: "('k, 'v, 'd) StateTable \<Rightarrow> 'k \<rightharpoonup> 'v \<times> 'v \<times> 'd" where
  "st_rows t k = map_option row_of (stored (st_buckets t) k)"

lemma st_okD:
  assumes "st_ok h t"
  shows "st_size t = length (st_buckets t)" and "st_entries t = used (st_buckets t)"
    and "open_ok (\<lambda>k. h k mod st_size t) (st_buckets t)" and "0 < st_size t"
proof -
  show d: "st_size t = length (st_buckets t)" "st_entries t = used (st_buckets t)"
    and op: "open_ok (\<lambda>k. h k mod st_size t) (st_buckets t)"
    using assms unfolding st_ok_def by blast+
  show "0 < st_size t" using open_okD(1) [OF op] d(1) by simp
qed

lemma st_probe_cases:
  assumes ok: "st_ok h t"
  obtains b where "probe (st_size t) (st_buckets t) (st_size t) k (h k mod st_size t) (h k mod st_size t) = Inr (Found b)"
      and "b < length (st_buckets t)" and "in_use (st_buckets t ! b)" and "skey (st_buckets t ! b) = k"
      and "st_rows t k = Some (row_of (st_buckets t ! b))"
  | r where "probe (st_size t) (st_buckets t) (st_size t) k (h k mod st_size t) (h k mod st_size t) = Inr r"
      and "\<And>b. r \<noteq> Found b" and "st_rows t k = None"
      and "probe_right (st_buckets t) k (h k mod st_size t) r"
proof -
  note d = st_okD [OF ok]
  have "h k mod st_size t < length (st_buckets t)" using d(1,4) by simp
  from probe_total [OF this, of k] obtain r
    where r: "probe (st_size t) (st_buckets t) (st_size t) k (h k mod st_size t) (h k mod st_size t) = Inr r"
      "probe_right (st_buckets t) k (h k mod st_size t) r"
    unfolding d(1) .
  show thesis
  proof (cases r)
    case (Found b)
    have "b < length (st_buckets t) \<and> in_use (st_buckets t ! b) \<and> skey (st_buckets t ! b) = k \<and>
      stored (st_buckets t) k = Some (st_buckets t ! b)"
      using r(2) unfolding Found by (rule probe_Found [OF d(3)])
    then show ?thesis using r(1) unfolding Found by (intro that(1)) (simp_all add: st_rows_def)
  next
    case (Free b)
    have "stored (st_buckets t) k = None" using r(2) probe_Free [OF d(3), of k b] unfolding Free by blast
    then have "st_rows t k = None" by (simp add: st_rows_def)
    then show ?thesis using Free by (intro that(2) [OF r(1) _ _ r(2)]) simp_all
  next
    case Full
    have "stored (st_buckets t) k = None" using r(2) probe_Full [OF d(3), of k] unfolding Full by blast
    then have "st_rows t k = None" by (simp add: st_rows_def)
    then show ?thesis using Full by (intro that(2) [OF r(1) _ _ r(2)]) simp_all
  qed
qed

lemma card_st_rows: "st_ok h t \<Longrightarrow> card (dom (st_rows t)) = st_entries t"
  using card_stored [OF st_okD(3), of h t] st_okD(2) [of h t]
  by (simp add: st_rows_def dom_def)

lemma st_modify_ok:
  assumes ok: "st_ok h t" and b: "b < length (st_buckets t)" "in_use (st_buckets t ! b)"
    and f: "\<And>s. in_use (f s) = in_use s" "\<And>s. skey (f s) = skey s"
  shows "st_ok h (st_modify b f t)"
    and "st_rows (st_modify b f t) = (st_rows t)(skey (st_buckets t ! b) \<mapsto> row_of (f (st_buckets t ! b)))"
    and "st_size (st_modify b f t) = st_size t" and "st_entries (st_modify b f t) = st_entries t"
proof -
  note d = st_okD [OF ok]
  let ?s = "f (st_buckets t ! b)"
  have s: "in_use ?s" "skey ?s = skey (st_buckets t ! b)" using b f by simp_all
  show "st_ok h (st_modify b f t)"
    using open_ok_replace [OF d(3) b s] used_replace [OF b s(1)] d(1,2) by (simp add: st_ok_def st_modify_def)
  show "st_rows (st_modify b f t) = (st_rows t)(skey (st_buckets t ! b) \<mapsto> row_of (f (st_buckets t ! b)))"
    using stored_replace [OF d(3) b s] s(2) by (simp add: st_rows_def st_modify_def fun_eq_iff)
qed (simp_all add: st_modify_def)

lemma set_row_simps [simp]:
  "in_use (set_row ker v1 v2 v3 s) = in_use s" "skey (set_row ker v1 v2 v3 s) = skey s"
  "row_of (set_row ker v1 v2 v3 s) = (v1, v2, v3)"
  by (simp_all add: set_row_def row_of_def)

lemma st_insert_ok:
  assumes ok: "st_ok h t" and free: "probe_right (st_buckets t) k (h k mod st_size t) (Free b)"
  shows "st_ok h (st_insert_at ker b k v1 v2 v3 t)" and "st_rows (st_insert_at ker b k v1 v2 v3 t) = (st_rows t)(k \<mapsto> (v1, v2, v3))" and "st_size (st_insert_at ker b k v1 v2 v3 t) = st_size t"
proof -
  note d = st_okD [OF ok]
  let ?s = "set_row ker v1 v2 v3 ((st_buckets t ! b)\<lparr>in_use := True, skey := k\<rparr>)"
  have b: "b < length (st_buckets t)" "\<not> in_use (st_buckets t ! b)" using probe_Free [OF d(3) free] by auto
  have free': "probe_right (st_buckets t) (skey ?s) (h (skey ?s) mod st_size t) (Free b)" using free by simp
  show "st_ok h (st_insert_at ker b k v1 v2 v3 t)"
    using open_ok_insert [OF d(3) free'] used_insert [OF b, of ?s] d(1,2)
    by (simp add: st_insert_at_def st_ok_def st_modify_def)
  show "st_rows (st_insert_at ker b k v1 v2 v3 t) = (st_rows t)(k \<mapsto> (v1, v2, v3))"
    using stored_insert [OF d(3) free'] by (simp add: st_insert_at_def st_rows_def st_modify_def fun_eq_iff)
qed (simp_all add: st_insert_at_def st_modify_def)

section \<open>Operations on well-formed tables\<close>

text \<open>\<open>put\<close> of a key that is there, or into a table with a free bucket.\<close>

lemma st_put_ok:
  assumes ok: "st_ok h t" and room: "st_rows t k = None \<Longrightarrow> st_entries t < st_size t"
  shows "\<exists>t'. st_put (Suc f) h nb ker k v1 v2 v3 t = Inr t' \<and> st_ok h t' \<and>
    st_rows t' = (st_rows t)(k \<mapsto> (v1, v2, v3)) \<and> st_size t' = st_size t"
proof (cases rule: st_probe_cases [OF ok, of k])
  case (1 b)
  then show ?thesis using st_modify_ok [OF ok 1(2,3), of "set_row ker v1 v2 v3"] st_okD(4) [OF ok]
    by (simp add: st_bucket_idx_def)
next
  case (2 r)
  note d = st_okD [OF ok]
  have room: "st_entries t < st_size t" using room 2 by simp
  have "r \<noteq> Full" using 2(4) room d probe_Full [OF d(3), of k] by auto
  with 2(2) obtain b where "r = Free b" by (cases r) auto
  with 2 room d(4) st_insert_ok [OF ok, of k b ker v1 v2 v3] show ?thesis by (simp add: st_bucket_idx_def)
qed

lemma st_find_cases:
  assumes ok: "st_ok h t"
  obtains b where "st_find h k t = Inr b" and "b < length (st_buckets t)"
      and "in_use (st_buckets t ! b)" and "skey (st_buckets t ! b) = k"
      and "st_rows t k = Some (row_of (st_buckets t ! b))"
  | "st_find h k t = Inl CheckFailed" and "st_bucket_for_key h t k = Inr (-1)" and "st_rows t k = None"
proof (cases rule: st_probe_cases [OF ok, of k])
  case (1 b)
  then show thesis using st_okD(4) [OF ok]
    by (intro that(1) [of b]) (simp_all add: st_find_def st_bucket_for_key_def st_bucket_idx_def check_def)
next
  case (2 r)
  then have "st_bucket_for_key h t k = Inr (-1)" using st_okD(4) [OF ok]
    by (cases r) (auto simp: st_bucket_for_key_def st_bucket_idx_def)
  with 2(3) show thesis by (intro that(2)) (simp_all add: st_find_def check_def)
qed

lemma st_get_rows:
  assumes "st_ok h t"
  shows "st_get h k t = (case st_rows t k of None \<Rightarrow> Inl CheckFailed | Some (v1, v2, v3) \<Rightarrow> Inr (k, v1, v2, v3))"
  by (cases rule: st_find_cases [OF assms, of k]) (auto simp: st_get_def result_simps row_of_def)

lemma st_contains_rows:
  assumes "st_ok h t"
  shows "st_contains h k t = Inr (st_rows t k \<noteq> None)"
proof (cases rule: st_find_cases [OF assms, of k])
  case (1 b)
  then show ?thesis by (cases "st_bucket_for_key h t k") (auto simp: st_find_def st_contains_def check_def split: if_splits)
next
  case 2
  then show ?thesis by (simp add: st_contains_def)
qed

lemma st_total_updates_irrelevant [simp]:
  "st_ok h (t\<lparr>st_total_updates := u\<rparr>) = st_ok h t" "st_rows (t\<lparr>st_total_updates := u\<rparr>) = st_rows t"
  by (simp_all add: st_ok_def st_rows_def fun_eq_iff)

text \<open>One lemma for the operations that change one field of a row.\<close>

lemma st_access:
  assumes ok: "st_ok h t"
    and f: "\<And>s. in_use (f s) = in_use s" "\<And>s. skey (f s) = skey s" "\<And>s. row_of (f s) = g (row_of s)"
  shows "case st_rows t k of
      None \<Rightarrow> rbind (st_find h k t) (\<lambda>b. Inr ((st_modify b f t)\<lparr>st_total_updates := u\<rparr>)) = Inl CheckFailed
    | Some row \<Rightarrow> \<exists>t'. rbind (st_find h k t) (\<lambda>b. Inr ((st_modify b f t)\<lparr>st_total_updates := u\<rparr>)) = Inr t' \<and> st_ok h t' \<and>
        st_rows t' = (st_rows t)(k \<mapsto> g row) \<and> st_size t' = st_size t \<and> st_total_updates t' = u"
proof (cases rule: st_find_cases [OF ok, of k])
  case (1 b)
  then show ?thesis using st_modify_ok [OF ok 1(2,3) f(1,2)] f(3) by simp
next
  case 2
  then show ?thesis by simp
qed

lemma st_modify_updates: "(st_modify b f t)\<lparr>st_total_updates := st_total_updates t\<rparr> = st_modify b f t"
  by (simp add: st_modify_def)

lemma st_updateF1_rows:
  assumes "st_ok h t"
  shows "case st_rows t k of
      None \<Rightarrow> st_updateF1 h k v t = Inl CheckFailed
    | Some (v1, v2, v3) \<Rightarrow> \<exists>t'. st_updateF1 h k v t = Inr t' \<and> st_ok h t' \<and>
        st_rows t' = (st_rows t)(k \<mapsto> (v, v2, v3)) \<and> st_size t' = st_size t \<and>
        st_total_updates t' = st_total_updates t + 1"
  unfolding st_updateF1_def
  using st_access [OF assms, where f = "\<lambda>s. s\<lparr>s1 := v, priority := 0\<rparr>" and g = "\<lambda>(v1, v2, v3). (v, v2, v3)"
      and u = "st_total_updates t + 1" and k = k]
  by (auto simp: row_of_def split: option.splits)

lemma st_accumulateF1_rows:
  assumes "st_ok h t"
  shows "case st_rows t k of
      None \<Rightarrow> st_accumulateF1 h ker k v t = Inl CheckFailed
    | Some (v1, v2, v3) \<Rightarrow> \<exists>t'. st_accumulateF1 h ker k v t = Inr t' \<and> st_ok h t' \<and>
        st_rows t' = (st_rows t)(k \<mapsto> (k_accumulate ker v1 v, v2, v3)) \<and> st_size t' = st_size t \<and>
        st_total_updates t' = st_total_updates t"
  unfolding st_accumulateF1_def
  using st_access [OF assms, where f = "\<lambda>s. let s' = s\<lparr>s1 := k_accumulate ker (s1 s) v\<rparr>
       in s'\<lparr>priority := k_priority ker (priority s') (s2 s') (s1 s')\<rparr>"
      and g = "\<lambda>(v1, v2, v3). (k_accumulate ker v1 v, v2, v3)" and u = "st_total_updates t" and k = k]
  by (auto simp: row_of_def Let_def st_modify_updates split: option.splits)

lemma st_accumulateF2_rows:
  assumes "st_ok h t"
  shows "case st_rows t k of
      None \<Rightarrow> st_accumulateF2 h ker k v t = Inl CheckFailed
    | Some (v1, v2, v3) \<Rightarrow> \<exists>t'. st_accumulateF2 h ker k v t = Inr t' \<and> st_ok h t' \<and>
        st_rows t' = (st_rows t)(k \<mapsto> (v1, k_accumulate ker v2 v, v3)) \<and> st_size t' = st_size t \<and>
        st_total_updates t' = st_total_updates t"
  unfolding st_accumulateF2_def
  using st_access [OF assms, where f = "\<lambda>s. s\<lparr>s2 := k_accumulate ker (s2 s) v\<rparr>"
      and g = "\<lambda>(v1, v2, v3). (v1, k_accumulate ker v2 v, v3)" and u = "st_total_updates t" and k = k]
  by (auto simp: row_of_def st_modify_updates split: option.splits)

lemma st_updateF2_rows:
  assumes "st_ok h t"
  shows "case st_rows t k of
      None \<Rightarrow> st_updateF2 h k v t = Inl CheckFailed
    | Some (v1, v2, v3) \<Rightarrow> \<exists>t'. st_updateF2 h k v t = Inr t' \<and> st_ok h t' \<and>
        st_rows t' = (st_rows t)(k \<mapsto> (v1, v, v3)) \<and> st_size t' = st_size t"
  unfolding st_updateF2_def
  using st_access [OF assms, where f = "\<lambda>s. s\<lparr>s2 := v\<rparr>"
      and g = "\<lambda>(v1, v2, v3). (v1, v, v3)" and u = "st_total_updates t" and k = k]
  by (auto simp: row_of_def st_modify_updates split: option.splits)

lemma st_updateF3_rows:
  assumes "st_ok h t"
  shows "case st_rows t k of
      None \<Rightarrow> st_updateF3 h k v t = Inl CheckFailed
    | Some (v1, v2, v3) \<Rightarrow> \<exists>t'. st_updateF3 h k v t = Inr t' \<and> st_ok h t' \<and>
        st_rows t' = (st_rows t)(k \<mapsto> (v1, v2, v)) \<and> st_size t' = st_size t"
  unfolding st_updateF3_def
  using st_access [OF assms, where f = "\<lambda>s. s\<lparr>s3 := v\<rparr>"
      and g = "\<lambda>(v1, v2, v3). (v1, v2, v)" and u = "st_total_updates t" and k = k]
  by (auto simp: row_of_def st_modify_updates split: option.splits)

section \<open>Resizing and filling\<close>

lemma st_rows_map_of:
  "st_rows t = map_of (map (\<lambda>s. (skey s, row_of s)) (filter in_use (st_buckets t)))"
  by (simp add: st_rows_def stored_def fun_eq_iff map_option_map_of)

lemma finite_st_rows: "finite (dom (st_rows t))"
  by (simp add: st_rows_map_of finite_dom_map_of)

definition put_row :: "nat \<Rightarrow> ('k \<Rightarrow> nat) \<Rightarrow> ('k, 'v, 'd) sbucket \<Rightarrow> ('k, 'v, 'd) kernel \<Rightarrow> 'k \<Rightarrow> 'v \<times> 'v \<times> 'd \<Rightarrow>
    ('k, 'v, 'd) StateTable \<Rightarrow> ('k, 'v, 'd) StateTable result" where
  "put_row f h nb ker k row = st_put f h nb ker k (fst row) (fst (snd row)) (snd (snd row))"

interpretation st_fill: probed_table "\<lambda>t. st_ok h t \<and> st_size t = n" st_rows st_entries
    "put_row (Suc f) h nb ker" n
  for h :: "'k \<Rightarrow> nat" and nb :: "('k, 'v, 'd) sbucket" and ker f n
proof unfold_locales
  fix t :: "('k, 'v, 'd) StateTable" and k row
  assume t: "st_ok h t \<and> st_size t = n"
  then show "finite (dom (st_rows t)) \<and> st_entries t = card (dom (st_rows t))"
    using card_st_rows [of h t] by (simp add: finite_st_rows)
  assume "st_entries t < n"
  then show "\<exists>t'. put_row (Suc f) h nb ker k row t = Inr t' \<and> (st_ok h t' \<and> st_size t' = n) \<and>
      st_rows t' = (st_rows t)(k \<mapsto> row)"
    using t st_put_ok [of h t k f nb ker "fst row" "fst (snd row)" "snd (snd row)"]
    by (auto simp: put_row_def)
qed

lemma st_cleared:
  assumes "0 < n" and "length bs = n"
  shows "st_ok h (st_clear (t\<lparr>st_buckets := bs, st_size := n\<rparr>))"
    and "st_rows (st_clear (t\<lparr>st_buckets := bs, st_size := n\<rparr>)) = Map.empty"
proof -
  let ?bs = "map (in_use_update (\<lambda>_. False)) bs"
  have "?bs \<noteq> []" using assms by auto
  moreover have "h k mod n < length ?bs" for k using assms by simp
  ultimately have "open_ok (\<lambda>k. h k mod n) ?bs" "stored ?bs = Map.empty" "used ?bs = 0"
    by (rule open_ok_cleared; auto)+
  then show "st_ok h (st_clear (t\<lparr>st_buckets := bs, st_size := n\<rparr>))"
    and "st_rows (st_clear (t\<lparr>st_buckets := bs, st_size := n\<rparr>)) = Map.empty"
    using assms by (simp_all add: st_clear_def st_ok_def st_rows_def fun_eq_iff)
qed

lemma st_resize_ok:
  assumes ok: "st_ok h t" and n: "0 < n" "int (st_entries t) \<le> n"
  shows "\<exists>t'. st_resize (Suc (Suc f)) h nb ker n t = Inr t' \<and> st_ok h t' \<and> st_rows t' = st_rows t \<and>
    int (st_size t') = n"
proof (cases "int (st_size t) = n")
  case True
  with ok n show ?thesis by simp
next
  case False
  let ?ss = "filter in_use (st_buckets t)"
  let ?ps = "map (\<lambda>s. (skey s, row_of s)) ?ss"
  let ?bs = "take (nat n) (st_buckets t) @ replicate (nat n - length (st_buckets t)) nb"
  let ?t0 = "st_clear (t\<lparr>st_buckets := ?bs, st_size := nat n\<rparr>)"
  have t0: "st_ok h ?t0" "st_rows ?t0 = Map.empty" "st_size ?t0 = nat n" "st_entries ?t0 = 0"
    using n by (simp_all add: st_cleared) (simp_all add: st_clear_def)
  have "st_entries ?t0 + length ?ps \<le> nat n" using st_okD(2) [OF ok] n t0(4) by (simp add: used_def)
  moreover have "distinct (map fst ?ps)"
    using open_ok_distinct [OF st_okD(3) [OF ok]] by (simp add: comp_def)
  ultimately obtain t' where t': "rfold (\<lambda>p. put_row (Suc f) h nb ker (fst p) (snd p)) ?ps ?t0 = Inr t'"
      "st_ok h t' \<and> st_size t' = nat n" "st_rows t' = st_rows ?t0 ++ map_of ?ps"
    using st_fill.put_all [of h ?t0 "nat n" ?ps f nb ker] t0 by auto
  have "st_resize (Suc (Suc f)) h nb ker n t = Inr t'"
    using False n t'(1) by (simp add: Let_def rfold_filter rfold_map put_row_def row_of_def del: st_put.simps)
  with t' t0(2) n show ?thesis by (simp add: st_rows_map_of)
qed

lemma st_new_ok:
  assumes "0 < n"
  shows "\<exists>t. st_new h nb ker n = Inr t \<and> st_ok h t \<and> st_rows t = Map.empty \<and> int (st_size t) = n"
proof -
  have "st_new h nb ker n = Inr (st_clear (st_blank\<lparr>st_buckets := replicate (nat n) nb, st_size := nat n\<rparr>))"
    using assms by (simp add: st_new_def st_fuel_Suc st_clear_def st_blank_def)
  moreover have "st_size (st_clear (st_blank\<lparr>st_buckets := replicate (nat n) nb, st_size := nat n\<rparr>)) = nat n"
    by (simp add: st_clear_def)
  ultimately show ?thesis using assms by (simp add: st_cleared)
qed

section \<open>Passes over the table\<close>

lemma it_Next_spec:
  assumes "st_size t = length (st_buckets t)" and "- 1 \<le> p" and "p < int (st_size t)"
  shows "\<exists>q. it_Next t p = Inr (int q, q < st_size t) \<and> p < int q \<and> q \<le> st_size t \<and>
    rest (st_buckets t) (nat (p + 1)) = rest (st_buckets t) q \<and> (q < st_size t \<longrightarrow> in_use (st_buckets t ! q))"
proof -
  have "nat (p + 1) \<le> length (st_buckets t)" using assms by simp
  from scan_spec [OF this] obtain q where
    "scan (st_buckets t) (st_size t) (nat (p + 1)) = Inr q" "nat (p + 1) \<le> q" "q \<le> st_size t"
    "rest (st_buckets t) (nat (p + 1)) = rest (st_buckets t) q" "q < st_size t \<longrightarrow> in_use (st_buckets t ! q)"
    using assms(1) by auto
  then show ?thesis using assms(2) by (intro exI [of _ q]) (auto simp: it_Next_def)
qed

lemma it_rest_end: "st_size t = length (st_buckets t) \<Longrightarrow> p = int (st_size t) - 1 \<Longrightarrow> rest (st_buckets t) (nat (p + 1)) = []"
  by simp

lemma it_rest_step: "st_size t = length (st_buckets t) \<Longrightarrow> q < st_size t \<Longrightarrow> in_use (st_buckets t ! q) \<Longrightarrow>
  rest (st_buckets t) q = st_buckets t ! q # rest (st_buckets t) (nat (int q + 1))"
  by (simp add: rest_step nat_add_distrib)

lemma estimate_rest:
  assumes "st_size t = length (st_buckets t)" and "- 1 \<le> p" and "p < int (st_size t)"
    and "int (st_size t) \<le> int fuel + p + 1"
  shows "diff_estimate_prog (Suc fuel) (it_done t) (it_Next t) (it_value2 t) d p acc =
    Inr (acc + sum_list (filter (\<lambda>v. v \<noteq> d) (map s2 (rest (st_buckets t) (nat (p + 1))))))"
  using assms(2-)
proof (induction fuel arbitrary: p acc)
  case 0
  then have "it_done t p" by (simp add: it_done_def)
  then show ?case using it_rest_end [OF assms(1), of p] by (simp add: it_done_def)
next
  case (Suc fuel)
  show ?case
  proof (cases "it_done t p")
    case True
    then show ?thesis using it_rest_end [OF assms(1), of p] by (simp add: it_done_def)
  next
    case False
    from it_Next_spec [OF assms(1) Suc.prems(1,2)] obtain q where q: "it_Next t p = Inr (int q, q < st_size t)"
      "p < int q" "q \<le> st_size t" "rest (st_buckets t) (nat (p + 1)) = rest (st_buckets t) q"
      "q < st_size t \<longrightarrow> in_use (st_buckets t ! q)" by blast
    show ?thesis
    proof (cases "q < st_size t")
      case True
      have "it_value2 t (int q) = Inr (s2 (st_buckets t ! q))"
        using True assms(1) by (simp add: it_value2_def result_simps)
      moreover have "diff_estimate_prog (Suc fuel) (it_done t) (it_Next t) (it_value2 t) d (int q) a =
        Inr (a + sum_list (filter (\<lambda>v. v \<noteq> d) (map s2 (rest (st_buckets t) (nat (int q + 1))))))" for a
        using True q(2) Suc.prems by (intro Suc.IH) auto
      ultimately show ?thesis
        using False q True it_rest_step [OF assms(1) True]
        by (simp del: diff_estimate_prog.simps add: diff_estimate_prog.simps(2) [of "Suc fuel"])
    next
      case past: False
      then have "rest (st_buckets t) q = []" using assms(1) by simp
      with past False q show ?thesis by simp
    qed
  qed
qed


text \<open>A small table for the examples: summing kernel, keys hashed to themselves, three buckets.\<close>

definition sum_kernel :: "(nat, rat, unit) kernel" where
  "sum_kernel = \<lparr>k_default_v = 0, k_init_c = (\<lambda>_ _. 1), k_init_v = (\<lambda>_ _. 0), k_accumulate = (+),
     k_process_delta_v = (\<lambda>_ d v _. (d, v)), k_priority = (\<lambda>_ _ d. d), k_g_func = (\<lambda>_ _ _ _. [])\<rparr>"

definition ex_row :: "nat \<Rightarrow> bool \<Rightarrow> 'v \<Rightarrow> 'v \<Rightarrow> (nat, 'v, unit) sbucket" where
  "ex_row k u v w = \<lparr>skey = k, in_use = u, s1 = v, s2 = w, s3 = (), priority = v\<rparr>"

definition ex_table :: "(nat, 'v, unit) sbucket list \<Rightarrow> (nat, 'v, unit) StateTable" where
  "ex_table bs = \<lparr>st_buckets = bs, st_entries = length (filter in_use bs), st_size = length bs,
     st_total_curr = 0, st_total_updates = 0, st_terminated = False\<rparr>"

lemma ex_table_ok:
  assumes "bs \<noteq> []" and "distinct (map skey (filter in_use bs))"
    and "\<And>p. p < length bs \<Longrightarrow> in_use (bs ! p) \<Longrightarrow> skey (bs ! p) = p"
  shows "st_ok id (ex_table bs)"
proof -
  have "\<exists>j < length bs. p = pos (length bs) (skey (bs ! p) mod length bs) j \<and>
      (\<forall>i < j. in_use (bs ! pos (length bs) (skey (bs ! p) mod length bs) i))"
    if "p < length bs" "in_use (bs ! p)" for p
    using that assms(1) assms(3) [OF that] by (intro exI [of _ 0]) (simp add: pos_def)
  then have "open_ok (\<lambda>k. k mod length bs) bs"
    using assms(1,3) unfolding open_ok_def by fastforce
  then show ?thesis by (simp add: st_ok_def ex_table_def used_def id_def)
qed


section \<open>Runs of the table's operations\<close>

datatype ('k, 'v, 'd) sop =
    SPut 'k 'v 'v 'd
  | SUpdateF1 'k 'v
  | SUpdateF2 'k 'v
  | SUpdateF3 'k 'd
  | SAccumulateF1 'k 'v
  | SAccumulateF2 'k 'v

fun st_step :: "('k \<Rightarrow> nat) \<Rightarrow> ('k, 'v::zero, 'd) sbucket \<Rightarrow> ('k, 'v, 'd) kernel \<Rightarrow> ('k, 'v, 'd) sop \<Rightarrow>
    ('k, 'v, 'd) StateTable \<Rightarrow> ('k, 'v, 'd) StateTable result" where
  "st_step h nb ker (SPut k a b c) t = st_put st_fuel h nb ker k a b c t"
| "st_step h nb ker (SUpdateF1 k v) t = st_updateF1 h k v t"
| "st_step h nb ker (SUpdateF2 k v) t = st_updateF2 h k v t"
| "st_step h nb ker (SUpdateF3 k v) t = st_updateF3 h k v t"
| "st_step h nb ker (SAccumulateF1 k v) t = st_accumulateF1 h ker k v t"
| "st_step h nb ker (SAccumulateF2 k v) t = st_accumulateF2 h ker k v t"

text \<open>The same operations on a plain map of rows; a missing key is a failed CHECK.\<close>

definition on_row :: "'k \<Rightarrow> ('r \<Rightarrow> 'r) \<Rightarrow> ('k \<rightharpoonup> 'r) \<Rightarrow> ('k \<rightharpoonup> 'r) result" where
  "on_row k f m = (case m k of None \<Rightarrow> Inl CheckFailed | Some r \<Rightarrow> Inr (m(k \<mapsto> f r)))"

fun row_step :: "('k, 'v, 'd) kernel \<Rightarrow> ('k, 'v, 'd) sop \<Rightarrow> ('k \<rightharpoonup> 'v \<times> 'v \<times> 'd) \<Rightarrow> ('k \<rightharpoonup> 'v \<times> 'v \<times> 'd) result" where
  "row_step ker (SPut k a b c) m = Inr (m(k \<mapsto> (a, b, c)))"
| "row_step ker (SUpdateF1 k v) m = on_row k (\<lambda>(a, b, c). (v, b, c)) m"
| "row_step ker (SUpdateF2 k v) m = on_row k (\<lambda>(a, b, c). (a, v, c)) m"
| "row_step ker (SUpdateF3 k v) m = on_row k (\<lambda>(a, b, c). (a, b, v)) m"
| "row_step ker (SAccumulateF1 k v) m = on_row k (\<lambda>(a, b, c). (k_accumulate ker a v, b, c)) m"
| "row_step ker (SAccumulateF2 k v) m = on_row k (\<lambda>(a, b, c). (a, k_accumulate ker b v, c)) m"

fun put_key :: "('k, 'v, 'd) sop \<Rightarrow> 'k set" where
  "put_key (SPut k a b c) = {k}"
| "put_key _ = {}"

definition simulates :: "('k \<Rightarrow> nat) \<Rightarrow> nat \<Rightarrow> ('k, 'v, 'd) StateTable result \<Rightarrow> ('k \<rightharpoonup> 'v \<times> 'v \<times> 'd) result \<Rightarrow> bool" where
  "simulates h n r m = (case m of Inl e \<Rightarrow> r = Inl e
     | Inr m' \<Rightarrow> \<exists>t. r = Inr t \<and> st_ok h t \<and> st_size t = n \<and> st_rows t = m')"

lemmas st_row_ops = st_updateF1_rows st_updateF2_rows st_updateF3_rows st_accumulateF1_rows st_accumulateF2_rows

lemma st_step_simulates:
  assumes ok: "st_ok h t" and "st_size t = n"
    and room: "\<And>k. k \<in> put_key x \<Longrightarrow> st_rows t k = None \<Longrightarrow> st_entries t < n"
  shows "simulates h n (st_step h nb ker x t) (row_step ker x (st_rows t))"
proof (cases x)
  case (SPut k a b c)
  have "\<exists>t'. st_put st_fuel h nb ker k a b c t = Inr t' \<and> st_ok h t' \<and>
    st_rows t' = (st_rows t)(k \<mapsto> (a, b, c)) \<and> st_size t' = st_size t"
    unfolding st_fuel_Suc by (rule st_put_ok [OF ok]) (use SPut room assms(2) in auto)
  then show ?thesis using SPut assms(2) by (auto simp: simulates_def)
next
  case (SUpdateF1 k v)
  then show ?thesis using st_updateF1_rows [OF ok, where k = k and v = v] assms(2)
    by (auto simp: simulates_def on_row_def split: option.splits)
next
  case (SUpdateF2 k v)
  then show ?thesis using st_updateF2_rows [OF ok, where k = k and v = v] assms(2)
    by (auto simp: simulates_def on_row_def split: option.splits)
next
  case (SUpdateF3 k v)
  then show ?thesis using st_updateF3_rows [OF ok, where k = k and v = v] assms(2)
    by (auto simp: simulates_def on_row_def split: option.splits)
next
  case (SAccumulateF1 k v)
  then show ?thesis using st_accumulateF1_rows [OF ok, where k = k and v = v and ker = ker] assms(2)
    by (auto simp: simulates_def on_row_def split: option.splits)
next
  case (SAccumulateF2 k v)
  then show ?thesis using st_accumulateF2_rows [OF ok, where k = k and v = v and ker = ker] assms(2)
    by (auto simp: simulates_def on_row_def split: option.splits)
qed

lemma on_row_dom: "on_row k f m = Inr m' \<Longrightarrow> dom m' = dom m"
  by (auto simp: on_row_def split: option.splits if_splits)

lemma row_step_dom: "row_step ker x m = Inr m' \<Longrightarrow> dom m' = dom m \<union> put_key x"
  by (cases x) (auto dest!: on_row_dom)

lemma st_run_simulates:
  assumes "st_ok h t" and "st_size t = n" and "finite K" and "card K \<le> n"
    and "dom (st_rows t) \<union> \<Union> (put_key ` set xs) \<subseteq> K"
  shows "simulates h n (rfold (st_step h nb ker) xs t) (rfold (row_step ker) xs (st_rows t))"
  using assms
proof (induction xs arbitrary: t)
  case Nil
  then show ?case by (simp add: simulates_def)
next
  case (Cons x xs)
  have room: "st_entries t < n" if "k \<in> put_key x" "st_rows t k = None" for k
  proof -
    have "dom (st_rows t) \<subset> K" using that Cons.prems(5) by auto
    then have "card (dom (st_rows t)) < card K" by (rule psubset_card_mono [OF Cons.prems(3)])
    then show ?thesis using card_st_rows [OF Cons.prems(1)] Cons.prems(4) by simp
  qed
  from st_step_simulates [OF Cons.prems(1,2) room]
  have step: "simulates h n (st_step h nb ker x t) (row_step ker x (st_rows t))" .
  show ?case
  proof (cases "row_step ker x (st_rows t)")
    case (Inl e)
    with step show ?thesis by (simp add: simulates_def)
  next
    case (Inr m)
    with step obtain t1 where t1: "st_step h nb ker x t = Inr t1" "st_ok h t1" "st_size t1 = n" "st_rows t1 = m"
      by (auto simp: simulates_def)
    have "dom (st_rows t1) \<union> \<Union> (put_key ` set xs) \<subseteq> K"
      using Cons.prems(5) row_step_dom [OF Inr] t1(4) by auto
    from Cons.IH [OF t1(2,3) Cons.prems(3,4) this] show ?thesis using t1 Inr by simp
  qed
qed

text \<open>
  C12: on a \<^verbatim>\<open>StateTable\<close> constructed for at least as many rows as there are different keys put, every
  sequence of \<^verbatim>\<open>put\<close>, \<^verbatim>\<open>updateF1/F2/F3\<close> and \<^verbatim>\<open>accumulateF1/F2\<close> behaves as on a plain map of rows: it
  stops with a failed CHECK exactly when an operation names a key that was not put, and otherwise
  \<^verbatim>\<open>get\<close> returns for every key the row of the map.
\<close>

theorem statetable_refines_rows:
  assumes "card (\<Union> (put_key ` set xs)) \<le> n" and "0 < n"
  shows "\<exists>t0. st_new h nb ker (int n) = Inr t0 \<and>
    (case rfold (row_step ker) xs Map.empty of
       Inl e \<Rightarrow> rfold (st_step h nb ker) xs t0 = Inl e
     | Inr m \<Rightarrow> \<exists>t. rfold (st_step h nb ker) xs t0 = Inr t \<and>
         (\<forall>k. st_get h k t = (case m k of None \<Rightarrow> Inl CheckFailed | Some (a, b, c) \<Rightarrow> Inr (k, a, b, c))))"
proof -
  from st_new_ok [of "int n" h nb ker] assms(2) obtain t0
    where t0: "st_new h nb ker (int n) = Inr t0" "st_ok h t0" "st_rows t0 = Map.empty" "st_size t0 = n" by auto
  have "finite (put_key x)" for x :: "('a, 'b, 'c) sop" by (cases x) auto
  then have "finite (\<Union> (put_key ` set xs))" by blast
  from st_run_simulates [OF t0(2,4) this assms(1), of xs nb ker] t0(3)
  have "simulates h n (rfold (st_step h nb ker) xs t0) (rfold (row_step ker) xs Map.empty)" by simp
  then show ?thesis
    using t0(1) st_get_rows [of h] by (auto simp: simulates_def split: sum.splits)
qed

definition blank_row :: "(nat, rat, unit) sbucket" where
  "blank_row = ex_row 0 False 0 0"

theorem statetable_refines_rows_witness:
  "\<exists>t0 t. st_new id blank_row sum_kernel 2 = Inr t0 \<and>
     rfold (st_step id blank_row sum_kernel)
       [SPut 0 1 0 (), SPut 2 1 0 (), SAccumulateF1 0 5, SAccumulateF2 0 6, SUpdateF1 0 0] t0 = Inr t \<and>
     st_get id 0 t = Inr (0, 0, 6, ()) \<and> st_get id 2 t = Inr (2, 1, 0, ()) \<and> st_get id 1 t = Inl CheckFailed"
  using statetable_refines_rows [of "[SPut 0 1 0 (), SPut 2 1 0 (), SAccumulateF1 0 5, SAccumulateF2 0 6, SUpdateF1 0 0]"
      2 id blank_row sum_kernel]
  by (auto simp: on_row_def sum_kernel_def)

section \<open>Behaviour outside the contract\<close>

lemma st_full_used:
  assumes "st_ok h t" and "st_entries t = st_size t" and p: "p < length (st_buckets t)"
  shows "in_use (st_buckets t ! p)"
proof (rule ccontr)
  let ?bs = "(st_buckets t)[p := (st_buckets t ! p)\<lparr>in_use := True\<rparr>]"
  assume "\<not> in_use (st_buckets t ! p)"
  then have "used ?bs = Suc (used (st_buckets t))" by (intro used_insert [OF p]) simp_all
  then show False using used_le [of ?bs] assms(2) st_okD(1,2) [OF assms(1)] by simp
qed

lemma st_contains_absent:
  assumes "length (st_buckets t) = st_size t" and "0 < st_size t"
    and gone: "\<And>p. p < st_size t \<Longrightarrow> \<not> (in_use (st_buckets t ! p) \<and> skey (st_buckets t ! p) = k)"
  shows "st_contains h k t = Inr False"
proof -
  have "h k mod st_size t < length (st_buckets t)" using assms(1,2) by simp
  from probe_total [OF this, of k] obtain r
    where r: "probe (st_size t) (st_buckets t) (st_size t) k (h k mod st_size t) (h k mod st_size t) = Inr r"
      "probe_right (st_buckets t) k (h k mod st_size t) r" unfolding assms(1) .
  have "r \<noteq> Found i" for i using r(2) gone [of i] assms(1) by (metis probe_right.simps(1))
  then have "st_bucket_for_key h t k = Inr (-1)"
    using r(1) assms(2) by (cases r) (auto simp: st_bucket_for_key_def st_bucket_idx_def)
  then show ?thesis by (simp add: st_contains_def)
qed

text \<open>
  C37: inserting a new key into a full \<^verbatim>\<open>StateTable\<close> (\<^verbatim>\<open>entries_ == size_\<close>) does not expand the table:
  the test \<^verbatim>\<open>entries_ > size_\<close> is false, and the row in the first probed bucket is overwritten. The
  key it belonged to is gone and \<^verbatim>\<open>entries_\<close> exceeds the number of rows.
\<close>

theorem full_put_overwrites:
  assumes ok: "st_ok h t" and full: "st_entries t = st_size t" and new: "st_rows t k = None"
  shows "\<exists>t'. st_put (Suc f) h nb ker k a b c t = Inr t' \<and> st_size t' = st_size t \<and>
    st_entries t' = st_size t + 1 \<and>
    st_rows t (skey (st_buckets t ! (h k mod st_size t))) \<noteq> None \<and>
    st_contains h (skey (st_buckets t ! (h k mod st_size t))) t' = Inr False"
proof (cases rule: st_probe_cases [OF ok, of k])
  case (1 i)
  with new show ?thesis by simp
next
  case (2 r)
  note d = st_okD [OF ok]
  let ?b = "h k mod st_size t"
  let ?t = "st_insert_at ker ?b k a b c t"
  have b: "?b < length (st_buckets t)" using d(1,4) by simp
  note use = st_full_used [OF ok full]
  have "r = Full"
  proof (cases r)
    case (Free i)
    with 2(4) probe_Free [OF d(3), of k i] use [of i] show ?thesis by blast
  qed (use 2(2) in blast)+
  with 2 full d(4) have put: "st_put (Suc f) h nb ker k a b c t = Inr ?t" by (simp add: st_bucket_idx_def)
  let ?v = "skey (st_buckets t ! ?b)"
  let ?s = "set_row ker a b c ((st_buckets t ! ?b)\<lparr>in_use := True, skey := k\<rparr>)"
  have bs: "st_buckets ?t = (st_buckets t)[?b := ?s]" "st_size ?t = st_size t" "st_entries ?t = st_size t + 1"
    using full by (simp_all add: st_insert_at_def st_modify_def)
  have stored: "st_rows t ?v = Some (row_of (st_buckets t ! ?b))"
    using stored_Some [OF d(3) b use [OF b] refl] by (simp add: st_rows_def)
  have gone: "\<not> (in_use (st_buckets ?t ! p) \<and> skey (st_buckets ?t ! p) = ?v)" if "p < length (st_buckets t)" for p
  proof (cases "p = ?b")
    case True
    have "k \<noteq> ?v" using new stored by (metis option.distinct(1))
    then show ?thesis using True b by (simp add: bs(1))
  next
    case False
    then have "skey (st_buckets t ! p) \<noteq> ?v"
      using open_okD(3) [OF d(3) that b use [OF that] use [OF b]] by blast
    then show ?thesis using False by (simp add: bs(1))
  qed
  have "st_contains h ?v ?t = Inr False"
    using bs(1,2) d(1,4) gone by (intro st_contains_absent) auto
  with put stored bs show ?thesis by (intro exI [of _ ?t]) simp
qed

theorem full_put_overwrites_witness:
  "\<exists>t'. st_put 1 id blank_row sum_kernel 3 1 0 () (ex_table [ex_row 0 True 1 4]) = Inr t' \<and>
     st_contains id 0 t' = Inr False"
proof -
  have "st_ok id (ex_table [ex_row 0 True 1 4])" by (rule ex_table_ok) (auto simp: ex_row_def)
  from full_put_overwrites [OF this, of 3 0 blank_row sum_kernel 1 0 "()"] show ?thesis
    by (auto simp: ex_table_def ex_row_def st_rows_def stored_def)
qed

text \<open>
  \<^verbatim>\<open>serializeToFile\<close> and \<^verbatim>\<open>serializeToNet\<close> of a \<^verbatim>\<open>StateTable\<close> never write anything: they ask for an
  iterator without a helper, which is a null dereference in \<^verbatim>\<open>get_iterator\<close>, or one in the loop when
  the table has been told to terminate. A checkpoint of a state table therefore cannot succeed.
\<close>

lemma statetable_serialize_null:
  "st_serializeToFile mk mv md d rs t = Inl NullDeref \<and> st_serializeToNet mk mv d rs t = Inl NullDeref"
  by (simp add: st_serializeToFile_def st_serializeToNet_def st_serialize_def st_get_iterator_def)

section \<open>Scheduling by priority\<close>

lemma draw_used_used: "draw_used bs rs = Inr (p, rs') \<Longrightarrow> 0 \<le> p \<and> p < int (length bs) \<and> in_use (bs ! nat p)"
  by (induction bs rs rule: draw_used.induct) (auto simp: result_simps split: if_splits)

lemma sched_sample_used:
  assumes "sched_sample n bs d rs ps nc = Inr (qs, nc')" and "\<forall>p \<in> set ps. p < length bs \<and> in_use (bs ! p)"
  shows "\<forall>p \<in> set qs. p < length bs \<and> in_use (bs ! p)"
  using assms
proof (induction n arbitrary: rs ps nc)
  case (Suc n)
  from Suc.prems(1) obtain p rs' c where p: "draw_used bs rs = Inr (p, rs')"
    "sched_sample n bs d rs' (ps @ [nat p]) c = Inr (qs, nc')"
    by (auto simp: result_simps)
  have "\<forall>q \<in> set (ps @ [nat p]). q < length bs \<and> in_use (bs ! q)"
    using draw_used_used [OF p(1)] Suc.prems(2) by auto
  with p(2) show ?case by (rule Suc.IH)
qed simp

lemma sort_priority_head:
  assumes "sort_priority bs ps = p0 # tl'" and "p \<in> set ps"
  shows "priority (bs ! p) \<le> priority (bs ! p0)"
proof -
  have "sorted (map (\<lambda>p. priority (bs ! p)) (sort_key (\<lambda>p. priority (bs ! p)) ps))" by simp
  moreover have "sort_key (\<lambda>p. priority (bs ! p)) ps = rev tl' @ [p0]"
    using assms(1) by (simp add: sort_priority_def rev_swap)
  moreover have "p \<in> set (rev tl' @ [p0])" using assms(2) calculation(2) by (metis set_sort)
  ultimately show ?thesis by (auto simp: sorted_append)
qed

lemma set_sort_priority: "set (sort_priority bs ps) = set ps"
  by (simp add: sort_priority_def)

text \<open>
  What the constructor leaves when it does not return early: the eligible rows at or above a bar that
  no row of maximal priority misses.
\<close>

lemma sched_new_bar:
  assumes new: "sched_new n portion bf d rs t = Inr it" and big: "n < st_entries t"
    and change: "\<not> b_no_change it" and len: "length (st_buckets t) = st_size t"
  shows "\<exists>bar. (\<forall>i. i \<in> set (scheduled_pos it) \<longleftrightarrow> i < st_size t \<and> in_use (st_buckets t ! i) \<and>
        s1 (st_buckets t ! i) \<noteq> d \<and> bar (priority (st_buckets t ! i))) \<and>
    (\<forall>x y. bar x \<and> x \<le> y \<longrightarrow> bar y) \<and>
    (\<forall>y. (\<forall>q < st_size t. in_use (st_buckets t ! q) \<longrightarrow> priority (st_buckets t ! q) \<le> y) \<longrightarrow> bar y)"
proof -
  let ?bs = "st_buckets t" and ?c = "\<lfloor>rat_of_nat n * portion\<rfloor>"
  from new big change obtain sampled nc pc p0 where s: "sched_sample n ?bs d rs [] True = Inr (sampled, nc)"
    and pc: "vec_at (sort_priority ?bs sampled) ?c = Inr pc"
    and p0: "vec_at (sort_priority ?bs sampled) 0 = Inr p0"
    and it: "scheduled_pos it = (let th = priority (?bs ! pc);
        elig = filter (\<lambda>i. s1 (?bs ! i) \<noteq> d) (filter (\<lambda>i. in_use (?bs ! i)) [0..<st_size t])
      in if ?c = 0 \<or> priority (?bs ! p0) = th then filter (\<lambda>i. th \<le> priority (?bs ! i)) elig
         else filter (\<lambda>i. th < priority (?bs ! i)) elig)"
    by (auto simp: sched_new_def Let_def result_simps split: if_splits)
  let ?th = "priority (?bs ! pc)"
  have used: "\<forall>p \<in> set sampled. p < st_size t \<and> in_use (?bs ! p)"
    using sched_sample_used [OF s] len by simp
  from p0 have "0 < length (sort_priority ?bs sampled)" "sort_priority ?bs sampled ! 0 = p0"
    by (auto simp: result_simps)
  then obtain tl where tl: "sort_priority ?bs sampled = p0 # tl" by (cases "sort_priority ?bs sampled") auto
  have mem: "pc \<in> set sampled" "p0 \<in> set sampled"
    using pc nth_mem [of "nat ?c" "sort_priority ?bs sampled"] tl
    by (auto simp: result_simps set_sort_priority [of ?bs sampled, symmetric])
  have le: "?th \<le> priority (?bs ! p0)" by (rule sort_priority_head [OF tl mem(1)])
  let ?bar = "if ?c = 0 \<or> priority (?bs ! p0) = ?th then (\<lambda>x. ?th \<le> x) else (\<lambda>x. ?th < x)"
  have "\<forall>i. i \<in> set (scheduled_pos it) \<longleftrightarrow> i < st_size t \<and> in_use (?bs ! i) \<and> s1 (?bs ! i) \<noteq> d \<and> ?bar (priority (?bs ! i))"
    unfolding it by (auto simp: Let_def)
  moreover have "\<forall>x y. ?bar x \<and> x \<le> y \<longrightarrow> ?bar y" by auto
  moreover have "\<forall>y. (\<forall>q < st_size t. in_use (?bs ! q) \<longrightarrow> priority (?bs ! q) \<le> y) \<longrightarrow> ?bar y"
    using used mem le by (auto intro: order_trans order_less_le_trans)
  ultimately show ?thesis by (intro exI [of _ ?bar] conjI)
qed

text \<open>
  C29: when a \<^verbatim>\<open>ScheduledIterator\<close> over a table with more rows than the sample does select rows, it
  selects only stored rows with a pending change, it never leaves out such a row while selecting one
  of lower or equal priority, and it always selects the pending rows of the highest priority in the
  table, whatever the random sample was.
\<close>

theorem schedule_respects_priority:
  assumes "st_ok h t" and "n < st_entries t" and "sched_new n portion bf d rs t = Inr it"
    and "\<not> b_no_change it"
  shows "(\<forall>i \<in> set (scheduled_pos it). i < st_size t \<and> in_use (st_buckets t ! i) \<and> s1 (st_buckets t ! i) \<noteq> d) \<and>
    (\<forall>j < st_size t. in_use (st_buckets t ! j) \<and> s1 (st_buckets t ! j) \<noteq> d \<and>
       ((\<exists>i \<in> set (scheduled_pos it). priority (st_buckets t ! i) \<le> priority (st_buckets t ! j)) \<or>
        (\<forall>q < st_size t. in_use (st_buckets t ! q) \<longrightarrow> priority (st_buckets t ! q) \<le> priority (st_buckets t ! j)))
       \<longrightarrow> j \<in> set (scheduled_pos it))"
proof -
  have "length (st_buckets t) = st_size t" using st_okD(1) [OF assms(1)] by simp
  from sched_new_bar [OF assms(3,2,4) this] obtain bar where
    mem: "i \<in> set (scheduled_pos it) \<longleftrightarrow> i < st_size t \<and> in_use (st_buckets t ! i) \<and>
      s1 (st_buckets t ! i) \<noteq> d \<and> bar (priority (st_buckets t ! i))"
    and up: "bar x \<Longrightarrow> x \<le> y \<Longrightarrow> bar y"
    and top: "(\<forall>q < st_size t. in_use (st_buckets t ! q) \<longrightarrow> priority (st_buckets t ! q) \<le> y) \<Longrightarrow> bar y"
    for i x y by metis
  have "bar (priority (st_buckets t ! j))"
    if "(\<exists>i \<in> set (scheduled_pos it). priority (st_buckets t ! i) \<le> priority (st_buckets t ! j)) \<or>
      (\<forall>q < st_size t. in_use (st_buckets t ! q) \<longrightarrow> priority (st_buckets t ! q) \<le> priority (st_buckets t ! j))" for j
    using that mem up top by blast
  then show ?thesis using mem by simp
qed

theorem schedule_respects_priority_witness:
  "\<exists>it. sched_new 2 (1 / 2) False 0 [0, 1] (ex_table [ex_row 0 True (1 :: rat) 4, ex_row 1 True 5 2, ex_row 2 True 9 3]) = Inr it \<and>
     1 \<in> set (scheduled_pos it) \<and> 2 \<in> set (scheduled_pos it) \<and> 0 \<notin> set (scheduled_pos it)"
proof -
  let ?t = "ex_table [ex_row 0 True (1 :: rat) 4, ex_row 1 True 5 2, ex_row 2 True 9 3]"
  let ?it = "\<lparr>si_pos = -1, scheduled_pos = [1, 2], b_no_change = False\<rparr>"
  have ok: "st_ok id ?t"
    by (rule ex_table_ok) (auto simp: ex_row_def less_Suc_eq_0_disj numeral_3_eq_3)
  have new: "sched_new 2 (1 / 2) False 0 [0, 1] ?t = Inr ?it"
    by (simp add: sched_new_def ex_table_def ex_row_def Let_def eval_nat_numeral vec_at_def sort_priority_def upt_rec)
  from schedule_respects_priority [OF ok _ new] have "2 \<in> set (scheduled_pos ?it)"
    by (simp add: ex_table_def ex_row_def eval_nat_numeral)
  then show ?thesis using new by simp
qed

section \<open>The pass after ten vain trials\<close>

lemma entire_sum_looks:
  assumes "st_size t = length (st_buckets t)" and "- 1 \<le> p" and "p < int (st_size t)"
    and "int (st_size t) \<le> int fuel + p + 1"
  shows "\<exists>q. entire_sum True (Suc fuel) t p acc = Inr (acc + sum_list (map s2 (rest (st_buckets t) (nat (p + 1)))), q)"
  using assms(2-)
proof (induction fuel arbitrary: p acc)
  case 0
  then have "it_done t p" by (simp add: it_done_def)
  then show ?case using it_rest_end [OF assms(1), of p] by (simp add: it_done_def)
next
  case (Suc fuel)
  show ?case
  proof (cases "it_done t p")
    case True
    then show ?thesis using it_rest_end [OF assms(1), of p] by (simp add: it_done_def)
  next
    case False
    from it_Next_spec [OF assms(1) Suc.prems(1,2)] obtain q where q: "it_Next t p = Inr (int q, q < st_size t)"
      "p < int q" "q \<le> st_size t" "rest (st_buckets t) (nat (p + 1)) = rest (st_buckets t) q"
      "q < st_size t \<longrightarrow> in_use (st_buckets t ! q)" by blast
    show ?thesis
    proof (cases "q < st_size t")
      case True
      have "it_value2 t (int q) = Inr (s2 (st_buckets t ! q))"
        using True assms(1) by (simp add: it_value2_def result_simps)
      with False q True have step: "entire_sum True (Suc (Suc fuel)) t p acc =
          entire_sum True (Suc fuel) t (int q) (acc + s2 (st_buckets t ! q))" by simp
      have "\<exists>p'. entire_sum True (Suc fuel) t (int q) (acc + s2 (st_buckets t ! q)) =
        Inr (acc + s2 (st_buckets t ! q) + sum_list (map s2 (rest (st_buckets t) (nat (int q + 1)))), p')"
        using True q(2) Suc.prems by (intro Suc.IH) auto
      then show ?thesis
        unfolding step using q True it_rest_step [OF assms(1) True] by (simp add: add.assoc del: entire_sum.simps)
    next
      case past: False
      then have "rest (st_buckets t) q = []" using assms(1) by simp
      with past False q show ?thesis by simp
    qed
  qed
qed

lemma entire_sum_blind:
  assumes "st_size t = length (st_buckets t)" and "- 1 \<le> p" and "p < int (st_size t) - 1"
    and "int (st_size t) \<le> int fuel + p + 1" and last: "\<not> in_use (st_buckets t ! (st_size t - 1))"
  shows "entire_sum False (Suc fuel) t p acc = Inl OutOfBounds"
  using assms(2-4)
proof (induction fuel arbitrary: p acc)
  case 0
  then show ?case by simp
next
  case (Suc fuel)
  have nd: "\<not> it_done t p" using Suc.prems(2) by (simp add: it_done_def)
  have "p < int (st_size t)" using Suc.prems(2) by simp
  from it_Next_spec [OF assms(1) Suc.prems(1) this] obtain q where q: "it_Next t p = Inr (int q, q < st_size t)"
    "p < int q" "q \<le> st_size t" "q < st_size t \<longrightarrow> in_use (st_buckets t ! q)" by blast
  show ?case
  proof (cases "q < st_size t")
    case True
    have "it_value2 t (int q) = Inr (s2 (st_buckets t ! q))"
      using True assms(1) by (simp add: it_value2_def result_simps)
    with nd q True have step: "entire_sum False (Suc (Suc fuel)) t p acc =
        entire_sum False (Suc fuel) t (int q) (acc + s2 (st_buckets t ! q))" by simp
    have "q \<noteq> st_size t - 1" using q(4) True last by auto
    then show ?thesis unfolding step using True q(2) Suc.prems by (intro Suc.IH) auto
  next
    case False
    then have "it_value2 t (int q) = Inl OutOfBounds" using assms(1) by (simp add: it_value2_def vec_at_def)
    with nd q(1) False show ?thesis by simp
  qed
qed

text \<open>
  The pass that \<^verbatim>\<open>get_iterator\<close> makes after ten vain trials sums the values of all rows; the one
  in \<^verbatim>\<open>schedule_iterator\<close>, which ignores the result of \<^verbatim>\<open>Next\<close>, reads past the end of the bucket
  vector whenever the last bucket is free.
\<close>

lemma blind_pass_leaves_table:
  assumes "st_ok h t" and "2 \<le> st_size t" and "\<not> in_use (st_buckets t ! (st_size t - 1))"
  shows "entire_sum False (st_size t + 1) t (-1) 0 = Inl OutOfBounds \<and>
    (\<exists>p. entire_sum True (st_size t + 1) t (-1) 0 = Inr (sum_list (map s2 (filter in_use (st_buckets t))), p))"
proof
  note d = st_okD [OF assms(1)]
  show "entire_sum False (st_size t + 1) t (-1) 0 = Inl OutOfBounds"
    using entire_sum_blind [OF d(1), of "-1" "st_size t"] assms(2,3) by simp
  show "\<exists>p. entire_sum True (st_size t + 1) t (-1) 0 = Inr (sum_list (map s2 (filter in_use (st_buckets t))), p)"
    using entire_sum_looks [OF d(1), of "-1" "st_size t" 0] d(4) by (simp del: entire_sum.simps)
qed

end
