(* ===== verification/GlobalTable.thy ===== *)
theory GlobalTable
  imports DeltaTable StateTable
begin

text \<open>
  \<^verbatim>\<open>src/kernel/global-table.h\<close> and \<^verbatim>\<open>global-table.cc\<close>: a table that is partitioned over the workers,
  as one worker sees it. A partition this worker owns is a \<^verbatim>\<open>StateTable\<close>; for every other shard there
  is a \<^verbatim>\<open>DeltaTable\<close> that buffers the updates until \<open>SendUpdates\<close> puts them on the network. Messages
  that \<^verbatim>\<open>NetworkThread::Send\<close> accepts are appended to \<open>gt_sent\<close>. The timer-driven \<^verbatim>\<open>PERIODIC\<close> calls are
  separate operations here; whether they happen is up to the caller.
\<close>

section \<open>Data\<close>

datatype ('k, 'v, 'd) local_table = Delta "('k, 'v) DeltaTable" | State "('k, 'v, 'd) StateTable"

record PartitionInfo =
  pi_dirty :: bool
  pi_tainted :: bool
  pi_owner :: int
  pi_entries :: int

record KVPairData =
  kv_source :: int
  kv_table :: int
  kv_shard :: int
  kv_done :: bool
  kv_data :: "(string \<times> string) list"
  kv_epoch :: int

record ('k, 'v, 'd) GlobalTable =
  gt_partitions :: "('k, 'v, 'd) local_table list"
  gt_partinfo :: "PartitionInfo list"
  gt_pending_writes :: int
  gt_snapshot_index :: int
  gt_binit :: bool
  gt_update_queue :: "('k \<times> 'v) list"
  gt_sent :: "(int \<times> KVPairData) list"
  gt_termchecks :: "(int \<times> int \<times> rat) list"

text \<open>What does not change while a table is used: descriptor, helper and template arguments.\<close>

record ('k, 'v, 'd) genv =
  ge_table_id :: int
  ge_num_shards :: nat
  ge_schedule_portion :: rat
  ge_helper_id :: "int option"
  ge_epoch :: int
  ge_bufmsg :: int
  ge_sharder :: "'k \<Rightarrow> int \<Rightarrow> int result"
  ge_hash :: "'k \<Rightarrow> nat"
  ge_kernel :: "('k, 'v, 'd) IterateKernel"
  ge_nd :: "('k, 'v) dbucket"
  ge_ns :: "('k, 'v, 'd) sbucket"
  ge_mk :: "'k \<Rightarrow> string"
  ge_uk :: "string \<Rightarrow> 'k"
  ge_mv :: "'v \<Rightarrow> string"
  ge_uv :: "string \<Rightarrow> 'v"

section \<open>Partitions\<close>

definition gt_get_shard :: "('k, 'v, 'd) genv \<Rightarrow> 'k \<Rightarrow> int result" where
  "gt_get_shard e k = ge_sharder e k (int (ge_num_shards e))"

definition gt_owner :: "int \<Rightarrow> ('k, 'v, 'd) GlobalTable \<Rightarrow> int result" where
  "gt_owner shard g = rbind (vec_at (gt_partinfo g) shard) (\<lambda>p. Inr (pi_owner p))"

definition gt_is_local_shard :: "('k, 'v, 'd) genv \<Rightarrow> int \<Rightarrow> ('k, 'v, 'd) GlobalTable \<Rightarrow> bool result" where
  "gt_is_local_shard e shard g =
     (case ge_helper_id e of None \<Rightarrow> Inr False
      | Some w \<Rightarrow> rbind (gt_owner shard g) (\<lambda>own. Inr (own = w)))"

definition gt_is_local_key :: "('k, 'v, 'd) genv \<Rightarrow> string \<Rightarrow> ('k, 'v, 'd) GlobalTable \<Rightarrow> bool result" where
  "gt_is_local_key e s g = rbind (gt_get_shard e (ge_uk e s)) (\<lambda>shard. gt_is_local_shard e shard g)"

definition gt_UpdatePartitions :: "int \<Rightarrow> int \<Rightarrow> int \<Rightarrow> ('k, 'v, 'd) GlobalTable \<Rightarrow> ('k, 'v, 'd) GlobalTable result" where
  "gt_UpdatePartitions shard own ents g = rbind (vec_at (gt_partinfo g) shard) (\<lambda>p.
     Inr (g\<lparr>gt_partinfo := (gt_partinfo g)[nat shard := p\<lparr>pi_owner := own, pi_entries := ents\<rparr>]\<rparr>))"

text \<open>\<^verbatim>\<open>Init\<close>: a delta table for every shard; \<^verbatim>\<open>InitStateTable\<close>: a state table for the local ones.\<close>

definition gt_Init :: "('k, 'v, 'd) genv \<Rightarrow> ('k, 'v, 'd) GlobalTable result" where
  "gt_Init e = rbind (dt_new (ge_hash e) (ge_nd e) 1) (\<lambda>dt.
     Inr \<lparr>gt_partitions = replicate (ge_num_shards e) (Delta dt),
          gt_partinfo = replicate (ge_num_shards e) \<lparr>pi_dirty = False, pi_tainted = False, pi_owner = -1, pi_entries = 0\<rparr>,
          gt_pending_writes = 0, gt_snapshot_index = 0, gt_binit = False, gt_update_queue = [],
          gt_sent = [], gt_termchecks = []\<rparr>)"

definition gt_InitStateTable :: "('k, 'v, 'd) genv \<Rightarrow> ('k, 'v, 'd) GlobalTable \<Rightarrow> ('k, 'v, 'd) GlobalTable result" where
  "gt_InitStateTable e g =
     rbind (rfold (\<lambda>i g. rbind (gt_is_local_shard e (int i) g) (\<lambda>loc.
         if loc then rbind (st_new (ge_hash e) (ge_ns e) (ge_kernel e) 1) (\<lambda>st.
           Inr (g\<lparr>gt_partitions := (gt_partitions g)[i := State st]\<rparr>))
         else Inr g)) [0..<length (gt_partitions g)] g)
       (\<lambda>g. Inr (g\<lparr>gt_binit := True\<rparr>))"

text \<open>\<^verbatim>\<open>partition(shard)\<close> and \<^verbatim>\<open>deltaT(shard)\<close>: a failed \<^verbatim>\<open>dynamic_cast\<close> is a null pointer.\<close>

definition gt_partition :: "int \<Rightarrow> ('k, 'v, 'd) GlobalTable \<Rightarrow> ('k, 'v, 'd) StateTable result" where
  "gt_partition shard g = rbind (vec_at (gt_partitions g) shard) (\<lambda>p.
     case p of State st \<Rightarrow> Inr st | Delta _ \<Rightarrow> Inl NullDeref)"

definition gt_deltaT :: "int \<Rightarrow> ('k, 'v, 'd) GlobalTable \<Rightarrow> ('k, 'v) DeltaTable result" where
  "gt_deltaT shard g = rbind (vec_at (gt_partitions g) shard) (\<lambda>p.
     case p of Delta dt \<Rightarrow> Inr dt | State _ \<Rightarrow> Inl NullDeref)"

definition gt_set :: "int \<Rightarrow> ('k, 'v, 'd) local_table \<Rightarrow> ('k, 'v, 'd) GlobalTable \<Rightarrow> ('k, 'v, 'd) GlobalTable" where
  "gt_set shard p g = g\<lparr>gt_partitions := (gt_partitions g)[nat shard := p]\<rparr>"

definition lt_size :: "('k, 'v, 'd) local_table \<Rightarrow> nat" where
  "lt_size p = (case p of Delta dt \<Rightarrow> dt_count dt | State st \<Rightarrow> st_count st)"

definition lt_empty :: "('k, 'v, 'd) local_table \<Rightarrow> bool" where
  "lt_empty p \<longleftrightarrow> lt_size p = 0"

definition gt_shard_size :: "('k, 'v, 'd) genv \<Rightarrow> int \<Rightarrow> ('k, 'v, 'd) GlobalTable \<Rightarrow> int result" where
  "gt_shard_size e shard g = rbind (gt_is_local_shard e shard g) (\<lambda>loc.
     if loc then rbind (vec_at (gt_partitions g) shard) (\<lambda>p. Inr (int (lt_size p)))
     else rbind (vec_at (gt_partinfo g) shard) (\<lambda>p. Inr (pi_entries p)))"

definition gt_resize :: "('k, 'v, 'd) genv \<Rightarrow> int \<Rightarrow> ('k, 'v, 'd) GlobalTable \<Rightarrow> ('k, 'v, 'd) GlobalTable result" where
  "gt_resize e new_size g =
     rfold (\<lambda>i g. rbind (gt_is_local_shard e (int i) g) (\<lambda>loc.
       if \<not> loc then Inr g
       else rbind (vec_at (gt_partitions g) (int i)) (\<lambda>p.
         let n = new_size div int (length (gt_partitions g)) + 1 in
         case p of
           State st \<Rightarrow> rbind (st_resize st_fuel (ge_hash e) (ge_ns e) (ge_kernel e) n st)
             (\<lambda>st'. Inr (gt_set (int i) (State st') g))
         | Delta dt \<Rightarrow> rbind (dt_resize dt_fuel (ge_hash e) (ge_nd e) n dt)
             (\<lambda>dt'. Inr (gt_set (int i) (Delta dt') g))))) [0..<length (gt_partitions g)] g"

definition gt_pending_write_bytes :: "('k, 'v, 'd) genv \<Rightarrow> ('k, 'v, 'd) GlobalTable \<Rightarrow> int result" where
  "gt_pending_write_bytes e g =
     rfold (\<lambda>i s. rbind (gt_is_local_shard e (int i) g) (\<lambda>loc.
       if loc then Inr s else rbind (vec_at (gt_partitions g) (int i)) (\<lambda>p. Inr (s + int (lt_size p)))))
       [0..<length (gt_partitions g)] 0"

definition gt_local_swap :: "('k, 'v, 'd) GlobalTable \<Rightarrow> ('k, 'v, 'd) GlobalTable \<Rightarrow>
    ('k, 'v, 'd) GlobalTable \<times> ('k, 'v, 'd) GlobalTable" where
  "gt_local_swap a b =
     (a\<lparr>gt_partinfo := gt_partinfo b, gt_partitions := gt_partitions b, gt_pending_writes := gt_pending_writes b\<rparr>,
      b\<lparr>gt_partinfo := gt_partinfo a, gt_partitions := gt_partitions a, gt_pending_writes := gt_pending_writes a\<rparr>)"

section \<open>Sending and accumulating\<close>

text \<open>
  One round of the loop of \<open>SendUpdates\<close> for a shard: serialise the buffer, reset it, send the
  message to the owner's rank. A state table in such a place would fail in \<^verbatim>\<open>serializeToNet\<close> with the
  same null dereference. The \<^verbatim>\<open>do ... while (!t->empty())\<close> loop has the fuel as a bound.
\<close>

fun gt_send_shard :: "nat \<Rightarrow> ('k, 'v, 'd) genv \<Rightarrow> nat \<Rightarrow> ('k, 'v, 'd) GlobalTable \<Rightarrow> ('k, 'v, 'd) GlobalTable result" where
  "gt_send_shard 0 e i g = Inl Diverges"
| "gt_send_shard (Suc fuel) e i g =
     (case ge_helper_id e of None \<Rightarrow> Inl NullDeref
      | Some w \<Rightarrow>
        rbind (gt_deltaT (int i) g) (\<lambda>dt.
        rbind (dt_serializeToNet (ge_mk e) (ge_mv e) dt) (\<lambda>ws.
        rbind (dt_reset (ge_hash e) (ge_nd e) dt) (\<lambda>dt'.
        rbind (gt_owner (int i) g) (\<lambda>own.
          let put = \<lparr>kv_source = w, kv_table = ge_table_id e, kv_shard = int i, kv_done = True,
                     kv_data = ws, kv_epoch = ge_epoch e\<rparr>;
              g' = (gt_set (int i) (Delta dt') g)\<lparr>gt_sent := gt_sent g @ [(own + 1, put)]\<rparr>
          in if dt_empty dt' then Inr (gt_set (int i) (Delta (dt_clear dt')) g')
             else gt_send_shard fuel e i g')))))"

definition gt_send_step :: "('k, 'v, 'd) genv \<Rightarrow> nat \<Rightarrow> ('k, 'v, 'd) GlobalTable \<Rightarrow> ('k, 'v, 'd) GlobalTable result" where
  "gt_send_step e i g = rbind (gt_is_local_shard e (int i) g) (\<lambda>loc.
     rbind (vec_at (gt_partinfo g) (int i)) (\<lambda>inf.
     rbind (vec_at (gt_partitions g) (int i)) (\<lambda>p.
       if \<not> loc \<and> (pi_dirty inf \<or> \<not> lt_empty p) then gt_send_shard 1 e i g else Inr g)))"

definition gt_SendUpdates :: "('k, 'v, 'd) genv \<Rightarrow> ('k, 'v, 'd) GlobalTable \<Rightarrow> ('k, 'v, 'd) GlobalTable result" where
  "gt_SendUpdates e g = rbind (rfold (gt_send_step e) [0..<length (gt_partitions g)] g)
     (\<lambda>g. Inr (g\<lparr>gt_pending_writes := 0\<rparr>))"

definition gt_BufSend :: "('k, 'v, 'd) genv \<Rightarrow> ('k, 'v, 'd) GlobalTable \<Rightarrow> ('k, 'v, 'd) GlobalTable result" where
  "gt_BufSend e g = (if ge_bufmsg e < gt_pending_writes g then gt_SendUpdates e g else Inr g)"

text \<open>The shape of the typed operations: act on the local partition, or take the remote branch.\<close>

definition gt_on_shard :: "('k, 'v, 'd) genv \<Rightarrow> 'k \<Rightarrow> ('k, 'v, 'd) GlobalTable \<Rightarrow>
    (('k, 'v, 'd) StateTable \<Rightarrow> ('k, 'v, 'd) StateTable result) \<Rightarrow>
    (int \<Rightarrow> ('k, 'v, 'd) GlobalTable result) \<Rightarrow> ('k, 'v, 'd) GlobalTable result" where
  "gt_on_shard e k g loc rem = rbind (gt_get_shard e k) (\<lambda>shard. rbind (gt_is_local_shard e shard g) (\<lambda>l.
     if l then rbind (gt_partition shard g) (\<lambda>st. rbind (loc st) (\<lambda>st'. Inr (gt_set shard (State st') g)))
     else rem shard))"

definition gt_put :: "('k, 'v, 'd) genv \<Rightarrow> 'k \<Rightarrow> 'v \<Rightarrow> 'v \<Rightarrow> 'd \<Rightarrow> ('k, 'v, 'd) GlobalTable \<Rightarrow> ('k, 'v, 'd) GlobalTable result" where
  "gt_put e k a b c g = gt_on_shard e k g
     (st_put st_fuel (ge_hash e) (ge_ns e) (ge_kernel e) k a b c)
     (\<lambda>_. Inr (g\<lparr>gt_pending_writes := gt_pending_writes g + 1\<rparr>))"

definition gt_updateF1 :: "('k, 'v::zero, 'd) genv \<Rightarrow> 'k \<Rightarrow> 'v \<Rightarrow> ('k, 'v, 'd) GlobalTable \<Rightarrow> ('k, 'v, 'd) GlobalTable result" where
  "gt_updateF1 e k v g = gt_on_shard e k g (st_updateF1 (ge_hash e) k v)
     (\<lambda>shard. rbind (gt_deltaT shard g) (\<lambda>dt. rbind (dt_update (ge_hash e) k v dt)
        (\<lambda>dt'. Inr (gt_set shard (Delta dt') g))))"

definition gt_updateF2 :: "('k, 'v, 'd) genv \<Rightarrow> 'k \<Rightarrow> 'v \<Rightarrow> ('k, 'v, 'd) GlobalTable \<Rightarrow> ('k, 'v, 'd) GlobalTable result" where
  "gt_updateF2 e k v g = gt_on_shard e k g (st_updateF2 (ge_hash e) k v) (\<lambda>_. Inr g)"

definition gt_updateF3 :: "('k, 'v, 'd) genv \<Rightarrow> 'k \<Rightarrow> 'd \<Rightarrow> ('k, 'v, 'd) GlobalTable \<Rightarrow> ('k, 'v, 'd) GlobalTable result" where
  "gt_updateF3 e k v g = gt_on_shard e k g (st_updateF3 (ge_hash e) k v) (\<lambda>_. Inr g)"

definition gt_accumulateF1 :: "('k, 'v, 'd) genv \<Rightarrow> 'k \<Rightarrow> 'v \<Rightarrow> ('k, 'v, 'd) GlobalTable \<Rightarrow> ('k, 'v, 'd) GlobalTable result" where
  "gt_accumulateF1 e k v g = gt_on_shard e k g (st_accumulateF1 (ge_hash e) (ge_kernel e) k v)
     (\<lambda>shard. rbind (gt_deltaT shard g) (\<lambda>dt.
        rbind (dt_accumulate (ge_hash e) (ge_nd e) (k_accumulate (ge_kernel e)) k v dt) (\<lambda>dt'.
          let g' = (gt_set shard (Delta dt') g)\<lparr>gt_pending_writes := gt_pending_writes g + 1\<rparr>
          in if ge_bufmsg e < gt_pending_writes g' then gt_SendUpdates e g' else Inr g')))"

definition gt_accumulateF2 :: "('k, 'v, 'd) genv \<Rightarrow> 'k \<Rightarrow> 'v \<Rightarrow> ('k, 'v, 'd) GlobalTable \<Rightarrow> ('k, 'v, 'd) GlobalTable result" where
  "gt_accumulateF2 e k v g = gt_on_shard e k g (st_accumulateF2 (ge_hash e) (ge_kernel e) k v) (\<lambda>_. Inr g)"

definition gt_accumulateF3 :: "('k, 'v, 'd) genv \<Rightarrow> 'k \<Rightarrow> 'd \<Rightarrow> ('k, 'v, 'd) GlobalTable \<Rightarrow> ('k, 'v, 'd) GlobalTable result" where
  "gt_accumulateF3 e k v g = gt_on_shard e k g (st_accumulateF3 k v) (\<lambda>_. Inr g)"

definition gt_enqueue_updateF1 :: "'k \<Rightarrow> 'v \<Rightarrow> ('k, 'v, 'd) GlobalTable \<Rightarrow> ('k, 'v, 'd) GlobalTable" where
  "gt_enqueue_updateF1 k v g = g\<lparr>gt_update_queue := gt_update_queue g @ [(k, v)]\<rparr>"

text \<open>The readers: a key that is not local fails the CHECK.\<close>

definition gt_read :: "('k, 'v, 'd) genv \<Rightarrow> 'k \<Rightarrow> (('k, 'v, 'd) StateTable \<Rightarrow> 'r result) \<Rightarrow> ('k, 'v, 'd) GlobalTable \<Rightarrow> 'r result" where
  "gt_read e k rd g = rbind (gt_get_shard e k) (\<lambda>shard. rbind (gt_is_local_shard e shard g) (\<lambda>l.
     rbind (check l) (\<lambda>_. rbind (gt_partition shard g) rd)))"

definition gt_get :: "('k, 'v, 'd) genv \<Rightarrow> 'k \<Rightarrow> ('k, 'v, 'd) GlobalTable \<Rightarrow> ('k \<times> 'v \<times> 'v \<times> 'd) result" where
  "gt_get e k = gt_read e k (st_get (ge_hash e) k)"

definition gt_getF1 :: "('k, 'v, 'd) genv \<Rightarrow> 'k \<Rightarrow> ('k, 'v, 'd) GlobalTable \<Rightarrow> 'v result" where
  "gt_getF1 e k = gt_read e k (st_getF1 (ge_hash e) k)"

definition gt_getF2 :: "('k, 'v, 'd) genv \<Rightarrow> 'k \<Rightarrow> ('k, 'v, 'd) GlobalTable \<Rightarrow> 'v result" where
  "gt_getF2 e k = gt_read e k (st_getF2 (ge_hash e) k)"

definition gt_getF3 :: "('k, 'v, 'd) genv \<Rightarrow> 'k \<Rightarrow> ('k, 'v, 'd) GlobalTable \<Rightarrow> 'd result" where
  "gt_getF3 e k = gt_read e k (st_getF3 (ge_hash e) k)"

definition gt_contains :: "('k, 'v, 'd) genv \<Rightarrow> 'k \<Rightarrow> ('k, 'v, 'd) GlobalTable \<Rightarrow> bool result" where
  "gt_contains e k g = rbind (gt_get_shard e k) (\<lambda>shard. rbind (gt_is_local_shard e shard g) (\<lambda>l.
     if l then rbind (gt_partition shard g) (st_contains (ge_hash e) k) else Inr False))"

definition gt_remove :: "('k, 'v, 'd) genv \<Rightarrow> 'k \<Rightarrow> ('k, 'v, 'd) GlobalTable \<Rightarrow> bool result" where
  "gt_remove e k g = rbind (gt_get_shard e k) (\<lambda>shard. rbind (gt_is_local_shard e shard g) (\<lambda>l.
     if l then rbind (gt_partition shard g) (st_remove k) else Inr False))"

text \<open>
  \<^verbatim>\<open>ApplyUpdates\<close>: unpack the request with the partition's \<^verbatim>\<open>deserializeFromNet\<close> (the same code in both
  table classes) and accumulate entry by entry.
\<close>

definition gt_ApplyUpdates :: "('k, 'v, 'd) genv \<Rightarrow> KVPairData \<Rightarrow> ('k, 'v, 'd) GlobalTable \<Rightarrow> ('k, 'v, 'd) GlobalTable result" where
  "gt_ApplyUpdates e req g = rbind (vec_at (gt_partitions g) (kv_shard req)) (\<lambda>_.
     rfold (\<lambda>p. gt_accumulateF1 e (fst p) (snd p))
       (decodedeque (dt_deserializeFromNet (ge_uk e) (ge_uv e) (kv_data req) di_new)) g)"

text \<open>
  \<^verbatim>\<open>termcheck\<close>: the snapshots of the local partitions, summed up and reported. The snapshot of a
  delta table leaves the two output variables unset.
\<close>

definition gt_termcheck :: "('k, rat, 'd) genv \<Rightarrow> ('k, rat, 'd) GlobalTable \<Rightarrow> ('k, rat, 'd) GlobalTable result" where
  "gt_termcheck e g =
     rbind (rfold (\<lambda>i (upd, cur, g). rbind (gt_is_local_shard e (int i) g) (\<lambda>loc.
         if \<not> loc then Inr (upd, cur, g)
         else rbind (vec_at (gt_partitions g) (int i)) (\<lambda>p.
           case p of
             Delta _ \<Rightarrow> Inl Uninitialised
           | State st \<Rightarrow> rbind (st_serializeToSnapshot (k_default_v (ge_kernel e)) st) (\<lambda>((u, c), st').
               Inr (upd + u, cur + c, gt_set (int i) (State st') g)))))
       [0..<length (gt_partitions g)] (0, 0, g))
     (\<lambda>(upd, cur, g).
       Inr (g\<lparr>gt_termchecks := (case ge_helper_id e of None \<Rightarrow> gt_termchecks g
                  | Some _ \<Rightarrow> gt_termchecks g @ [(gt_snapshot_index g, upd, cur)]),
              gt_snapshot_index := gt_snapshot_index g + 1\<rparr>))"

section \<open>Well-formed global tables\<close>

text \<open>
  After \<^verbatim>\<open>InitStateTable\<close>, on a worker with a helper: the partitions of the other workers are
  well-formed delta tables holding keys of their own shard only, the local ones are well-formed state
  tables, and the sharder maps every key into the range.
\<close>

definition gt_local :: "('k, 'v, 'd) genv \<Rightarrow> ('k, 'v, 'd) GlobalTable \<Rightarrow> nat \<Rightarrow> bool" where
  "gt_local e g i \<longleftrightarrow> ge_helper_id e = Some (pi_owner (gt_partinfo g ! i))"

definition part_ok :: "('k, 'v, 'd) genv \<Rightarrow> bool \<Rightarrow> nat \<Rightarrow> ('k, 'v, 'd) local_table \<Rightarrow> bool" where
  "part_ok e loc i p = (case p of
       Delta dt \<Rightarrow> \<not> loc \<and> dt_ok (ge_hash e) dt \<and>
         (\<forall>k. dt_lookup dt k \<noteq> None \<longrightarrow> ge_sharder e k (int (ge_num_shards e)) = Inr (int i))
     | State st \<Rightarrow> loc \<and> st_ok (ge_hash e) st)"

definition gt_ok :: "('k, 'v, 'd) genv \<Rightarrow> ('k, 'v, 'd) GlobalTable \<Rightarrow> bool" where
  "gt_ok e g \<longleftrightarrow> ge_helper_id e \<noteq> None \<and> length (gt_partitions g) = ge_num_shards e \<and>
     length (gt_partinfo g) = ge_num_shards e \<and>
     (\<forall>i < ge_num_shards e. part_ok e (gt_local e g i) i (gt_partitions g ! i))"

definition sharded :: "('k, 'v, 'd) genv \<Rightarrow> ('k \<Rightarrow> nat) \<Rightarrow> bool" where
  "sharded e sh \<longleftrightarrow> (\<forall>k. ge_sharder e k (int (ge_num_shards e)) = Inr (int (sh k)) \<and> sh k < ge_num_shards e)"

definition marshals :: "('k, 'v, 'd) genv \<Rightarrow> bool" where
  "marshals e \<longleftrightarrow> (\<forall>k. ge_uk e (ge_mk e k) = k) \<and> (\<forall>v. ge_uv e (ge_mv e v) = v)"

lemma gt_is_local_shard_eq:
  "gt_ok e g \<Longrightarrow> i < ge_num_shards e \<Longrightarrow> gt_is_local_shard e (int i) g = Inr (gt_local e g i)"
  by (auto simp: gt_is_local_shard_def gt_owner_def gt_ok_def gt_local_def result_simps)

lemma gt_local_set [simp]: "gt_local e (gt_set i p g) = gt_local e g"
  "gt_local e (g\<lparr>gt_sent := x\<rparr>) = gt_local e g" "gt_local e (g\<lparr>gt_pending_writes := y\<rparr>) = gt_local e g"
  by (simp_all add: gt_local_def gt_set_def fun_eq_iff)

lemma gt_ok_fields [simp]: "gt_ok e (g\<lparr>gt_sent := x\<rparr>) = gt_ok e g"
  "gt_ok e (g\<lparr>gt_pending_writes := y\<rparr>) = gt_ok e g"
  by (simp_all add: gt_ok_def)

lemma gt_ok_set:
  assumes "gt_ok e g" and "i < ge_num_shards e" and "part_ok e (gt_local e g i) i p"
  shows "gt_ok e (gt_set (int i) p g)"
proof -
  have "part_ok e (gt_local e g j) j ((gt_partitions g)[i := p] ! j)" if "j < ge_num_shards e" for j
    using assms that by (cases "j = i") (simp_all add: gt_ok_def)
  then show ?thesis using assms(1)
    by (simp add: gt_ok_def) (simp add: gt_set_def)
qed

lemma gt_ok_Delta:
  assumes "gt_ok e g" and "i < ge_num_shards e" and "\<not> gt_local e g i"
  shows "\<exists>dt. gt_partitions g ! i = Delta dt \<and> dt_ok (ge_hash e) dt \<and>
    (\<forall>k. dt_lookup dt k \<noteq> None \<longrightarrow> ge_sharder e k (int (ge_num_shards e)) = Inr (int i))"
proof -
  have "part_ok e (gt_local e g i) i (gt_partitions g ! i)" using assms(1,2) by (simp add: gt_ok_def)
  with assms(3) show ?thesis by (cases "gt_partitions g ! i") (auto simp: part_ok_def)
qed

lemma gt_ok_State:
  assumes "gt_ok e g" and "i < ge_num_shards e" and "gt_local e g i"
  shows "\<exists>st. gt_partitions g ! i = State st \<and> st_ok (ge_hash e) st"
proof -
  have "part_ok e (gt_local e g i) i (gt_partitions g ! i)" using assms(1,2) by (simp add: gt_ok_def)
  with assms(3) show ?thesis by (cases "gt_partitions g ! i") (auto simp: part_ok_def)
qed

section \<open>What is on its way to another worker\<close>

text \<open>
  \<open>oacc\<close> extends \<open>accumulate\<close> to \<open>no value yet\<close>. The updates of a key that have left the state tables
  of this worker are those in messages sent, in the order of sending, and then the buffered one.
\<close>

definition oacc :: "('v \<Rightarrow> 'v \<Rightarrow> 'v) \<Rightarrow> 'v option \<Rightarrow> 'v option \<Rightarrow> 'v option" where
  "oacc acc a b = (case (a, b) of (None, b) \<Rightarrow> b | (a, None) \<Rightarrow> a | (Some x, Some y) \<Rightarrow> Some (acc x y))"

definition gather :: "('v \<Rightarrow> 'v \<Rightarrow> 'v) \<Rightarrow> 'k \<Rightarrow> ('k \<times> 'v) list \<Rightarrow> 'v option" where
  "gather acc k ps = foldl (oacc acc) None (map (\<lambda>p. if fst p = k then Some (snd p) else None) ps)"

definition sent_pairs :: "('k, 'v, 'd) genv \<Rightarrow> ('k, 'v, 'd) GlobalTable \<Rightarrow> ('k \<times> 'v) list" where
  "sent_pairs e g = concat (map (\<lambda>m. map (\<lambda>p. (ge_uk e (fst p), ge_uv e (snd p))) (kv_data (snd m))) (gt_sent g))"

definition buffered :: "('k \<Rightarrow> nat) \<Rightarrow> ('k, 'v, 'd) GlobalTable \<Rightarrow> 'k \<Rightarrow> 'v option" where
  "buffered sh g k = (case gt_partitions g ! sh k of Delta dt \<Rightarrow> dt_lookup dt k | State _ \<Rightarrow> None)"

definition outstanding :: "('k, 'v, 'd) genv \<Rightarrow> ('k \<Rightarrow> nat) \<Rightarrow> ('k, 'v, 'd) GlobalTable \<Rightarrow> 'k \<Rightarrow> 'v option" where
  "outstanding e sh g k =
     oacc (k_accumulate (ge_kernel e)) (gather (k_accumulate (ge_kernel e)) k (sent_pairs e g)) (buffered sh g k)"

lemma oacc_None [simp]: "oacc acc None b = b" "oacc acc a None = a"
  by (auto simp: oacc_def split: option.splits)

lemma oacc_Some [simp]: "oacc acc (Some x) (Some y) = Some (acc x y)"
  by (simp add: oacc_def)

text \<open>What the engine relies on for \<open>accumulate\<close>, and what follows for values gathered in batches.\<close>

locale accumulator =
  fixes acc :: "'v \<Rightarrow> 'v \<Rightarrow> 'v"
  assumes acc_assoc: "acc (acc a b) c = acc a (acc b c)"
begin

lemma oacc_assoc: "oacc acc (oacc acc a b) c = oacc acc a (oacc acc b c)"
  by (cases a; cases b; cases c) (simp_all add: acc_assoc)

lemma foldl_oacc: "foldl (oacc acc) a xs = oacc acc a (foldl (oacc acc) None xs)"
proof (induction xs arbitrary: a)
  case (Cons x xs)
  show ?case using Cons [of "oacc acc a x"] Cons [of x] by (simp add: oacc_assoc)
qed simp

lemma gather_append: "gather acc k (ps @ qs) = oacc acc (gather acc k ps) (gather acc k qs)"
  unfolding gather_def map_append foldl_append by (rule foldl_oacc)

end

text \<open>The order of arrival does not matter when \<open>accumulate\<close> commutes as well.\<close>

locale comm_accumulator = accumulator +
  assumes acc_comm: "acc a b = acc b a"
begin

lemma oacc_comm: "oacc acc a b = oacc acc b a"
  by (cases a; cases b) (simp_all add: acc_comm)

lemma gather_swap: "gather acc k (ps @ qs) = gather acc k (qs @ ps)"
  unfolding gather_append by (rule oacc_comm)

end

lemma gather_distinct:
  "distinct (map fst ps) \<Longrightarrow> gather acc k ps = map_of ps k"
proof (induction ps)
  case (Cons p ps)
  have nil: "foldl (oacc acc) a (map (\<lambda>p. if fst p = k then Some (snd p) else None) ps) = a"
    if "k \<notin> fst ` set ps" for a ps
    using that by (induction ps arbitrary: a) auto
  show ?case
  proof (cases "fst p = k")
    case True
    with Cons.prems have "k \<notin> fst ` set ps" by auto
    with True nil [of ps] show ?thesis by (cases p) (simp add: gather_def)
  next
    case False
    with Cons show ?thesis by (cases p) (simp add: gather_def)
  qed
qed (simp add: gather_def)

section \<open>Sending keeps what is outstanding\<close>

definition sent_ok :: "('k, 'v, 'd) genv \<Rightarrow> ('k \<Rightarrow> nat) \<Rightarrow> ('k, 'v, 'd) GlobalTable \<Rightarrow> bool" where
  "sent_ok e sh g \<longleftrightarrow> (\<forall>(dst, m) \<in> set (gt_sent g). \<exists>i < ge_num_shards e. kv_shard m = int i \<and>
     dst = pi_owner (gt_partinfo g ! i) + 1 \<and> (\<forall>p \<in> set (kv_data m). sh (ge_uk e (fst p)) = i))"

text \<open>Two tables of the same worker that agree on everything but buffers and messages.\<close>

definition same_frame :: "('k, 'v, 'd) GlobalTable \<Rightarrow> ('k, 'v, 'd) GlobalTable \<Rightarrow> bool" where
  "same_frame g g' \<longleftrightarrow> gt_partinfo g' = gt_partinfo g \<and> length (gt_partitions g') = length (gt_partitions g)"

definition rows :: "('k \<Rightarrow> nat) \<Rightarrow> ('k, 'v, 'd) GlobalTable \<Rightarrow> 'k \<rightharpoonup> 'v \<times> 'v \<times> 'd" where
  "rows sh g k = (case gt_partitions g ! sh k of Delta _ \<Rightarrow> None | State st \<Rightarrow> st_rows st k)"

lemma same_frame_local: "same_frame g g' \<Longrightarrow> gt_local e g' = gt_local e g"
  by (simp add: same_frame_def gt_local_def fun_eq_iff)

lemma dt_emptied:
  assumes "dt_ok h dt" and "dt_lookup dt = Map.empty"
  shows "dt_empty dt"
  using card_dt_lookup [OF assms(1)] assms(2) by (simp add: dt_empty_def dt_count_def)

lemma sent_pairs_snoc: "gt_sent g' = gt_sent g @ [(d, m)] \<Longrightarrow>
  sent_pairs e g' = sent_pairs e g @ map (\<lambda>p. (ge_uk e (fst p), ge_uv e (snd p))) (kv_data m)"
  by (simp add: sent_pairs_def)

text \<open>Serialising and resetting a buffer moves its contents into the message.\<close>

lemma dt_drain:
  assumes ok: "dt_ok h dt" and m: "\<And>k. uk (mk k) = k" "\<And>v. uv (mv v) = v"
  shows "\<exists>ws dt'. dt_serializeToNet mk mv dt = Inr ws \<and> dt_reset h nb dt = Inr dt' \<and> dt_empty dt' \<and> dt_ok h dt' \<and>
    dt_ok h (dt_clear dt') \<and> dt_lookup (dt_clear dt') = Map.empty \<and> dt_lookup dt' = Map.empty \<and>
    (\<forall>k acc. gather acc k (map (\<lambda>p. (uk (fst p), uv (snd p))) ws) = dt_lookup dt k) \<and>
    (\<forall>p \<in> set ws. dt_lookup dt (uk (fst p)) \<noteq> None)"
proof -
  let ?ss = "filter in_use (dt_buckets dt)"
  let ?ws = "map (\<lambda>s. (mk (skey s), mv (v1 s))) ?ss"
  let ?kvs = "map (\<lambda>s. (skey s, v1 s)) ?ss"
  have ws: "dt_serializeToNet mk mv dt = Inr ?ws"
    by (simp add: dt_serializeToNet_def dt_serialize_all [OF ok, simplified])
  obtain dt' where dt': "dt_reset h nb dt = Inr dt'" "dt_ok h dt'" "dt_lookup dt' = Map.empty"
    using dt_reset_ok [of h nb dt] by blast
  have dec: "map (\<lambda>p. (uk (fst p), uv (snd p))) ?ws = ?kvs" by (simp add: m comp_def)
  have "distinct (map fst ?kvs)" using open_ok_distinct [OF dt_okD(3) [OF ok]] by (simp add: comp_def)
  then have gather_kvs: "gather acc k ?kvs = dt_lookup dt k" for k acc
    by (simp add: gather_distinct dt_lookup_map_of)
  have "dt_lookup dt (uk (fst p)) \<noteq> None" if "p \<in> set ?ws" for p
  proof -
    have "map_of ?kvs (uk (fst p)) \<noteq> None" using that m by (auto simp: map_of_eq_None_iff image_iff)
    then show ?thesis by (simp add: dt_lookup_map_of)
  qed
  then show ?thesis
    using ws dt' dt_clear_spec [OF dt'(2)] dt_emptied [OF dt'(2,3)] gather_kvs
    by (intro exI [of _ ?ws] exI [of _ dt'] conjI) (simp_all only: dec, simp_all)
qed

lemma gt_send_shard_spec:
  assumes ok: "gt_ok e g" and i: "i < ge_num_shards e" "\<not> gt_local e g i"
    and sh: "sharded e sh" and m: "marshals e" and acc: "accumulator (k_accumulate (ge_kernel e))"
    and sent: "sent_ok e sh g"
  shows "\<exists>g'. gt_send_shard 1 e i g = Inr g' \<and> gt_ok e g' \<and> sent_ok e sh g' \<and> same_frame g g' \<and>
    outstanding e sh g' = outstanding e sh g \<and>
    (\<forall>j. j \<noteq> i \<longrightarrow> gt_partitions g' ! j = gt_partitions g ! j) \<and>
    (\<exists>dt. gt_partitions g' ! i = Delta dt \<and> dt_lookup dt = Map.empty)"
proof -
  let ?acc = "k_accumulate (ge_kernel e)"
  obtain w where w: "ge_helper_id e = Some w" using ok by (auto simp: gt_ok_def)
  have len: "length (gt_partitions g) = ge_num_shards e" "length (gt_partinfo g) = ge_num_shards e"
    using ok by (simp_all add: gt_ok_def)
  from gt_ok_Delta [OF ok i] obtain dt where dt: "gt_partitions g ! i = Delta dt" "dt_ok (ge_hash e) dt"
    and own: "\<And>k. dt_lookup dt k \<noteq> None \<Longrightarrow> ge_sharder e k (int (ge_num_shards e)) = Inr (int i)" by blast
  have shk: "sh k = i" if "dt_lookup dt k \<noteq> None" for k
    using own [OF that] sh by (auto simp: sharded_def)
  from dt_drain [OF dt(2), of "ge_uk e" "ge_mk e" "ge_uv e" "ge_mv e" "ge_nd e"] m obtain ws dt'
    where ws: "dt_serializeToNet (ge_mk e) (ge_mv e) dt = Inr ws" "dt_reset (ge_hash e) (ge_nd e) dt = Inr dt'"
      "dt_empty dt'" and dt': "dt_ok (ge_hash e) dt'" "dt_lookup dt' = Map.empty"
      and cl: "dt_ok (ge_hash e) (dt_clear dt')" "dt_lookup (dt_clear dt') = Map.empty"
      and dec: "\<And>k. gather ?acc k (map (\<lambda>p. (ge_uk e (fst p), ge_uv e (snd p))) ws) = dt_lookup dt k"
      and keys: "\<forall>p \<in> set ws. dt_lookup dt (ge_uk e (fst p)) \<noteq> None"
    unfolding marshals_def by blast
  let ?own = "pi_owner (gt_partinfo g ! i)"
  let ?put = "\<lparr>kv_source = w, kv_table = ge_table_id e, kv_shard = int i, kv_done = True, kv_data = ws, kv_epoch = ge_epoch e\<rparr>"
  let ?g' = "gt_set (int i) (Delta (dt_clear dt')) ((gt_set (int i) (Delta dt') g)\<lparr>gt_sent := gt_sent g @ [(?own + 1, ?put)]\<rparr>)"
  have run: "gt_send_shard 1 e i g = Inr ?g'"
    using i dt(1) ws w len by (simp add: gt_deltaT_def gt_owner_def result_simps Let_def)
  have ok': "gt_ok e ?g'"
    by (rule gt_ok_set) (use ok i cl dt' in \<open>auto simp: part_ok_def intro!: gt_ok_set\<close>)
  have part: "gt_partitions ?g' = (gt_partitions g)[i := Delta (dt_clear dt')]" "gt_partinfo ?g' = gt_partinfo g"
    "gt_sent ?g' = gt_sent g @ [(?own + 1, ?put)]" by (simp_all add: gt_set_def)
  have sent': "sent_ok e sh ?g'"
    using sent i keys shk unfolding sent_ok_def part by auto
  have "sent_pairs e ?g' = sent_pairs e g @ map (\<lambda>p. (ge_uk e (fst p), ge_uv e (snd p))) ws"
    using sent_pairs_snoc [OF part(3), of e] by simp
  moreover have "sh k \<noteq> i \<Longrightarrow> dt_lookup dt k = None" for k using shk by blast
  ultimately have "outstanding e sh ?g' k = outstanding e sh g k" for k
    using accumulator.gather_append [OF acc, of k "sent_pairs e g"] dec [of k] part(1) dt(1) cl(2) i(1) len(1)
    by (cases "sh k = i") (auto simp: outstanding_def buffered_def)
  then show ?thesis
    using run ok' sent' part i(1) len(1) cl(2) by (intro exI [of _ ?g']) (auto simp: same_frame_def fun_eq_iff)
qed

definition drained :: "('k, 'v, 'd) local_table \<Rightarrow> bool" where
  "drained p = (case p of Delta dt \<Rightarrow> dt_lookup dt = Map.empty | State _ \<Rightarrow> False)"

lemma gt_send_step_spec:
  assumes ok: "gt_ok e g" and i: "i < ge_num_shards e"
    and sh: "sharded e sh" and m: "marshals e" and acc: "accumulator (k_accumulate (ge_kernel e))"
    and sent: "sent_ok e sh g"
  shows "\<exists>g1. gt_send_step e i g = Inr g1 \<and> gt_ok e g1 \<and> sent_ok e sh g1 \<and> same_frame g g1 \<and>
    outstanding e sh g1 = outstanding e sh g \<and>
    (\<forall>j. gt_partitions g1 ! j = gt_partitions g ! j \<or> j = i \<and> \<not> gt_local e g j) \<and>
    (\<not> gt_local e g i \<longrightarrow> drained (gt_partitions g1 ! i))"
proof (cases "gt_local e g i \<or> \<not> pi_dirty (gt_partinfo g ! i) \<and> lt_empty (gt_partitions g ! i)")
  case True
  then have "gt_send_step e i g = Inr g"
    using i ok by (auto simp: gt_send_step_def gt_is_local_shard_eq result_simps gt_ok_def)
  moreover have "drained (gt_partitions g ! i)" if r: "\<not> gt_local e g i"
  proof -
    from gt_ok_Delta [OF ok i r] obtain dt where "gt_partitions g ! i = Delta dt" "dt_ok (ge_hash e) dt" by blast
    with True r card_dt_lookup [of "ge_hash e" dt] finite_dt_lookup [of dt] show ?thesis
      by (auto simp: lt_empty_def lt_size_def dt_count_def drained_def)
  qed
  ultimately show ?thesis using ok sent by (auto simp: same_frame_def)
next
  case False
  then have r: "\<not> gt_local e g i" by simp
  have "gt_send_step e i g = gt_send_shard 1 e i g"
    using i False ok by (auto simp: gt_send_step_def gt_is_local_shard_eq result_simps gt_ok_def)
  with gt_send_shard_spec [OF ok i r sh m acc sent] r show ?thesis
    by (auto simp: drained_def)
qed

text \<open>The loop of \<open>SendUpdates\<close> over the shards \<open>xs\<close>.\<close>

lemma gt_send_loop:
  assumes ok: "gt_ok e g" and xs: "\<forall>i \<in> set xs. i < ge_num_shards e" "distinct xs"
    and sh: "sharded e sh" and m: "marshals e" and acc: "accumulator (k_accumulate (ge_kernel e))"
    and sent: "sent_ok e sh g"
  shows "\<exists>g'. rfold (gt_send_step e) xs g = Inr g' \<and> gt_ok e g' \<and> sent_ok e sh g' \<and> same_frame g g' \<and>
    outstanding e sh g' = outstanding e sh g \<and>
    (\<forall>j. gt_partitions g' ! j = gt_partitions g ! j \<or> j \<in> set xs \<and> \<not> gt_local e g j) \<and>
    (\<forall>j \<in> set xs. \<not> gt_local e g j \<longrightarrow> drained (gt_partitions g' ! j))"
  using ok xs sent
proof (induction xs arbitrary: g)
  case Nil
  then show ?case by (simp add: same_frame_def)
next
  case (Cons i xs)
  have i: "i < ge_num_shards e" "i \<notin> set xs" using Cons.prems(2,3) by simp_all
  from gt_send_step_spec [OF Cons.prems(1) i(1) sh m acc Cons.prems(4)]
  obtain g1 where g1: "gt_send_step e i g = Inr g1" "gt_ok e g1" "sent_ok e sh g1" "same_frame g g1"
    "outstanding e sh g1 = outstanding e sh g"
    "\<forall>j. gt_partitions g1 ! j = gt_partitions g ! j \<or> j = i \<and> \<not> gt_local e g j"
    "\<not> gt_local e g i \<longrightarrow> drained (gt_partitions g1 ! i)" by blast
  have loc: "gt_local e g1 = gt_local e g" using g1(4) by (rule same_frame_local)
  from Cons.IH [OF g1(2) _ _ g1(3)] Cons.prems(2,3) obtain g2 where
    g2: "rfold (gt_send_step e) xs g1 = Inr g2" "gt_ok e g2" "sent_ok e sh g2" "same_frame g1 g2"
    "outstanding e sh g2 = outstanding e sh g1"
    "\<forall>j. gt_partitions g2 ! j = gt_partitions g1 ! j \<or> j \<in> set xs \<and> \<not> gt_local e g1 j"
    "\<forall>j \<in> set xs. \<not> gt_local e g1 j \<longrightarrow> drained (gt_partitions g2 ! j)" by auto
  have dr: "\<forall>j \<in> set (i # xs). \<not> gt_local e g j \<longrightarrow> drained (gt_partitions g2 ! j)"
    using g1(7) g2(6,7) i(2) loc by (metis set_ConsD)
  have fr: "\<forall>j. gt_partitions g2 ! j = gt_partitions g ! j \<or> j \<in> set (i # xs) \<and> \<not> gt_local e g j"
    using g1(6) g2(6) loc by (metis list.set_intros(1,2))
  have "rfold (gt_send_step e) (i # xs) g = Inr g2" using g1(1) g2(1) by simp
  moreover have "same_frame g g2" using g1(4) g2(4) by (simp add: same_frame_def)
  ultimately show ?case
    using g2(2,3,5) g1(5) dr fr by (intro exI [of _ g2] conjI) simp_all
qed

lemma gt_SendUpdates_spec:
  assumes ok: "gt_ok e g" and sh: "sharded e sh" and m: "marshals e"
    and acc: "accumulator (k_accumulate (ge_kernel e))" and sent: "sent_ok e sh g"
  shows "\<exists>g'. gt_SendUpdates e g = Inr g' \<and> gt_ok e g' \<and> sent_ok e sh g' \<and> same_frame g g' \<and>
    outstanding e sh g' = outstanding e sh g \<and> rows sh g' = rows sh g \<and>
    (\<forall>k. \<not> gt_local e g (sh k) \<longrightarrow> buffered sh g' k = None) \<and> gt_pending_writes g' = 0"
proof -
  have len: "length (gt_partitions g) = ge_num_shards e" using ok by (simp add: gt_ok_def)
  from gt_send_loop [OF ok _ _ sh m acc sent, of "[0..<ge_num_shards e]"] obtain g1 where
    g1: "rfold (gt_send_step e) [0..<ge_num_shards e] g = Inr g1" "gt_ok e g1" "sent_ok e sh g1" "same_frame g g1"
    "outstanding e sh g1 = outstanding e sh g"
    "\<forall>j. gt_partitions g1 ! j = gt_partitions g ! j \<or> j \<in> set [0..<ge_num_shards e] \<and> \<not> gt_local e g j"
    "\<forall>j \<in> set [0..<ge_num_shards e]. \<not> gt_local e g j \<longrightarrow> drained (gt_partitions g1 ! j)" by auto
  have dr: "drained (gt_partitions g1 ! j)" if "j < ge_num_shards e" "\<not> gt_local e g j" for j
    using that g1(7) by simp
  let ?g = "g1\<lparr>gt_pending_writes := 0\<rparr>"
  have shk: "sh k < ge_num_shards e" for k using sh by (simp add: sharded_def)
  have "rows sh g1 k = rows sh g k" for k
  proof (cases "gt_local e g (sh k)")
    case True
    then show ?thesis using spec [OF g1(6), of "sh k"] by (simp add: rows_def)
  next
    case False
    then show ?thesis using dr [OF shk False] gt_ok_Delta [OF ok shk False]
      by (auto simp: rows_def drained_def split: local_table.splits)
  qed
  moreover have "buffered sh g1 k = None" if "\<not> gt_local e g (sh k)" for k
    using dr [OF shk that] by (auto simp: buffered_def drained_def split: local_table.splits)
  moreover have "gt_SendUpdates e g = Inr ?g" using g1(1) by (simp add: gt_SendUpdates_def len)
  moreover have "outstanding e sh ?g = outstanding e sh g1" "sent_ok e sh ?g = sent_ok e sh g1"
    "rows sh ?g = rows sh g1" "buffered sh ?g = buffered sh g1" "same_frame g ?g = same_frame g g1"
    by (simp_all add: outstanding_def sent_pairs_def buffered_def sent_ok_def rows_def same_frame_def fun_eq_iff)
  ultimately show ?thesis using g1 by (intro exI [of _ ?g]) (simp add: fun_eq_iff)
qed

section \<open>Accumulating\<close>

text \<open>
  The effect of one update on the view of the worker: a local key's pending change, or what is
  outstanding for a remote key.
\<close>

definition add_delta :: "('v \<Rightarrow> 'v \<Rightarrow> 'v) \<Rightarrow> 'v \<Rightarrow> 'v \<times> 'v \<times> 'd \<Rightarrow> 'v \<times> 'v \<times> 'd" where
  "add_delta acc v r = (case r of (a, b, c) \<Rightarrow> (acc a v, b, c))"

lemma gt_get_shard_eq: "sharded e sh \<Longrightarrow> gt_get_shard e k = Inr (int (sh k))"
  by (simp add: gt_get_shard_def sharded_def)

lemma gt_accumulate_local:
  assumes ok: "gt_ok e g" and sh: "sharded e sh" and loc: "gt_local e g (sh k)" and r: "rows sh g k = Some r"
  shows "\<exists>g'. gt_accumulateF1 e k v g = Inr g' \<and> gt_ok e g' \<and> same_frame g g' \<and> gt_sent g' = gt_sent g \<and>
    rows sh g' = (rows sh g)(k \<mapsto> add_delta (k_accumulate (ge_kernel e)) v r) \<and>
    outstanding e sh g' = outstanding e sh g"
proof -
  have n: "sh k < ge_num_shards e" "\<And>j. sh j < ge_num_shards e" using sh by (simp_all add: sharded_def)
  have len: "length (gt_partitions g) = ge_num_shards e" using ok by (simp add: gt_ok_def)
  from gt_ok_State [OF ok n(1) loc] obtain st where st: "gt_partitions g ! sh k = State st" "st_ok (ge_hash e) st" by blast
  have row: "st_rows st k = Some r" using r st(1) by (simp add: rows_def)
  obtain a b c where abc: "r = (a, b, c)" by (cases r)
  from st_accumulateF1_rows [OF st(2), where k = k and v = v and ker = "ge_kernel e"] row abc
  obtain st' where st': "st_accumulateF1 (ge_hash e) (ge_kernel e) k v st = Inr st'" "st_ok (ge_hash e) st'"
    "st_rows st' = (st_rows st)(k \<mapsto> (k_accumulate (ge_kernel e) a v, b, c))" by auto
  let ?g = "gt_set (int (sh k)) (State st') g"
  have "gt_accumulateF1 e k v g = Inr ?g"
    using n(1) len loc st(1) st'(1)
    by (simp add: gt_accumulateF1_def gt_on_shard_def gt_get_shard_eq [OF sh] gt_is_local_shard_eq [OF ok] gt_partition_def result_simps)
  moreover have "gt_ok e ?g" by (rule gt_ok_set [OF ok n(1)]) (simp add: part_ok_def loc st'(2))
  moreover have "rows sh ?g j = ((rows sh g)(k \<mapsto> add_delta (k_accumulate (ge_kernel e)) v r)) j" for j
    using n len st st' abc by (cases "sh j = sh k") (auto simp: rows_def gt_set_def add_delta_def)
  moreover have "outstanding e sh ?g j = outstanding e sh g j" for j
    using n len st by (cases "sh j = sh k") (auto simp: outstanding_def buffered_def sent_pairs_def gt_set_def)
  ultimately show ?thesis
    by (intro exI [of _ ?g]) (auto simp: same_frame_def gt_set_def fun_eq_iff)
qed

lemma gt_buffer_remote:
  assumes ok: "gt_ok e g" and sh: "sharded e sh" and rem: "\<not> gt_local e g (sh k)"
    and acc: "accumulator (k_accumulate (ge_kernel e))"
  shows "\<exists>dt dt'. gt_deltaT (int (sh k)) g = Inr dt \<and>
    dt_accumulate (ge_hash e) (ge_nd e) (k_accumulate (ge_kernel e)) k v dt = Inr dt' \<and>
    (let g' = (gt_set (int (sh k)) (Delta dt') g)\<lparr>gt_pending_writes := w\<rparr> in
       gt_ok e g' \<and> same_frame g g' \<and> gt_sent g' = gt_sent g \<and> rows sh g' = rows sh g \<and>
       outstanding e sh g' = (outstanding e sh g)(k := oacc (k_accumulate (ge_kernel e)) (outstanding e sh g k) (Some v)))"
proof -
  let ?acc = "k_accumulate (ge_kernel e)"
  have n: "sh k < ge_num_shards e" "\<And>j. sh j < ge_num_shards e" using sh by (simp_all add: sharded_def)
  have len: "length (gt_partitions g) = ge_num_shards e" using ok by (simp add: gt_ok_def)
  from gt_ok_Delta [OF ok n(1) rem] obtain dt where dt: "gt_partitions g ! sh k = Delta dt" "dt_ok (ge_hash e) dt"
    and own: "\<forall>j. dt_lookup dt j \<noteq> None \<longrightarrow> ge_sharder e j (int (ge_num_shards e)) = Inr (int (sh k))" by blast
  from dt_accumulate_ok [OF dt(2), of "ge_nd e" ?acc k v] obtain dt'
    where dt': "dt_accumulate (ge_hash e) (ge_nd e) ?acc k v dt = Inr dt'" "dt_ok (ge_hash e) dt'"
      "dt_lookup dt' = (dt_lookup dt)(k \<mapsto> merged ?acc (dt_lookup dt k) v)" by blast
  let ?g = "(gt_set (int (sh k)) (Delta dt') g)\<lparr>gt_pending_writes := w\<rparr>"
  have m: "Some (merged ?acc (dt_lookup dt k) v) = oacc ?acc (dt_lookup dt k) (Some v)"
    by (cases "dt_lookup dt k") (simp_all add: merged_def)
  have "gt_ok e (gt_set (int (sh k)) (Delta dt') g)"
  proof (rule gt_ok_set [OF ok n(1)])
    have "ge_sharder e k (int (ge_num_shards e)) = Inr (int (sh k))" using sh by (simp add: sharded_def)
    then show "part_ok e (gt_local e g (sh k)) (sh k) (Delta dt')"
      using own rem dt'(2) by (auto simp: part_ok_def dt'(3))
  qed
  moreover have "rows sh ?g j = rows sh g j" for j
    using n len dt by (cases "sh j = sh k") (auto simp: rows_def gt_set_def)
  moreover have "outstanding e sh ?g j = ((outstanding e sh g)(k := oacc ?acc (outstanding e sh g k) (Some v))) j" for j
    using n len dt dt'(3) m accumulator.oacc_assoc [OF acc]
    by (cases "sh j = sh k") (auto simp: outstanding_def buffered_def sent_pairs_def gt_set_def)
  moreover have "gt_deltaT (int (sh k)) g = Inr dt" using n(1) len dt(1) by (simp add: gt_deltaT_def result_simps)
  ultimately show ?thesis
    using dt'(1) by (intro exI [of _ dt] exI [of _ dt']) (auto simp: same_frame_def gt_set_def Let_def fun_eq_iff)
qed

lemma gt_accumulate_remote:
  assumes ok: "gt_ok e g" and sh: "sharded e sh" and rem: "\<not> gt_local e g (sh k)"
    and m: "marshals e" and acc: "accumulator (k_accumulate (ge_kernel e))" and sent: "sent_ok e sh g"
  shows "\<exists>g'. gt_accumulateF1 e k v g = Inr g' \<and> gt_ok e g' \<and> sent_ok e sh g' \<and> same_frame g g' \<and> rows sh g' = rows sh g \<and>
    outstanding e sh g' = (outstanding e sh g)(k := oacc (k_accumulate (ge_kernel e)) (outstanding e sh g k) (Some v))"
proof -
  from gt_buffer_remote [OF ok sh rem acc, of v "gt_pending_writes g + 1"] obtain dt dt'
    where d: "gt_deltaT (int (sh k)) g = Inr dt" "dt_accumulate (ge_hash e) (ge_nd e) (k_accumulate (ge_kernel e)) k v dt = Inr dt'"
      and "let g' = (gt_set (int (sh k)) (Delta dt') g)\<lparr>gt_pending_writes := gt_pending_writes g + 1\<rparr> in
       gt_ok e g' \<and> same_frame g g' \<and> gt_sent g' = gt_sent g \<and> rows sh g' = rows sh g \<and>
       outstanding e sh g' = (outstanding e sh g)(k := oacc (k_accumulate (ge_kernel e)) (outstanding e sh g k) (Some v))" by blast
  moreover define g1 where "g1 = (gt_set (int (sh k)) (Delta dt') g)\<lparr>gt_pending_writes := gt_pending_writes g + 1\<rparr>"
  ultimately have g1: "gt_ok e g1" "same_frame g g1" "gt_sent g1 = gt_sent g" "rows sh g1 = rows sh g"
    "outstanding e sh g1 = (outstanding e sh g)(k := oacc (k_accumulate (ge_kernel e)) (outstanding e sh g k) (Some v))"
    by (simp_all add: Let_def)
  have n: "sh k < ge_num_shards e" using sh by (simp add: sharded_def)
  have run: "gt_accumulateF1 e k v g = (if ge_bufmsg e < gt_pending_writes g1 then gt_SendUpdates e g1 else Inr g1)"
    using n rem d
    by (simp add: gt_accumulateF1_def gt_on_shard_def gt_get_shard_eq [OF sh] gt_is_local_shard_eq [OF ok] Let_def g1_def)
  have s1: "sent_ok e sh g1" using sent g1(2,3) by (simp add: sent_ok_def same_frame_def)
  from gt_SendUpdates_spec [OF g1(1) sh m acc s1] obtain g2 where
    "gt_SendUpdates e g1 = Inr g2" "gt_ok e g2" "sent_ok e sh g2" "same_frame g1 g2"
    "outstanding e sh g2 = outstanding e sh g1" "rows sh g2 = rows sh g1" by blast
  then show ?thesis using run g1 s1
    by (cases "ge_bufmsg e < gt_pending_writes g1") (auto simp: same_frame_def)
qed

definition deltas :: "'k \<Rightarrow> ('k \<times> 'v) list \<Rightarrow> 'v list" where
  "deltas k ups = map snd (filter (\<lambda>p. fst p = k) ups)"

lemma deltas_simps [simp]: "deltas k [] = []" "deltas k (p # ps) = (if fst p = k then snd p # deltas k ps else deltas k ps)"
  "deltas k (ps @ qs) = deltas k ps @ deltas k qs"
  by (simp_all add: deltas_def)

context accumulator
begin

lemma gather_Cons: "gather acc k (p # ps) = oacc acc (if fst p = k then Some (snd p) else None) (gather acc k ps)"
  using gather_append [of k "[p]" ps] by (simp add: gather_def)

lemma gather_deltas: "gather acc k ps = foldl (oacc acc) None (map Some (deltas k ps))"
proof (induction ps)
  case (Cons p ps)
  then show ?case
    using foldl_oacc [of "Some (snd p)" "map Some (deltas k ps)"] by (simp add: gather_Cons)
qed (simp add: gather_def)

lemma gather_Some_iff: "gather acc k ps \<noteq> None \<longleftrightarrow> deltas k ps \<noteq> []"
proof (induction ps)
  case (Cons p ps)
  then show ?case by (auto simp: gather_Cons oacc_def split: option.splits)
qed (simp add: gather_def)

lemma gather_None_mem: "gather acc (fst p) ps = None \<Longrightarrow> p \<notin> set ps"
  using gather_Some_iff [of "fst p" ps] by (auto simp: deltas_def filter_empty_conv)

text \<open>Adding a batch of changes one by one, or adding up the batch first.\<close>

lemma add_deltas: "fold (add_delta acc) vs (a, b, c) =
  ((case foldl (oacc acc) None (map Some vs) of None \<Rightarrow> a | Some u \<Rightarrow> acc a u), b, c)"
proof (induction vs arbitrary: a)
  case (Cons v vs)
  have "foldl (oacc acc) None (map Some (v # vs)) = oacc acc (Some v) (foldl (oacc acc) None (map Some vs))"
    using foldl_oacc [of "Some v" "map Some vs"] by simp
  then show ?case using Cons [of "acc a v"]
    by (cases "foldl (oacc acc) None (map Some vs)") (simp_all add: add_delta_def acc_assoc)
qed simp

lemma add_gathered: "gather acc k ps = gather acc k qs \<Longrightarrow>
  map_option (fold (add_delta acc) (deltas k ps)) r = map_option (fold (add_delta acc) (deltas k qs)) r"
  by (cases r) (auto simp: add_deltas gather_deltas)

end

lemma gt_accumulate_run:
  assumes "gt_ok e g" and sh: "sharded e sh" and m: "marshals e" and acc: "accumulator (k_accumulate (ge_kernel e))"
    and "sent_ok e sh g" and "\<forall>p \<in> set ups. gt_local e g (sh (fst p)) \<longrightarrow> rows sh g (fst p) \<noteq> None"
  shows "\<exists>g'. rfold (\<lambda>p. gt_accumulateF1 e (fst p) (snd p)) ups g = Inr g' \<and> gt_ok e g' \<and> sent_ok e sh g' \<and> same_frame g g' \<and>
    (\<forall>k. rows sh g' k = map_option (fold (add_delta (k_accumulate (ge_kernel e))) (deltas k ups)) (rows sh g k)) \<and>
    (\<forall>k. outstanding e sh g' k = (if gt_local e g (sh k) then outstanding e sh g k
      else oacc (k_accumulate (ge_kernel e)) (outstanding e sh g k) (gather (k_accumulate (ge_kernel e)) k ups)))"
  using assms(1,5,6)
proof (induction ups arbitrary: g)
  case Nil
  then show ?case by (simp add: same_frame_def gather_def option.map_ident fold_simps(1) id_def)
next
  case (Cons p ups)
  let ?acc = "k_accumulate (ge_kernel e)" and ?k = "fst p" and ?v = "snd p"
  have n: "sh j < ge_num_shards e" for j using sh by (simp add: sharded_def)
  have none: "rows sh g j = None" if "\<not> gt_local e g (sh j)" for j
    using gt_ok_Delta [OF Cons.prems(1) n that] by (auto simp: rows_def)
  have "\<exists>g1. gt_accumulateF1 e ?k ?v g = Inr g1 \<and> gt_ok e g1 \<and> sent_ok e sh g1 \<and> same_frame g g1 \<and>
    (\<forall>j. rows sh g1 j = (if j = ?k then map_option (add_delta ?acc ?v) (rows sh g j) else rows sh g j)) \<and>
    (\<forall>j. outstanding e sh g1 j = (if j = ?k \<and> \<not> gt_local e g (sh j)
      then oacc ?acc (outstanding e sh g j) (Some ?v) else outstanding e sh g j))"
  proof (cases "gt_local e g (sh ?k)")
    case True
    with Cons.prems(3) obtain r where r: "rows sh g ?k = Some r" by auto
    from gt_accumulate_local [OF Cons.prems(1) sh True r, of ?v] obtain g1 where
      "gt_accumulateF1 e ?k ?v g = Inr g1" "gt_ok e g1" "same_frame g g1" "gt_sent g1 = gt_sent g"
      "rows sh g1 = (rows sh g)(?k \<mapsto> add_delta ?acc ?v r)" "outstanding e sh g1 = outstanding e sh g" by blast
    then show ?thesis using True r Cons.prems(2)
      by (intro exI [of _ g1]) (auto simp: sent_ok_def same_frame_def)
  next
    case False
    from gt_accumulate_remote [OF Cons.prems(1) sh False m acc Cons.prems(2), of ?v] none [OF False] show ?thesis
      by (auto simp: False)
  qed
  then obtain g1 where g1: "gt_accumulateF1 e ?k ?v g = Inr g1" "gt_ok e g1" "sent_ok e sh g1" "same_frame g g1"
    "\<And>j. rows sh g1 j = (if j = ?k then map_option (add_delta ?acc ?v) (rows sh g j) else rows sh g j)"
    "\<And>j. outstanding e sh g1 j = (if j = ?k \<and> \<not> gt_local e g (sh j)
      then oacc ?acc (outstanding e sh g j) (Some ?v) else outstanding e sh g j)" by blast
  have loc: "gt_local e g1 = gt_local e g" using g1(4) by (rule same_frame_local)
  have "\<forall>q \<in> set ups. gt_local e g1 (sh (fst q)) \<longrightarrow> rows sh g1 (fst q) \<noteq> None"
    using Cons.prems(3) by (simp add: loc g1(5) del: not_None_eq)
  from Cons.IH [OF g1(2,3) this] obtain g2 where
    g2: "rfold (\<lambda>p. gt_accumulateF1 e (fst p) (snd p)) ups g1 = Inr g2" "gt_ok e g2" "sent_ok e sh g2" "same_frame g1 g2"
    "\<And>k. rows sh g2 k = map_option (fold (add_delta ?acc) (deltas k ups)) (rows sh g1 k)"
    "\<And>k. outstanding e sh g2 k = (if gt_local e g (sh k) then outstanding e sh g1 k
      else oacc ?acc (outstanding e sh g1 k) (gather ?acc k ups))" unfolding loc by blast
  have "rows sh g2 k = map_option (fold (add_delta ?acc) (deltas k (p # ups))) (rows sh g k)" for k
    by (simp add: g2(5) g1(5) option.map_comp comp_def)
  moreover have "outstanding e sh g2 k = (if gt_local e g (sh k) then outstanding e sh g k
      else oacc ?acc (outstanding e sh g k) (gather ?acc k (p # ups)))" for k
    using accumulator.oacc_assoc [OF acc] by (simp add: g2(6) g1(6) accumulator.gather_Cons [OF acc])
  ultimately show ?case
    using g1(1,4) g2(1,2,3,4) by (intro exI [of _ g2]) (simp add: same_frame_def)
qed

section \<open>From one worker to another\<close>

lemma gt_ApplyUpdates_eq:
  assumes "gt_ok e g" and "kv_shard req = int i" and "i < ge_num_shards e"
  shows "gt_ApplyUpdates e req g =
    rfold (\<lambda>p. gt_accumulateF1 e (fst p) (snd p)) (map (\<lambda>p. (ge_uk e (fst p), ge_uv e (snd p))) (kv_data req)) g"
  using assms by (simp add: gt_ApplyUpdates_def dt_deserializeFromNet_def gt_ok_def result_simps split_def)

lemma gt_apply_all:
  assumes "gt_ok e g" and "sharded e sh" and "marshals e" and "accumulator (k_accumulate (ge_kernel e))" and "sent_ok e sh g"
    and "\<forall>req \<in> set reqs. \<exists>i < ge_num_shards e. kv_shard req = int i"
    and "ps = concat (map (\<lambda>req. map (\<lambda>p. (ge_uk e (fst p), ge_uv e (snd p))) (kv_data req)) reqs)"
    and "\<forall>p \<in> set ps. gt_local e g (sh (fst p)) \<longrightarrow> rows sh g (fst p) \<noteq> None"
  shows "\<exists>g'. rfold (gt_ApplyUpdates e) reqs g = Inr g' \<and> gt_ok e g' \<and>
    (\<forall>k. rows sh g' k = map_option (fold (add_delta (k_accumulate (ge_kernel e))) (deltas k ps)) (rows sh g k))"
  using assms(1,5-)
proof (induction reqs arbitrary: g ps)
  case Nil
  then show ?case by (simp add: option.map_ident fold_simps(1) id_def)
next
  case (Cons req reqs)
  let ?acc = "k_accumulate (ge_kernel e)"
  let ?p1 = "map (\<lambda>p. (ge_uk e (fst p), ge_uv e (snd p))) (kv_data req)"
  let ?p2 = "concat (map (\<lambda>req. map (\<lambda>p. (ge_uk e (fst p), ge_uv e (snd p))) (kv_data req)) reqs)"
  have ps: "ps = ?p1 @ ?p2" using Cons.prems(4) by simp
  from gt_accumulate_run [OF Cons.prems(1) assms(2,3,4) Cons.prems(2), of ?p1] Cons.prems(5) ps obtain g1 where
    g1: "rfold (\<lambda>p. gt_accumulateF1 e (fst p) (snd p)) ?p1 g = Inr g1" "gt_ok e g1" "sent_ok e sh g1" "same_frame g g1"
    "\<And>k. rows sh g1 k = map_option (fold (add_delta ?acc) (deltas k ?p1)) (rows sh g k)" by auto
  have "\<forall>p \<in> set ?p2. gt_local e g1 (sh (fst p)) \<longrightarrow> rows sh g1 (fst p) \<noteq> None"
    using Cons.prems(5) same_frame_local [OF g1(4), of e] unfolding ps by (simp add: g1(5))
  from Cons.IH [OF g1(2,3) _ refl this] Cons.prems(3) obtain g2 where
    g2: "rfold (gt_ApplyUpdates e) reqs g1 = Inr g2" "gt_ok e g2"
    "\<And>k. rows sh g2 k = map_option (fold (add_delta ?acc) (deltas k ?p2)) (rows sh g1 k)" by auto
  have "gt_ApplyUpdates e req g = Inr g1"
    using gt_ApplyUpdates_eq [OF Cons.prems(1), of req] Cons.prems(3) g1(1) by auto
  then show ?case using g2 g1(5)
    by (intro exI [of _ g2]) (simp add: ps option.map_comp comp_def)
qed

text \<open>The messages for one worker hold exactly the updates of the keys it owns.\<close>

lemma deltas_delivered:
  assumes "sent_ok e sh g" and "pi_owner (gt_partinfo g ! sh k) = w"
  shows "deltas k (concat (map (\<lambda>m. map (\<lambda>p. (ge_uk e (fst p), ge_uv e (snd p))) (kv_data (snd m)))
      (filter (\<lambda>m. fst m = w + 1) (gt_sent g)))) = deltas k (sent_pairs e g)"
proof -
  let ?d = "\<lambda>m. map (\<lambda>p. (ge_uk e (fst p), ge_uv e (snd p))) (kv_data (snd m))"
  have skip: "deltas k (?d m) = []" if mem: "m \<in> set ms" "set ms \<subseteq> set (gt_sent g)" "fst m \<noteq> w + 1" for m ms
  proof -
    obtain i where i: "fst m = pi_owner (gt_partinfo g ! i) + 1" "\<forall>p \<in> set (kv_data (snd m)). sh (ge_uk e (fst p)) = i"
      using bspec [OF assms(1) [unfolded sent_ok_def], of m] mem(1,2) by (auto simp: split_def)
    then have "i \<noteq> sh k" using assms(2) mem(3) i(1) by auto
    then show ?thesis using i(2) by (auto simp: deltas_def filter_empty_conv)
  qed
  have "deltas k (concat (map ?d (filter (\<lambda>m. fst m = w + 1) ms))) = deltas k (concat (map ?d ms))"
    if "set ms \<subseteq> set (gt_sent g)" for ms
    using that
  proof (induction ms)
    case (Cons m ms)
    then show ?case using skip [of m "m # ms"] by auto
  qed simp
  then show ?thesis by (simp add: sent_pairs_def)
qed

text \<open>The sender: after a run and a flush the messages hold the run's updates of every remote key.\<close>

lemma sender_run:
  assumes ok: "gt_ok e g" and sh: "sharded e sh" and m: "marshals e" and A: "accumulator (k_accumulate (ge_kernel e))"
    and fresh: "gt_sent g = []" "\<And>k. buffered sh g k = None"
    and known: "\<forall>p \<in> set ups. gt_local e g (sh (fst p)) \<longrightarrow> rows sh g (fst p) \<noteq> None"
  shows "\<exists>g1 g'. rfold (\<lambda>p. gt_accumulateF1 e (fst p) (snd p)) ups g = Inr g1 \<and> gt_SendUpdates e g1 = Inr g' \<and>
    sent_ok e sh g' \<and> gt_partinfo g' = gt_partinfo g \<and>
    (\<forall>k. \<not> gt_local e g (sh k) \<longrightarrow>
      gather (k_accumulate (ge_kernel e)) k (sent_pairs e g') = gather (k_accumulate (ge_kernel e)) k ups)"
proof -
  let ?acc = "k_accumulate (ge_kernel e)"
  have sent0: "sent_ok e sh g" using fresh by (simp add: sent_ok_def)
  from gt_accumulate_run [OF ok sh m A sent0 known] obtain g1 where
    g1: "rfold (\<lambda>p. gt_accumulateF1 e (fst p) (snd p)) ups g = Inr g1" "gt_ok e g1" "sent_ok e sh g1" "same_frame g g1"
    and o1: "\<And>k. outstanding e sh g1 k = (if gt_local e g (sh k) then outstanding e sh g k
      else oacc ?acc (outstanding e sh g k) (gather ?acc k ups))" by blast
  from gt_SendUpdates_spec [OF g1(2) sh m A g1(3)] obtain g' where
    g': "gt_SendUpdates e g1 = Inr g'" "sent_ok e sh g'" "same_frame g1 g'" "outstanding e sh g' = outstanding e sh g1"
    and b: "\<And>k. \<not> gt_local e g1 (sh k) \<Longrightarrow> buffered sh g' k = None" by blast
  have "gather ?acc k (sent_pairs e g') = gather ?acc k ups" if rem: "\<not> gt_local e g (sh k)" for k
  proof -
    have "gather ?acc k (sent_pairs e g') = outstanding e sh g' k"
      using b [of k] rem same_frame_local [OF g1(4), of e] by (simp add: outstanding_def)
    also have "\<dots> = gather ?acc k ups"
      using o1 [of k] rem g'(4) fresh by (simp add: outstanding_def sent_pairs_def gather_def)
    finally show ?thesis .
  qed
  then show ?thesis using g1(1,4) g'(1,2,3) by (intro exI [of _ g1] exI [of _ g']) (simp add: same_frame_def)
qed

text \<open>
  C10: let one worker run any sequence of \<^verbatim>\<open>accumulateF1\<close> calls and then \<^verbatim>\<open>SendUpdates\<close>, and let
  another worker \<^verbatim>\<open>ApplyUpdates\<close> the messages addressed to it. Every call succeeds, whatever the
  \<^verbatim>\<open>bufmsg\<close> threshold makes the sender flush in between, and the pending change of every row the
  receiver owns ends up as if the sender's updates of that key had been accumulated into it directly,
  one by one and in order: buffering, aggregating, marshalling and sending lose nothing and apply
  nothing twice. The kernel's accumulate has to be associative, the marshallers have to read back
  what they write, the sharder has to map every key into range.
\<close>

theorem updates_reach_the_owner:
  assumes ok: "gt_ok e g" "gt_ok (e\<lparr>ge_helper_id := Some w\<rparr>) g2" and "ge_helper_id e \<noteq> Some w"
    and sh: "sharded e sh" and m: "marshals e"
    and acc: "\<And>a b c. k_accumulate (ge_kernel e) (k_accumulate (ge_kernel e) a b) c =
      k_accumulate (ge_kernel e) a (k_accumulate (ge_kernel e) b c)"
    and same: "gt_partinfo g2 = gt_partinfo g" and fresh: "gt_sent g = []" "gt_sent g2 = []" "\<And>k. buffered sh g k = None"
    and known: "\<forall>p \<in> set ups. gt_local e g (sh (fst p)) \<longrightarrow> rows sh g (fst p) \<noteq> None"
      "\<forall>p \<in> set ups. pi_owner (gt_partinfo g ! sh (fst p)) = w \<longrightarrow> rows sh g2 (fst p) \<noteq> None"
  shows "\<exists>g' g'' g2'. rfold (\<lambda>p. gt_accumulateF1 e (fst p) (snd p)) ups g = Inr g' \<and> gt_SendUpdates e g' = Inr g'' \<and>
    rfold (gt_ApplyUpdates (e\<lparr>ge_helper_id := Some w\<rparr>)) (map snd (filter (\<lambda>m. fst m = w + 1) (gt_sent g''))) g2 = Inr g2' \<and>
    (\<forall>k. pi_owner (gt_partinfo g ! sh k) = w \<longrightarrow>
      rows sh g2' k = map_option (fold (add_delta (k_accumulate (ge_kernel e))) (deltas k ups)) (rows sh g2 k))"
proof -
  let ?acc = "k_accumulate (ge_kernel e)" and ?e2 = "e\<lparr>ge_helper_id := Some w\<rparr>"
  have A: "accumulator ?acc" by (rule accumulator.intro) (rule acc)
  have sent0: "sent_ok ?e2 sh g2" using fresh by (simp add: sent_ok_def)
  have sh2: "sharded ?e2 sh" and m2: "marshals ?e2" and A2: "accumulator (k_accumulate (ge_kernel ?e2))"
    using sh m A by (simp_all add: sharded_def marshals_def)
  from sender_run [OF ok(1) sh m A fresh(1,3) known(1)] obtain g1 g' where
    g': "rfold (\<lambda>p. gt_accumulateF1 e (fst p) (snd p)) ups g = Inr g1" "gt_SendUpdates e g1 = Inr g'"
    "sent_ok e sh g'" "gt_partinfo g' = gt_partinfo g"
    and gath: "\<And>k. \<not> gt_local e g (sh k) \<Longrightarrow> gather ?acc k (sent_pairs e g') = gather ?acc k ups" by blast
  let ?reqs = "map snd (filter (\<lambda>m. fst m = w + 1) (gt_sent g'))"
  let ?ps = "concat (map (\<lambda>req. map (\<lambda>p. (ge_uk ?e2 (fst p), ge_uv ?e2 (snd p))) (kv_data req)) ?reqs)"
  have eq: "gather ?acc k ?ps = gather ?acc k ups" if own: "pi_owner (gt_partinfo g ! sh k) = w" for k
  proof -
    have "\<not> gt_local e g (sh k)" using own assms(3) by (simp add: gt_local_def)
    moreover have "deltas k ?ps = deltas k (sent_pairs e g')"
      using deltas_delivered [OF g'(3), of k w] own g'(4) by (simp add: comp_def)
    ultimately show ?thesis using gath [of k] by (simp add: accumulator.gather_deltas [OF A])
  qed
  have known2: "\<forall>p \<in> set ?ps. gt_local ?e2 g2 (sh (fst p)) \<longrightarrow> rows sh g2 (fst p) \<noteq> None"
  proof (intro ballI impI)
    fix p assume p: "p \<in> set ?ps" "gt_local ?e2 g2 (sh (fst p))"
    then have own: "pi_owner (gt_partinfo g ! sh (fst p)) = w" by (simp add: gt_local_def same)
    have "gather ?acc (fst p) ups \<noteq> None"
      unfolding eq [OF own, symmetric] using accumulator.gather_None_mem [OF A, of p ?ps] p(1) by blast
    then have "deltas (fst p) ups \<noteq> []" using accumulator.gather_Some_iff [OF A, of "fst p" ups] by simp
    then obtain q where "q \<in> set ups" "fst q = fst p" by (auto simp: deltas_def filter_empty_conv)
    then show "rows sh g2 (fst p) \<noteq> None" using bspec [OF known(2), of q] own by simp
  qed
  have "\<forall>req \<in> set ?reqs. \<exists>i < ge_num_shards ?e2. kv_shard req = int i"
  proof
    fix req assume "req \<in> set ?reqs"
    then obtain d where "(d, req) \<in> set (gt_sent g')" by auto
    from bspec [OF g'(3) [unfolded sent_ok_def] this] show "\<exists>i < ge_num_shards ?e2. kv_shard req = int i" by auto
  qed
  from gt_apply_all [OF ok(2) sh2 m2 A2 sent0 this refl known2] obtain g2' where
    g2': "rfold (gt_ApplyUpdates ?e2) ?reqs g2 = Inr g2'"
    "\<forall>k. rows sh g2' k = map_option (fold (add_delta (k_accumulate (ge_kernel ?e2))) (deltas k ?ps)) (rows sh g2 k)"
    by blast
  have "rows sh g2' k = map_option (fold (add_delta ?acc) (deltas k ups)) (rows sh g2 k)"
    if "pi_owner (gt_partinfo g ! sh k) = w" for k
    using spec [OF g2'(2), of k] accumulator.add_gathered [OF A eq [OF that]] by simp
  then show ?thesis using g'(1,2) g2'(1) by blast
qed

text \<open>Two workers, two shards, summed natural numbers.\<close>

definition ex_env :: "(nat, nat, unit) genv" where
  "ex_env = \<lparr>ge_table_id = 0, ge_num_shards = 2, ge_schedule_portion = 1, ge_helper_id = Some 0, ge_epoch = 0,
     ge_bufmsg = 1, ge_sharder = (\<lambda>k. shard_UintMod (int k)), ge_hash = id,
     ge_kernel = \<lparr>k_default_v = 0, k_init_c = (\<lambda>_ _. 1), k_init_v = (\<lambda>_ _. 0), k_accumulate = (+),
       k_process_delta_v = (\<lambda>_ d v _. (d, v)), k_priority = (\<lambda>_ _ d. d), k_g_func = (\<lambda>_ _ _ _. [])\<rparr>,
     ge_nd = \<lparr>skey = 0, in_use = False, v1 = 0\<rparr>, ge_ns = ex_row 0 False 0 0,
     ge_mk = (\<lambda>n. replicate n CHR ''x''), ge_uk = length, ge_mv = (\<lambda>n. replicate n CHR ''x''), ge_uv = length\<rparr>"

definition ex_buffer :: "(nat, nat) DeltaTable" where
  "ex_buffer = dt_clear \<lparr>dt_buckets = [ge_nd ex_env], dt_entries = 0, dt_size = 1\<rparr>"

definition ex_global :: "(nat, nat, unit) local_table list \<Rightarrow> (nat, nat, unit) GlobalTable" where
  "ex_global ps = \<lparr>gt_partitions = ps,
     gt_partinfo = [\<lparr>pi_dirty = False, pi_tainted = False, pi_owner = 0, pi_entries = 0\<rparr>,
       \<lparr>pi_dirty = False, pi_tainted = False, pi_owner = 1, pi_entries = 0\<rparr>],
     gt_pending_writes = 0, gt_snapshot_index = 0, gt_binit = True, gt_update_queue = [], gt_sent = [], gt_termchecks = []\<rparr>"

definition ex_sender :: "(nat, nat, unit) GlobalTable" where
  "ex_sender = ex_global [State (ex_table [ex_row 0 True 1 0]), Delta ex_buffer]"

definition ex_receiver :: "(nat, nat, unit) GlobalTable" where
  "ex_receiver = ex_global [Delta ex_buffer, State (ex_table [ex_row 0 False 0 0, ex_row 1 True 1 0])]"

lemma ex_buffer_ok: "dt_ok id ex_buffer" "dt_lookup ex_buffer = Map.empty"
  using dt_cleared(1) [of 1 id "ge_nd ex_env" "[ge_nd ex_env]" "\<lparr>dt_buckets = [ge_nd ex_env], dt_entries = 0, dt_size = 1\<rparr>"]
    dt_cleared(2) [of 1 "ge_nd ex_env" "[ge_nd ex_env]" "\<lparr>dt_buckets = [ge_nd ex_env], dt_entries = 0, dt_size = 1\<rparr>"]
  by (simp_all add: vec_resize_def ex_buffer_def)

lemma ex_global_ok: "gt_ok ex_env ex_sender" "gt_ok (ex_env\<lparr>ge_helper_id := Some 1\<rparr>) ex_receiver"
proof -
  have "st_ok id (ex_table [ex_row 0 True (1 :: nat) 0])" by (rule ex_table_ok) (auto simp: ex_row_def)
  then show "gt_ok ex_env ex_sender"
    using ex_buffer_ok
    by (auto simp: gt_ok_def ex_sender_def ex_global_def ex_env_def part_ok_def gt_local_def less_Suc_eq_0_disj numeral_2_eq_2)
  have "st_ok id (ex_table [ex_row 0 False 0 0, ex_row 1 True (1 :: nat) 0])"
    by (rule ex_table_ok) (auto simp: ex_row_def less_Suc_eq_0_disj)
  then show "gt_ok (ex_env\<lparr>ge_helper_id := Some 1\<rparr>) ex_receiver"
    using ex_buffer_ok
    by (auto simp: gt_ok_def ex_receiver_def ex_global_def ex_env_def part_ok_def gt_local_def less_Suc_eq_0_disj numeral_2_eq_2)
qed

lemma ex_rows: "rows (\<lambda>k. k mod 2) ex_sender 0 = Some (1, 0, ())" "rows (\<lambda>k. k mod 2) ex_receiver 1 = Some (1, 0, ())"
  by (simp_all add: rows_def ex_sender_def ex_receiver_def ex_global_def ex_table_def ex_row_def st_rows_def stored_def row_of_def)

theorem updates_reach_the_owner_witness:
  "\<exists>g' g'' g2'. rfold (\<lambda>p. gt_accumulateF1 ex_env (fst p) (snd p)) [(1, 5), (0, 2), (1, 7), (1, 1)] ex_sender = Inr g' \<and>
    gt_SendUpdates ex_env g' = Inr g'' \<and>
    rfold (gt_ApplyUpdates (ex_env\<lparr>ge_helper_id := Some 1\<rparr>)) (map snd (filter (\<lambda>m. fst m = 1 + 1) (gt_sent g''))) ex_receiver = Inr g2' \<and>
    rows (\<lambda>k. k mod 2) g2' 1 = Some (14, 0, ())"
proof -
  have b: "buffered (\<lambda>k. k mod 2) ex_sender k = None" for k
    by (cases "k mod 2 = 0") (simp_all add: buffered_def ex_sender_def ex_global_def ex_buffer_ok not_mod_2_eq_0_eq_1)
  have sh: "sharded ex_env (\<lambda>k. k mod 2)"
    by (simp add: sharded_def ex_env_def shard_UintMod_def zmod_int)
  have ma: "marshals ex_env" by (simp add: marshals_def ex_env_def)
  have acc: "k_accumulate (ge_kernel ex_env) = (+)" and hid: "ge_helper_id ex_env \<noteq> Some 1" by (simp_all add: ex_env_def)
  have assoc: "k_accumulate (ge_kernel ex_env) (k_accumulate (ge_kernel ex_env) a b) c =
    k_accumulate (ge_kernel ex_env) a (k_accumulate (ge_kernel ex_env) b c)" for a b c by (simp add: acc)
  have part: "gt_partinfo ex_receiver = gt_partinfo ex_sender" "gt_sent ex_sender = []" "gt_sent ex_receiver = []"
    by (simp_all add: ex_receiver_def ex_sender_def ex_global_def)
  have own: "gt_local ex_env ex_sender 1 = False" "pi_owner (gt_partinfo ex_sender ! 0) = 0" "pi_owner (gt_partinfo ex_sender ! 1) = 1"
    by (simp_all add: gt_local_def ex_sender_def ex_global_def ex_env_def)
  let ?ups = "[(1, 5), (0, 2), (1, 7), (1, 1)] :: (nat \<times> nat) list"
  have "\<forall>p \<in> set ?ups. gt_local ex_env ex_sender (fst p mod 2) \<longrightarrow> rows (\<lambda>k. k mod 2) ex_sender (fst p) \<noteq> None"
    using ex_rows(1) own by auto
  moreover have "\<forall>p \<in> set ?ups. pi_owner (gt_partinfo ex_sender ! (fst p mod 2)) = 1 \<longrightarrow> rows (\<lambda>k. k mod 2) ex_receiver (fst p) \<noteq> None"
    using ex_rows(2) own by auto
  ultimately have "\<exists>g' g'' g2'. rfold (\<lambda>p. gt_accumulateF1 ex_env (fst p) (snd p)) ?ups ex_sender = Inr g' \<and>
    gt_SendUpdates ex_env g' = Inr g'' \<and>
    rfold (gt_ApplyUpdates (ex_env\<lparr>ge_helper_id := Some 1\<rparr>)) (map snd (filter (\<lambda>m. fst m = 1 + 1) (gt_sent g''))) ex_receiver = Inr g2' \<and>
    (\<forall>k. pi_owner (gt_partinfo ex_sender ! (k mod 2)) = 1 \<longrightarrow> rows (\<lambda>k. k mod 2) g2' k =
      map_option (fold (add_delta (k_accumulate (ge_kernel ex_env))) (deltas k ?ups)) (rows (\<lambda>k. k mod 2) ex_receiver k))"
    by (rule updates_reach_the_owner [OF ex_global_ok hid sh ma assoc part b])
  then obtain g' g'' g2' where
    run: "rfold (\<lambda>p. gt_accumulateF1 ex_env (fst p) (snd p)) ?ups ex_sender = Inr g'" "gt_SendUpdates ex_env g' = Inr g''"
    "rfold (gt_ApplyUpdates (ex_env\<lparr>ge_helper_id := Some 1\<rparr>)) (map snd (filter (\<lambda>m. fst m = 1 + 1) (gt_sent g''))) ex_receiver = Inr g2'"
    and res: "\<And>k. pi_owner (gt_partinfo ex_sender ! (k mod 2)) = 1 \<Longrightarrow> rows (\<lambda>k. k mod 2) g2' k =
      map_option (fold (add_delta (k_accumulate (ge_kernel ex_env))) (deltas k ?ups)) (rows (\<lambda>k. k mod 2) ex_receiver k)"
    by blast
  have "rows (\<lambda>k. k mod 2) g2' 1 = Some (14, 0, ())"
    using res [of 1] own(3) ex_rows(2) by (simp add: acc add_delta_def)
  with run show ?thesis by blast
qed

end
