(* ===== verification/Kernels.thy ===== *)
theory Kernels
  imports CppString GlobalTable
begin

text \<open>
  The iterate kernels of \<^verbatim>\<open>src/examples\<close>: PageRank, Katz, shortest path, adsorption, connected components and
  SimRank. Each supplies the functions of the \<open>IterateKernel\<close> interface and the parser of an input
  line. \<^verbatim>\<open>float\<close> and \<^verbatim>\<open>double\<close> are rationals without rounding and overflow; \<^verbatim>\<open>boost::lexical_cast\<close> is
  an argument (\<open>lc\<close> for integers, \<open>lcf\<close> for floats), and so are the command line flags.
\<close>

named_theorems kernel_defs \<open>definitions of the kernels\<close>

section \<open>PageRank\<close>

definition pagerank_read_data :: "(string \<Rightarrow> int option) \<Rightarrow> string \<Rightarrow> (int \<times> int list) option result" where
  "pagerank_read_data lc line = parse_line lc line"

definition pagerank_g_func :: "int \<Rightarrow> rat \<Rightarrow> rat \<Rightarrow> int list \<Rightarrow> (int \<times> rat) list" where
  "pagerank_g_func k delta value data =
     (let outv = delta * (4 / 5) / of_int (int (length data)) in map (\<lambda>target. (target, outv)) data)"

definition pagerank_kernel :: "(int, rat, int list) IterateKernel" where
  "pagerank_kernel = \<lparr>k_default_v = 0, k_init_c = (\<lambda>_ _. 1 / 5), k_init_v = (\<lambda>_ _. 0), k_accumulate = (\<lambda>a b. a + b),
     k_process_delta_v = (\<lambda>_ d v _. (d, v)), k_priority = (\<lambda>_ value delta. delta), k_g_func = pagerank_g_func\<rparr>"

definition pagerank_getKey :: "(string \<Rightarrow> int option) \<Rightarrow> string \<Rightarrow> int result" where
  "pagerank_getKey lc key = lexical_cast lc key"

text \<open>\<^verbatim>\<open>getValue\<close>: \<^verbatim>\<open>boost::trim_right\<close> and \<^verbatim>\<open>boost::split\<close> are arguments.\<close>

definition pagerank_getValue :: "(string \<Rightarrow> int option) \<Rightarrow> (string \<Rightarrow> string) \<Rightarrow> (string \<Rightarrow> string list) \<Rightarrow> string \<Rightarrow> int list result" where
  "pagerank_getValue lc trim_right split_blank value = rmap (lexical_cast lc) (split_blank (trim_right value))"

section \<open>Katz\<close>

text \<open>Without a tab the position is -1: the source is the whole line, and so are the links.\<close>

definition katz_read_data :: "(string \<Rightarrow> int option) \<Rightarrow> string \<Rightarrow> (int \<times> int list) result" where
  "katz_read_data lc line =
     (let (src, links) = (case str_find line tab of None \<Rightarrow> (line, line) | Some p \<Rightarrow> (take p line, drop (p + 1) line))
      in rbind (lexical_cast lc src) (\<lambda>source. rbind (parse_links lc links) (\<lambda>linkvec. Inr (source, linkvec))))"

definition katz_init_c :: "int \<Rightarrow> int \<Rightarrow> rat" where
  "katz_init_c source k = (if k = source then 1000000 else 0)"

definition katz_g_func :: "rat \<Rightarrow> int \<Rightarrow> rat \<Rightarrow> rat \<Rightarrow> int list \<Rightarrow> (int \<times> rat) list" where
  "katz_g_func beta k delta value data = map (\<lambda>target. (target, beta * delta)) data"

definition katz_kernel :: "int \<Rightarrow> rat \<Rightarrow> (int, rat, int list) IterateKernel" where
  "katz_kernel source beta = \<lparr>k_default_v = 0, k_init_c = (\<lambda>k _. katz_init_c source k), k_init_v = (\<lambda>_ _. 0),
     k_accumulate = (\<lambda>a b. a + b), k_process_delta_v = (\<lambda>_ d v _. (d, v)), k_priority = (\<lambda>_ value delta. delta),
     k_g_func = katz_g_func beta\<rparr>"

section \<open>Shortest path\<close>

record Link =
  link_end :: int
  link_weight :: rat

text \<open>\<^verbatim>\<open>std::numeric_limits<float>::max()\<close>.\<close>

definition float_max :: rat where
  "float_max = (2 ^ 24 - 1) * 2 ^ 104"

text \<open>
  One link \<open>end,weight\<close>. The comma is searched in the rest of the line, not in the link alone; a
  \<^verbatim>\<open>substr\<close> that starts behind the end throws.
\<close>

definition parse_link :: "(string \<Rightarrow> int option) \<Rightarrow> (string \<Rightarrow> rat option) \<Rightarrow> string \<Rightarrow> string \<Rightarrow> Link result" where
  "parse_link lc lcf links link =
     (let (e, wpos) = (case str_find links CHR '','' of None \<Rightarrow> (link, 0) | Some p \<Rightarrow> (take p link, p + 1)) in
      rbind (lexical_cast lc e) (\<lambda>en.
      if length link < wpos then Inl OutOfBounds
      else case lcf (drop wpos link) of None \<Rightarrow> Inl BadLexicalCast
           | Some w \<Rightarrow> Inr \<lparr>link_end = en, link_weight = w\<rparr>))"

function parse_weighted :: "(string \<Rightarrow> int option) \<Rightarrow> (string \<Rightarrow> rat option) \<Rightarrow> string \<Rightarrow> Link list result" where
  "parse_weighted lc lcf links =
     (case str_find links CHR '' '' of
        None \<Rightarrow> Inr []
      | Some spacepos \<Rightarrow>
          rbind (if 0 < spacepos then parse_link lc lcf links (take spacepos links)
                 else Inr \<lparr>link_end = 0, link_weight = 0\<rparr>)
            (\<lambda>to. rbind (parse_weighted lc lcf (drop (spacepos + 1) links)) (\<lambda>linkvec. Inr (to # linkvec))))"
  by pat_completeness auto
termination parse_weighted
proof (relation "measure (\<lambda>(lc, lcf, s). length s)", goal_cases)
  case (2 lc lcf links x)
  then have "links \<noteq> []" by (cases links) auto
  then show ?case by simp
qed simp

declare parse_weighted.simps [simp del]

definition sp_read_data :: "(string \<Rightarrow> int option) \<Rightarrow> (string \<Rightarrow> rat option) \<Rightarrow> string \<Rightarrow> (int \<times> Link list) result" where
  "sp_read_data lc lcf line =
     (let (src, links) = (case str_find line tab of None \<Rightarrow> (line, line) | Some p \<Rightarrow> (take p line, drop (p + 1) line))
      in rbind (lexical_cast lc src) (\<lambda>source. rbind (parse_weighted lc lcf links) (\<lambda>linkvec. Inr (source, linkvec))))"

definition sp_init_c :: "int \<Rightarrow> int \<Rightarrow> rat" where
  "sp_init_c source k = (if k = source then 0 else float_max)"

definition sp_g_func :: "int \<Rightarrow> rat \<Rightarrow> rat \<Rightarrow> Link list \<Rightarrow> (int \<times> rat) list" where
  "sp_g_func k delta value data = map (\<lambda>target. (link_end target, delta + link_weight target)) data"

definition shortestpath_kernel :: "int \<Rightarrow> (int, rat, Link list) IterateKernel" where
  "shortestpath_kernel source = \<lparr>k_default_v = float_max, k_init_c = (\<lambda>k _. sp_init_c source k),
     k_init_v = (\<lambda>_ _. float_max), k_accumulate = (\<lambda>a b. min a b), k_process_delta_v = (\<lambda>_ d v _. (d, v)),
     k_priority = (\<lambda>_ value delta. value - min value delta), k_g_func = sp_g_func\<rparr>"

section \<open>Adsorption\<close>

definition adsorption_read_data :: "(string \<Rightarrow> int option) \<Rightarrow> (string \<Rightarrow> rat option) \<Rightarrow> string \<Rightarrow> (int \<times> Link list) result" where
  "adsorption_read_data lc lcf line =
     (let (src, links) = (case str_find line tab of None \<Rightarrow> (line, line) | Some p \<Rightarrow> (take p line, drop (p + 1) line))
      in rbind (lexical_cast lc src) (\<lambda>source. rbind (parse_weighted lc lcf links) (\<lambda>linkvec. Inr (source, linkvec))))"

definition adsorption_init_c :: "int \<Rightarrow> int \<Rightarrow> rat" where
  "adsorption_init_c starts k = (if k < starts then 10 else 0)"

definition adsorption_g_func :: "rat \<Rightarrow> int \<Rightarrow> rat \<Rightarrow> rat \<Rightarrow> Link list \<Rightarrow> (int \<times> rat) list" where
  "adsorption_g_func damping k delta value data =
     map (\<lambda>target. (link_end target, delta * damping * link_weight target)) data"

definition adsorption_kernel :: "int \<Rightarrow> rat \<Rightarrow> (int, rat, Link list) IterateKernel" where
  "adsorption_kernel starts damping = \<lparr>k_default_v = 0, k_init_c = (\<lambda>k _. adsorption_init_c starts k), k_init_v = (\<lambda>_ _. 0),
     k_accumulate = (\<lambda>a b. a + b), k_process_delta_v = (\<lambda>_ d v _. (d, v)), k_priority = (\<lambda>_ value delta. delta),
     k_g_func = adsorption_g_func damping\<rparr>"

section \<open>Connected components\<close>

definition cc_read_data :: "(string \<Rightarrow> int option) \<Rightarrow> string \<Rightarrow> (int \<times> int list) option result" where
  "cc_read_data lc line =
     (case str_find line tab of None \<Rightarrow> Inr None
      | Some p \<Rightarrow> rbind (lexical_cast lc (take p line)) (\<lambda>source.
          rbind (parse_links lc (drop (p + 1) line)) (\<lambda>linkvec. Inr (Some (source, linkvec)))))"

definition cc_g_func :: "int \<Rightarrow> int \<Rightarrow> int \<Rightarrow> int list \<Rightarrow> (int \<times> int) list" where
  "cc_g_func k delta value data = map (\<lambda>target. (target, value)) data"

definition con_component_kernel :: "(int, int, int list) IterateKernel" where
  "con_component_kernel = \<lparr>k_default_v = 0, k_init_c = (\<lambda>k _. k), k_init_v = (\<lambda>_ _. 0), k_accumulate = (\<lambda>a b. max a b),
     k_process_delta_v = (\<lambda>_ d v _. (d, v)), k_priority = (\<lambda>_ value delta. value - max value delta), k_g_func = cc_g_func\<rparr>"

section \<open>SimRank\<close>

text \<open>
  The functions index \<open>data[0][0]\<close>, so they may fail; printing an integer
  (\<^verbatim>\<open>lexical_cast<string>\<close>) is the argument \<open>str\<close>.
\<close>

definition simrank_data00 :: "int list list \<Rightarrow> int result" where
  "simrank_data00 data = rbind (vec_at data 0) (\<lambda>row. vec_at row 0)"

text \<open>
  \<^verbatim>\<open>read_data\<close>: \<open>key TAB count BLANK links TAB links\<close>. Where a separator is missing, \<^verbatim>\<open>find\<close> yields -1 and
  both halves are the whole rest.
\<close>

definition cut_at :: "char \<Rightarrow> string \<Rightarrow> string \<times> string" where
  "cut_at c s = (case str_find s c of None \<Rightarrow> (s, s) | Some p \<Rightarrow> (take p s, drop (p + 1) s))"

definition simrank_read_data :: "(string \<Rightarrow> int option) \<Rightarrow> string \<Rightarrow> (string \<times> int list list) option result" where
  "simrank_read_data lc line =
     (case str_find line tab of
        None \<Rightarrow> Inr None
      | Some p \<Rightarrow>
          let k = take p line; (I_ab, remain) = cut_at CHR '' '' (drop (p + 1) line) in
          rbind (lexical_cast lc I_ab) (\<lambda>i_ab.
            let (links_a, links_b) = cut_at tab remain in
            if links_a = [] \<or> links_b = [] \<or> links_a = '' '' \<or> links_b = '' '' then Inr (Some (k, [[i_ab]]))
            else rbind (parse_links lc links_a) (\<lambda>tmp_a. rbind (parse_links lc links_b) (\<lambda>tmp_b.
              Inr (Some (k, [[i_ab], tmp_a, tmp_b]))))))"

definition simrank_init_c :: "string \<Rightarrow> int list list \<Rightarrow> rat result" where
  "simrank_init_c k data =
     (let (key_a, key_b) = (case str_find k CHR ''_'' of None \<Rightarrow> (k, k) | Some p \<Rightarrow> (take p k, drop (p + 1) k))
      in if key_a = key_b then rbind (simrank_data00 data) (\<lambda>n. Inr (of_int n / (4 / 5))) else Inr 0)"

definition simrank_init_v :: "string \<Rightarrow> int list list \<Rightarrow> rat" where
  "simrank_init_v k data = 0"

definition simrank_process_delta_v :: "string \<Rightarrow> rat \<Rightarrow> rat \<Rightarrow> int list list \<Rightarrow> (rat \<times> rat) result" where
  "simrank_process_delta_v k delta value data =
     (if delta = 0 then Inr (delta, value)
      else rbind (simrank_data00 data) (\<lambda>I_ab.
        if I_ab = 0 then Inr (delta, value) else Inr (delta * (4 / 5) / of_int I_ab, value)))"

definition simrank_accumulate :: "rat \<Rightarrow> rat \<Rightarrow> rat" where
  "simrank_accumulate a b = a + b"

definition simrank_priority :: "rat \<Rightarrow> rat \<Rightarrow> rat \<Rightarrow> rat" where
  "simrank_priority pri value delta = delta"

text \<open>The inner loops of \<^verbatim>\<open>g_func\<close>: every unordered pair of different neighbours once.\<close>

definition simrank_key :: "(int \<Rightarrow> string) \<Rightarrow> int \<Rightarrow> int \<Rightarrow> string" where
  "simrank_key str a b = (if a < b then str a @ ''_'' @ str b else str b @ ''_'' @ str a)"

definition simrank_pair :: "(int \<Rightarrow> string) \<Rightarrow> int \<times> int \<Rightarrow> string list \<Rightarrow> string list" where
  "simrank_pair str p seen = (let (a, b) = p; key = simrank_key str a b in
     if a = b then seen else if key \<in> set seen then seen else seen @ [key])"

definition simrank_g_func :: "(int \<Rightarrow> string) \<Rightarrow> string \<Rightarrow> rat \<Rightarrow> rat \<Rightarrow> int list list \<Rightarrow> int \<Rightarrow>
    (int \<times> (string \<times> rat) list) result" where
  "simrank_g_func str k delta value data count =
     (if length data < 3 then Inr (count, [])
      else if delta = 0 then Inr (count + 1, [])
      else rbind (simrank_data00 data) (\<lambda>I_ab.
        if I_ab = 0 \<or> data ! 1 = [] \<or> data ! 2 = [] then Inr (count + 1, [])
        else Inr (count + 1, map (\<lambda>key. (key, delta))
          (fold (simrank_pair str) (List.product (data ! 1) (data ! 2)) []))))"

text \<open>\<^verbatim>\<open>SUM\<close>, the checker of SimRank: it stops at an absolute total, not at a small difference.\<close>

definition sum_terminate :: "rat \<Rightarrow> rat list \<Rightarrow> Diff \<Rightarrow> bool \<times> Diff" where
  "sum_terminate threshold local_reports c =
     (let c' = c\<lparr>diff_curr := fold (+) local_reports 0\<rparr>
      in if threshold \<le> \<bar>diff_curr c'\<bar> then (True, c') else (False, c'\<lparr>diff_last := diff_curr c'\<rparr>))"

declare pagerank_kernel_def [kernel_defs] katz_kernel_def [kernel_defs] shortestpath_kernel_def [kernel_defs]
  con_component_kernel_def [kernel_defs] adsorption_kernel_def [kernel_defs]

section \<open>The accumulator contract\<close>

interpretation pagerank_acc: comm_accumulator "k_accumulate pagerank_kernel"
  by unfold_locales (simp_all add: kernel_defs)

interpretation katz_acc: comm_accumulator "k_accumulate (katz_kernel source beta)" for source beta
  by unfold_locales (simp_all add: kernel_defs)

interpretation adsorption_acc: comm_accumulator "k_accumulate (adsorption_kernel starts damping)" for starts damping
  by unfold_locales (simp_all add: kernel_defs)

interpretation sp_acc: comm_accumulator "k_accumulate (shortestpath_kernel source)" for source
  by unfold_locales (simp_all add: kernel_defs min.assoc min.commute)

interpretation cc_acc: comm_accumulator "k_accumulate con_component_kernel"
  by unfold_locales (simp_all add: kernel_defs max.assoc max.commute)

interpretation simrank_acc: comm_accumulator simrank_accumulate
  by unfold_locales (simp_all add: simrank_accumulate_def)

section \<open>Parsing the input lines\<close>

text \<open>
  A line of decimal links is read back by the Katz and connected-components kernels only when
  each link is followed by a blank: a last link without one is dropped without notice, while the
  PageRank parser, which appends a blank, keeps it but stops on the variable it then reads unset when
  the line already ends in a blank.
\<close>

lemma trailing_blank_matters:
  assumes "\<forall>w \<in> set (src # ws @ [x]). CHR '' '' \<notin> set w \<and> tab \<notin> set w \<and> w \<noteq> []"
    and "\<forall>w \<in> set (src # ws @ [x]). lc w = Some (num w)"
  defines "body \<equiv> concat (map (\<lambda>w. w @ [CHR '' '']) ws)"
  shows "katz_read_data lc (src @ [tab] @ body @ x @ [CHR '' '']) = Inr (num src, map (to_int32 \<circ> num) (ws @ [x])) \<and>
    katz_read_data lc (src @ [tab] @ body @ x) = Inr (num src, map (to_int32 \<circ> num) ws) \<and>
    pagerank_read_data lc (src @ [tab] @ body @ x) = Inr (Some (num src, map (to_int32 \<circ> num) (ws @ [x]))) \<and>
    pagerank_read_data lc (src @ [tab] @ body @ x @ [CHR '' '']) = Inl Uninitialised"
proof -
  have f: "str_find (src @ tab # r) tab = Some (length src)" for r
    using assms(1) by (intro str_find_append) auto
  have cs: "lexical_cast lc src = Inr (num src)" using assms(2) by (simp add: lexical_cast_def)
  have ws: "\<forall>w \<in> set ws. CHR '' '' \<notin> set w \<and> w \<noteq> []" "\<forall>w \<in> set ws. lc w = Some (num w)" using assms by auto
  have all: "parse_links lc (body @ x @ [CHR '' '']) = Inr (map (to_int32 \<circ> num) (ws @ [x]))"
    using parse_links_concat [of "ws @ [x]" lc num] assms by (auto simp: body_def)
  have step: "parse_links lc (body @ t) = rbind (parse_links lc t) (\<lambda>l. Inr (map (to_int32 \<circ> num) ws @ l))" for t
    unfolding body_def using ws
  proof (induction ws)
    case Nil
    then show ?case by (cases "parse_links lc t") simp_all
  next
    case (Cons w ws)
    then show ?case by (cases "parse_links lc t") (simp_all add: parse_links_word lexical_cast_def)
  qed
  have "CHR '' '' \<notin> set x" using assms(1) by simp
  then have "str_find x CHR '' '' = None" by simp
  then have "parse_links lc x = Inr []" by (subst parse_links.simps) (simp only: option.case)
  then have cut: "parse_links lc (body @ x) = Inr (map (to_int32 \<circ> num) ws)" using step [of x] by simp
  have xx: "CHR '' '' \<notin> set x" "x \<noteq> []" using assms(1) by simp_all
  have "parse_links lc (x @ [CHR '' '', CHR '' '']) = Inl Uninitialised"
    using parse_links_word [OF xx, of lc "[CHR '' '']"] assms(2) by (simp add: parse_links_blank lexical_cast_def)
  then have blank: "parse_links lc (body @ x @ [CHR '' '', CHR '' '']) = Inl Uninitialised"
    using step [of "x @ [CHR '' '', CHR '' '']"] by simp
  show ?thesis
    using all cut blank by (simp add: katz_read_data_def pagerank_read_data_def parse_line_def f cs)
qed

end
