(* ===== verification/FlatStore.thy ===== *)
theory FlatStore
  imports HotCache "HOL-Library.Word"
begin

text \<open>
  The graph store on disk, \<^verbatim>\<open>src/store/{flat_file,writer,reader,mmaped_file,filemanager,sstore}\<close>. \<^verbatim>\<open>Writer\<close> turns
  the lines of the input file into two flat files of 8-byte \<^verbatim>\<open>long\<close>s: the adjacency lists one after
  the other (\<^verbatim>\<open>vec\<close>) and the running totals of their lengths (\<^verbatim>\<open>hdr\<close>). \<^verbatim>\<open>Reader\<close> maps both files and
  cuts the list of a node out of them; \<^verbatim>\<open>SStore\<close> puts the hot-aware cache in front. Files are lists of
  bytes, little endian as on x86-64. \<^verbatim>\<open>write\<close> on an open descriptor writes all it is given and on a bad
  one nothing; which files exist and whether \<^verbatim>\<open>mmap\<close> succeeds is an argument of the operations.
\<close>

named_theorems store_defs \<open>definitions of the disk store\<close>

type_synonym bytes = "8 word list"

section \<open>The representation of long\<close>

fun le_bytes :: "nat \<Rightarrow> int \<Rightarrow> bytes" where
  "le_bytes 0 x = []"
| "le_bytes (Suc n) x = word_of_int x # le_bytes n (x div 256)"

fun le_int :: "bytes \<Rightarrow> int" where
  "le_int [] = 0"
| "le_int (b # bs) = uint b + 256 * le_int bs"

definition sizeof_long :: nat where
  "sizeof_long = 8"

definition long_bytes :: "int \<Rightarrow> bytes" where
  "long_bytes v = le_bytes sizeof_long v"

definition bytes_long :: "bytes \<Rightarrow> int" where
  "bytes_long bs = (let u = le_int bs in if u < 2 ^ 63 then u else u - 2 ^ 64)"

definition is_long :: "int \<Rightarrow> bool" where
  "is_long v \<longleftrightarrow> - (2 ^ 63) \<le> v \<and> v < 2 ^ 63"

section \<open>FlatFile\<close>

record FlatFile =
  ff_open :: bool
  ff_bytes :: bytes

text \<open>\<^verbatim>\<open>O_TRUNC\<close> empties the file; \<open>ok\<close> says whether \<^verbatim>\<open>open\<close> succeeded.\<close>

definition ff_new :: "bool \<Rightarrow> FlatFile" where
  "ff_new ok = \<lparr>ff_open = ok, ff_bytes = []\<rparr>"

definition ff_append :: "bytes \<Rightarrow> FlatFile \<Rightarrow> FlatFile" where
  "ff_append bs f = (if ff_open f then f\<lparr>ff_bytes := ff_bytes f @ bs\<rparr> else f)"

definition flatwrite :: "int \<Rightarrow> FlatFile \<Rightarrow> FlatFile" where
  "flatwrite v f = ff_append (long_bytes v) f"

text \<open>The array version reads \<^verbatim>\<open>n\<close> elements; \<open>n\<close> is a signed \<^verbatim>\<open>int\<close>.\<close>

definition flatwrite_array :: "int list \<Rightarrow> int \<Rightarrow> FlatFile \<Rightarrow> FlatFile result" where
  "flatwrite_array vs n f =
     (if 0 \<le> n \<and> nat n \<le> length vs then Inr (ff_append (concat (map long_bytes (take (nat n) vs))) f)
      else Inl OutOfBounds)"

section \<open>Writer\<close>

record Writer =
  w_vec :: FlatFile
  w_hdr :: FlatFile
  w_in :: string

definition writer_new :: "bool \<Rightarrow> bool \<Rightarrow> string \<Rightarrow> Writer" where
  "writer_new ok_vec ok_hdr input = \<lparr>w_vec = ff_new ok_vec, w_hdr = ff_new ok_hdr, w_in = input\<rparr>"

text \<open>\<^verbatim>\<open>boost::trim_right\<close> and \<^verbatim>\<open>boost::split\<close> on blanks are arguments, \<^verbatim>\<open>lexical_cast<long>\<close> is \<open>lc\<close>.\<close>

definition handleLine :: "(string \<Rightarrow> int option) \<Rightarrow> (string \<Rightarrow> string) \<Rightarrow> (string \<Rightarrow> string list) \<Rightarrow> string \<Rightarrow> int list result" where
  "handleLine lc trim_right split_blank value = rmap (lexical_cast lc) (split_blank (trim_right value))"

text \<open>
  One round of the loop. The size passes through an \<^verbatim>\<open>unsigned int\<close> and then an \<^verbatim>\<open>int\<close>; the address of
  the first element of an empty vector is undefined.
\<close>

definition writer_line :: "(string \<Rightarrow> int list result) \<Rightarrow> string \<Rightarrow> int \<times> Writer \<Rightarrow> (int \<times> Writer) result" where
  "writer_line handle line tw = (let (total, w) = tw in
     rbind (handle line) (\<lambda>adjvec.
       let n = int (length adjvec) mod 2 ^ 32; total' = total + n in
       if adjvec = [] then Inl OutOfBounds
       else rbind (flatwrite_array adjvec (to_int32 n) (w_vec w)) (\<lambda>vec.
         Inr (total', w\<lparr>w_hdr := flatwrite total' (w_hdr w), w_vec := vec\<rparr>))))"

definition writer_write :: "(string \<Rightarrow> int list result) \<Rightarrow> Writer \<Rightarrow> Writer result" where
  "writer_write handle w =
     rbind (rfold (writer_line handle) (getlines newline (w_in w)) (0, w\<lparr>w_hdr := flatwrite 0 (w_hdr w)\<rparr>))
       (\<lambda>(total, w'). Inr w')"

section \<open>Memory-mapped files\<close>

text \<open>
  \<^verbatim>\<open>MMapedFile\<close>: the descriptor is the file name, the mapped area the bytes of the file at the time of
  the call. The files that can be opened are \<open>fs\<close>; \<open>mmap_ok\<close> says for which lengths \<^verbatim>\<open>mmap\<close> succeeds.
\<close>

record MMapedFile =
  mm_fd :: "string option"
  memory_area :: "bytes option"
  size_mapped :: nat
  offset_mapped :: nat
  reference_count :: int

definition mm_new :: MMapedFile where
  "mm_new = \<lparr>mm_fd = None, memory_area = None, size_mapped = 0, offset_mapped = 0, reference_count = 0\<rparr>"

definition readMmapFile :: "(string \<rightharpoonup> bytes) \<Rightarrow> (nat \<Rightarrow> bool) \<Rightarrow> string \<Rightarrow> MMapedFile \<Rightarrow> (bytes \<times> MMapedFile) result" where
  "readMmapFile fs mmap_ok filename m =
     (if filename = [] then Inl (SStoreException ''filename is empty.'')
      else case (case mm_fd m of Some f \<Rightarrow> Some f | None \<Rightarrow> if fs filename = None then None else Some filename) of
        None \<Rightarrow> Inl (SStoreException (''Error opening file '' @ filename))
      | Some f \<Rightarrow> (case fs f of
          None \<Rightarrow> Inl (SStoreException (''Cannot stat file'' @ filename))
        | Some bs \<Rightarrow>
            if mmap_ok (length bs)
            then Inr (bs, m\<lparr>mm_fd := Some f, memory_area := Some bs, size_mapped := length bs\<rparr>)
            else Inl (SStoreException (''Error in mmap '' @ filename))))"

datatype access_mode = READ_ONLY | READ_WRITE_PRIVATE | READ_WRITE_SHARED

text \<open>The macros on page boundaries; \<open>page\<close> is the page size, a power of two.\<close>

definition align_to_page :: "nat \<Rightarrow> nat \<Rightarrow> nat" where
  "align_to_page page x = x - x mod page"

definition upper_align_to_page :: "nat \<Rightarrow> nat \<Rightarrow> nat" where
  "upper_align_to_page page x = align_to_page page (x + (page - 1))"

text \<open>
  \<^verbatim>\<open>openAndMmapFile\<close>. The pointer returned is an offset into the mapped area. \<open>moved\<close> says whether the
  system maps a remapped area to a new address; a mode with \<^verbatim>\<open>O_CREAT\<close> opens a missing file as empty.
\<close>

definition openAndMmapFile :: "nat \<Rightarrow> (string \<rightharpoonup> bytes) \<Rightarrow> (nat \<Rightarrow> bool) \<Rightarrow> bool \<Rightarrow> string \<Rightarrow> access_mode \<Rightarrow> nat \<Rightarrow> nat \<Rightarrow>
    bool \<Rightarrow> bool \<Rightarrow> MMapedFile \<Rightarrow> (int \<times> MMapedFile) result" where
  "openAndMmapFile page fs mmap_ok moved filename mode offset len map_whole_file allow_remap m =
     (if filename = [] then Inl (SStoreException ''filename is empty.'')
      else case (case mm_fd m of Some f \<Rightarrow> Some f
                 | None \<Rightarrow> if fs filename = None \<and> mode \<noteq> READ_WRITE_SHARED then None else Some filename) of
        None \<Rightarrow> Inl (SStoreException (''Error opening file '' @ filename))
      | Some f \<Rightarrow>
          let contents = (case fs f of None \<Rightarrow> [] | Some bs \<Rightarrow> bs);
              (off, n) = (if map_whole_file then (0, length contents)
                          else (align_to_page page offset, upper_align_to_page page len));
              m1 = m\<lparr>mm_fd := Some f, reference_count := reference_count m + 1\<rparr>
          in if off = offset_mapped m \<and> n = size_mapped m \<or>
                offset_mapped m \<le> off \<and> n + off - offset_mapped m \<le> size_mapped m
             then Inr (int offset - int (offset_mapped m), m1)
             else if memory_area m \<noteq> None \<and> size_mapped m = 0
             then Inl (SStoreException (''Error in munmap file '' @ filename))
             else if \<not> mmap_ok n then Inl (SStoreException (''Error in mmap '' @ filename))
             else if memory_area m \<noteq> None \<and> \<not> allow_remap \<and> moved
             then Inl (SStoreException (''Request to remap area but allow_remap is not given (remapping '' @ filename @ '')''))
             else Inr (int offset - int off,
                    m1\<lparr>memory_area := Some (take n (drop off contents)), offset_mapped := off, size_mapped := n\<rparr>))"

text \<open>\<^verbatim>\<open>munmapAndCloseFile\<close> keeps the pointer; unmapping or closing what is not open fails.\<close>

definition munmapAndCloseFile :: "MMapedFile \<Rightarrow> MMapedFile result" where
  "munmapAndCloseFile m =
     (if memory_area m = None \<or> size_mapped m = 0 then Inl (SStoreException ''Error in munmap'')
      else if mm_fd m = None then Inl (SStoreException ''Error in close'')
      else Inr (m\<lparr>mm_fd := None\<rparr>))"

section \<open>Reader\<close>

record Reader =
  r_dataFile :: MMapedFile
  r_hdrFile :: MMapedFile
  data_ptr :: bytes
  hdr_ptr :: bytes

definition META_FILE :: string where
  "META_FILE = ''/media/ssd/MMap/hdr''"

definition DATA_FILE :: string where
  "DATA_FILE = ''/media/ssd/MMap/vec''"

definition reader_new :: "(string \<rightharpoonup> bytes) \<Rightarrow> (nat \<Rightarrow> bool) \<Rightarrow> Reader result" where
  "reader_new fs mmap_ok =
     rbind (readMmapFile fs mmap_ok META_FILE mm_new) (\<lambda>(h, hf).
     rbind (readMmapFile fs mmap_ok DATA_FILE mm_new) (\<lambda>(d, df).
       Inr \<lparr>r_dataFile = df, r_hdrFile = hf, data_ptr = d, hdr_ptr = h\<rparr>))"

text \<open>\<open>p[i]\<close> for a \<^verbatim>\<open>long*\<close> into a mapped file: defined inside the file only.\<close>

definition long_at :: "bytes \<Rightarrow> int \<Rightarrow> int result" where
  "long_at bs i = (if 0 \<le> i \<and> sizeof_long * (nat i + 1) \<le> length bs
     then Inr (bytes_long (take sizeof_long (drop (sizeof_long * nat i) bs))) else Inl OutOfBounds)"

definition reader_read :: "Reader \<Rightarrow> int \<Rightarrow> int list result" where
  "reader_read r index =
     rbind (long_at (hdr_ptr r) index) (\<lambda>pos.
     rbind (long_at (hdr_ptr r) (index + 1)) (\<lambda>next.
       let dist = next - pos in
       if dist < 0 then Inl OutOfBounds else rmap (long_at (data_ptr r)) [pos..pos + dist - 1]))"

definition reader_delete :: "Reader \<Rightarrow> Reader result" where
  "reader_delete r = rbind (munmapAndCloseFile (r_hdrFile r)) (\<lambda>hf.
     rbind (munmapAndCloseFile (r_dataFile r)) (\<lambda>df. Inr (r\<lparr>r_hdrFile := hf, r_dataFile := df\<rparr>)))"

section \<open>SStore\<close>

record SStore =
  ss_cache :: "(int, int list) Cache"
  ss_reader :: Reader

definition sstore_new :: "(string \<Rightarrow> int option) \<Rightarrow> string \<Rightarrow> (string \<rightharpoonup> bytes) \<Rightarrow> (nat \<Rightarrow> bool) \<Rightarrow> SStore result" where
  "sstore_new lc influ_file fs mmap_ok = rbind (cache_new lc influ_file) (\<lambda>c.
     rbind (reader_new fs mmap_ok) (\<lambda>r. Inr \<lparr>ss_cache = c, ss_reader = r\<rparr>))"

text \<open>\<open>cap\<close> is \<^verbatim>\<open>CACHE_SIZE\<close>. The flag returned is always true.\<close>

definition getData :: "nat \<Rightarrow> int \<Rightarrow> rat \<Rightarrow> SStore \<Rightarrow> (int list \<times> SStore) result" where
  "getData cap k priority s =
     (if cache_containsKey (ss_cache s) k then
        rbind (cache_getValue (ss_cache s) k) (\<lambda>d.
          if \<not> cache_containsInfluKey (ss_cache s) k
          then rbind (cache_addCache cap (ss_cache s) k d priority) (\<lambda>c. Inr (d, s\<lparr>ss_cache := c\<rparr>))
          else Inr (d, s))
      else rbind (reader_read (ss_reader s) k) (\<lambda>d.
        rbind (cache_addCache cap (ss_cache s) k d priority) (\<lambda>c. Inr (d, s\<lparr>ss_cache := c\<rparr>))))"

text \<open>A sequence of requests, with the answers.\<close>

fun getData_run :: "nat \<Rightarrow> (int \<times> rat) list \<Rightarrow> SStore \<Rightarrow> (int list list \<times> SStore) result" where
  "getData_run cap [] s = Inr ([], s)"
| "getData_run cap ((k, p) # rs) s = rbind (getData cap k p s) (\<lambda>(d, s').
     rbind (getData_run cap rs s') (\<lambda>(ds, s''). Inr (d # ds, s'')))"

section \<open>Longs in a file\<close>

lemma le_int_le_bytes: "le_int (le_bytes n x) = x mod 256 ^ n"
proof (induction n arbitrary: x)
  case (Suc n)
  have "x mod 256 ^ Suc n = 256 * (x div 256 mod 256 ^ n) + x mod 256"
    by (simp add: zmod_zmult2_eq)
  with Suc show ?case by (simp add: uint_word_of_int)
qed simp

lemma length_le_bytes [simp]: "length (le_bytes n x) = n"
  by (induction n arbitrary: x) simp_all

lemma length_long_bytes [simp]: "length (long_bytes v) = sizeof_long"
  by (simp add: long_bytes_def)

lemma bytes_long_bytes [simp]: "is_long v \<Longrightarrow> bytes_long (long_bytes v) = v"
proof -
  assume v: "is_long v"
  have m: "le_int (long_bytes v) = v mod 2 ^ 64"
    by (simp add: long_bytes_def le_int_le_bytes sizeof_long_def)
  show ?thesis
  proof (cases "0 \<le> v")
    case True
    with v m show ?thesis by (simp add: bytes_long_def is_long_def)
  next
    case False
    have "v mod 2 ^ 64 = (v + 2 ^ 64) mod 2 ^ 64" by simp
    also have "\<dots> = v + 2 ^ 64" using False v by (intro mod_pos_pos_trivial) (simp_all add: is_long_def)
    finally show ?thesis using m False v by (simp add: bytes_long_def is_long_def)
  qed
qed

lemma length_longs [simp]: "length (concat (map long_bytes vs)) = sizeof_long * length vs"
  by (induction vs) simp_all

lemma drop_longs: "drop (sizeof_long * i) (concat (map long_bytes vs)) = concat (map long_bytes (drop i vs))"
proof (induction vs arbitrary: i)
  case (Cons v vs)
  then show ?case by (cases i) (simp_all add: algebra_simps)
qed simp

text \<open>A file that holds longs, read as an array: inside it gives the element, outside it stops.\<close>

lemma long_at_longs:
  assumes "\<forall>v \<in> set vs. is_long v"
  shows "long_at (concat (map long_bytes vs)) i = vec_at vs i"
proof (cases "0 \<le> i \<and> i < int (length vs)")
  case True
  then have i: "nat i < length vs" by auto
  then have "drop (nat i) vs = vs ! nat i # drop (Suc (nat i)) vs" by (rule Cons_nth_drop_Suc [symmetric])
  then have "take sizeof_long (drop (sizeof_long * nat i) (concat (map long_bytes vs))) = long_bytes (vs ! nat i)"
    by (simp add: drop_longs)
  moreover have "sizeof_long * (nat i + 1) \<le> sizeof_long * length vs" using i by (intro mult_le_mono2) simp
  ultimately show ?thesis using True i assms by (simp add: long_at_def vec_at_def)
next
  case False
  have "\<not> (0 \<le> i \<and> sizeof_long * (nat i + 1) \<le> sizeof_long * length vs)"
  proof
    assume a: "0 \<le> i \<and> sizeof_long * (nat i + 1) \<le> sizeof_long * length vs"
    then have "nat i + 1 \<le> length vs" by (simp add: sizeof_long_def)
    with a False show False by auto
  qed
  with False show ?thesis unfolding long_at_def length_longs vec_at_def by (simp only: if_False)
qed

section \<open>What the writer leaves and the reader finds\<close>

text \<open>The running totals after \<open>t\<close>, the contents of the header file.\<close>

fun offsets :: "int \<Rightarrow> nat list \<Rightarrow> int list" where
  "offsets t [] = []"
| "offsets t (n # ns) = (t + int n) # offsets (t + int n) ns"

lemma length_offsets [simp]: "length (offsets t ns) = length ns"
  by (induction ns arbitrary: t) simp_all

lemma nth_offsets: "i \<le> length ns \<Longrightarrow> (t # offsets t ns) ! i = t + int (sum_list (take i ns))"
proof (induction ns arbitrary: t i)
  case (Cons n ns)
  then show ?case by (cases i) simp_all
qed simp

lemma offsets_range:
  assumes "x \<in> set (t # offsets t ns)"
  shows "t \<le> x \<and> x \<le> t + int (sum_list ns)"
proof -
  from assms obtain i where i: "i \<le> length ns" "x = (t # offsets t ns) ! i"
    using in_set_conv_nth [of x "t # offsets t ns"] by (auto simp: less_Suc_eq_le)
  have "sum_list ns = sum_list (take i ns) + sum_list (drop i ns)"
    by (metis append_take_drop_id sum_list_append)
  with i nth_offsets [OF i(1), of t] show ?thesis by simp
qed

lemma slice_concat:
  "i < length xss \<Longrightarrow> take (length (xss ! i)) (drop (sum_list (map length (take i xss))) (concat xss)) = xss ! i"
proof (induction xss arbitrary: i)
  case (Cons xs xss)
  then show ?case by (cases i) simp_all
qed simp

lemma rmap_vec_at:
  "pos + n \<le> length vs \<Longrightarrow> rmap (vec_at vs) [int pos..int pos + int n - 1] = Inr (take n (drop pos vs))"
proof (induction n arbitrary: pos)
  case (Suc n)
  have "[int pos..int pos + int (Suc n) - 1] = int pos # [int (Suc pos)..int (Suc pos) + int n - 1]"
    by (subst upto.simps) (simp add: algebra_simps)
  moreover have "drop pos vs = vs ! pos # drop (Suc pos) vs" using Suc.prems by (simp add: Cons_nth_drop_Suc)
  ultimately show ?case using Suc.IH [of "Suc pos"] Suc.prems by (simp add: result_simps)
qed simp

lemma ff_append_append: "ff_append bs (ff_append as f) = ff_append (as @ bs) f"
  by (simp add: ff_append_def)

lemma ff_append_Nil [simp]: "ff_append [] f = f"
  by (simp add: ff_append_def)

definition line_ok :: "(string \<Rightarrow> int list result) \<Rightarrow> (string \<Rightarrow> int list) \<Rightarrow> string \<Rightarrow> bool" where
  "line_ok handle adj l \<longleftrightarrow> handle l = Inr (adj l) \<and> adj l \<noteq> [] \<and> length (adj l) < 2 ^ 31 \<and> (\<forall>v \<in> set (adj l). is_long v)"

lemma writer_line_ok:
  assumes "line_ok handle adj l"
  shows "writer_line handle l (tot, w) = Inr (tot + int (length (adj l)),
    w\<lparr>w_hdr := flatwrite (tot + int (length (adj l))) (w_hdr w),
      w_vec := ff_append (concat (map long_bytes (adj l))) (w_vec w)\<rparr>)"
proof -
  have n: "int (length (adj l)) mod 2 ^ 32 = int (length (adj l))" "to_int32 (int (length (adj l))) = int (length (adj l))"
    using assms by (simp_all add: line_ok_def to_int32_id)
  show ?thesis using assms by (simp add: writer_line_def n line_ok_def flatwrite_array_def Let_def)
qed

lemma writer_loop:
  assumes "\<forall>l \<in> set ls. line_ok handle adj l"
  shows "\<exists>tot'. rfold (writer_line handle) ls (tot, w) = Inr (tot',
    w\<lparr>w_hdr := ff_append (concat (map long_bytes (offsets tot (map (length \<circ> adj) ls)))) (w_hdr w),
      w_vec := ff_append (concat (map long_bytes (concat (map adj ls)))) (w_vec w)\<rparr>)"
  using assms
proof (induction ls arbitrary: tot w)
  case (Cons l ls)
  have l: "line_ok handle adj l" using Cons.prems by simp
  have ls: "\<forall>l \<in> set ls. line_ok handle adj l" using Cons.prems by simp
  show ?case
    using Cons.IH [OF ls, of "tot + int (length (adj l))"
        "w\<lparr>w_hdr := flatwrite (tot + int (length (adj l))) (w_hdr w),
           w_vec := ff_append (concat (map long_bytes (adj l))) (w_vec w)\<rparr>"]
    by (simp add: writer_line_ok [OF l] flatwrite_def ff_append_append)
qed simp

lemma writer_writes:
  assumes "\<forall>l \<in> set ls. line_ok handle adj l" and "getlines newline input = ls"
  shows "\<exists>w. writer_write handle (writer_new True True input) = Inr w \<and>
    ff_bytes (w_hdr w) = concat (map long_bytes (0 # offsets 0 (map (length \<circ> adj) ls))) \<and>
    ff_bytes (w_vec w) = concat (map long_bytes (concat (map adj ls)))"
proof -
  obtain total where "rfold (writer_line handle) ls (0, (writer_new True True input)\<lparr>w_hdr := flatwrite 0 (ff_new True)\<rparr>) = Inr (total,
    (writer_new True True input)\<lparr>w_hdr := ff_append (concat (map long_bytes (offsets 0 (map (length \<circ> adj) ls)))) (flatwrite 0 (ff_new True)),
      w_vec := ff_append (concat (map long_bytes (concat (map adj ls)))) (ff_new True)\<rparr>)"
    using writer_loop [OF assms(1), of 0 "(writer_new True True input)\<lparr>w_hdr := flatwrite 0 (ff_new True)\<rparr>"]
    by (auto simp: writer_new_def)
  then show ?thesis
    using assms(2) by (simp add: writer_write_def writer_new_def ff_new_def flatwrite_def ff_append_def)
qed

lemma reader_new_ok:
  assumes "h \<noteq> []" "d \<noteq> []" "\<forall>n. 0 < n \<longrightarrow> mmap_ok n" "fs META_FILE = Some h" "fs DATA_FILE = Some d"
  shows "\<exists>r. reader_new fs mmap_ok = Inr r \<and> hdr_ptr r = h \<and> data_ptr r = d"
proof -
  have "mmap_ok (length h)" "mmap_ok (length d)" using assms(1,2,3) by simp_all
  moreover have "META_FILE \<noteq> []" "DATA_FILE \<noteq> []" by (simp_all add: META_FILE_def DATA_FILE_def)
  ultimately show ?thesis using assms(4,5) by (simp add: reader_new_def readMmapFile_def mm_new_def)
qed

text \<open>Reading from a header of running totals and the concatenated lists.\<close>

lemma reader_read_lists:
  assumes long: "\<forall>v \<in> set (concat xss). is_long v" and total: "int (length (concat xss)) < 2 ^ 63"
    and h: "hdr_ptr r = concat (map long_bytes (0 # offsets 0 (map length xss)))"
    and d: "data_ptr r = concat (map long_bytes (concat xss))"
  shows "reader_read r i = (if 0 \<le> i \<and> i < int (length xss) then Inr (xss ! nat i) else Inl OutOfBounds)"
proof -
  let ?o = "0 # offsets 0 (map length xss)"
  have "\<forall>v \<in> set ?o. is_long v"
  proof
    fix v assume "v \<in> set ?o"
    from offsets_range [OF this] total show "is_long v" by (simp add: is_long_def length_concat)
  qed
  then have hdr: "long_at (hdr_ptr r) j = vec_at ?o j" for j unfolding h by (rule long_at_longs)
  have dat: "long_at (data_ptr r) = vec_at (concat xss)" unfolding d using long_at_longs [OF long] by auto
  show ?thesis
  proof (cases "0 \<le> i \<and> i < int (length xss)")
    case True
    define n where "n = nat i"
    have n: "n < length xss" "i = int n" using True by (auto simp: n_def)
    let ?s = "sum_list (map length (take n xss))"
    have o1: "vec_at ?o i = Inr (int ?s)"
      using n nth_offsets [of n "map length xss" 0] by (simp add: vec_at_def take_map)
    have "?o ! Suc n = int (sum_list (take (Suc n) (map length xss)))"
      using n nth_offsets [of "Suc n" "map length xss" 0] by simp
    then have o2: "vec_at ?o (i + 1) = Inr (int ?s + int (length (xss ! n)))"
      using n by (simp add: vec_at_def nat_add_distrib take_map take_Suc_conv_app_nth)
    have "sum_list (map length xss) = sum_list (map length (take (Suc n) xss)) + sum_list (map length (drop (Suc n) xss))"
      by (metis append_take_drop_id map_append sum_list_append)
    then have "?s + length (xss ! n) \<le> length (concat xss)"
      using n by (simp add: length_concat take_Suc_conv_app_nth)
    from rmap_vec_at [OF this] slice_concat [OF n(1)] show ?thesis
      unfolding reader_read_def hdr dat o1 o2 using n by (simp add: Let_def add_diff_eq)
  next
    case False
    then have "vec_at ?o i = Inl OutOfBounds \<or> vec_at ?o (i + 1) = Inl OutOfBounds"
      by (auto simp: vec_at_def)
    moreover have "vec_at ?o i = Inl OutOfBounds \<or> (\<exists>x. vec_at ?o i = Inr x)"
      by (simp add: vec_at_def)
    ultimately show ?thesis unfolding reader_read_def hdr using False by (auto simp del: of_nat_Suc)
  qed
qed

text \<open>
  C25: the disk format round trip. When every line of the input file parses, is not empty and holds
  64-bit numbers, the writer ends, the reader can open the two files it wrote, and reading index
  \<open>i\<close> yields exactly the numbers of line \<open>i\<close>; every index outside the lines is stopped. The total number of
  entries must fit a \<^verbatim>\<open>long\<close>; that \<^verbatim>\<open>mmap\<close> accepts every non-empty file is the one assumption about the
  system.
\<close>

theorem writer_reader_roundtrip:
  assumes "\<forall>l \<in> set (getlines newline input). handleLine lc trim_right split_blank l = Inr (adj l) \<and> adj l \<noteq> [] \<and>
      length (adj l) < 2 ^ 31 \<and> (\<forall>v \<in> set (adj l). is_long v)"
    and "input \<noteq> []" and "\<forall>n. 0 < n \<longrightarrow> mmap_ok n"
    and "int (length (concat (map adj (getlines newline input)))) < 2 ^ 63"
  shows "\<exists>w r. writer_write (handleLine lc trim_right split_blank) (writer_new True True input) = Inr w \<and>
    reader_new [META_FILE \<mapsto> ff_bytes (w_hdr w), DATA_FILE \<mapsto> ff_bytes (w_vec w)] mmap_ok = Inr r \<and>
    (\<forall>i. reader_read r i = (if 0 \<le> i \<and> i < int (length (getlines newline input))
       then Inr (adj (getlines newline input ! nat i)) else Inl OutOfBounds))"
proof -
  let ?ls = "getlines newline input" and ?h = "handleLine lc trim_right split_blank"
  have ok: "\<forall>l \<in> set ?ls. line_ok ?h adj l" using assms(1) by (simp add: line_ok_def)
  obtain w where w: "writer_write ?h (writer_new True True input) = Inr w"
      "ff_bytes (w_hdr w) = concat (map long_bytes (0 # offsets 0 (map (length \<circ> adj) ?ls)))"
      "ff_bytes (w_vec w) = concat (map long_bytes (concat (map adj ?ls)))"
    using writer_writes [OF ok refl] by blast
  have ne: "?ls \<noteq> []" using assms(2) by (simp add: getlines.simps)
  then have "concat (map adj ?ls) \<noteq> []" using assms(1) by (cases ?ls) simp_all
  then have ne2: "length (ff_bytes (w_hdr w)) > 0" "length (ff_bytes (w_vec w)) > 0"
    unfolding w(2,3) length_longs by (simp_all add: sizeof_long_def)
  have "META_FILE \<noteq> DATA_FILE" by (simp add: META_FILE_def DATA_FILE_def)
  then obtain r where r: "reader_new [META_FILE \<mapsto> ff_bytes (w_hdr w), DATA_FILE \<mapsto> ff_bytes (w_vec w)] mmap_ok = Inr r"
      "hdr_ptr r = ff_bytes (w_hdr w)" "data_ptr r = ff_bytes (w_vec w)"
    using reader_new_ok [of "ff_bytes (w_hdr w)" "ff_bytes (w_vec w)" mmap_ok
        "[META_FILE \<mapsto> ff_bytes (w_hdr w), DATA_FILE \<mapsto> ff_bytes (w_vec w)]"] ne2 assms(3) by auto
  have "\<forall>v \<in> set (concat (map adj ?ls)). is_long v" using assms(1) by auto
  from reader_read_lists [OF this assms(4), of r] have
    "reader_read r i = (if 0 \<le> i \<and> i < int (length ?ls) then Inr (adj (?ls ! nat i)) else Inl OutOfBounds)" for i
    using r(2,3) w(2,3) by (auto simp: comp_def)
  with w(1) r(1) show ?thesis by blast
qed

definition ex_input :: string where
  "ex_input = ''5 77'' @ newline # ''999''"

lemma ex_getlines: "getlines newline ex_input = [''5 77'', ''999'']"
  "getlines CHR '' '' ''5 77'' = [''5'', ''77'']" "getlines CHR '' '' ''999'' = [''999'']"
  by (simp_all add: ex_input_def newline_def getlines.simps)

theorem writer_reader_roundtrip_witness:
  "\<exists>w r. writer_write (handleLine (\<lambda>s. Some (int (length s))) id (getlines CHR '' '')) (writer_new True True ex_input) = Inr w \<and>
    reader_new [META_FILE \<mapsto> ff_bytes (w_hdr w), DATA_FILE \<mapsto> ff_bytes (w_vec w)] (\<lambda>n. 0 < n) = Inr r \<and>
    reader_read r 0 = Inr [1, 2] \<and> reader_read r 1 = Inr [3] \<and> reader_read r 2 = Inl OutOfBounds"
proof -
  let ?adj = "\<lambda>l. map (int \<circ> length) (getlines CHR '' '' l)"
  have a: "\<forall>l \<in> set (getlines newline ex_input).
      handleLine (\<lambda>s. Some (int (length s))) id (getlines CHR '' '') l = Inr (?adj l) \<and> ?adj l \<noteq> [] \<and>
      length (?adj l) < 2 ^ 31 \<and> (\<forall>v \<in> set (?adj l). is_long v)"
    by (simp add: ex_getlines handleLine_def lexical_cast_def is_long_def)
  have b: "ex_input \<noteq> []" by (simp add: ex_input_def)
  have c: "int (length (concat (map ?adj (getlines newline ex_input)))) < 2 ^ 63" by (simp add: ex_getlines)
  have d: "\<forall>n::nat. 0 < n \<longrightarrow> 0 < n" by simp
  obtain w r where "writer_write (handleLine (\<lambda>s. Some (int (length s))) id (getlines CHR '' '')) (writer_new True True ex_input) = Inr w"
    "reader_new [META_FILE \<mapsto> ff_bytes (w_hdr w), DATA_FILE \<mapsto> ff_bytes (w_vec w)] (\<lambda>n. 0 < n) = Inr r"
    and r: "\<forall>i. reader_read r i = (if 0 \<le> i \<and> i < int (length (getlines newline ex_input))
       then Inr (?adj (getlines newline ex_input ! nat i)) else Inl OutOfBounds)"
    using writer_reader_roundtrip [OF a b d c] by blast
  then show ?thesis using spec [OF r, of 0] spec [OF r, of 1] spec [OF r, of 2]
    by (intro exI [of _ w] exI [of _ r]) (simp add: ex_getlines)
qed

section \<open>The store behind the cache\<close>

definition store_ok :: "nat \<Rightarrow> SStore \<Rightarrow> bool" where
  "store_ok cap s \<longleftrightarrow> 0 < cap \<and> cache_ok cap (ss_cache s) \<and>
     (\<forall>k d. kvmap_lookup (kv (ss_cache s)) k = Some d \<longrightarrow> reader_read (ss_reader s) k = Inr d)"

definition answer :: "SStore \<Rightarrow> int \<Rightarrow> int list result" where
  "answer s k = (case kvmap_lookup (influMap (ss_cache s)) k of Some d \<Rightarrow> Inr d | None \<Rightarrow> reader_read (ss_reader s) k)"

lemma addCache_store_ok:
  assumes ok: "store_ok cap s" and d: "reader_read (ss_reader s) k = Inr d"
  shows "\<exists>c. cache_addCache cap (ss_cache s) k d p = Inr c \<and> store_ok cap (s\<lparr>ss_cache := c\<rparr>) \<and>
    influMap c = influMap (ss_cache s)"
proof -
  have inv: "0 < cap \<and> cache_ok cap (ss_cache s)" using ok by (simp add: store_ok_def)
  obtain c where c: "cache_addCache cap (ss_cache s) k d p = Inr c" "0 < cap \<and> cache_ok cap c"
    using hot.add_total [OF inv, of k d p] by blast
  have "reader_read (ss_reader s) k' = Inr d'" if "kvmap_lookup (kv c) k' = Some d'" for k' d'
    using hot.add_frame [OF inv c(1) that] ok d by (auto simp: store_ok_def)
  moreover have "influMap c = influMap (ss_cache s)"
    by (cases rule: cache_addCache_cases [of cap "ss_cache s" k d p]) (use inv c(1) in auto)
  ultimately show ?thesis using c by (simp add: store_ok_def)
qed

text \<open>\<open>getData\<close> answers from the influence list or else as the reader does, and stops as it does.\<close>

lemma getData_answer:
  assumes ok: "store_ok cap s"
  shows "case answer s k of Inl e \<Rightarrow> getData cap k p s = Inl e
    | Inr d \<Rightarrow> \<exists>s'. getData cap k p s = Inr (d, s') \<and> store_ok cap s' \<and> answer s' = answer s"
proof (cases "kvmap_lookup (influMap (ss_cache s)) k")
  case (Some d)
  then have "getData cap k p s = Inr (d, s)"
    by (simp add: getData_def cache_containsKey_def cache_containsInfluKey_def cache_getValue_def smap_simps)
  with ok Some show ?thesis by (simp add: answer_def)
next
  case None
  then have a: "answer s k = reader_read (ss_reader s) k" by (simp add: answer_def)
  have n: "\<not> cache_containsInfluKey (ss_cache s) k" using None by (simp add: cache_containsInfluKey_def smap_simps)
  have stores: "\<exists>s'. rbind (cache_addCache cap (ss_cache s) k d p) (\<lambda>c. Inr (d, s\<lparr>ss_cache := c\<rparr>)) = Inr (d, s') \<and>
      store_ok cap s' \<and> answer s' = answer s" if "reader_read (ss_reader s) k = Inr d" for d
    using addCache_store_ok [OF ok that, of p] by (auto simp: answer_def fun_eq_iff split: option.split)
  show ?thesis
  proof (cases "kvmap_lookup (kv (ss_cache s)) k")
    case (Some d)
    then have d: "reader_read (ss_reader s) k = Inr d" using ok by (simp add: store_ok_def)
    have "getData cap k p s = rbind (cache_addCache cap (ss_cache s) k d p) (\<lambda>c. Inr (d, s\<lparr>ss_cache := c\<rparr>))"
      using Some n by (simp add: getData_def cache_containsKey_def cache_getValue_def smap_simps)
    with stores [OF d] show ?thesis by (simp add: a d)
  next
    case miss: None
    have g: "getData cap k p s = rbind (reader_read (ss_reader s) k) (\<lambda>d.
        rbind (cache_addCache cap (ss_cache s) k d p) (\<lambda>c. Inr (d, s\<lparr>ss_cache := c\<rparr>)))"
      using miss None by (simp add: getData_def cache_containsKey_def smap_simps)
    show ?thesis
    proof (cases "reader_read (ss_reader s) k")
      case (Inr d)
      with stores [OF Inr] g show ?thesis by (simp add: a)
    qed (simp add: a g)
  qed
qed

lemma sstore_new_ok: "sstore_new lc influ fs mmap_ok = Inr s \<Longrightarrow> 0 < cap \<Longrightarrow> store_ok cap s"
  by (auto simp: sstore_new_def cache_new_def result_simps store_ok_def cache_ok_new)
    (simp add: cache_empty_def smap_simps)


definition ex_files :: "string \<rightharpoonup> bytes" where
  "ex_files = [META_FILE \<mapsto> concat (map long_bytes (0 # offsets 0 (map length [[4 :: int, -6], [5]]))),
     DATA_FILE \<mapsto> concat (map long_bytes (concat [[4, -6], [5]]))]"


section \<open>Mapped ranges\<close>

lemma upper_align_ge: "0 < page \<Longrightarrow> x \<le> upper_align_to_page page x"
  unfolding upper_align_to_page_def align_to_page_def using mod_less_divisor [of page "x + (page - 1)"] by linarith

text \<open>
  C27: a mapping that starts on a page boundary covers the range asked for: on a fresh object the
  pointer is the start of the area and \<open>len\<close> bytes behind it lie inside the mapping. An offset
  inside a page does not have this: the length is rounded up by itself, without the offset into the
  page, so the last bytes of a range that crosses a page boundary are outside.
\<close>

theorem mmap_covers_aligned:
  assumes "0 < page" and "filename \<noteq> []" and "fs filename \<noteq> None" and "\<forall>n. 0 < n \<longrightarrow> mmap_ok n" and "0 < len"
  shows "\<exists>ptr m. openAndMmapFile page fs mmap_ok moved filename mode offset len False allow_remap mm_new = Inr (ptr, m) \<and>
    (offset mod page = 0 \<longrightarrow> ptr = 0 \<and> ptr + int len \<le> int (size_mapped m)) \<and>
    (0 < offset mod page \<and> len mod page = 0 \<longrightarrow> int (size_mapped m) < ptr + int len)"
proof -
  let ?n = "upper_align_to_page page len" and ?o = "align_to_page page offset"
  have n: "len \<le> ?n" by (rule upper_align_ge) (rule assms)
  then have "mmap_ok ?n" "?n \<noteq> 0" using assms(4,5) by auto
  then obtain m where m: "openAndMmapFile page fs mmap_ok moved filename mode offset len False allow_remap mm_new =
      Inr (int offset - int ?o, m)" "size_mapped m = ?n"
    using assms(2,3) by (auto simp: openAndMmapFile_def mm_new_def Let_def)
  have "?n = len" if "len mod page = 0"
  proof -
    from that obtain q where q: "len = page * q" by auto
    define b where "b = page - 1"
    have "b < page" using assms(1) by (simp add: b_def)
    then have "(page * q + b) mod page = b" by simp
    then show ?thesis unfolding q upper_align_to_page_def align_to_page_def b_def [symmetric] by simp
  qed
  moreover have "int offset - int ?o = int (offset mod page)"
    by (simp add: align_to_page_def of_nat_diff)
  ultimately show ?thesis using m n by (intro exI [of _ "int offset - int ?o"] exI [of _ m]) auto
qed

theorem mmap_covers_aligned_witness:
  "\<exists>ptr m. openAndMmapFile 4096 [''f'' \<mapsto> []] (\<lambda>n. 0 < n) False ''f'' READ_ONLY 4000 4096 False True mm_new = Inr (ptr, m) \<and>
    int (size_mapped m) < ptr + int 4096"
proof -
  have "(0::nat) < 4096" "''f'' \<noteq> []" "[''f'' \<mapsto> ([] :: bytes)] ''f'' \<noteq> None" "\<forall>n::nat. 0 < n \<longrightarrow> 0 < n" by simp_all
  from mmap_covers_aligned [where page = 4096 and fs = "[''f'' \<mapsto> []]" and filename = "''f''" and len = 4096, OF this, of False READ_ONLY 4000 True]
  show ?thesis by auto
qed

end
