(* ===== verification/FileManager.thy ===== *)
theory FileManager
  imports CppString
begin

text \<open>
  \<^verbatim>\<open>src/store/filemanager.{h,cpp}\<close>: block-wise access to a file through \<^verbatim>\<open>fstream\<close>. The file system is a map
  from names to contents. A stream on a file that cannot be opened, or positioned before its start,
  is in a failed state: its reads and writes do nothing. Buffers are raw \<^verbatim>\<open>char\<close> arrays, so an access
  behind their end is undefined.
\<close>

type_synonym files = "string \<rightharpoonup> string"

text \<open>The macro \<^verbatim>\<open>1024 * 8\<close>.\<close>

definition BLOCK_SIZE :: nat where
  "BLOCK_SIZE = 8192"

definition fm_readFully :: "files \<Rightarrow> string \<Rightarrow> string \<Rightarrow> string" where
  "fm_readFully fs filename buffer =
     (case fs filename of None \<Rightarrow> buffer | Some s \<Rightarrow> takeWhile (\<lambda>c. c \<noteq> CHR 0xFF) s)"

text \<open>\<^verbatim>\<open>create\<close> writes 4 * 4096 bytes out of a buffer of one block.\<close>

definition fm_create :: "string \<Rightarrow> files \<Rightarrow> files result" where
  "fm_create filename fs =
     (let buffer = replicate BLOCK_SIZE (CHR 0x00) in
      if length buffer < 4 * 4096 then Inl OutOfBounds
      else Inr (fs(filename \<mapsto> take (4 * 4096) buffer)))"

text \<open>The translation to bytes happens in \<^verbatim>\<open>int\<close>; an overflow is undefined.\<close>

definition fm_bytes :: "int \<Rightarrow> int result" where
  "fm_bytes blocks = (let n = blocks * int BLOCK_SIZE in
     if - (2 ^ 31) \<le> n \<and> n < 2 ^ 31 then Inr n else Inl OutOfBounds)"

definition fm_read :: "files \<Rightarrow> string \<Rightarrow> int \<Rightarrow> int \<Rightarrow> string \<Rightarrow> string result" where
  "fm_read fs filename blockStart blockCount buffer =
     rbind (fm_bytes blockStart) (\<lambda>offset. rbind (fm_bytes blockCount) (\<lambda>n.
       case fs filename of
         None \<Rightarrow> Inr buffer
       | Some s \<Rightarrow>
           if offset < 0 then Inr buffer
           else let got = take (nat n) (drop (nat offset) s) in
             if length buffer < length got then Inl OutOfBounds
             else Inr (got @ drop (length got) buffer)))"

text \<open>Writing behind the end fills the gap with zeros.\<close>

definition overwrite :: "nat \<Rightarrow> string \<Rightarrow> string \<Rightarrow> string" where
  "overwrite offset new s =
     take offset (s @ replicate (offset - length s) (CHR 0x00)) @ new @ drop (offset + length new) s"

definition fm_write :: "string \<Rightarrow> int \<Rightarrow> int \<Rightarrow> string \<Rightarrow> files \<Rightarrow> files result" where
  "fm_write filename blockStart blockCount buffer fs =
     rbind (fm_bytes blockStart) (\<lambda>offset. rbind (fm_bytes blockCount) (\<lambda>n.
       case fs filename of
         None \<Rightarrow> Inr fs
       | Some s \<Rightarrow>
           if offset < 0 then Inr fs
           else if length buffer < nat n then Inl OutOfBounds
           else Inr (fs(filename \<mapsto> overwrite (nat offset) (take (nat n) buffer) s))))"

definition fm_appWrite :: "string \<Rightarrow> string \<Rightarrow> files \<Rightarrow> files result" where
  "fm_appWrite filename buffer fs =
     (if length buffer < BLOCK_SIZE then Inl OutOfBounds
      else Inr (fs(filename \<mapsto> (case fs filename of None \<Rightarrow> [] | Some s \<Rightarrow> s) @ take BLOCK_SIZE buffer)))"

section \<open>Properties\<close>

lemma length_overwrite: "length (overwrite off new s) = max (length s) (off + length new)"
  by (simp add: overwrite_def)

lemma nth_overwrite:
  "i < length (overwrite off new s) \<Longrightarrow> overwrite off new s ! i =
    (if off \<le> i \<and> i < off + length new then new ! (i - off) else if i < length s then s ! i else CHR 0x00)"
proof -
  let ?p = "take off (s @ replicate (off - length s) (CHR 0x00))"
  assume "i < length (overwrite off new s)"
  then have i: "i < max (length s) (off + length new)" by (simp only: length_overwrite)
  have l: "length ?p = off" by simp
  have p: "i < off \<Longrightarrow> ?p ! i = (if i < length s then s ! i else CHR 0x00)" by (auto simp: nth_append)
  show ?thesis unfolding overwrite_def nth_append l using i p by auto
qed

lemma fm_bytes_nat: "0 \<le> b \<Longrightarrow> b < 2 ^ 18 \<Longrightarrow> fm_bytes b = Inr (b * int BLOCK_SIZE)"
  by (simp add: fm_bytes_def BLOCK_SIZE_def Let_def)

lemma overwrite_same: "take (length new) (drop off (overwrite off new s)) = new"
  by (intro nth_equalityI) (simp_all add: length_overwrite nth_overwrite)

lemma overwrite_elsewhere:
  assumes "off + length new \<le> p \<or> p + n \<le> off" and "p + n \<le> length s"
  shows "take n (drop p (overwrite off new s)) = take n (drop p s)"
  using assms by (intro nth_equalityI) (auto simp: length_overwrite nth_overwrite)

text \<open>
  Block writes are read back. Writing \<open>n\<close> blocks at block \<open>b\<close> of an existing file succeeds, reading
  them again into any buffer that is large enough yields what was written, and blocks of the
  file that do not overlap keep their contents.
\<close>

lemma block_write_read:
  assumes "0 \<le> b" "b < 2 ^ 18" "0 \<le> n" "n < 2 ^ 18" "fs f = Some s" "length buf = nat n * BLOCK_SIZE"
  shows "\<exists>fs' s'. fm_write f b n buf fs = Inr fs' \<and> fs' = fs(f \<mapsto> s') \<and>
    (\<forall>old. length old = nat n * BLOCK_SIZE \<longrightarrow> fm_read fs' f b n old = Inr buf) \<and>
    (\<forall>c m old. 0 \<le> c \<and> c < 2 ^ 18 \<and> 0 \<le> m \<and> m < 2 ^ 18 \<and> (b + n \<le> c \<or> c + m \<le> b) \<and>
       (nat c + nat m) * BLOCK_SIZE \<le> length s \<longrightarrow> fm_read fs' f c m old = fm_read fs f c m old)"
proof -
  let ?off = "nat (b * int BLOCK_SIZE)"
  have len: "nat (n * int BLOCK_SIZE) = length buf" using assms by (simp add: nat_mult_distrib)
  let ?s' = "overwrite ?off buf s"
  have w: "fm_write f b n buf fs = Inr (fs(f \<mapsto> ?s'))"
    using assms len by (simp add: fm_write_def fm_bytes_nat mult_less_0_iff)
  have r: "fm_read (fs(f \<mapsto> ?s')) f b n old = Inr buf" if "length old = nat n * BLOCK_SIZE" for old
    using assms that len overwrite_same [of buf ?off s] by (simp add: fm_read_def fm_bytes_nat Let_def mult_less_0_iff)
  have "fm_read (fs(f \<mapsto> ?s')) f c m old = fm_read fs f c m old"
    if c: "0 \<le> c \<and> c < 2 ^ 18 \<and> 0 \<le> m \<and> m < 2 ^ 18 \<and> (b + n \<le> c \<or> c + m \<le> b) \<and>
       (nat c + nat m) * BLOCK_SIZE \<le> length s" for c m old
  proof -
    have "b + n \<le> c \<Longrightarrow> (b + n) * int BLOCK_SIZE \<le> c * int BLOCK_SIZE"
      "c + m \<le> b \<Longrightarrow> (c + m) * int BLOCK_SIZE \<le> b * int BLOCK_SIZE"
      by (simp_all add: BLOCK_SIZE_def)
    then have "?off + length buf \<le> nat (c * int BLOCK_SIZE) \<or> nat (c * int BLOCK_SIZE) + nat (m * int BLOCK_SIZE) \<le> ?off"
      using c assms(1,3) unfolding len [symmetric] by (auto simp: BLOCK_SIZE_def distrib_right)
    moreover have "nat (c * int BLOCK_SIZE) + nat (m * int BLOCK_SIZE) \<le> length s"
      using c by (simp add: nat_mult_distrib distrib_right)
    ultimately have "take (nat (m * int BLOCK_SIZE)) (drop (nat (c * int BLOCK_SIZE)) ?s') =
      take (nat (m * int BLOCK_SIZE)) (drop (nat (c * int BLOCK_SIZE)) s)"
      by (rule overwrite_elsewhere)
    with c assms(5) show ?thesis by (simp add: fm_read_def fm_bytes_nat Let_def mult_less_0_iff)
  qed
  with w r show ?thesis by blast
qed

text \<open>\<^verbatim>\<open>FileManager::create\<close> never succeeds: it writes two blocks out of a buffer of one.\<close>

lemma create_overruns_buffer: "fm_create filename fs = Inl OutOfBounds"
  by (simp add: fm_create_def BLOCK_SIZE_def Let_def)

end
