(* ===== verification/Engine.thy ===== *)
theory Engine
  imports GlobalTable Kernels FlatStore FileManager
begin

text \<open>
  \<^verbatim>\<open>src/kernel/kernel.h\<close>: the three phases of a computation. \<^verbatim>\<open>MaiterKernel1\<close> fills the state table from
  the key file, \<^verbatim>\<open>MaiterKernel2\<close> applies the user's kernel to row after row, \<^verbatim>\<open>MaiterKernel3\<close> dumps the
  values. \<^verbatim>\<open>run_iter\<close> gets references into the current bucket: what \<^verbatim>\<open>process_delta_v\<close> assigns goes into the
  table, and \<^verbatim>\<open>g_func\<close> sees the value after \<^verbatim>\<open>accumulateF2\<close>. \<^verbatim>\<open>run_loop\<close> takes the neighbours of a row from
  \<^verbatim>\<open>SStore\<close>, whose reader yields \<^verbatim>\<open>vector<long>\<close>; it only compiles for such kernels and is modelled for them.
\<close>

section \<open>Phase one: filling the table\<close>

text \<open>
  \<open>getKey\<close> is the kernel's; \<open>data0\<close> is the default-constructed \<^verbatim>\<open>D data\<close> that the initialisers see.
\<close>

definition read_file :: "('k, 'v, 'd) genv \<Rightarrow> (string \<Rightarrow> 'k result) \<Rightarrow> 'd \<Rightarrow> files \<Rightarrow> string \<Rightarrow>
    ('k, 'v, 'd) GlobalTable \<Rightarrow> ('k, 'v, 'd) GlobalTable result" where
  "read_file e getKey data0 fs keys_file g =
     rfold (\<lambda>res g. rbind (getKey res) (\<lambda>key.
       gt_put e key (k_init_c (ge_kernel e) key data0) (k_init_v (ge_kernel e) key data0) data0 g))
       (splitString (fm_readFully fs keys_file []) CHR ''#'') g"

definition init_table :: "('k, 'v, 'd) genv \<Rightarrow> (string \<Rightarrow> 'k result) \<Rightarrow> 'd \<Rightarrow> files \<Rightarrow> string \<Rightarrow> int \<Rightarrow>
    ('k, 'v, 'd) GlobalTable \<Rightarrow> ('k, 'v, 'd) GlobalTable result" where
  "init_table e getKey data0 fs keys_file num_nodes g =
     rbind (if gt_binit g then Inr g else gt_InitStateTable e g) (\<lambda>g.
     rbind (gt_resize e num_nodes g) (read_file e getKey data0 fs keys_file))"

section \<open>Phase two: iterating\<close>

definition st_assign :: "nat \<Rightarrow> 'v \<Rightarrow> 'v \<Rightarrow> ('k, 'v, 'd) StateTable \<Rightarrow> ('k, 'v, 'd) StateTable" where
  "st_assign b d v t = st_modify b (\<lambda>s. s\<lparr>s1 := d, s2 := v\<rparr>) t"

definition gt_bucket :: "int \<Rightarrow> int \<Rightarrow> ('k, 'v, 'd) GlobalTable \<Rightarrow> ('k, 'v, 'd) sbucket result" where
  "gt_bucket shard b g = rbind (gt_partition shard g) (\<lambda>st. vec_at (st_buckets st) b)"

text \<open>\<open>run_iter\<close> on bucket \<open>b\<close> of the shard; \<open>data\<close> is the object that \<open>run_loop\<close> passes as \<open>v3\<close>.\<close>

definition run_iter :: "('k, 'v::zero, 'd) genv \<Rightarrow> int \<Rightarrow> nat \<Rightarrow> 'k \<Rightarrow> 'd \<Rightarrow> ('k, 'v, 'd) GlobalTable \<Rightarrow>
    ('k, 'v, 'd) GlobalTable result" where
  "run_iter e shard b k data g =
     rbind (gt_bucket shard (int b) g) (\<lambda>s.
     rbind (gt_partition shard g) (\<lambda>st.
       let (d, v) = k_process_delta_v (ge_kernel e) k (s1 s) (s2 s) data;
           g1 = gt_set shard (State (st_assign b d v st)) g
       in rbind (gt_accumulateF2 e k d g1) (\<lambda>g2.
          rbind (gt_bucket shard (int b) g2) (\<lambda>s.
            let output = k_g_func (ge_kernel e) k (s1 s) (s2 s) data
            in rbind (gt_updateF1 e k (k_default_v (ge_kernel e)) g2)
                 (rfold (\<lambda>p. gt_accumulateF1 e (fst p) (snd p)) output)))))"

text \<open>The iterators that \<^verbatim>\<open>get_typed_iterator\<close> may return, and the bucket each stands at.\<close>

datatype typed_iter = PlainIt int | SchedIt ScheduledIterator

fun ti_done :: "('k, 'v, 'd) StateTable \<Rightarrow> typed_iter \<Rightarrow> bool" where
  "ti_done t (PlainIt p) = it_done t p"
| "ti_done t (SchedIt it) = sched_done it"

fun ti_Next :: "('k, 'v, 'd) StateTable \<Rightarrow> typed_iter \<Rightarrow> (typed_iter \<times> bool) result" where
  "ti_Next t (PlainIt p) = rbind (it_Next t p) (\<lambda>(q, cont). Inr (PlainIt q, cont))"
| "ti_Next t (SchedIt it) = (case sched_Next it of (it', cont) \<Rightarrow> Inr (SchedIt it', cont))"

fun ti_bucket :: "typed_iter \<Rightarrow> int result" where
  "ti_bucket (PlainIt p) = Inr p"
| "ti_bucket (SchedIt it) = rbind (vec_at (scheduled_pos it) (si_pos it)) (\<lambda>b. Inr (int b))"

text \<open>
  \<^verbatim>\<open>TypedGlobalTable::get_iterator\<close>. \<open>helper\<close> and \<open>rs\<close> are the effect of the helper's calls on this
  partition and the random positions, as in the theory of the state table.
\<close>

definition gt_get_iterator :: "('k, rat, 'd) genv \<Rightarrow> int \<Rightarrow> bool \<Rightarrow> (nat \<Rightarrow> ('k, rat, 'd) StateTable \<Rightarrow> ('k, rat, 'd) StateTable) option \<Rightarrow>
    (nat \<Rightarrow> int list) \<Rightarrow> ('k, rat, 'd) GlobalTable \<Rightarrow> (typed_iter option \<times> ('k, rat, 'd) GlobalTable) result" where
  "gt_get_iterator e shard bfilter helper rs g =
     rbind (gt_is_local_shard e shard g) (\<lambda>loc. rbind (check loc) (\<lambda>_.
     rbind (gt_partition shard g) (\<lambda>st.
       if ge_schedule_portion e < 1
       then rbind (st_schedule_iterator helper bfilter (ge_schedule_portion e) (k_default_v (ge_kernel e)) rs st) (\<lambda>(r, st', _).
         Inr (case r of NoIterator \<Rightarrow> None | Got it \<Rightarrow> Some (SchedIt it) | EntirePass p \<Rightarrow> Some (PlainIt p), gt_set shard (State st') g))
       else rbind (st_get_iterator helper bfilter (k_default_v (ge_kernel e)) rs st) (\<lambda>(r, st', _).
         Inr (case r of NoIterator \<Rightarrow> None | Got (p, _) \<Rightarrow> Some (PlainIt p) | EntirePass p \<Rightarrow> Some (PlainIt p), gt_set shard (State st') g)))))"

text \<open>
  The inner loop over one iterator. \<open>fetch\<close> is \<^verbatim>\<open>store.getData\<close>; the fuel bounds the number of rounds.
\<close>

fun run_pass :: "nat \<Rightarrow> ('k, 'v::zero, 'd) genv \<Rightarrow> int \<Rightarrow> ('k \<Rightarrow> 'v \<Rightarrow> 's \<Rightarrow> ('d \<times> 's) result) \<Rightarrow> typed_iter \<Rightarrow>
    's \<Rightarrow> ('k, 'v, 'd) GlobalTable \<Rightarrow> ('s \<times> ('k, 'v, 'd) GlobalTable) result" where
  "run_pass 0 e shard fetch it store g = Inl Diverges"
| "run_pass (Suc fuel) e shard fetch it store g =
     rbind (gt_partition shard g) (\<lambda>st.
       if ti_done st it then Inr (store, g)
       else rbind (ti_Next st it) (\<lambda>(it', cont).
         if \<not> cont then Inr (store, g)
         else rbind (ti_bucket it') (\<lambda>b.
           rbind (gt_bucket shard b g) (\<lambda>s.
           rbind (fetch (skey s) (s2 s) store) (\<lambda>(data, store').
           rbind (run_iter e shard (nat b) (skey s) data g) (\<lambda>g'.
             run_pass fuel e shard fetch it' store' g'))))))"

text \<open>
  The outer loop, for as many rounds as are listed: \<open>flush\<close> is what the helper's calls do to the rest of
  the global table before the iterator is there.
\<close>

fun run_loop :: "nat \<Rightarrow> nat \<Rightarrow> (int, rat, int list) genv \<Rightarrow> int \<Rightarrow>
    (((int, rat, int list) GlobalTable \<Rightarrow> (int, rat, int list) GlobalTable) \<times>
      (nat \<Rightarrow> (int, rat, int list) StateTable \<Rightarrow> (int, rat, int list) StateTable) option \<times> (nat \<Rightarrow> int list)) list \<Rightarrow>
    SStore \<Rightarrow> (int, rat, int list) GlobalTable \<Rightarrow> (SStore \<times> (int, rat, int list) GlobalTable) result" where
  "run_loop cap fuel e shard [] store g = Inr (store, g)"
| "run_loop cap fuel e shard ((flush, helper, rs) # rounds) store g =
     rbind (gt_get_iterator e shard False helper rs (flush g)) (\<lambda>(it2, g1).
       case it2 of
         None \<Rightarrow> Inr (store, g1)
       | Some it \<Rightarrow> rbind (run_pass fuel e shard (getData cap) it store g1) (\<lambda>(store', g2).
           run_loop cap fuel e shard rounds store' g2))"

section \<open>Phase three: dumping\<close>

text \<open>The lines written to the output file; \<open>prk\<close> and \<open>prv\<close> print a key and a value.\<close>

fun dump_from :: "nat \<Rightarrow> ('k \<Rightarrow> string) \<Rightarrow> ('v \<Rightarrow> string) \<Rightarrow> ('k, 'v, 'd) StateTable \<Rightarrow> int \<Rightarrow> string \<Rightarrow> string result" where
  "dump_from 0 prk prv t p out = Inl Diverges"
| "dump_from (Suc fuel) prk prv t p out =
     (if it_done t p then Inr out
      else rbind (it_Next t p) (\<lambda>(q, cont).
        if \<not> cont then Inr out
        else rbind (vec_at (st_buckets t) q) (\<lambda>s.
          dump_from fuel prk prv t q (out @ prk (skey s) @ [tab] @ prv (s2 s) @ [newline]))))"

definition dump :: "('k \<Rightarrow> string) \<Rightarrow> ('v \<Rightarrow> string) \<Rightarrow> int \<Rightarrow> ('k, 'v, 'd) GlobalTable \<Rightarrow> string result" where
  "dump prk prv shard g = rbind (gt_partition shard g) (\<lambda>st. dump_from (st_size st + 1) prk prv st (-1) [])"

section \<open>The layout of the tables\<close>

text \<open>Which bucket holds which key: no operation of phase two changes it, so iterators stay valid.\<close>

definition st_layout :: "('k, 'v, 'd) StateTable \<Rightarrow> nat \<times> (bool \<times> 'k) list" where
  "st_layout t = (st_size t, map (\<lambda>s. (in_use s, skey s)) (st_buckets t))"

definition gt_layout :: "('k, 'v, 'd) GlobalTable \<Rightarrow> (nat \<times> (bool \<times> 'k) list) option list" where
  "gt_layout g = map (\<lambda>p. case p of Delta _ \<Rightarrow> None | State st \<Rightarrow> Some (st_layout st)) (gt_partitions g)"

lemma st_layout_modify:
  "(\<And>s. in_use (f s) = in_use s) \<Longrightarrow> (\<And>s. skey (f s) = skey s) \<Longrightarrow> st_layout (st_modify b f t) = st_layout t"
  by (cases "b < length (st_buckets t)") (auto simp: st_layout_def st_modify_def intro!: nth_equalityI simp: nth_list_update)

lemma gt_partition_State:
  "gt_partition shard g = Inr st \<longleftrightarrow> 0 \<le> shard \<and> nat shard < length (gt_partitions g) \<and> gt_partitions g ! nat shard = State st"
  by (cases "0 \<le> shard \<and> nat shard < length (gt_partitions g)"; cases "gt_partitions g ! nat shard")
    (auto simp: gt_partition_def vec_at_def)

lemma gt_deltaT_Delta:
  "gt_deltaT shard g = Inr dt \<longleftrightarrow> 0 \<le> shard \<and> nat shard < length (gt_partitions g) \<and> gt_partitions g ! nat shard = Delta dt"
  by (cases "0 \<le> shard \<and> nat shard < length (gt_partitions g)"; cases "gt_partitions g ! nat shard")
    (auto simp: gt_deltaT_def vec_at_def)

lemma gt_layout_set:
  "gt_partition shard g = Inr st \<Longrightarrow> st_layout st' = st_layout st \<Longrightarrow> gt_layout (gt_set shard (State st') g) = gt_layout g"
  by (simp add: gt_layout_def gt_set_def gt_partition_State map_update list_update_same_conv)

lemma gt_layout_delta:
  "gt_deltaT shard g = Inr dt \<Longrightarrow> gt_layout (gt_set shard (Delta dt') g) = gt_layout g"
  by (simp add: gt_layout_def gt_set_def gt_deltaT_Delta map_update list_update_same_conv)

lemma gt_layout_fields [simp]: "gt_layout (g\<lparr>gt_sent := x\<rparr>) = gt_layout g" "gt_layout (g\<lparr>gt_pending_writes := y\<rparr>) = gt_layout g"
  by (simp_all add: gt_layout_def)

lemma gt_layout_send_shard: "gt_send_shard (Suc 0) e i g = Inr g' \<Longrightarrow> gt_layout g' = gt_layout g"
proof -
  assume "gt_send_shard (Suc 0) e i g = Inr g'"
  then obtain dt dt' x where d: "gt_deltaT (int i) g = Inr dt"
    and g': "g' = gt_set (int i) (Delta (dt_clear dt')) ((gt_set (int i) (Delta dt') g)\<lparr>gt_sent := x\<rparr>)"
    by (auto simp: result_simps Let_def split: option.splits if_splits)
  have "g' = (gt_set (int i) (Delta (dt_clear dt')) g)\<lparr>gt_sent := x\<rparr>" by (simp add: g' gt_set_def)
  then show ?thesis using gt_layout_delta [OF d] by simp
qed

lemma gt_layout_send_step: "gt_send_step e i g = Inr g' \<Longrightarrow> gt_layout g' = gt_layout g"
  by (auto simp: gt_send_step_def result_simps split: if_splits dest: gt_layout_send_shard simp del: gt_send_shard.simps)

lemma gt_layout_SendUpdates: "gt_SendUpdates e g = Inr g' \<Longrightarrow> gt_layout g' = gt_layout g"
proof -
  assume "gt_SendUpdates e g = Inr g'"
  then obtain g1 where g1: "rfold (gt_send_step e) [0..<length (gt_partitions g)] g = Inr g1" "g' = g1\<lparr>gt_pending_writes := 0\<rparr>"
    by (auto simp: gt_SendUpdates_def result_simps)
  have "gt_layout g1 = gt_layout g"
    by (rule rfold_invariant [OF g1(1), where I = "\<lambda>x. gt_layout x = gt_layout g"]) (simp_all add: gt_layout_send_step)
  then show ?thesis by (simp add: g1(2))
qed

lemma gt_layout_on_shard:
  assumes "gt_on_shard e k g loc rem = Inr g'"
    and "\<And>st st'. loc st = Inr st' \<Longrightarrow> st_layout st' = st_layout st" and "\<And>s g'. rem s = Inr g' \<Longrightarrow> gt_layout g' = gt_layout g"
  shows "gt_layout g' = gt_layout g"
  using assms(1) by (auto simp: gt_on_shard_def result_simps split: if_splits intro: gt_layout_set assms(2,3))

lemma st_layout_accumulate:
  "st_accumulateF1 h ker k v t = Inr t' \<Longrightarrow> st_layout t' = st_layout t"
  "st_accumulateF2 h ker k v t = Inr t' \<Longrightarrow> st_layout t' = st_layout t"
  by (auto simp: st_accumulateF1_def st_accumulateF2_def result_simps Let_def intro!: st_layout_modify)

lemma st_layout_updates: "st_layout (t\<lparr>st_total_updates := u\<rparr>) = st_layout t"
  by (simp add: st_layout_def)

lemma st_layout_updateF1: "st_updateF1 h k w t = Inr t' \<Longrightarrow> st_layout t' = st_layout t"
  by (auto simp: st_updateF1_def result_simps st_layout_updates st_layout_modify)

lemma gt_layout_accumulateF1: "gt_accumulateF1 e k v g = Inr g' \<Longrightarrow> gt_layout g' = gt_layout g"
proof (unfold gt_accumulateF1_def, erule gt_layout_on_shard)
  fix s g'
  assume "rbind (gt_deltaT s g) (\<lambda>dt. rbind (dt_accumulate (ge_hash e) (ge_nd e) (k_accumulate (ge_kernel e)) k v dt) (\<lambda>dt'.
          let g' = (gt_set s (Delta dt') g)\<lparr>gt_pending_writes := gt_pending_writes g + 1\<rparr>
          in if ge_bufmsg e < gt_pending_writes g' then gt_SendUpdates e g' else Inr g')) = Inr g'"
  then show "gt_layout g' = gt_layout g"
    by (auto simp: result_simps Let_def gt_layout_delta split: if_splits dest!: gt_layout_SendUpdates)
qed (erule st_layout_accumulate)

section \<open>One step on the rows\<close>

text \<open>
  The reference semantics of \<open>run_iter\<close>: the row afterwards and the updates that are sent out.
\<close>

definition row_iter :: "('k, 'v, 'd) kernel \<Rightarrow> 'k \<Rightarrow> 'd \<Rightarrow> 'v \<times> 'v \<times> 'x \<Rightarrow> ('v \<times> 'v \<times> 'x) \<times> ('k \<times> 'v) list" where
  "row_iter ker k data r = (case r of (d, v, x) \<Rightarrow>
     let (d', v') = k_process_delta_v ker k d v data; v'' = k_accumulate ker v' d'
     in ((k_default_v ker, v'', x), k_g_func ker k d' v'' data))"

text \<open>Replacing the row of a local key.\<close>

lemma gt_local_row:
  assumes ok: "gt_ok e g" and sh: "sharded e sh" and loc: "gt_local e g (sh k)"
    and st: "gt_partitions g ! sh k = State st"
    and st': "st_ok (ge_hash e) st'" "st_rows st' = (st_rows st)(k \<mapsto> r)" "st_layout st' = st_layout st"
  defines "g' \<equiv> gt_set (int (sh k)) (State st') g"
  shows "gt_ok e g'" and "same_frame g g'" and "gt_sent g' = gt_sent g" and "rows sh g' = (rows sh g)(k \<mapsto> r)"
    and "outstanding e sh g' = outstanding e sh g" and "gt_layout g' = gt_layout g"
    and "gt_partitions g' ! sh k = State st'" and "gt_local e g' = gt_local e g" and "sent_ok e sh g' = sent_ok e sh g"
proof -
  have n: "sh j < ge_num_shards e" for j using sh by (simp add: sharded_def)
  have len: "length (gt_partitions g) = ge_num_shards e" using ok by (simp add: gt_ok_def)
  show "gt_ok e g'" unfolding g'_def by (rule gt_ok_set [OF ok n]) (simp add: part_ok_def loc st'(1))
  show f: "same_frame g g'" by (simp add: same_frame_def g'_def gt_set_def)
  show s: "gt_sent g' = gt_sent g" by (simp add: g'_def gt_set_def)
  have "rows sh g' j = ((rows sh g)(k \<mapsto> r)) j" for j
    using n [of k] len st st'(2) by (cases "sh j = sh k") (auto simp: rows_def g'_def gt_set_def)
  then show "rows sh g' = (rows sh g)(k \<mapsto> r)" by auto
  have "outstanding e sh g' j = outstanding e sh g j" for j
    using n [of k] len st by (cases "sh j = sh k") (auto simp: outstanding_def buffered_def sent_pairs_def g'_def gt_set_def)
  then show "outstanding e sh g' = outstanding e sh g" by auto
  show "gt_layout g' = gt_layout g" unfolding g'_def
    using n [of k] len st st'(3) by (intro gt_layout_set [of _ _ st]) (simp_all add: gt_partition_State)
  show "gt_partitions g' ! sh k = State st'" using n [of k] len by (simp add: g'_def gt_set_def)
  show "gt_local e g' = gt_local e g" using f by (rule same_frame_local)
  show "sent_ok e sh g' = sent_ok e sh g" using f s by (simp add: sent_ok_def same_frame_def)
qed

text \<open>The bucket that holds a key, and what it says about the row.\<close>

definition at_bucket :: "('k, 'v, 'd) StateTable \<Rightarrow> nat \<Rightarrow> 'k \<Rightarrow> bool" where
  "at_bucket t b k \<longleftrightarrow> b < length (st_buckets t) \<and> in_use (st_buckets t ! b) \<and> skey (st_buckets t ! b) = k"

lemma at_bucket_row: "st_ok h t \<Longrightarrow> at_bucket t b k \<Longrightarrow> st_rows t k = Some (row_of (st_buckets t ! b))"
  using stored_Some [OF st_okD(3), of h t b k] by (simp add: at_bucket_def st_rows_def)

lemma at_bucket_layout: "st_layout t' = st_layout t \<Longrightarrow> at_bucket t' b k = at_bucket t b k"
proof -
  assume l: "st_layout t' = st_layout t"
  then have m: "map (\<lambda>s. (in_use s, skey s)) (st_buckets t') = map (\<lambda>s. (in_use s, skey s)) (st_buckets t)"
    by (simp add: st_layout_def)
  have n: "length (st_buckets t') = length (st_buckets t)" using arg_cong [OF m, of length] by simp
  have "in_use (st_buckets t' ! b) = in_use (st_buckets t ! b) \<and> skey (st_buckets t' ! b) = skey (st_buckets t ! b)"
    if "b < length (st_buckets t)" using arg_cong [OF m, of "\<lambda>xs. xs ! b"] that n by simp
  then show ?thesis using n by (auto simp: at_bucket_def)
qed

lemma st_assign_row:
  assumes "st_ok h t" and "at_bucket t b k" and "st_rows t k = Some (d0, v0, x)"
  shows "st_ok h (st_assign b d v t)" and "st_rows (st_assign b d v t) = (st_rows t)(k \<mapsto> (d, v, x))"
    and "st_layout (st_assign b d v t) = st_layout t"
proof -
  let ?f = "\<lambda>s. s\<lparr>s1 := d, s2 := v\<rparr>"
  have b: "b < length (st_buckets t)" "in_use (st_buckets t ! b)" using assms(2) by (simp_all add: at_bucket_def)
  have r: "row_of (?f (st_buckets t ! b)) = (d, v, x)"
    using at_bucket_row [OF assms(1,2)] assms(3) by (simp add: row_of_def)
  show "st_ok h (st_assign b d v t)" unfolding st_assign_def
    by (rule st_modify_ok(1) [OF assms(1) b]) simp_all
  have "st_rows (st_modify b ?f t) = (st_rows t)(skey (st_buckets t ! b) \<mapsto> row_of (?f (st_buckets t ! b)))"
    by (rule st_modify_ok(2) [OF assms(1) b]) simp_all
  then show "st_rows (st_assign b d v t) = (st_rows t)(k \<mapsto> (d, v, x))"
    using r assms(2) by (simp add: st_assign_def at_bucket_def)
  show "st_layout (st_assign b d v t) = st_layout t" by (simp add: st_assign_def st_layout_modify)
qed

lemma gt_bucket_at:
  assumes "gt_partitions g ! sh k = State st" and "sh k < length (gt_partitions g)" and "at_bucket st b k"
  shows "gt_bucket (int (sh k)) (int b) g = Inr (st_buckets st ! b)"
proof -
  have "gt_partition (int (sh k)) g = Inr st" using assms(1,2) by (simp add: gt_partition_State)
  then show ?thesis using assms(3) by (simp add: gt_bucket_def at_bucket_def result_simps)
qed

text \<open>
  \<open>run_iter\<close> on a bucket implements \<open>row_iter\<close>: the current row is replaced, the outputs are added to the
  pending changes of the local rows and to what is outstanding for the remote ones.
\<close>

lemma run_iter_rows:
  assumes ok: "gt_ok e g" and sh: "sharded e sh" and m: "marshals e" and acc: "accumulator (k_accumulate (ge_kernel e))"
    and sent: "sent_ok e sh g" and loc: "gt_local e g (sh k)"
    and st: "gt_partitions g ! sh k = State st" and b: "at_bucket st b k"
    and r: "rows sh g k = Some r" and it: "row_iter (ge_kernel e) k data r = (r', out)"
    and known: "\<forall>p \<in> set out. gt_local e g (sh (fst p)) \<longrightarrow> rows sh g (fst p) \<noteq> None"
  shows "\<exists>g'. run_iter e (int (sh k)) b k data g = Inr g' \<and> gt_ok e g' \<and> sent_ok e sh g' \<and> same_frame g g' \<and>
    gt_layout g' = gt_layout g \<and>
    (\<forall>j. rows sh g' j = map_option (fold (add_delta (k_accumulate (ge_kernel e))) (deltas j out)) (((rows sh g)(k \<mapsto> r')) j)) \<and>
    (\<forall>j. outstanding e sh g' j = (if gt_local e g (sh j) then outstanding e sh g j
      else oacc (k_accumulate (ge_kernel e)) (outstanding e sh g j) (gather (k_accumulate (ge_kernel e)) j out)))"
proof -
  let ?ker = "ge_kernel e" and ?i = "int (sh k)"
  have n: "sh k < ge_num_shards e" using sh by (simp add: sharded_def)
  have len: "length (gt_partitions g) = ge_num_shards e" using ok by (simp add: gt_ok_def)
  obtain d v x where dvx: "r = (d, v, x)" by (cases r)
  obtain d' v' where p: "k_process_delta_v ?ker k d v data = (d', v')" by (cases "k_process_delta_v ?ker k d v data")
  let ?v'' = "k_accumulate ?ker v' d'"
  have r': "r' = (k_default_v ?ker, ?v'', x)" and out: "out = k_g_func ?ker k d' ?v'' data"
    using it by (simp_all add: row_iter_def dvx p Let_def)
  have sto: "st_ok (ge_hash e) st" using gt_ok_State [OF ok n loc] st by auto
  have row: "st_rows st k = Some (d, v, x)" using r st dvx by (simp add: rows_def)
  have bk: "s1 (st_buckets st ! b) = d" "s2 (st_buckets st ! b) = v"
    using at_bucket_row [OF sto b] row by (simp_all add: row_of_def)
  note a1 = st_assign_row [OF sto b row, of d' v']
  define st1 where "st1 = st_assign b d' v' st"
  define g1 where "g1 = gt_set ?i (State st1) g"
  note g1 = gt_local_row [OF ok sh loc st a1, folded st1_def, folded g1_def]
  have "st_rows st1 k = Some (d', v', x)" using a1(2) by (simp add: st1_def)
  then obtain st2 where st2: "st_accumulateF2 (ge_hash e) ?ker k d' st1 = Inr st2" "st_ok (ge_hash e) st2"
      "st_rows st2 = (st_rows st1)(k \<mapsto> (d', ?v'', x))"
    using st_accumulateF2_rows [OF a1(1) [folded st1_def], where k = k and v = d' and ker = ?ker] by auto
  define g2 where "g2 = gt_set ?i (State st2) g1"
  have loc1: "gt_local e g1 (sh k)" using g1(8) loc by simp
  note g2 = gt_local_row [OF g1(1) sh loc1 g1(7) st2(2,3) st_layout_accumulate(2) [OF st2(1)], folded g2_def]
  have len1: "length (gt_partitions g1) = ge_num_shards e" and len2: "length (gt_partitions g2) = ge_num_shards e"
    using g1(1) g2(1) by (simp_all add: gt_ok_def)
  have acc2: "gt_accumulateF2 e k d' g1 = Inr g2"
    using n len1 g1(7) st2(1) loc1
    by (simp add: gt_accumulateF2_def gt_on_shard_def gt_get_shard_eq [OF sh] gt_is_local_shard_eq [OF g1(1)]
        gt_partition_def result_simps g2_def)
  have b2: "at_bucket st2 b k"
    unfolding at_bucket_layout [OF st_layout_accumulate(2) [OF st2(1)]] st1_def at_bucket_layout [OF a1(3)] by (rule b)
  have bk2: "s1 (st_buckets st2 ! b) = d'" "s2 (st_buckets st2 ! b) = ?v''"
    using at_bucket_row [OF st2(2) b2] fun_cong [OF st2(3), of k] by (auto simp: row_of_def)
  have "st_rows st2 k = Some (d', ?v'', x)" using st2(3) by simp
  then obtain st3 where st3: "st_updateF1 (ge_hash e) k (k_default_v ?ker) st2 = Inr st3" "st_ok (ge_hash e) st3"
      "st_rows st3 = (st_rows st2)(k \<mapsto> r')"
    using st_updateF1_rows [OF st2(2), where k = k and v = "k_default_v ?ker"] by (auto simp: r')
  define g3 where "g3 = gt_set ?i (State st3) g2"
  have loc2: "gt_local e g2 (sh k)" using g2(8) loc1 by simp
  note g3 = gt_local_row [OF g2(1) sh loc2 g2(7) st3(2,3) st_layout_updateF1 [OF st3(1)], folded g3_def]
  have upd: "gt_updateF1 e k (k_default_v ?ker) g2 = Inr g3"
    using n len2 g2(7) st3(1) loc2
    by (simp add: gt_updateF1_def gt_on_shard_def gt_get_shard_eq [OF sh] gt_is_local_shard_eq [OF g2(1)]
        gt_partition_def result_simps g3_def)
  have run: "run_iter e ?i b k data g = rfold (\<lambda>p. gt_accumulateF1 e (fst p) (snd p)) out g3"
    using gt_bucket_at [where g = g and sh = sh, OF st _ b] gt_bucket_at [where g = g2 and sh = sh, OF g2(7) _ b2] n len len2 st
    by (simp add: run_iter_def bk p acc2 [unfolded g1_def st1_def] bk2 upd out gt_partition_def result_simps Let_def)
  have rows3: "rows sh g3 = (rows sh g)(k \<mapsto> r')" using g1(4) g2(4) g3(4) by simp
  have loc3: "gt_local e g3 = gt_local e g" using g1(8) g2(8) g3(8) by simp
  have known3: "\<forall>p \<in> set out. gt_local e g3 (sh (fst p)) \<longrightarrow> rows sh g3 (fst p) \<noteq> None"
    using known by (simp add: rows3 loc3 del: not_None_eq)
  have sent3: "sent_ok e sh g3" using sent g1(9) g2(9) g3(9) by simp
  from gt_accumulate_run [OF g3(1) sh m acc sent3 known3] obtain g' where
    g': "rfold (\<lambda>p. gt_accumulateF1 e (fst p) (snd p)) out g3 = Inr g'" "gt_ok e g'" "sent_ok e sh g'" "same_frame g3 g'"
    and res: "\<forall>j. rows sh g' j = map_option (fold (add_delta (k_accumulate ?ker)) (deltas j out)) (rows sh g3 j)"
      "\<forall>j. outstanding e sh g' j = (if gt_local e g3 (sh j) then outstanding e sh g3 j
      else oacc (k_accumulate ?ker) (outstanding e sh g3 j) (gather (k_accumulate ?ker) j out))" by blast
  have "gt_layout g' = gt_layout g3"
    by (rule rfold_invariant [OF g'(1), where I = "\<lambda>x. gt_layout x = gt_layout g3"]) (simp_all add: gt_layout_accumulateF1)
  moreover have "same_frame g g'" using g1(2) g2(2) g3(2) g'(4) by (simp add: same_frame_def)
  ultimately show ?thesis
    using run g' res g1(5,6) g2(5,6) g3(5,6) by (intro exI [of _ g'] conjI) (simp_all add: rows3 loc3)
qed

section \<open>A pass over the table\<close>

text \<open>The buckets an iterator still has to visit; they depend on the layout only.\<close>

definition used_from :: "('k, 'z) slot_scheme list \<Rightarrow> nat \<Rightarrow> nat list" where
  "used_from bs p = filter (\<lambda>i. in_use (bs ! i)) [p..<length bs]"

fun ti_rest :: "('k, 'v, 'd) StateTable \<Rightarrow> typed_iter \<Rightarrow> nat list" where
  "ti_rest t (PlainIt p) = used_from (st_buckets t) (nat (p + 1))"
| "ti_rest t (SchedIt it) = drop (nat (si_pos it + 1)) (scheduled_pos it)"

fun ti_ok :: "('k, 'v, 'd) StateTable \<Rightarrow> typed_iter \<Rightarrow> bool" where
  "ti_ok t (PlainIt p) \<longleftrightarrow> st_size t = length (st_buckets t) \<and> - 1 \<le> p \<and> p < int (st_size t)"
| "ti_ok t (SchedIt it) \<longleftrightarrow> - 1 \<le> si_pos it \<and> si_pos it < int (length (scheduled_pos it)) \<and>
     (\<forall>b \<in> set (scheduled_pos it). b < length (st_buckets t) \<and> in_use (st_buckets t ! b))"

lemma scan_used:
  assumes "p \<le> length bs"
  shows "\<exists>q. scan bs (length bs) p = Inr q \<and> p \<le> q \<and> q \<le> length bs \<and>
    used_from bs p = (if q < length bs then q # used_from bs (q + 1) else [])"
  using assms
proof (induction "length bs - p" arbitrary: p)
  case 0
  then have "p = length bs" by simp
  then show ?case by (simp add: scan.simps used_from_def)
next
  case (Suc n)
  then have p: "p < length bs" and IH: "\<exists>q. scan bs (length bs) (p + 1) = Inr q \<and> p + 1 \<le> q \<and> q \<le> length bs \<and>
    used_from bs (p + 1) = (if q < length bs then q # used_from bs (q + 1) else [])"
    by simp_all
  have u: "used_from bs p = (if in_use (bs ! p) then [p] else []) @ used_from bs (p + 1)"
    using p by (simp add: used_from_def upt_conv_Cons)
  show ?case
  proof (cases "in_use (bs ! p)")
    case True
    with p have "scan bs (length bs) p = Inr p" by (subst scan.simps) (simp add: result_simps)
    then show ?thesis unfolding u using True p by (intro exI [of _ p]) simp
  next
    case False
    with p have s: "scan bs (length bs) p = scan bs (length bs) (p + 1)"
      by (subst scan.simps) (simp add: result_simps)
    from IH obtain q where "scan bs (length bs) (p + 1) = Inr q" "p + 1 \<le> q" "q \<le> length bs"
      "used_from bs (p + 1) = (if q < length bs then q # used_from bs (q + 1) else [])" by blast
    then show ?thesis unfolding s u using False by (intro exI [of _ q]) simp
  qed
qed

text \<open>An iterator visits its buckets one by one and then stops.\<close>

lemma ti_step:
  assumes "ti_ok t it"
  shows "case ti_rest t it of
      [] \<Rightarrow> ti_done t it \<or> (\<exists>it'. ti_Next t it = Inr (it', False))
    | b # bs \<Rightarrow> \<not> ti_done t it \<and> b < length (st_buckets t) \<and> in_use (st_buckets t ! b) \<and>
        (\<exists>it'. ti_Next t it = Inr (it', True) \<and> ti_bucket it' = Inr (int b) \<and> ti_ok t it' \<and> ti_rest t it' = bs)"
proof (cases it)
  case (PlainIt p)
  then have s: "st_size t = length (st_buckets t)" and p: "- 1 \<le> p" "p < int (st_size t)" using assms by simp_all
  have "nat (p + 1) \<le> length (st_buckets t)" using s p by simp
  from scan_used [OF this] obtain q where q: "scan (st_buckets t) (st_size t) (nat (p + 1)) = Inr q" "nat (p + 1) \<le> q"
      "q \<le> st_size t" "used_from (st_buckets t) (nat (p + 1)) = (if q < st_size t then q # used_from (st_buckets t) (q + 1) else [])"
    using s by auto
  have u: "b \<in> set (used_from (st_buckets t) x) \<Longrightarrow> x \<le> b \<and> b < length (st_buckets t) \<and> in_use (st_buckets t ! b)" for b x
    by (auto simp: used_from_def)
  show ?thesis
  proof (cases "q < st_size t")
    case True
    then have uq: "used_from (st_buckets t) (nat (p + 1)) = q # used_from (st_buckets t) (q + 1)" using q(4) by simp
    have "q < length (st_buckets t)" "in_use (st_buckets t ! q)" using u [of q "nat (p + 1)"] uq by simp_all
    moreover have "\<not> it_done t p" using q(2) True p by (auto simp: it_done_def)
    moreover have "nat (int q + 1) = q + 1" by simp
    ultimately show ?thesis using PlainIt uq q(1) True s by (simp add: it_Next_def)
  next
    case False
    then have "used_from (st_buckets t) (nat (p + 1)) = []" using q(4) by simp
    then show ?thesis using PlainIt q(1) False by (simp add: it_Next_def)
  qed
next
  case (SchedIt si)
  then have s: "- 1 \<le> si_pos si" "si_pos si < int (length (scheduled_pos si))"
      "\<forall>b \<in> set (scheduled_pos si). b < length (st_buckets t) \<and> in_use (st_buckets t ! b)"
    using assms by simp_all
  let ?n = "nat (si_pos si + 1)"
  show ?thesis
  proof (cases "?n < length (scheduled_pos si)")
    case True
    then have d: "drop ?n (scheduled_pos si) = scheduled_pos si ! ?n # drop (Suc ?n) (scheduled_pos si)"
      by (simp add: Cons_nth_drop_Suc)
    have "nat (si_pos si + 1 + 1) = Suc ?n" using s(1) by simp
    moreover have "scheduled_pos si ! ?n < length (st_buckets t) \<and> in_use (st_buckets t ! (scheduled_pos si ! ?n))"
      using s(3) True by simp
    ultimately show ?thesis using SchedIt s True d
      by (auto simp: sched_done_def sched_Next_def vec_at_def)
  next
    case False
    then have "drop ?n (scheduled_pos si) = []" "sched_done si" using s by (simp_all add: sched_done_def)
    then show ?thesis using SchedIt by simp
  qed
qed

lemma used_from_layout:
  "map (\<lambda>s. (in_use s, skey s)) bs' = map (\<lambda>s. (in_use s, skey s)) bs \<Longrightarrow> used_from bs' p = used_from bs p"
proof -
  assume m: "map (\<lambda>s. (in_use s, skey s)) bs' = map (\<lambda>s. (in_use s, skey s)) bs"
  have n: "length bs' = length bs" using arg_cong [OF m, of length] by simp
  have "in_use (bs' ! i) = in_use (bs ! i)" if "i < length bs" for i
    using arg_cong [OF m, of "\<lambda>xs. xs ! i"] that n by simp
  then show ?thesis unfolding used_from_def n by (intro filter_cong) simp_all
qed

lemma layout_nth:
  assumes "st_layout t' = st_layout t"
  shows "st_size t' = st_size t" and "length (st_buckets t') = length (st_buckets t)"
    and "b < length (st_buckets t) \<Longrightarrow> in_use (st_buckets t' ! b) = in_use (st_buckets t ! b) \<and> skey (st_buckets t' ! b) = skey (st_buckets t ! b)"
proof -
  have m: "st_size t' = st_size t" "map (\<lambda>s. (in_use s, skey s)) (st_buckets t') = map (\<lambda>s. (in_use s, skey s)) (st_buckets t)"
    using assms by (simp_all add: st_layout_def)
  show "st_size t' = st_size t" by (rule m)
  show n: "length (st_buckets t') = length (st_buckets t)" using arg_cong [OF m(2), of length] by simp
  show "in_use (st_buckets t' ! b) = in_use (st_buckets t ! b) \<and> skey (st_buckets t' ! b) = skey (st_buckets t ! b)"
    if "b < length (st_buckets t)" using arg_cong [OF m(2), of "\<lambda>xs. xs ! b"] that n by simp
qed

lemma ti_layout:
  assumes "st_layout t' = st_layout t" and "ti_ok t it"
  shows "ti_ok t' it" and "ti_rest t' it = ti_rest t it"
proof -
  note l = layout_nth [OF assms(1)]
  show "ti_ok t' it"
  proof (cases it)
    case (PlainIt p)
    then show ?thesis using assms(2) l(1,2) by simp
  next
    case (SchedIt si)
    then have "b < length (st_buckets t') \<and> in_use (st_buckets t' ! b)" if "b \<in> set (scheduled_pos si)" for b
      using assms(2) that l(2) l(3) [of b] by simp
    with SchedIt assms(2) show ?thesis by simp
  qed
  have "used_from (st_buckets t') p = used_from (st_buckets t) p" for p
    using assms(1) by (intro used_from_layout) (simp add: st_layout_def)
  then show "ti_rest t' it = ti_rest t it" by (cases it) simp_all
qed

section \<open>What a worker sees\<close>

text \<open>
  The view of a worker: the rows it owns and, per remote key, what is outstanding for it.
  \<open>view_iter\<close> is one step of phase two on the view.
\<close>

type_synonym ('k, 'v, 'd) view = "('k \<rightharpoonup> 'v \<times> 'v \<times> 'd) \<times> ('k \<Rightarrow> 'v option)"

definition view :: "('k, 'v, 'd) genv \<Rightarrow> ('k \<Rightarrow> nat) \<Rightarrow> ('k, 'v, 'd) GlobalTable \<Rightarrow> ('k, 'v, 'd) view" where
  "view e sh g = (rows sh g, outstanding e sh g)"

definition view_send :: "('v \<Rightarrow> 'v \<Rightarrow> 'v) \<Rightarrow> ('k \<Rightarrow> bool) \<Rightarrow> ('k \<times> 'v) list \<Rightarrow> ('k, 'v, 'd) view \<Rightarrow> ('k, 'v, 'd) view" where
  "view_send acc loc out w =
     (\<lambda>j. map_option (fold (add_delta acc) (deltas j out)) (fst w j),
      \<lambda>j. if loc j then snd w j else oacc acc (snd w j) (gather acc j out))"

definition view_iter :: "('k, 'v, 'd) kernel \<Rightarrow> ('k \<Rightarrow> bool) \<Rightarrow> ('k \<Rightarrow> 'd) \<Rightarrow> 'k \<Rightarrow> ('k, 'v, 'd) view \<Rightarrow> ('k, 'v, 'd) view" where
  "view_iter ker loc data k w = (case fst w k of None \<Rightarrow> w
     | Some r \<Rightarrow> let (r', out) = row_iter ker k (data k) r
         in view_send (k_accumulate ker) loc out ((fst w)(k \<mapsto> r'), snd w))"

lemma view_iter_dom [simp]:
  fixes w :: "('a, 'b, 'c) view"
  shows "dom (fst (view_iter ker loc data k w)) = dom (fst w)"
proof -
  have d: "dom (\<lambda>j. map_option (f j) (m j)) = dom m" for f :: "'a \<Rightarrow> 'b \<times> 'b \<times> 'c \<Rightarrow> 'b \<times> 'b \<times> 'c" and m
    by (rule set_eqI) (simp add: domIff del: not_None_eq)
  show ?thesis
  proof (cases "fst w k")
    case (Some r)
    then have "dom (\<lambda>j. if j = k then Some r' else fst w j) = dom (fst w)" for r' :: "'b \<times> 'b \<times> 'c"
      unfolding set_eq_iff domIff by (metis option.distinct(1))
    with Some show ?thesis by (simp add: view_iter_def view_send_def d split: prod.split)
  qed (simp add: view_iter_def)
qed

text \<open>What phase two needs of the worker's table.\<close>

definition gt_ready :: "('k, 'v, 'd) genv \<Rightarrow> ('k \<Rightarrow> nat) \<Rightarrow> ('k, 'v, 'd) GlobalTable \<Rightarrow> bool" where
  "gt_ready e sh g \<longleftrightarrow> gt_ok e g \<and> sent_ok e sh g \<and> sharded e sh \<and> marshals e"

text \<open>Links lead to rows that exist, as far as this worker can tell.\<close>

definition links_ok :: "('k, 'v, 'd) genv \<Rightarrow> ('k \<Rightarrow> nat) \<Rightarrow> ('k \<Rightarrow> 'd) \<Rightarrow> ('k, 'v, 'd) GlobalTable \<Rightarrow> bool" where
  "links_ok e sh data g \<longleftrightarrow> (\<forall>k d v. k \<in> dom (rows sh g) \<longrightarrow>
     (\<forall>p \<in> set (k_g_func (ge_kernel e) k d v (data k)). gt_local e g (sh (fst p)) \<longrightarrow> fst p \<in> dom (rows sh g)))"

lemma rows_key_local: "gt_ok e g \<Longrightarrow> sharded e sh \<Longrightarrow> k \<in> dom (rows sh g) \<Longrightarrow> gt_local e g (sh k)"
proof (rule ccontr)
  assume "gt_ok e g" "sharded e sh" "k \<in> dom (rows sh g)" "\<not> gt_local e g (sh k)"
  with gt_ok_Delta [of e g "sh k"] show False by (auto simp: sharded_def rows_def)
qed

lemma run_iter_view:
  assumes R: "gt_ready e sh g" and acc: "accumulator (k_accumulate (ge_kernel e))" and L: "links_ok e sh data g"
    and st: "gt_partitions g ! sh k = State st" and b: "at_bucket st b k"
  shows "\<exists>g'. run_iter e (int (sh k)) b k (data k) g = Inr g' \<and> gt_ready e sh g' \<and> same_frame g g' \<and>
    gt_layout g' = gt_layout g \<and> view e sh g' = view_iter (ge_kernel e) (\<lambda>j. gt_local e g (sh j)) data k (view e sh g) \<and>
    links_ok e sh data g'"
proof -
  have ok: "gt_ok e g" "sent_ok e sh g" "sharded e sh" "marshals e" using R by (simp_all add: gt_ready_def)
  have n: "sh k < ge_num_shards e" using ok(3) by (simp add: sharded_def)
  have part: "part_ok e (gt_local e g (sh k)) (sh k) (State st)" using ok(1) n st by (force simp: gt_ok_def)
  then have loc: "gt_local e g (sh k)" "st_ok (ge_hash e) st" by (simp_all add: part_ok_def)
  obtain r where r: "rows sh g k = Some r" using at_bucket_row [OF loc(2) b] st by (simp add: rows_def)
  obtain r' out where it: "row_iter (ge_kernel e) k (data k) r = (r', out)" by (cases "row_iter (ge_kernel e) k (data k) r")
  then have "\<exists>d v. out = k_g_func (ge_kernel e) k d v (data k)"
    by (auto simp: row_iter_def Let_def split: prod.splits)
  then have known: "\<forall>p \<in> set out. gt_local e g (sh (fst p)) \<longrightarrow> rows sh g (fst p) \<noteq> None"
    using L r unfolding links_ok_def by (metis domIff option.simps(3))
  from run_iter_rows [OF ok(1,3,4) acc ok(2) loc(1) st b r it known] obtain g' where
    g': "run_iter e (int (sh k)) b k (data k) g = Inr g'" "gt_ok e g'" "sent_ok e sh g'" "same_frame g g'" "gt_layout g' = gt_layout g"
    and res: "\<forall>j. rows sh g' j = map_option (fold (add_delta (k_accumulate (ge_kernel e))) (deltas j out)) (((rows sh g)(k \<mapsto> r')) j)"
      "\<forall>j. outstanding e sh g' j = (if gt_local e g (sh j) then outstanding e sh g j
      else oacc (k_accumulate (ge_kernel e)) (outstanding e sh g j) (gather (k_accumulate (ge_kernel e)) j out))" by blast
  have v: "view e sh g' = view_iter (ge_kernel e) (\<lambda>j. gt_local e g (sh j)) data k (view e sh g)"
    using res by (simp add: view_def view_iter_def r it view_send_def fun_eq_iff)
  have "dom (rows sh g') = dom (rows sh g)"
    using arg_cong [OF v, of "\<lambda>w. dom (fst w)"] by (simp add: view_def)
  then have "links_ok e sh data g'" using L same_frame_local [OF g'(4), of e] by (simp add: links_ok_def)
  with g' v ok show ?thesis by (auto simp: gt_ready_def)
qed

text \<open>The source of the neighbours: while \<open>ready\<close> holds it answers \<open>data k\<close> and keeps \<open>ready\<close>.\<close>

definition fetches :: "('k \<Rightarrow> 'v \<Rightarrow> 's \<Rightarrow> ('d \<times> 's) result) \<Rightarrow> ('s \<Rightarrow> bool) \<Rightarrow> ('k \<Rightarrow> 'd) \<Rightarrow> 'k set \<Rightarrow> bool" where
  "fetches fetch ready data ks \<longleftrightarrow> (\<forall>k \<in> ks. \<forall>p s. ready s \<longrightarrow> (\<exists>s'. fetch k p s = Inr (data k, s') \<and> ready s'))"

text \<open>The keys in the buckets that an iterator of the shard still has to visit.\<close>

definition ti_keys :: "('k, 'v, 'd) StateTable \<Rightarrow> typed_iter \<Rightarrow> 'k list" where
  "ti_keys t it = map (\<lambda>b. skey (st_buckets t ! b)) (ti_rest t it)"

definition keys_of_shard :: "('k \<Rightarrow> nat) \<Rightarrow> nat \<Rightarrow> ('k, 'v, 'd) StateTable \<Rightarrow> bool" where
  "keys_of_shard sh i t \<longleftrightarrow> (\<forall>s \<in> set (st_buckets t). in_use s \<longrightarrow> sh (skey s) = i)"

lemma keys_of_shard_layout: "st_layout t' = st_layout t \<Longrightarrow> keys_of_shard sh i t \<Longrightarrow> keys_of_shard sh i t'"
  using layout_nth [of t' t] unfolding keys_of_shard_def by (metis in_set_conv_nth)

lemma gt_layout_State:
  assumes "gt_layout g' = gt_layout g" and "i < length (gt_partitions g)" and "gt_partitions g ! i = State st"
  shows "\<exists>st'. gt_partitions g' ! i = State st' \<and> st_layout st' = st_layout st \<and> i < length (gt_partitions g')"
proof -
  have n: "length (gt_partitions g') = length (gt_partitions g)"
    using arg_cong [OF assms(1), of length] by (simp add: gt_layout_def)
  have "gt_layout g' ! i = gt_layout g ! i" using assms(1) by simp
  then show ?thesis using assms(2,3) n by (auto simp: gt_layout_def split: local_table.splits)
qed

lemma ti_keys_layout: "st_layout t' = st_layout t \<Longrightarrow> ti_ok t it \<Longrightarrow> ti_keys t' it = ti_keys t it"
proof -
  assume l: "st_layout t' = st_layout t" and ok: "ti_ok t it"
  have "b < length (st_buckets t)" if "b \<in> set (ti_rest t it)" for b
    using that ok by (cases it) (auto simp: used_from_def dest: in_set_dropD)
  then show ?thesis using ti_layout [OF l ok] layout_nth(3) [OF l] by (simp add: ti_keys_def)
qed

text \<open>
  A pass applies one step of the view per key, in the order of the iterator, and ends with a fuel that
  exceeds the number of buckets to visit.
\<close>

lemma run_pass_view:
  assumes acc: "accumulator (k_accumulate (ge_kernel e))" and F: "fetches fetch ready data (dom (rows sh g))"
    and R: "gt_ready e sh g" and L: "links_ok e sh data g" and i: "i < ge_num_shards e"
    and st: "gt_partitions g ! i = State st" and ok: "ti_ok st it" and ks: "keys_of_shard sh i st"
    and fuel: "length (ti_rest st it) < fuel" and s: "ready s"
  shows "\<exists>s' g'. run_pass fuel e (int i) fetch it s g = Inr (s', g') \<and> ready s' \<and> gt_ready e sh g' \<and> same_frame g g' \<and>
    gt_layout g' = gt_layout g \<and> links_ok e sh data g' \<and>
    view e sh g' = fold (view_iter (ge_kernel e) (\<lambda>j. gt_local e g (sh j)) data) (ti_keys st it) (view e sh g)"
  using F R L st ok ks fuel s
proof (induction fuel arbitrary: it s g st)
  case 0
  then show ?case by simp
next
  case (Suc fuel)
  have gok: "gt_ok e g" and sh: "sharded e sh" using Suc.prems(2) by (simp_all add: gt_ready_def)
  have len: "i < length (gt_partitions g)" using gok i by (simp add: gt_ok_def)
  have part: "gt_partition (int i) g = Inr st" using Suc.prems(4) len by (simp add: gt_partition_State)
  note step = ti_step [OF Suc.prems(5)]
  show ?case
  proof (cases "ti_rest st it")
    case Nil
    then have "run_pass (Suc fuel) e (int i) fetch it s g = Inr (s, g)" using step part by auto
    then show ?thesis using Suc.prems Nil by (auto simp: ti_keys_def same_frame_def)
  next
    case (Cons b bs)
    with step obtain it' where nx: "\<not> ti_done st it" "ti_Next st it = Inr (it', True)" "ti_bucket it' = Inr (int b)" "ti_ok st it'"
        "ti_rest st it' = bs" and b: "b < length (st_buckets st)" "in_use (st_buckets st ! b)" by auto
    define k where "k = skey (st_buckets st ! b)"
    have shk: "sh k = i" using Suc.prems(6) b by (simp add: keys_of_shard_def k_def)
    have at: "at_bucket st b k" using b by (simp add: at_bucket_def k_def)
    have stk: "gt_partitions g ! sh k = State st" using Suc.prems(4) shk by simp
    have bucket: "gt_bucket (int i) (int b) g = Inr (st_buckets st ! b)" using part b by (simp add: gt_bucket_def result_simps)
    have "part_ok e (gt_local e g i) i (State st)" using gok i Suc.prems(4) by (force simp: gt_ok_def)
    then have "k \<in> dom (rows sh g)" using at_bucket_row [OF _ at, of "ge_hash e"] stk by (simp add: part_ok_def rows_def domIff del: not_None_eq)
    with Suc.prems(1,8) obtain s1 where s1: "fetch k (s2 (st_buckets st ! b)) s = Inr (data k, s1)" "ready s1"
      unfolding fetches_def by blast
    from run_iter_view [OF Suc.prems(2) acc Suc.prems(3) stk at] obtain g1 where
      g1: "run_iter e (int i) b k (data k) g = Inr g1" "gt_ready e sh g1" "same_frame g g1" "gt_layout g1 = gt_layout g"
        "view e sh g1 = view_iter (ge_kernel e) (\<lambda>j. gt_local e g (sh j)) data k (view e sh g)" "links_ok e sh data g1"
      unfolding shk by blast
    obtain st1 where st1: "gt_partitions g1 ! i = State st1" "st_layout st1 = st_layout st"
      using gt_layout_State [OF g1(4) len Suc.prems(4)] by blast
    have dom1: "dom (rows sh g1) = dom (rows sh g)"
      using arg_cong [OF g1(5), of "\<lambda>w. dom (fst w)"] by (simp add: view_def)
    have F1: "fetches fetch ready data (dom (rows sh g1))" using Suc.prems(1) by (simp add: dom1)
    have rest1: "length (ti_rest st1 it') < fuel" using ti_layout(2) [OF st1(2) nx(4)] nx(5) Suc.prems(7) Cons by simp
    from Suc.IH [OF F1 g1(2,6) st1(1) ti_layout(1) [OF st1(2) nx(4)] keys_of_shard_layout [OF st1(2) Suc.prems(6)] rest1 s1(2)]
    obtain s' g' where g': "run_pass fuel e (int i) fetch it' s1 g1 = Inr (s', g')" "ready s'" "gt_ready e sh g'" "same_frame g1 g'"
        "gt_layout g' = gt_layout g1" "links_ok e sh data g'"
        "view e sh g' = fold (view_iter (ge_kernel e) (\<lambda>j. gt_local e g1 (sh j)) data) (ti_keys st1 it') (view e sh g1)"
      by blast
    have "ti_keys st it = k # ti_keys st1 it'"
      using ti_keys_layout [OF st1(2) nx(4)] Cons nx(5) by (simp add: ti_keys_def k_def)
    moreover have "run_pass (Suc fuel) e (int i) fetch it s g = Inr (s', g')"
      using part nx bucket s1(1) g1(1) g'(1) by (simp add: k_def)
    moreover have "same_frame g g'" using g1(3) g'(4) by (simp add: same_frame_def)
    ultimately show ?thesis
      using g' g1 same_frame_local [OF g1(3), of e] by (intro exI [of _ s'] exI [of _ g']) simp
  qed
qed

end
