(* ===== verification/Convergence.thy ===== *)
theory Convergence
  imports Engine
begin

text \<open>
  What phase two computes. Passes of \<open>run_iter\<close> over a worker's table, by whole-table or scheduled
  iterators and in any number, are followed on the view of the worker. For linear kernels (the locale
  \<open>linear_kernel\<close>, PageRank and Katz) an equation between value, pending change and outstanding updates is
  kept; for shortest paths the values are walk lengths that reach the distances.
\<close>

section \<open>Sequences of passes\<close>

text \<open>Pass after pass, with whatever iterators the table hands out.\<close>

definition run_passes :: "nat \<Rightarrow> ('k, 'v::zero, 'd) genv \<Rightarrow> int \<Rightarrow> ('k \<Rightarrow> 'v \<Rightarrow> 's \<Rightarrow> ('d \<times> 's) result) \<Rightarrow> typed_iter list \<Rightarrow>
    's \<times> ('k, 'v, 'd) GlobalTable \<Rightarrow> ('s \<times> ('k, 'v, 'd) GlobalTable) result" where
  "run_passes fuel e shard fetch = rfold (\<lambda>it sg. run_pass fuel e shard fetch it (fst sg) (snd sg))"

lemma view_fold_dom: "dom (fst (fold (view_iter ker loc data) ks w)) = dom (fst w)"
  by (induction ks arbitrary: w) simp_all

lemma run_passes_view:
  assumes acc: "accumulator (k_accumulate (ge_kernel e))" and i: "i < ge_num_shards e"
    and "fetches fetch ready data (dom (rows sh g))" and "gt_ready e sh g" and "links_ok e sh data g"
    and "gt_partitions g ! i = State st" and "keys_of_shard sh i st"
    and "\<forall>it \<in> set its. ti_ok st it \<and> length (ti_rest st it) < fuel" and "ready s"
  shows "\<exists>s' g'. run_passes fuel e (int i) fetch its (s, g) = Inr (s', g') \<and> gt_ready e sh g' \<and> same_frame g g' \<and>
    view e sh g' = fold (view_iter (ge_kernel e) (\<lambda>j. gt_local e g (sh j)) data) (concat (map (ti_keys st) its)) (view e sh g) \<and>
    gt_layout g' = gt_layout g"
  using assms(3-)
proof (induction its arbitrary: s g st)
  case Nil
  then show ?case by (simp add: run_passes_def same_frame_def)
next
  case (Cons it its)
  have it: "ti_ok st it" "length (ti_rest st it) < fuel" using Cons.prems(6) by simp_all
  from run_pass_view [OF acc Cons.prems(1-3) i Cons.prems(4) it(1) Cons.prems(5) it(2) Cons.prems(7)] obtain s1 g1 where
    g1: "run_pass fuel e (int i) fetch it s g = Inr (s1, g1)" "ready s1" "gt_ready e sh g1" "same_frame g g1"
      "gt_layout g1 = gt_layout g" "links_ok e sh data g1"
      "view e sh g1 = fold (view_iter (ge_kernel e) (\<lambda>j. gt_local e g (sh j)) data) (ti_keys st it) (view e sh g)" by blast
  have len: "i < length (gt_partitions g)" using Cons.prems(2) i by (simp add: gt_ready_def gt_ok_def)
  obtain st1 where st1: "gt_partitions g1 ! i = State st1" "st_layout st1 = st_layout st"
    using gt_layout_State [OF g1(5) len Cons.prems(4)] by blast
  have dom1: "dom (rows sh g1) = dom (rows sh g)"
    using arg_cong [OF g1(7), of "\<lambda>w. dom (fst w)"] by (simp add: view_def view_fold_dom)
  have F1: "fetches fetch ready data (dom (rows sh g1))" using Cons.prems(1) by (simp add: dom1)
  have its1: "\<forall>it \<in> set its. ti_ok st1 it \<and> length (ti_rest st1 it) < fuel"
    using Cons.prems(6) ti_layout [OF st1(2)] by simp
  from Cons.IH [OF F1 g1(3,6) st1(1) keys_of_shard_layout [OF st1(2) Cons.prems(5)] its1 g1(2)] obtain s' g' where
    g': "run_passes fuel e (int i) fetch its (s1, g1) = Inr (s', g')" "gt_ready e sh g'" "same_frame g1 g'"
      "view e sh g' = fold (view_iter (ge_kernel e) (\<lambda>j. gt_local e g1 (sh j)) data) (concat (map (ti_keys st1) its)) (view e sh g1)"
      "gt_layout g' = gt_layout g1"
    by blast
  have keys: "map (ti_keys st1) its = map (ti_keys st) its"
    using Cons.prems(6) ti_keys_layout [OF st1(2)] by simp
  show ?case
    using g1(1,4,5,7) g'(1,2,3,5) g'(4) [unfolded keys] same_frame_local [OF g1(4), of e]
    by (intro exI [of _ s'] exI [of _ g']) (simp add: run_passes_def same_frame_def)
qed

section \<open>Linear kernels\<close>

text \<open>
  PageRank, Katz and adsorption send a fixed multiple of a change along every link. For such kernels value, pending
  change and what is outstanding are tied together by the linear system that the computation solves. \<open>out\<close> lists the
  links of a node with their factors; \<open>weight_to\<close> adds up those of the links to one node.
\<close>

definition oval :: "rat option \<Rightarrow> rat" where
  "oval x = (case x of None \<Rightarrow> 0 | Some v \<Rightarrow> v)"

definition row_total :: "(rat \<times> rat \<times> 'd) option \<Rightarrow> rat" where
  "row_total r = (case r of None \<Rightarrow> 0 | Some (d, v, _) \<Rightarrow> v + d)"

definition row_value :: "(rat \<times> rat \<times> 'd) option \<Rightarrow> rat" where
  "row_value r = (case r of None \<Rightarrow> 0 | Some (_, v, _) \<Rightarrow> v)"

text \<open>What node \<open>j\<close> holds or is owed, minus what the values of the rows pass on to it.\<close>

definition weight_to :: "('k \<times> rat) list \<Rightarrow> 'k \<Rightarrow> rat" where
  "weight_to ps j = sum_list (deltas j ps)"

definition residual :: "('d \<Rightarrow> ('k \<times> rat) list) \<Rightarrow> ('k \<Rightarrow> 'd) \<Rightarrow> 'k \<Rightarrow> ('k, rat, 'd) view \<Rightarrow> rat" where
  "residual out data j w = row_total (fst w j) + oval (snd w j) -
     (\<Sum>i \<in> dom (fst w). weight_to (out (data i)) j * row_value (fst w i))"

locale linear_kernel =
  fixes ker :: "('k, rat, 'd) kernel" and out :: "'d \<Rightarrow> ('k \<times> rat) list"
  assumes acc_plus: "k_accumulate ker = (+)" and default_zero: "k_default_v ker = 0"
    and process_id: "k_process_delta_v ker k d v data = (d, v)"
    and g_linear: "k_g_func ker k d v data = map (\<lambda>p. (fst p, snd p * d)) (out data)"
begin

lemma acc_ok: "accumulator (k_accumulate ker)"
  by unfold_locales (simp add: acc_plus)

lemma fold_add: "fold (add_delta (+)) vs (a, b, c) = (a + sum_list vs, b, c)" for a :: rat
  by (induction vs arbitrary: a) (simp_all add: add_delta_def add.assoc)

lemma deltas_links: "sum_list (deltas j (map (\<lambda>p. (fst p, snd p * x)) ps)) = weight_to ps j * x" for x :: rat
  by (induction ps) (simp_all add: weight_to_def distrib_right)

lemma weight_to_0: "j \<notin> fst ` set ps \<Longrightarrow> weight_to ps j = 0"
  by (induction ps) (auto simp: weight_to_def)

lemma oval_gather: "oval (oacc (+) a (gather (+) j ps)) = oval a + sum_list (deltas j ps)" for a :: "rat option"
proof -
  have "oval (gather (+) j ps) = sum_list (deltas j ps)"
  proof (induction ps)
    case (Cons p ps)
    have "gather (+) j (p # ps) = oacc (+) (if fst p = j then Some (snd p) else None) (gather (+) j ps)"
      by (rule accumulator.gather_Cons) (unfold_locales, simp)
    with Cons show ?case by (cases "gather (+) j ps") (auto simp: oval_def)
  qed (simp add: gather_def oval_def)
  then show ?thesis by (cases a; cases "gather (+) j ps") (auto simp: oval_def)
qed

text \<open>One step leaves the residual of every node as it is.\<close>

lemma residual_step:
  assumes loc: "\<forall>j \<in> dom (fst w). loc j" and j: "loc j \<Longrightarrow> j \<in> fst ` set (out (data k)) \<Longrightarrow> j \<in> dom (fst w)"
    and fin: "finite (dom (fst w))"
  shows "residual out data j (view_iter ker loc data k w) = residual out data j w"
proof (cases "fst w k")
  case None
  then show ?thesis by (simp add: view_iter_def)
next
  case (Some r)
  obtain d v x where r: "r = (d, v, x)" by (cases r)
  let ?out = "map (\<lambda>p. (fst p, snd p * d)) (out (data k))"
  let ?m = "(fst w)(k \<mapsto> (0, v + d, x))"
  let ?w = "view_iter ker loc data k w"
  have w': "?w = view_send (+) loc ?out (?m, snd w)"
    using Some by (simp add: view_iter_def r row_iter_def process_id acc_plus default_zero g_linear Let_def)
  have row: "fst ?w i = map_option (\<lambda>(a, b, c). (a + sum_list (deltas i ?out), b, c)) (?m i)" for i
    unfolding w' view_send_def fst_conv by (intro arg_cong2 [where f = map_option]) (auto simp: fold_add)
  have val: "row_value (fst ?w i) = (if i = k then v + d else row_value (fst w i))" for i
    by (simp add: row row_value_def split: option.split prod.split)
  let ?c = "weight_to (out (data k)) j * d"
  have tot: "row_total (fst ?w j) + oval (snd ?w j) = row_total (fst w j) + oval (snd w j) + ?c"
  proof (cases "j \<in> dom (fst w)")
    case True
    then have "snd ?w j = snd w j" using loc by (simp add: w' view_send_def)
    moreover have "row_total (fst ?w j) = row_total (fst w j) + sum_list (deltas j ?out)"
      using True Some r by (auto simp: row row_total_def split: option.splits if_splits)
    ultimately show ?thesis by (simp only: deltas_links add_ac)
  next
    case False
    then have "fst w j = None" by (simp add: domIff del: not_None_eq)
    then have "row_total (fst ?w j) = row_total (fst w j)"
      using Some by (cases "j = k") (simp_all add: row row_total_def)
    moreover have "oval (snd ?w j) = oval (snd w j) + ?c"
    proof (cases "loc j")
      case True
      then have "j \<notin> fst ` set (out (data k))" using False j by metis
      then have "weight_to (out (data k)) j = 0" by (rule weight_to_0)
      with True show ?thesis by (simp add: w' view_send_def)
    next
      case False
      then show ?thesis by (simp add: w' view_send_def oval_gather deltas_links)
    qed
    ultimately show ?thesis by simp
  qed
  let ?f = "\<lambda>i. weight_to (out (data i)) j"
  have k: "k \<in> dom (fst w)" using Some by auto
  have "(\<Sum>i \<in> dom (fst w). ?f i * row_value (fst ?w i)) =
      ?f k * (v + d) + (\<Sum>i \<in> dom (fst w) - {k}. ?f i * row_value (fst w i))"
    using fin k by (simp add: sum.remove [of _ k] val)
  moreover have "(\<Sum>i \<in> dom (fst w). ?f i * row_value (fst w i)) =
      ?f k * v + (\<Sum>i \<in> dom (fst w) - {k}. ?f i * row_value (fst w i))"
    using fin k Some r by (simp add: sum.remove [of _ k] row_value_def)
  ultimately show ?thesis using tot by (simp add: residual_def algebra_simps)
qed

lemma residual_fold:
  assumes "\<forall>j \<in> dom (fst w). loc j" and "\<forall>k \<in> set ks. loc j \<longrightarrow> j \<in> fst ` set (out (data k)) \<longrightarrow> j \<in> dom (fst w)"
    and "finite (dom (fst w))"
  shows "residual out data j (fold (view_iter ker loc data) ks w) = residual out data j w"
  using assms
proof (induction ks arbitrary: w)
  case (Cons k ks)
  let ?w = "view_iter ker loc data k w"
  have p1: "\<forall>j \<in> dom (fst ?w). loc j" unfolding view_iter_dom by (rule Cons.prems(1))
  have p2: "\<forall>k \<in> set ks. loc j \<longrightarrow> j \<in> fst ` set (out (data k)) \<longrightarrow> j \<in> dom (fst ?w)"
    unfolding view_iter_dom using Cons.prems(2) by (meson list.set_intros(2))
  have p3: "finite (dom (fst ?w))" unfolding view_iter_dom by (rule Cons.prems(3))
  have p4: "loc j \<Longrightarrow> j \<in> fst ` set (out (data k)) \<Longrightarrow> j \<in> dom (fst w)"
    using Cons.prems(2) by (meson list.set_intros(1))
  have "residual out data j (fold (view_iter ker loc data) (k # ks) w) = residual out data j ?w"
    using Cons.IH [OF p1 p2 p3] by simp
  also have "\<dots> = residual out data j w"
    by (rule residual_step [OF Cons.prems(1) p4 Cons.prems(3)])
  finally show ?case .
qed simp

end

lemma view_fold_local: "loc j \<Longrightarrow> snd (fold (view_iter ker loc data) ks w) j = snd w j"
proof (induction ks arbitrary: w)
  case (Cons k ks)
  have "snd (view_iter ker loc data k w) j = snd w j"
    using Cons.prems by (simp add: view_iter_def view_send_def split: option.split prod.split)
  then show ?case using Cons.IH [OF Cons.prems, of "view_iter ker loc data k w"] by simp
qed simp

lemma finite_rows: "sharded e sh \<Longrightarrow> finite (dom (rows sh g))"
proof -
  let ?d = "\<lambda>i. case gt_partitions g ! i of Delta _ \<Rightarrow> {} | State st \<Rightarrow> dom (st_rows st)"
  assume sh: "sharded e sh"
  have "k \<in> ?d (sh k)" if "k \<in> dom (rows sh g)" for k
    using that by (cases "gt_partitions g ! sh k") (simp_all add: rows_def domIff)
  moreover have "sh k < ge_num_shards e" for k using sh by (simp add: sharded_def)
  ultimately have "dom (rows sh g) \<subseteq> (\<Union>i < ge_num_shards e. ?d i)" by blast
  moreover have "finite (\<Union>i < ge_num_shards e. ?d i)" by (auto simp: finite_st_rows split: local_table.split)
  ultimately show ?thesis by (rule finite_subset)
qed

text \<open>The start of phase two on a worker: nothing is outstanding, every row has value 0.\<close>

definition fresh_rows :: "('k, rat, 'd) genv \<Rightarrow> ('k \<Rightarrow> nat) \<Rightarrow> ('k \<Rightarrow> rat) \<Rightarrow> ('k, rat, 'd) GlobalTable \<Rightarrow> bool" where
  "fresh_rows e sh c g \<longleftrightarrow> (\<forall>k r. rows sh g k = Some r \<longrightarrow> fst r = c k \<and> fst (snd r) = 0) \<and> (\<forall>k. outstanding e sh g k = None)"

text \<open>What the values of the worker's rows pass on to node \<open>j\<close>.\<close>

definition inflow :: "('d \<Rightarrow> ('k \<times> rat) list) \<Rightarrow> ('k \<Rightarrow> 'd) \<Rightarrow> ('k \<rightharpoonup> rat \<times> rat \<times> 'd) \<Rightarrow> 'k \<Rightarrow> rat" where
  "inflow out data m j = (\<Sum>i \<in> dom m. weight_to (out (data i)) j * row_value (m i))"

context linear_kernel
begin

lemma passes_solve:
  assumes K: "ge_kernel e = ker" and R: "gt_ready e sh g" and L: "links_ok e sh data g" and fresh: "fresh_rows e sh c g"
    and i: "i < ge_num_shards e" and st: "gt_partitions g ! i = State st" and ks: "keys_of_shard sh i st"
    and its: "\<forall>it \<in> set its. ti_ok st it \<and> length (ti_rest st it) < fuel"
    and F: "fetches fetch ready data (dom (rows sh g))" and s: "ready s"
  shows "\<exists>s' g'. run_passes fuel e (int i) fetch its (s, g) = Inr (s', g') \<and>
    (\<forall>k. case rows sh g' k of Some (d, v, x) \<Rightarrow> v + d = c k + inflow out data (rows sh g') k
      | None \<Rightarrow> \<not> gt_local e g (sh k) \<longrightarrow> oval (outstanding e sh g' k) = inflow out data (rows sh g') k)"
proof -
  have acc: "accumulator (k_accumulate (ge_kernel e))" unfolding K by (rule acc_ok)
  from run_passes_view [OF acc i F R L st ks its s] obtain s' g' where
    g': "run_passes fuel e (int i) fetch its (s, g) = Inr (s', g')"
    and v: "view e sh g' = fold (view_iter ker (\<lambda>j. gt_local e g (sh j)) data) (concat (map (ti_keys st) its)) (view e sh g)"
    unfolding K by blast
  have sh: "sharded e sh" and gok: "gt_ok e g" using R by (simp_all add: gt_ready_def)
  have n: "sh k < ge_num_shards e" for k using sh by (simp add: sharded_def)
  let ?ks = "concat (map (ti_keys st) its)" and ?loc = "\<lambda>j. gt_local e g (sh j)"
  have dom: "dom (rows sh g') = dom (rows sh g)"
    using arg_cong [OF v, of "\<lambda>w. dom (fst w)"] unfolding view_fold_dom by (simp add: view_def)
  have loc: "\<forall>j \<in> dom (fst (view e sh g)). ?loc j" using rows_key_local [OF gok sh] by (simp add: view_def)
  have sto: "st_ok (ge_hash e) st" using gok i st by (force simp: gt_ok_def part_ok_def)
  have visited: "k \<in> dom (rows sh g)" if m: "k \<in> set ?ks" for k
  proof -
    obtain it b where b: "it \<in> set its" "b \<in> set (ti_rest st it)" "k = skey (st_buckets st ! b)"
      using m by (auto simp: ti_keys_def)
    have "ti_ok st it" using its b(1) by blast
    then have "b < length (st_buckets st) \<and> in_use (st_buckets st ! b)"
      using b(2) by (cases it) (auto simp: used_from_def dest: in_set_dropD)
    then have "at_bucket st b k" "sh k = i" using b(3) ks by (auto simp: at_bucket_def keys_of_shard_def)
    then show ?thesis using at_bucket_row [OF sto] st by (simp add: rows_def domIff del: not_None_eq)
  qed
  have lk: "\<forall>k \<in> set ?ks. ?loc j \<longrightarrow> j \<in> fst ` set (out (data k)) \<longrightarrow> j \<in> dom (fst (view e sh g))" for j
  proof (intro ballI impI)
    fix k assume k: "k \<in> set ?ks" "?loc j" "j \<in> fst ` set (out (data k))"
    then obtain p where "p \<in> set (out (data k))" "fst p = j" by auto
    then have "(j, snd p * 0) \<in> set (k_g_func (ge_kernel e) k 0 0 (data k))" unfolding K g_linear by force
    then show "j \<in> dom (fst (view e sh g))"
      using L visited [OF k(1)] k(2) unfolding links_ok_def view_def by (metis fst_conv)
  qed
  have fin: "finite (dom (fst (view e sh g)))" using finite_rows [OF sh] by (simp add: view_def)
  have res: "residual out data j (view e sh g') = residual out data j (view e sh g)" for j
    unfolding v by (rule residual_fold [OF loc lk fin])
  have "row_value (rows sh g i) = 0" for i using fresh by (cases "rows sh g i") (auto simp: fresh_rows_def row_value_def)
  then have r0: "residual out data j (view e sh g) = row_total (rows sh g j)" for j
    using fresh by (simp add: residual_def view_def fresh_rows_def oval_def)
  have eq: "row_total (rows sh g' j) + oval (outstanding e sh g' j) = row_total (rows sh g j) + inflow out data (rows sh g') j" for j
    using res [of j] unfolding r0 by (simp add: residual_def view_def inflow_def)
  have none: "outstanding e sh g' j = None" if "?loc j" for j
    using arg_cong [OF v, of "\<lambda>w. snd w j"] that fresh by (simp add: view_fold_local) (simp add: view_def fresh_rows_def)
  have "case rows sh g' k of Some (d, v, x) \<Rightarrow> v + d = c k + inflow out data (rows sh g') k
      | None \<Rightarrow> \<not> ?loc k \<longrightarrow> oval (outstanding e sh g' k) = inflow out data (rows sh g') k" for k
  proof (cases "rows sh g' k")
    case None
    then have "rows sh g k = None" using dom by (metis domIff)
    then show ?thesis using eq [of k] None by (simp add: row_total_def)
  next
    case (Some r)
    then have "k \<in> dom (rows sh g)" using dom by (metis domIff option.distinct(1))
    then obtain r0 where r0: "rows sh g k = Some r0" by blast
    have "oval (outstanding e sh g' k) = 0"
      using none [of k] rows_key_local [OF gok sh] \<open>k \<in> dom (rows sh g)\<close> by (simp add: oval_def)
    moreover have "row_total (rows sh g k) = c k" using fresh r0 by (cases r0) (auto simp: fresh_rows_def row_total_def)
    ultimately show ?thesis using eq [of k] Some by (cases r) (simp add: row_total_def)
  qed
  with g' show ?thesis by blast
qed

end

definition pagerank_shares :: "int list \<Rightarrow> (int \<times> rat) list" where
  "pagerank_shares data = map (\<lambda>t. (t, (4 / 5) / of_nat (length data))) data"

definition katz_shares :: "rat \<Rightarrow> int list \<Rightarrow> (int \<times> rat) list" where
  "katz_shares beta data = map (\<lambda>t. (t, beta)) data"

definition adsorption_shares :: "rat \<Rightarrow> Link list \<Rightarrow> (int \<times> rat) list" where
  "adsorption_shares damping data = map (\<lambda>t. (link_end t, damping * link_weight t)) data"

interpretation pagerank_lin: linear_kernel pagerank_kernel pagerank_shares
  by unfold_locales (simp_all add: pagerank_kernel_def pagerank_g_func_def pagerank_shares_def Let_def fun_eq_iff)

interpretation katz_lin: linear_kernel "katz_kernel source beta" "katz_shares beta" for source beta
  by unfold_locales (simp_all add: katz_kernel_def katz_g_func_def katz_shares_def fun_eq_iff)

interpretation adsorption_lin: linear_kernel "adsorption_kernel starts damping" "adsorption_shares damping" for starts damping
  by unfold_locales (simp_all add: adsorption_kernel_def adsorption_g_func_def adsorption_shares_def fun_eq_iff)

lemma getData_fetches:
  "fetches (getData cap) (\<lambda>s. store_ok cap s \<and> answer s = answer s0) data {k. answer s0 k = Inr (data k)}"
  unfolding fetches_def
proof (intro ballI allI impI)
  fix k p s
  assume k: "k \<in> {k. answer s0 k = Inr (data k)}" and s: "store_ok cap s \<and> answer s = answer s0"
  then have a: "answer s k = Inr (data k)" by simp
  from getData_answer [of cap s k p] s show "\<exists>s'. getData cap k p s = Inr (data k, s') \<and> store_ok cap s' \<and> answer s' = answer s0"
    unfolding a by auto
qed



section \<open>Shortest paths\<close>

text \<open>\<open>walk data s k n l\<close>: a walk of \<open>n\<close> links from \<open>s\<close> to \<open>k\<close> with total weight \<open>l\<close>.\<close>

inductive walk :: "(int \<Rightarrow> Link list) \<Rightarrow> int \<Rightarrow> int \<Rightarrow> nat \<Rightarrow> rat \<Rightarrow> bool" for data s where
  walk_nil: "walk data s s 0 0"
| walk_step: "walk data s k n l \<Longrightarrow> t \<in> set (data k) \<Longrightarrow> walk data s (link_end t) (Suc n) (l + link_weight t)"

inductive_cases walk_0E: "walk data s k 0 l"
inductive_cases walk_SucE: "walk data s k (Suc n) l"

type_synonym sp_rows = "int \<rightharpoonup> rat \<times> rat \<times> Link list"

definition sp_step :: "(int \<Rightarrow> Link list) \<Rightarrow> int \<Rightarrow> sp_rows \<Rightarrow> sp_rows" where
  "sp_step data k m = (case m k of None \<Rightarrow> m
     | Some (d, v, x) \<Rightarrow> \<lambda>j. map_option (fold (add_delta min) (deltas j (map (\<lambda>t. (link_end t, d + link_weight t)) (data k))))
         ((m(k \<mapsto> (float_max, min v d, x))) j))"

lemma sp_step_view: "fst (view_iter (shortestpath_kernel s) loc data k w) = sp_step data k (fst w)"
  by (cases "fst w k") (auto simp: view_iter_def sp_step_def row_iter_def shortestpath_kernel_def sp_g_func_def view_send_def Let_def)

lemma sp_fold_view: "fst (fold (view_iter (shortestpath_kernel s) loc data) ks w) = fold (sp_step data) ks (fst w)"
  by (induction ks arbitrary: w) (simp_all add: sp_step_view)

lemma fold_min:
  fixes a :: rat
  obtains a' where "fold (add_delta min) vs (a, b, c) = (a', b, c)" and "a' \<le> a" and "\<forall>v \<in> set vs. a' \<le> v" and "a' = a \<or> a' \<in> set vs"
proof -
  have "\<exists>a'. fold (add_delta min) vs (a, b, c) = (a', b, c) \<and> a' \<le> a \<and> (\<forall>v \<in> set vs. a' \<le> v) \<and> (a' = a \<or> a' \<in> set vs)"
  proof (induction vs arbitrary: a)
    case (Cons v vs)
    from Cons [of "min a v"] obtain a' where "fold (add_delta min) vs (min a v, b, c) = (a', b, c)" "a' \<le> min a v"
      "\<forall>u \<in> set vs. a' \<le> u" "a' = min a v \<or> a' \<in> set vs" by blast
    moreover have "add_delta min v (a, b, c) = (min a v, b, c)" by (simp add: add_delta_def)
    ultimately show ?case
      by (cases "a \<le> v"; intro exI [of _ a']) (auto simp: min_absorb1 min_absorb2)
  qed simp
  with that show thesis by blast
qed

lemma set_deltas: "v \<in> set (deltas j (map (\<lambda>t. (link_end t, d + link_weight t)) ts)) \<longleftrightarrow>
    (\<exists>t \<in> set ts. link_end t = j \<and> v = d + link_weight t)"
  by (induction ts) auto

text \<open>The effect of a step on one row.\<close>

lemma sp_step_row:
  assumes k: "m k = Some (d, v, x)" and j: "m j = Some (dj, vj, xj)"
  obtains dj' where "sp_step data k m j = Some (dj', if j = k then min v d else vj, xj)"
    and "dj' \<le> (if j = k then float_max else dj)"
    and "\<forall>t \<in> set (data k). link_end t = j \<longrightarrow> dj' \<le> d + link_weight t"
    and "dj' = (if j = k then float_max else dj) \<or> (\<exists>t \<in> set (data k). link_end t = j \<and> dj' = d + link_weight t)"
proof -
  let ?vs = "deltas j (map (\<lambda>t. (link_end t, d + link_weight t)) (data k))"
  let ?a = "if j = k then float_max else dj" and ?b = "if j = k then min v d else vj"
  obtain a' where a': "fold (add_delta min) ?vs (?a, ?b, xj) = (a', ?b, xj)" "a' \<le> ?a" "\<forall>u \<in> set ?vs. a' \<le> u" "a' = ?a \<or> a' \<in> set ?vs"
    by (rule fold_min)
  have "(m(k \<mapsto> (float_max, min v d, x))) j = Some (?a, ?b, xj)" using k j by auto
  then have "sp_step data k m j = Some (a', ?b, xj)" using k a'(1) by (simp add: sp_step_def)
  moreover have "\<forall>t \<in> set (data k). link_end t = j \<longrightarrow> a' \<le> d + link_weight t"
    using a'(3) set_deltas by blast
  moreover have "a' = ?a \<or> (\<exists>t \<in> set (data k). link_end t = j \<and> a' = d + link_weight t)"
    using a'(4) by (simp only: set_deltas)
  ultimately show thesis using a'(2) that by blast
qed

lemma sp_step_dom: "dom (sp_step data k m) = dom m"
  using view_iter_dom [of "shortestpath_kernel s" loc data k "(m, u)" for s loc u] by (simp add: sp_step_view)

lemma sp_step_None: "m k = None \<Longrightarrow> sp_step data k m = m"
  by (simp add: sp_step_def)

text \<open>
  The invariant: finite values are lengths of walks (sound), and along every link the target already
  knows, in its value or its pending change, what the source's value gives it (complete).
\<close>

definition sp_inv :: "(int \<Rightarrow> Link list) \<Rightarrow> int \<Rightarrow> sp_rows \<Rightarrow> bool" where
  "sp_inv data s m \<longleftrightarrow>
     (\<forall>k d v x. m k = Some (d, v, x) \<longrightarrow> v \<le> float_max \<and> (v < float_max \<longrightarrow> (\<exists>n. walk data s k n v)) \<and>
        (d < float_max \<longrightarrow> (\<exists>n. walk data s k n d)) \<and> (k = s \<longrightarrow> min v d \<le> 0) \<and>
        (\<forall>t \<in> set (data k). 0 \<le> link_weight t \<and> (\<exists>dj vj xj. m (link_end t) = Some (dj, vj, xj) \<and> min vj dj \<le> v + link_weight t)))"

lemma sp_inv_step:
  assumes I: "sp_inv data s m"
  shows "sp_inv data s (sp_step data i m)"
proof (cases "m i")
  case None
  with I show ?thesis by (simp add: sp_step_None)
next
  case (Some r)
  obtain d v x where i: "m i = Some (d, v, x)" using Some by (cases r) auto
  show ?thesis unfolding sp_inv_def
  proof (intro allI impI)
    fix k dk' vk' xk assume k': "sp_step data i m k = Some (dk', vk', xk)"
    then have "k \<in> dom m" using sp_step_dom [of data i m] by (metis domIff option.distinct(1))
    then obtain dk vk xk0 where k: "m k = Some (dk, vk, xk0)" by auto
    obtain e where e: "sp_step data i m k = Some (e, if k = i then min v d else vk, xk0)" "e \<le> (if k = i then float_max else dk)"
      "\<forall>t \<in> set (data i). link_end t = k \<longrightarrow> e \<le> d + link_weight t"
      "e = (if k = i then float_max else dk) \<or> (\<exists>t \<in> set (data i). link_end t = k \<and> e = d + link_weight t)"
      using sp_step_row [where data = data, OF i k] .
    have vk': "vk' = (if k = i then min v d else vk)" and dk': "dk' = e" using e(1) k' by simp_all
    note Ii = I [unfolded sp_inv_def, rule_format, OF i] and Ik = I [unfolded sp_inv_def, rule_format, OF k]
    have le: "vk' \<le> vk" using vk' i k by auto
    have "vk' \<le> float_max" using le Ik by simp
    moreover have "\<exists>n. walk data s k n vk'" if "vk' < float_max"
      using that vk' Ii Ik i k by (cases "k = i") (auto simp: min_def split: if_splits)
    moreover have "\<exists>n. walk data s k n dk'" if less: "dk' < float_max"
    proof (cases "dk' = (if k = i then float_max else dk)")
      case True
      with less Ik show ?thesis by (auto split: if_splits)
    next
      case False
      then obtain t where t: "t \<in> set (data i)" "link_end t = k" "dk' = d + link_weight t" using e(4) dk' by auto
      have "0 \<le> link_weight t" using Ii t(1) by blast
      then have "d < float_max" using less t(3) by simp
      then obtain n where "walk data s i n d" using Ii by blast
      from walk_step [OF this t(1)] t show ?thesis by auto
    qed
    moreover have "min vk' dk' \<le> 0" if "k = s"
      using that Ik vk' dk' e(2) i k by (auto simp: min_def split: if_splits)
    moreover have "0 \<le> link_weight t \<and> (\<exists>dj vj xj. sp_step data i m (link_end t) = Some (dj, vj, xj) \<and> min vj dj \<le> vk' + link_weight t)"
      if t: "t \<in> set (data k)" for t
    proof -
      obtain dj vj xj where j: "m (link_end t) = Some (dj, vj, xj)" "min vj dj \<le> vk + link_weight t" and w: "0 \<le> link_weight t"
        using Ik t by blast
      obtain f where f: "sp_step data i m (link_end t) = Some (f, if link_end t = i then min v d else vj, xj)"
        "f \<le> (if link_end t = i then float_max else dj)"
        "\<forall>u \<in> set (data i). link_end u = link_end t \<longrightarrow> f \<le> d + link_weight u"
        using sp_step_row [where data = data, OF i j(1)] by blast
      have "min (if link_end t = i then min v d else vj) f \<le> vk' + link_weight t"
      proof (cases "k = i \<and> d \<le> v")
        case True
        then have "vk' = d" "f \<le> d + link_weight t" using vk' f(3) t by simp_all
        then show ?thesis by (simp add: min.coboundedI2)
      next
        case False
        then have "vk' = vk" using vk' i k by auto
        then show ?thesis using j f(2) i by (cases "link_end t = i") (auto simp: min_def split: if_splits)
      qed
      with f(1) w show ?thesis by blast
    qed
    ultimately show "vk' \<le> float_max \<and> (vk' < float_max \<longrightarrow> (\<exists>n. walk data s k n vk')) \<and>
        (dk' < float_max \<longrightarrow> (\<exists>n. walk data s k n dk')) \<and> (k = s \<longrightarrow> min vk' dk' \<le> 0) \<and>
        (\<forall>t \<in> set (data k). 0 \<le> link_weight t \<and>
          (\<exists>dj vj xj. sp_step data i m (link_end t) = Some (dj, vj, xj) \<and> min vj dj \<le> vk' + link_weight t))"
      by blast
  qed
qed

lemma sp_inv_fold: "sp_inv data s m \<Longrightarrow> sp_inv data s (fold (sp_step data) ks m)"
  by (induction ks arbitrary: m) (simp_all add: sp_inv_step)

text \<open>Along a sequence of steps a row only improves, and a visited row absorbs its pending change.\<close>

lemma sp_step_improves:
  assumes "m j = Some (dj, vj, xj)"
  shows "\<exists>d' v'. sp_step data i m j = Some (d', v', xj) \<and> min v' d' \<le> min vj dj \<and> v' \<le> vj \<and> (j = i \<longrightarrow> v' \<le> min vj dj)"
proof (cases "m i")
  case None
  with assms show ?thesis by (auto simp: sp_step_None)
next
  case (Some r)
  obtain d v x where i: "m i = Some (d, v, x)" using Some by (cases r) auto
  obtain d' where d': "sp_step data i m j = Some (d', if j = i then min v d else vj, xj)" "d' \<le> (if j = i then float_max else dj)"
    using sp_step_row [where data = data, OF i assms] by blast
  have a: "min (if j = i then min v d else vj) d' \<le> min vj dj"
    using d'(2) i assms by (cases "j = i") (simp_all add: min.coboundedI1 min.coboundedI2)
  have b: "(if j = i then min v d else vj) \<le> vj" "j = i \<longrightarrow> (if j = i then min v d else vj) \<le> min vj dj"
    using i assms by auto
  show ?thesis using d'(1) a b by blast
qed

lemma sp_fold_improves:
  assumes "m j = Some (dj, vj, xj)"
  shows "\<exists>d' v'. fold (sp_step data) ks m j = Some (d', v', xj) \<and> min v' d' \<le> min vj dj \<and> v' \<le> vj \<and> (j \<in> set ks \<longrightarrow> v' \<le> min vj dj)"
  using assms
proof (induction ks arbitrary: m dj vj)
  case (Cons i ks)
  obtain d1 v1' where s1: "sp_step data i m j = Some (d1, v1', xj)" "min v1' d1 \<le> min vj dj" "v1' \<le> vj" "j = i \<longrightarrow> v1' \<le> min vj dj"
    using sp_step_improves [of m j, OF Cons.prems] by blast
  obtain d' v' where s2: "fold (sp_step data) ks (sp_step data i m) j = Some (d', v', xj)" "min v' d' \<le> min v1' d1" "v' \<le> v1'"
      "j \<in> set ks \<longrightarrow> v' \<le> min v1' d1"
    using Cons.IH [where m = "sp_step data i m", OF s1(1)] by blast
  have "j \<in> set (i # ks) \<longrightarrow> v' \<le> min vj dj" using s1(2,4) s2(3,4) by auto
  then show ?case using s1(2,3) s2 by (intro exI [of _ d'] exI [of _ v']) auto
qed simp

lemma sp_fold_dom: "dom (fold (sp_step data) ks m) = dom m"
  by (induction ks arbitrary: m) (simp_all add: sp_step_dom)

text \<open>Every walk of at most \<open>n\<close> links is known at its end: pending (\<open>sp_near\<close>) or in the value (\<open>sp_done\<close>).\<close>

definition sp_near :: "(int \<Rightarrow> Link list) \<Rightarrow> int \<Rightarrow> nat \<Rightarrow> sp_rows \<Rightarrow> bool" where
  "sp_near data s n m \<longleftrightarrow> (\<forall>k d v x i l. m k = Some (d, v, x) \<longrightarrow> i \<le> n \<longrightarrow> walk data s k i l \<longrightarrow> min v d \<le> l)"

definition sp_done :: "(int \<Rightarrow> Link list) \<Rightarrow> int \<Rightarrow> nat \<Rightarrow> sp_rows \<Rightarrow> bool" where
  "sp_done data s n m \<longleftrightarrow> (\<forall>k d v x i l. m k = Some (d, v, x) \<longrightarrow> i \<le> n \<longrightarrow> walk data s k i l \<longrightarrow> v \<le> l)"

lemma walk_dom: "walk data s k n l \<Longrightarrow> sp_inv data s m \<Longrightarrow> s \<in> dom m \<Longrightarrow> k \<in> dom m"
proof (induction rule: walk.induct)
  case (walk_step k n l t)
  then obtain d v x where "m k = Some (d, v, x)" by auto
  then show ?case using walk_step.prems(1) walk_step.hyps(2) unfolding sp_inv_def by blast
qed

lemma sp_near_Suc:
  assumes I: "sp_inv data s m" and D: "sp_done data s n m" and s: "s \<in> dom m"
  shows "sp_near data s (Suc n) m"
  unfolding sp_near_def
proof (intro allI impI)
  fix k d v x i l
  assume k: "m k = Some (d, v, x)" and i: "i \<le> Suc n" and w: "walk data s k i l"
  show "min v d \<le> l"
  proof (cases "i \<le> n")
    case True
    then have "v \<le> l" using D k w unfolding sp_done_def by blast
    then show ?thesis by simp
  next
    case False
    then have "i = Suc n" using i by simp
    with w obtain k0 l0 t where w0: "walk data s k0 n l0" "t \<in> set (data k0)" "k = link_end t" "l = l0 + link_weight t"
      by (auto elim: walk_SucE)
    obtain d0 v0 x0 where k0: "m k0 = Some (d0, v0, x0)" using walk_dom [OF w0(1) I s] by auto
    have "min v d \<le> v0 + link_weight t" using I k0 w0(2,3) k unfolding sp_inv_def by fastforce
    moreover have "v0 \<le> l0" using D k0 w0(1) unfolding sp_done_def by blast
    ultimately show ?thesis using w0(4) by simp
  qed
qed

lemma sp_pass:
  assumes I: "sp_inv data s m" and N: "sp_near data s n m" and s: "s \<in> dom m" and ks: "dom m \<subseteq> set ks"
  shows "sp_done data s n (fold (sp_step data) ks m)" and "sp_near data s (Suc n) (fold (sp_step data) ks m)"
proof -
  show D: "sp_done data s n (fold (sp_step data) ks m)"
    unfolding sp_done_def
  proof (intro allI impI)
    fix k d v x i l
    assume k: "fold (sp_step data) ks m k = Some (d, v, x)" and i: "i \<le> n" "walk data s k i l"
    have kd: "k \<in> dom m" using k sp_fold_dom [of data ks m] by (metis domIff option.distinct(1))
    then obtain d0 v0 x0 where k0: "m k = Some (d0, v0, x0)" by auto
    have "v \<le> min v0 d0" using sp_fold_improves [where m = m and j = k and data = data and ks = ks, OF k0] k kd ks by auto
    also have "\<dots> \<le> l" using N k0 i unfolding sp_near_def by blast
    finally show "v \<le> l" .
  qed
  show "sp_near data s (Suc n) (fold (sp_step data) ks m)"
    using sp_near_Suc [OF sp_inv_fold [OF I] D] s by (simp add: sp_fold_dom)
qed

lemma sp_passes:
  assumes "sp_inv data s m" and "sp_near data s n m" and "s \<in> dom m" and "\<forall>ks \<in> set kss. dom m \<subseteq> set ks"
  shows "sp_near data s (n + length kss) (fold (sp_step data) (concat kss) m) \<and>
    (kss \<noteq> [] \<longrightarrow> sp_done data s (n + length kss - 1) (fold (sp_step data) (concat kss) m))"
  using assms
proof (induction kss arbitrary: m n)
  case (Cons ks kss)
  let ?m = "fold (sp_step data) ks m"
  have ks: "dom m \<subseteq> set ks" using Cons.prems(4) by simp
  note p = sp_pass [OF Cons.prems(1-3) ks]
  have d: "dom ?m = dom m" by (rule sp_fold_dom)
  have "s \<in> dom ?m" "\<forall>ks \<in> set kss. dom ?m \<subseteq> set ks" using Cons.prems(3,4) unfolding d by simp_all
  from Cons.IH [OF sp_inv_fold [OF Cons.prems(1)] p(2) this] show ?case
    using p(1) by (cases kss) simp_all
qed simp

text \<open>Nothing pending: the values are the shortest distances.\<close>

lemma sp_quiescent:
  assumes I: "sp_inv data s m" and s: "s \<in> dom m" and q: "\<forall>k d v x. m k = Some (d, v, x) \<longrightarrow> v \<le> d"
  shows "walk data s k n l \<Longrightarrow> m k = Some (d, v, x) \<Longrightarrow> v \<le> l"
proof (induction arbitrary: d v x rule: walk.induct)
  case walk_nil
  then have "min v d \<le> 0" "v \<le> d" using I q unfolding sp_inv_def by blast+
  then show ?case by simp
next
  case (walk_step k n l t)
  obtain d0 v0 x0 where k0: "m k = Some (d0, v0, x0)" using walk_dom [OF walk_step.hyps(1) I s] by auto
  have "v0 \<le> l" using walk_step.IH [OF k0] .
  moreover have "min v d \<le> v0 + link_weight t" using I k0 walk_step.hyps(2) walk_step.prems unfolding sp_inv_def by fastforce
  moreover have "v \<le> d" using q walk_step.prems by blast
  ultimately show ?case by simp
qed

text \<open>The start of the computation on one worker that owns every node.\<close>

definition sp_start :: "(int, rat, Link list) genv \<Rightarrow> (int \<Rightarrow> nat) \<Rightarrow> (int \<Rightarrow> Link list) \<Rightarrow> int \<Rightarrow> (int, rat, Link list) GlobalTable \<Rightarrow> bool" where
  "sp_start e sh data s g \<longleftrightarrow> ge_kernel e = shortestpath_kernel s \<and> gt_ready e sh g \<and> (\<forall>j. gt_local e g (sh j)) \<and>
     s \<in> dom (rows sh g) \<and>
     (\<forall>k r. rows sh g k = Some r \<longrightarrow> fst r = sp_init_c s k \<and> fst (snd r) = float_max) \<and>
     (\<forall>k \<in> dom (rows sh g). \<forall>t \<in> set (data k). 0 \<le> link_weight t \<and> link_end t \<in> dom (rows sh g))"

lemma sp_start_inv:
  assumes "sp_start e sh data s g"
  shows "sp_inv data s (rows sh g)" and "sp_near data s 0 (rows sh g)" and "links_ok e sh data g"
proof -
  let ?m = "rows sh g"
  have r: "v = float_max \<and> d = sp_init_c s k" if "?m k = Some (d, v, x)" for k d v x
    using assms that by (force simp: sp_start_def)
  have pos: "(0::rat) < float_max" by (simp add: float_max_def)
  show "sp_inv data s ?m" unfolding sp_inv_def
  proof (intro allI impI)
    fix k d v x assume k: "?m k = Some (d, v, x)"
    note rk = r [OF k]
    have "\<exists>n. walk data s k n d" if "d < float_max"
      using that rk walk_nil [of data s] by (auto simp: sp_init_c_def split: if_splits)
    moreover have "0 \<le> link_weight t \<and> (\<exists>dj vj xj. ?m (link_end t) = Some (dj, vj, xj) \<and> min vj dj \<le> v + link_weight t)"
      if t: "t \<in> set (data k)" for t
    proof -
      have w: "0 \<le> link_weight t" and "link_end t \<in> dom ?m" using assms k t unfolding sp_start_def by blast+
      then obtain dj vj xj where j: "?m (link_end t) = Some (dj, vj, xj)" by auto
      have "min vj dj \<le> v + link_weight t" using r [OF j] rk w by (simp add: min.coboundedI1)
      with j w show ?thesis by blast
    qed
    ultimately show "v \<le> float_max \<and> (v < float_max \<longrightarrow> (\<exists>n. walk data s k n v)) \<and>
        (d < float_max \<longrightarrow> (\<exists>n. walk data s k n d)) \<and> (k = s \<longrightarrow> min v d \<le> 0) \<and>
        (\<forall>t \<in> set (data k). 0 \<le> link_weight t \<and> (\<exists>dj vj xj. ?m (link_end t) = Some (dj, vj, xj) \<and> min vj dj \<le> v + link_weight t))"
      using rk by (auto simp: sp_init_c_def)
  qed
  show "sp_near data s 0 ?m" unfolding sp_near_def
  proof (intro allI impI)
    fix k d v x i l
    assume k: "?m k = Some (d, v, x)" and "i \<le> (0::nat)" and "walk data s k i l"
    then have "k = s" "l = 0" by (auto elim: walk_0E)
    with r [OF k] show "min v d \<le> l" by (simp add: sp_init_c_def)
  qed
  show "links_ok e sh data g" unfolding links_ok_def
  proof (intro allI impI ballI)
    fix k d v p
    assume k: "k \<in> dom ?m" and p: "p \<in> set (k_g_func (ge_kernel e) k d v (data k))"
    have "ge_kernel e = shortestpath_kernel s" using assms by (simp add: sp_start_def)
    with p obtain t where "t \<in> set (data k)" "fst p = link_end t" by (auto simp: shortestpath_kernel_def sp_g_func_def)
    then show "fst p \<in> dom ?m" using assms k unfolding sp_start_def by force
  qed
qed

lemma sp_run:
  assumes S: "sp_start e sh data s g" and i: "i < ge_num_shards e" and st: "gt_partitions g ! i = State st" and ks: "keys_of_shard sh i st"
    and its: "\<forall>it \<in> set its. ti_ok st it \<and> length (ti_rest st it) < fuel"
    and F: "fetches fetch ready data (dom (rows sh g))" and s: "ready store"
  shows "\<exists>store' g'. run_passes fuel e (int i) fetch its (store, g) = Inr (store', g') \<and>
    rows sh g' = fold (sp_step data) (concat (map (ti_keys st) its)) (rows sh g) \<and>
    sp_inv data s (rows sh g') \<and> s \<in> dom (rows sh g')"
proof -
  have K: "ge_kernel e = shortestpath_kernel s" and R: "gt_ready e sh g" using S by (simp_all add: sp_start_def)
  have "comm_accumulator (k_accumulate (shortestpath_kernel s))" by (rule sp_acc.comm_accumulator_axioms)
  then have acc: "accumulator (k_accumulate (ge_kernel e))" unfolding K by (rule comm_accumulator.axioms(1))
  from run_passes_view [OF acc i F R sp_start_inv(3) [OF S] st ks its s] obtain store' g' where
    g': "run_passes fuel e (int i) fetch its (store, g) = Inr (store', g')"
      "view e sh g' = fold (view_iter (ge_kernel e) (\<lambda>j. gt_local e g (sh j)) data) (concat (map (ti_keys st) its)) (view e sh g)"
    by blast
  have r: "rows sh g' = fold (sp_step data) (concat (map (ti_keys st) its)) (rows sh g)"
    using arg_cong [OF g'(2), of fst] unfolding K sp_fold_view by (simp add: view_def)
  have "s \<in> dom (rows sh g')" using S unfolding r sp_fold_dom by (simp add: sp_start_def)
  with g'(1) r sp_inv_fold [OF sp_start_inv(1) [OF S], of "concat (map (ti_keys st) its)"] show ?thesis by auto
qed


lemma full_pass_keys:
  assumes "gt_ready e sh g" and "ge_num_shards e = 1" and "gt_partitions g ! 0 = State st" and "gt_local e g 0"
  shows "ti_ok st (PlainIt (-1))" and "dom (rows sh g) = set (ti_keys st (PlainIt (-1)))"
    and "keys_of_shard sh 0 st" and "length (ti_rest st (PlainIt (-1))) \<le> st_size st"
proof -
  have gok: "gt_ok e g" and sh: "sharded e sh" using assms(1) by (simp_all add: gt_ready_def)
  have s0: "sh k = 0" for k using sh assms(2) by (simp add: sharded_def)
  have sto: "st_ok (ge_hash e) st" using gt_ok_State [OF gok _ assms(4)] assms(2,3) by auto
  note d = st_okD [OF sto]
  show "ti_ok st (PlainIt (-1))" using d(1) by simp
  have "dom (rows sh g) = dom (st_rows st)" using assms(3) s0 by (simp add: rows_def dom_def)
  also have "\<dots> = skey ` set (filter in_use (st_buckets st))"
    by (simp add: st_rows_map_of dom_map_of_conv_image_fst image_image)
  also have "\<dots> = set (ti_keys st (PlainIt (-1)))"
    by (auto simp: ti_keys_def used_from_def in_set_conv_nth image_iff)
  finally show "dom (rows sh g) = set (ti_keys st (PlainIt (-1)))" .
  show "keys_of_shard sh 0 st" by (simp add: keys_of_shard_def s0)
  show "length (ti_rest st (PlainIt (-1))) \<le> st_size st"
    using length_filter_le [of _ "[0..<length (st_buckets st)]"] d(1) by (simp add: used_from_def)
qed


section \<open>A worker with two nodes\<close>

text \<open>Integers and rationals in unary, a table of one shard, the nodes 0 and 1.\<close>

definition mk_int :: "int \<Rightarrow> string" where
  "mk_int n = (if n < 0 then CHR ''-'' # replicate (nat (- n)) CHR ''x'' else replicate (nat n) CHR ''x'')"

definition uk_int :: "string \<Rightarrow> int" where
  "uk_int s = (case s of c # r \<Rightarrow> if c = CHR ''-'' then - int (length r) else int (length s) | [] \<Rightarrow> 0)"

definition mv_rat :: "rat \<Rightarrow> string" where
  "mv_rat q = (case quotient_of q of (a, b) \<Rightarrow> mk_int a @ CHR ''/'' # mk_int b)"

definition uv_rat :: "string \<Rightarrow> rat" where
  "uv_rat s = of_int (uk_int (takeWhile (\<lambda>c. c \<noteq> CHR ''/'') s)) / of_int (uk_int (drop 1 (dropWhile (\<lambda>c. c \<noteq> CHR ''/'') s)))"

lemma uk_mk_int: "uk_int (mk_int n) = n"
proof (cases "n < 0")
  case False
  then show ?thesis by (cases "nat n") (auto simp: uk_int_def mk_int_def)
qed (simp add: uk_int_def mk_int_def)

lemma mk_int_slash: "CHR ''/'' \<notin> set (mk_int n)"
  by (simp add: mk_int_def)

lemma uv_mv_rat: "uv_rat (mv_rat q) = q"
proof -
  obtain a b where q: "quotient_of q = (a, b)" by (cases "quotient_of q")
  have s: "mv_rat q = mk_int a @ CHR ''/'' # mk_int b" by (simp add: mv_rat_def q)
  have "takeWhile (\<lambda>c. c \<noteq> CHR ''/'') (mv_rat q) = mk_int a" "dropWhile (\<lambda>c. c \<noteq> CHR ''/'') (mv_rat q) = CHR ''/'' # mk_int b"
    unfolding s using takeWhile_delim [OF mk_int_slash] dropWhile_delim [OF mk_int_slash] by simp_all
  then show ?thesis using quotient_of_div [OF q] by (simp add: uv_rat_def uk_mk_int)
qed

definition duo_row :: "int \<Rightarrow> bool \<Rightarrow> 'v \<Rightarrow> 'v \<Rightarrow> (int, 'v::zero, 'd list) sbucket" where
  "duo_row k u d v = \<lparr>skey = k, in_use = u, s1 = d, s2 = v, s3 = [], priority = 0\<rparr>"

definition duo_table :: "'v \<Rightarrow> 'v \<Rightarrow> 'v \<Rightarrow> (int, 'v::zero, 'd list) StateTable" where
  "duo_table c0 c1 v = \<lparr>st_buckets = [duo_row 0 True c0 v, duo_row 1 True c1 v], st_entries = 2, st_size = 2,
     st_total_curr = 0, st_total_updates = 0, st_terminated = False\<rparr>"

definition duo_env_of :: "('v \<Rightarrow> string) \<Rightarrow> (string \<Rightarrow> 'v) \<Rightarrow> (int, 'v::zero, 'd list) kernel \<Rightarrow> (int, 'v, 'd list) genv" where
  "duo_env_of mv uv ker = \<lparr>ge_table_id = 0, ge_num_shards = 1, ge_schedule_portion = 1, ge_helper_id = Some 0, ge_epoch = 0,
     ge_bufmsg = 100, ge_sharder = shard_Mod, ge_hash = nat, ge_kernel = ker,
     ge_nd = \<lparr>skey = 0, in_use = False, v1 = 0\<rparr>, ge_ns = duo_row 0 False 0 0,
     ge_mk = mk_int, ge_uk = uk_int, ge_mv = mv, ge_uv = uv\<rparr>"

abbreviation "duo_env \<equiv> duo_env_of mv_rat uv_rat"

definition duo_global :: "(int, 'v::zero, 'd list) StateTable \<Rightarrow> (int, 'v, 'd list) GlobalTable" where
  "duo_global st = \<lparr>gt_partitions = [State st],
     gt_partinfo = [\<lparr>pi_dirty = False, pi_tainted = False, pi_owner = 0, pi_entries = 0\<rparr>],
     gt_pending_writes = 0, gt_snapshot_index = 0, gt_binit = True, gt_update_queue = [], gt_sent = [], gt_termchecks = []\<rparr>"

lemma duo_ok: "st_ok nat (duo_table c0 c1 v)"
proof -
  have "open_ok (\<lambda>k. nat k mod 2) [duo_row 0 True c0 v, duo_row 1 True c1 v]"
    unfolding open_ok_def
    by (intro conjI allI impI) (auto simp: duo_row_def less_Suc_eq_0_disj pos_def intro: exI [of _ 0])
  then show ?thesis by (simp add: st_ok_def duo_table_def used_def duo_row_def)
qed

lemma duo_rows: "rows (\<lambda>_. 0) (duo_global (duo_table c0 c1 v)) = [0 \<mapsto> (c0, v, []), 1 \<mapsto> (c1, v, [])]"
  by (auto simp: rows_def duo_global_def duo_table_def st_rows_def stored_def duo_row_def row_of_def fun_eq_iff)

lemma duo_local: "gt_local (duo_env_of mv uv ker) (duo_global st) 0"
  by (simp add: gt_local_def duo_env_of_def duo_global_def)

lemma duo_ready_of:
  assumes "\<And>q. uv (mv q) = q"
  shows "gt_ready (duo_env_of mv uv ker) (\<lambda>_. 0) (duo_global (duo_table c0 c1 v))"
proof -
  let ?e = "duo_env_of mv uv ker"
  have h: "st_ok (ge_hash ?e) (duo_table c0 c1 v)" using duo_ok by (simp add: duo_env_of_def)
  have "gt_ok ?e (duo_global (duo_table c0 c1 v))"
    using h duo_local [of mv uv ker "duo_table c0 c1 v"]
    by (simp add: gt_ok_def part_ok_def) (simp add: duo_env_of_def duo_global_def)
  moreover have "sharded ?e (\<lambda>_. 0)"
    by (simp add: sharded_def duo_env_of_def shard_Mod_def signed_modulo_int_def signed_divide_int_def)
  moreover have "marshals ?e" by (simp add: marshals_def duo_env_of_def uk_mk_int assms)
  ultimately show ?thesis by (simp add: gt_ready_def sent_ok_def duo_global_def)
qed

lemma duo_ready: "gt_ready (duo_env ker) (\<lambda>_. 0) (duo_global (duo_table c0 c1 v))"
  by (rule duo_ready_of) (rule uv_mv_rat)

definition duo_store :: SStore where
  "duo_store = \<lparr>ss_cache = cache_empty\<lparr>influMap := kvmap_new\<rparr>,
     ss_reader = \<lparr>r_dataFile = mm_new, r_hdrFile = mm_new, data_ptr = concat (map long_bytes (concat [[1], [0, 1]])),
       hdr_ptr = concat (map long_bytes (0 # offsets 0 (map length [[1], [0, 1 :: int]])))\<rparr>\<rparr>"

definition duo_links :: "int \<Rightarrow> int list" where
  "duo_links k = (if k = 0 then [1] else [0, 1])"

lemma duo_answers: "store_ok 1 duo_store" "answer duo_store 0 = Inr (duo_links 0)" "answer duo_store 1 = Inr (duo_links 1)"
proof -
  show "store_ok 1 duo_store"
    using cache_ok_new [of 1 "kvmap_new :: (int, int list) KVMap"]
    by (simp add: store_ok_def duo_store_def) (simp add: cache_empty_def smap_simps)
  have "reader_read (ss_reader duo_store) i =
      (if 0 \<le> i \<and> i < int (length [[1], [0, 1 :: int]]) then Inr ([[1], [0, 1]] ! nat i) else Inl OutOfBounds)" for i
    by (rule reader_read_lists) (simp_all add: is_long_def duo_store_def)
  then show "answer duo_store 0 = Inr (duo_links 0)" "answer duo_store 1 = Inr (duo_links 1)"
    by (simp_all add: answer_def duo_links_def) (simp_all add: duo_store_def smap_simps)
qed

lemma duo_iters:
  "\<forall>it \<in> set [PlainIt (-1), SchedIt \<lparr>si_pos = -1, scheduled_pos = [1, 0], b_no_change = False\<rparr>].
     ti_ok (duo_table c0 c1 v) it \<and> length (ti_rest (duo_table c0 c1 v) it) < 3"
  by (simp add: duo_table_def duo_row_def used_from_def upt_rec)

lemma duo_outstanding: "outstanding e (\<lambda>_. 0) (duo_global st) k = None"
  by (simp add: outstanding_def sent_pairs_def gather_def buffered_def duo_global_def)


definition duo_roads :: "int \<Rightarrow> Link list" where
  "duo_roads k = (if k = 0 then [\<lparr>link_end = 1, link_weight = 3 / 2\<rparr>] else [\<lparr>link_end = 0, link_weight = 0\<rparr>])"

lemma duo_sp_start: "sp_start (duo_env (shortestpath_kernel 0)) (\<lambda>_. 0) duo_roads 0 (duo_global (duo_table 0 float_max float_max))"
proof -
  let ?g = "duo_global (duo_table 0 float_max float_max) :: (int, rat, Link list) GlobalTable"
  have dom: "dom (rows (\<lambda>_. 0) ?g) = {0, 1}" by (auto simp: duo_rows)
  have "\<forall>k r. rows (\<lambda>_. 0) ?g k = Some r \<longrightarrow> fst r = sp_init_c 0 k \<and> fst (snd r) = float_max"
    by (auto simp: duo_rows sp_init_c_def split: if_splits)
  moreover have "\<forall>k \<in> {0, 1}. \<forall>t \<in> set (duo_roads k). 0 \<le> link_weight t \<and> link_end t \<in> {0, 1}" by (simp add: duo_roads_def)
  ultimately show ?thesis using duo_ready [of "shortestpath_kernel 0" 0 float_max float_max] duo_local [of mv_rat uv_rat "shortestpath_kernel 0"]
    unfolding sp_start_def dom by (simp add: duo_env_of_def)
qed

lemma duo_fetches: "fetches (\<lambda>k p u. Inr (duo_roads k, u)) (\<lambda>_. True) duo_roads ks"
  by (simp add: fetches_def)




end
