(* ===== verification/Components.thy ===== *)
theory Components
  imports Convergence
begin

text \<open>
  The connected-components kernel of \<^verbatim>\<open>src/examples/con_component.cc\<close> on the engine: labels spread along the links, the largest wins. Rows are
  followed through the steps of phase two as in \<open>Convergence\<close>; values are soundly labels of nodes that lead here, and no label is lost on the way.
\<close>

section \<open>Labels along links\<close>

text \<open>\<open>leads data i k n\<close>: a path of \<open>n\<close> links leads from \<open>i\<close> to \<open>k\<close>.\<close>

inductive leads :: "(int \<Rightarrow> int list) \<Rightarrow> int \<Rightarrow> int \<Rightarrow> nat \<Rightarrow> bool" for data i where
  leads_nil: "leads data i i 0"
| leads_step: "leads data i k n \<Longrightarrow> t \<in> set (data k) \<Longrightarrow> leads data i t (Suc n)"

inductive_cases leads_0E: "leads data i k 0"
inductive_cases leads_SucE: "leads data i k (Suc n)"

type_synonym cc_rows = "int \<rightharpoonup> int \<times> int \<times> int list"

definition cc_step :: "(int \<Rightarrow> int list) \<Rightarrow> int \<Rightarrow> cc_rows \<Rightarrow> cc_rows" where
  "cc_step data k m = (case m k of None \<Rightarrow> m
     | Some (d, v, x) \<Rightarrow> \<lambda>j. case (m(k \<mapsto> (0, max v d, x))) j of None \<Rightarrow> None
         | Some (dj, vj, xj) \<Rightarrow> Some (if j \<in> set (data k) then max dj (max v d) else dj, vj, xj))"

lemma fold_max: "fold (add_delta max) (deltas j (map (\<lambda>t. (t, u)) ts)) (a, b, c) = (if j \<in> set ts then max a u else a, b, c)"
  for u :: int
  by (induction ts arbitrary: a) (auto simp: add_delta_def)

lemma cc_step_view: "fst (view_iter con_component_kernel loc data k w) = cc_step data k (fst w)"
proof (cases "fst w k")
  case (Some r)
  obtain d v x where r: "r = (d, v, x)" by (cases r)
  have "fst (view_iter con_component_kernel loc data k w) =
      (\<lambda>j. map_option (fold (add_delta max) (deltas j (map (\<lambda>t. (t, max v d)) (data k)))) (((fst w)(k \<mapsto> (0, max v d, x))) j))"
    using Some by (simp add: r view_iter_def view_send_def row_iter_def con_component_kernel_def cc_g_func_def Let_def)
  also have "\<dots> = cc_step data k (fst w)"
    using Some by (auto simp: r cc_step_def fold_max fun_eq_iff split: option.split)
  finally show ?thesis .
qed (simp add: view_iter_def cc_step_def)

lemma cc_fold_view: "fst (fold (view_iter con_component_kernel loc data) ks w) = fold (cc_step data) ks (fst w)"
  by (induction ks arbitrary: w) (simp_all add: cc_step_view)

lemma cc_step_dom: "dom (cc_step data k m) = dom m"
  using view_iter_dom [of con_component_kernel loc data k "(m, u)" for loc u] by (simp add: cc_step_view)

lemma cc_fold_dom: "dom (fold (cc_step data) ks m) = dom m"
  by (induction ks arbitrary: m) (simp_all add: cc_step_dom)

text \<open>What a step makes of one row, where the row visited has absorbed its change \<open>u\<close>.\<close>

lemma cc_step_row:
  assumes "m k = Some (d, v, x)" and "m j = Some (dj, vj, xj)"
  shows "cc_step data k m j = Some
    (let a = if j = k then 0 else dj in if j \<in> set (data k) then max a (max v d) else a, if j = k then max v d else vj, xj)"
  using assms by (auto simp: cc_step_def Let_def)

section \<open>The invariant\<close>

definition label :: "(int \<Rightarrow> int list) \<Rightarrow> cc_rows \<Rightarrow> int \<Rightarrow> int \<Rightarrow> bool" where
  "label data m k u \<longleftrightarrow> u = 0 \<or> u \<in> dom m \<and> (\<exists>n. leads data u k n)"

definition cc_inv :: "(int \<Rightarrow> int list) \<Rightarrow> cc_rows \<Rightarrow> bool" where
  "cc_inv data m \<longleftrightarrow> (\<forall>k d v x. m k = Some (d, v, x) \<longrightarrow> 0 \<le> v \<and> 0 \<le> d \<and> k \<le> max v d \<and> label data m k v \<and> label data m k d \<and>
     (\<forall>t \<in> set (data k). \<exists>dj vj xj. m t = Some (dj, vj, xj) \<and> v \<le> max vj dj))"

lemma label_max: "label data m k a \<Longrightarrow> label data m k b \<Longrightarrow> label data m k (max a b)"
  by (simp add: max_def)

lemma label_link: "label data m k u \<Longrightarrow> t \<in> set (data k) \<Longrightarrow> label data m t u"
  unfolding label_def using leads_step by metis

lemma label_0 [simp]: "label data m k 0"
  by (simp add: label_def)

lemma cc_inv_step:
  assumes I: "cc_inv data m"
  shows "cc_inv data (cc_step data i m)"
proof (cases "m i")
  case None
  with I show ?thesis by (simp add: cc_step_def)
next
  case (Some r)
  obtain d v x where i: "m i = Some (d, v, x)" using Some by (cases r) auto
  note Ii = I [unfolded cc_inv_def, rule_format, OF i]
  have lab: "label data (cc_step data i m) = label data m" by (simp add: label_def fun_eq_iff cc_step_dom)
  show ?thesis unfolding cc_inv_def lab
  proof (intro allI impI)
    fix k dk' vk' xk' assume k': "cc_step data i m k = Some (dk', vk', xk')"
    then have "k \<in> dom m" using cc_step_dom [of data i m] by (metis domIff option.distinct(1))
    then obtain dk vk xk where k: "m k = Some (dk, vk, xk)" by auto
    note Ik = I [unfolded cc_inv_def, rule_format, OF k]
    have vk': "vk' = (if k = i then max v d else vk)"
      and dk': "dk' = (let a = if k = i then 0 else dk in if k \<in> set (data i) then max a (max v d) else a)"
      using k' cc_step_row [where data = data, OF i k] by simp_all
    have sent: "label data m k (max v d)" if "k \<in> set (data i)" using that Ii label_link label_max by metis
    have "\<exists>dj vj xj. cc_step data i m t = Some (dj, vj, xj) \<and> vk' \<le> max vj dj" if t: "t \<in> set (data k)" for t
    proof -
      obtain dj vj xj where j: "m t = Some (dj, vj, xj)" "vk \<le> max vj dj" using Ik t by blast
      show ?thesis using cc_step_row [where data = data, OF i j(1)] j i k t Ii by (auto simp: vk' Let_def)
    qed
    moreover have "0 \<le> vk' \<and> 0 \<le> dk' \<and> k \<le> max vk' dk'" using Ik Ii i k by (auto simp: vk' dk' Let_def)
    moreover have "label data m k vk'" using Ik Ii label_max by (simp add: vk')
    moreover have "label data m k dk'" using Ik sent label_max [of data m k] by (auto simp: dk' Let_def)
    ultimately show "0 \<le> vk' \<and> 0 \<le> dk' \<and> k \<le> max vk' dk' \<and> label data m k vk' \<and> label data m k dk' \<and>
        (\<forall>t \<in> set (data k). \<exists>dj vj xj. cc_step data i m t = Some (dj, vj, xj) \<and> vk' \<le> max vj dj)" by blast
  qed
qed

lemma cc_inv_fold: "cc_inv data m \<Longrightarrow> cc_inv data (fold (cc_step data) ks m)"
  by (induction ks arbitrary: m) (simp_all add: cc_inv_step)

lemma leads_dom: "leads data i k n \<Longrightarrow> cc_inv data m \<Longrightarrow> i \<in> dom m \<Longrightarrow> k \<in> dom m"
proof (induction rule: leads.induct)
  case (leads_step k n t)
  then obtain d v x where "m k = Some (d, v, x)" by auto
  then show ?case using leads_step.prems(1) leads_step.hyps(2) unfolding cc_inv_def by blast
qed

text \<open>Nothing pending: the value is at least every label that leads here, and one of them.\<close>

lemma cc_quiescent:
  assumes I: "cc_inv data m" and q: "\<forall>k d v x. m k = Some (d, v, x) \<longrightarrow> d \<le> v" and i: "i \<in> dom m"
  shows "leads data i k n \<Longrightarrow> m k = Some (d, v, x) \<Longrightarrow> i \<le> v"
proof (induction arbitrary: d v x rule: leads.induct)
  case leads_nil
  then show ?case using I q unfolding cc_inv_def by (metis max.absorb1)
next
  case (leads_step k n t)
  obtain d0 v0 x0 where k0: "m k = Some (d0, v0, x0)" using leads_dom [OF leads_step.hyps(1) I i] by auto
  have "i \<le> v0" using leads_step.IH [OF k0] .
  moreover have "v0 \<le> max v d" using I k0 leads_step.hyps(2) leads_step.prems unfolding cc_inv_def by fastforce
  moreover have "d \<le> v" using q leads_step.prems by blast
  ultimately show ?case by simp
qed

section \<open>Progress\<close>

lemma cc_step_improves:
  assumes "m j = Some (dj, vj, xj)"
  shows "\<exists>d' v'. cc_step data i m j = Some (d', v', xj) \<and> max vj dj \<le> max v' d' \<and> vj \<le> v' \<and> (j = i \<longrightarrow> max vj dj \<le> v')"
proof (cases "m i")
  case None
  with assms show ?thesis by (auto simp: cc_step_def)
next
  case (Some r)
  obtain d v x where i: "m i = Some (d, v, x)" using Some by (cases r) auto
  show ?thesis using cc_step_row [where data = data, OF i assms] i assms by (auto simp: Let_def)
qed

lemma cc_fold_improves:
  assumes "m j = Some (dj, vj, xj)"
  shows "\<exists>d' v'. fold (cc_step data) ks m j = Some (d', v', xj) \<and> max vj dj \<le> max v' d' \<and> vj \<le> v' \<and> (j \<in> set ks \<longrightarrow> max vj dj \<le> v')"
  using assms
proof (induction ks arbitrary: m dj vj)
  case (Cons i ks)
  obtain d1 u1 where s1: "cc_step data i m j = Some (d1, u1, xj)" "max vj dj \<le> max u1 d1" "vj \<le> u1" "j = i \<longrightarrow> max vj dj \<le> u1"
    using cc_step_improves [of m j, OF Cons.prems] by blast
  obtain d' v' where s2: "fold (cc_step data) ks (cc_step data i m) j = Some (d', v', xj)" "max u1 d1 \<le> max v' d'" "u1 \<le> v'"
      "j \<in> set ks \<longrightarrow> max u1 d1 \<le> v'"
    using Cons.IH [where m = "cc_step data i m", OF s1(1)] by blast
  have "j \<in> set (i # ks) \<longrightarrow> max vj dj \<le> v'" using s1(2,4) s2(3,4) by auto
  then show ?case using s1(2,3) s2 by (intro exI [of _ d'] exI [of _ v']) auto
qed simp

definition cc_near :: "(int \<Rightarrow> int list) \<Rightarrow> nat \<Rightarrow> cc_rows \<Rightarrow> bool" where
  "cc_near data n m \<longleftrightarrow> (\<forall>k d v x i j. m k = Some (d, v, x) \<longrightarrow> i \<in> dom m \<longrightarrow> j \<le> n \<longrightarrow> leads data i k j \<longrightarrow> i \<le> max v d)"

definition cc_done :: "(int \<Rightarrow> int list) \<Rightarrow> nat \<Rightarrow> cc_rows \<Rightarrow> bool" where
  "cc_done data n m \<longleftrightarrow> (\<forall>k d v x i j. m k = Some (d, v, x) \<longrightarrow> i \<in> dom m \<longrightarrow> j \<le> n \<longrightarrow> leads data i k j \<longrightarrow> i \<le> v)"

lemma cc_near_0:
  assumes "cc_inv data m"
  shows "cc_near data 0 m"
  unfolding cc_near_def
proof (intro allI impI)
  fix k d v x i j
  assume k: "m k = Some (d, v, x)" and "j \<le> (0::nat)" and "leads data i k j"
  then have "i = k" by (auto elim: leads_0E)
  then show "i \<le> max v d" using assms k unfolding cc_inv_def by blast
qed

lemma cc_near_Suc:
  assumes I: "cc_inv data m" and D: "cc_done data n m"
  shows "cc_near data (Suc n) m"
  unfolding cc_near_def
proof (intro allI impI)
  fix k d v x i j
  assume k: "m k = Some (d, v, x)" and i: "i \<in> dom m" and j: "j \<le> Suc n" and l: "leads data i k j"
  show "i \<le> max v d"
  proof (cases "j \<le> n")
    case True
    then have "i \<le> v" using D k i l unfolding cc_done_def by blast
    then show ?thesis by simp
  next
    case False
    then have "j = Suc n" using j by simp
    with l obtain k0 where l0: "leads data i k0 n" "k \<in> set (data k0)" by (auto elim: leads_SucE)
    obtain d0 v0 x0 where k0: "m k0 = Some (d0, v0, x0)" using leads_dom [OF l0(1) I i] by auto
    have "v0 \<le> max v d" using I k0 l0(2) k unfolding cc_inv_def by fastforce
    moreover have "i \<le> v0" using D k0 i l0(1) unfolding cc_done_def by blast
    ultimately show ?thesis by simp
  qed
qed

lemma cc_pass:
  assumes I: "cc_inv data m" and N: "cc_near data n m" and ks: "dom m \<subseteq> set ks"
  shows "cc_done data n (fold (cc_step data) ks m)" and "cc_near data (Suc n) (fold (cc_step data) ks m)"
proof -
  let ?m = "fold (cc_step data) ks m"
  show D: "cc_done data n ?m" unfolding cc_done_def cc_fold_dom
  proof (intro allI impI)
    fix k d v x i j
    assume k: "?m k = Some (d, v, x)" and i: "i \<in> dom m" "j \<le> n" "leads data i k j"
    have kd: "k \<in> dom m" using k cc_fold_dom [of data ks m] by (metis domIff option.distinct(1))
    then obtain d0 v0 x0 where k0: "m k = Some (d0, v0, x0)" by auto
    have "i \<le> max v0 d0" using N k0 i unfolding cc_near_def by blast
    also have "\<dots> \<le> v" using cc_fold_improves [where m = m and j = k and data = data and ks = ks, OF k0] k kd ks by auto
    finally show "i \<le> v" .
  qed
  show "cc_near data (Suc n) ?m" using cc_near_Suc [OF cc_inv_fold [OF I] D] .
qed

lemma cc_passes:
  assumes "cc_inv data m" and "cc_near data n m" and "\<forall>ks \<in> set kss. dom m \<subseteq> set ks" and "kss \<noteq> []"
  shows "cc_done data (n + length kss - 1) (fold (cc_step data) (concat kss) m)"
  using assms
proof (induction kss arbitrary: m n)
  case (Cons ks kss)
  let ?m = "fold (cc_step data) ks m"
  have "dom m \<subseteq> set ks" using Cons.prems(3) by simp
  note p = cc_pass [OF Cons.prems(1,2) this]
  have "\<forall>ks \<in> set kss. dom ?m \<subseteq> set ks" using Cons.prems(3) unfolding cc_fold_dom by simp
  then show ?case using Cons.IH [OF cc_inv_fold [OF Cons.prems(1)] p(2)] p(1) by (cases kss) simp_all
qed simp

section \<open>The kernel on the engine\<close>

text \<open>The start of the computation on one worker that owns every node; \<open>init_c\<close> gives a node its own number as its change.\<close>

definition cc_start :: "(int, int, int list) genv \<Rightarrow> (int \<Rightarrow> nat) \<Rightarrow> (int \<Rightarrow> int list) \<Rightarrow> (int, int, int list) GlobalTable \<Rightarrow> bool" where
  "cc_start e sh data g \<longleftrightarrow> ge_kernel e = con_component_kernel \<and> gt_ready e sh g \<and> (\<forall>j. gt_local e g (sh j)) \<and>
     (\<forall>k r. rows sh g k = Some r \<longrightarrow> 0 \<le> k \<and> fst r = k_init_c con_component_kernel k (data k) \<and> fst (snd r) = k_init_v con_component_kernel k (data k)) \<and>
     (\<forall>k \<in> dom (rows sh g). set (data k) \<subseteq> dom (rows sh g))"

lemma cc_start_inv:
  assumes "cc_start e sh data g"
  shows "cc_inv data (rows sh g)" and "links_ok e sh data g"
proof -
  let ?m = "rows sh g"
  have r: "0 \<le> k \<and> v = 0 \<and> d = k" if "?m k = Some (d, v, x)" for k d v x
    using assms that by (force simp: cc_start_def con_component_kernel_def)
  show "cc_inv data ?m" unfolding cc_inv_def
  proof (intro allI impI)
    fix k d v x assume k: "?m k = Some (d, v, x)"
    have "\<exists>dj vj xj. ?m t = Some (dj, vj, xj) \<and> v \<le> max vj dj" if t: "t \<in> set (data k)" for t
    proof -
      have "t \<in> dom ?m" using assms k t unfolding cc_start_def by blast
      then obtain dj vj xj where "?m t = Some (dj, vj, xj)" by auto
      then show ?thesis using r [OF k] r [of t dj vj xj] by auto
    qed
    moreover have "label data ?m k k" using k leads_nil [of data k] unfolding label_def by blast
    ultimately show "0 \<le> v \<and> 0 \<le> d \<and> k \<le> max v d \<and> label data ?m k v \<and> label data ?m k d \<and>
        (\<forall>t \<in> set (data k). \<exists>dj vj xj. ?m t = Some (dj, vj, xj) \<and> v \<le> max vj dj)"
      using r [OF k] by simp
  qed
  show "links_ok e sh data g"
    using assms by (auto simp: links_ok_def cc_start_def con_component_kernel_def cc_g_func_def)
qed

lemma cc_run:
  assumes S: "cc_start e sh data g" and i: "i < ge_num_shards e" and st: "gt_partitions g ! i = State st" and ks: "keys_of_shard sh i st"
    and its: "\<forall>it \<in> set its. ti_ok st it \<and> length (ti_rest st it) < fuel"
    and F: "fetches fetch ready data (dom (rows sh g))" and s: "ready store"
  shows "\<exists>store' g'. run_passes fuel e (int i) fetch its (store, g) = Inr (store', g') \<and>
    rows sh g' = fold (cc_step data) (concat (map (ti_keys st) its)) (rows sh g)"
proof -
  have K: "ge_kernel e = con_component_kernel" and R: "gt_ready e sh g" using S by (simp_all add: cc_start_def)
  have acc: "accumulator (k_accumulate (ge_kernel e))"
    unfolding K by (rule comm_accumulator.axioms(1)) (rule cc_acc.comm_accumulator_axioms)
  from run_passes_view [OF acc i F R cc_start_inv(2) [OF S] st ks its s] obtain store' g' where
    g': "run_passes fuel e (int i) fetch its (store, g) = Inr (store', g')"
      "view e sh g' = fold (view_iter (ge_kernel e) (\<lambda>j. gt_local e g (sh j)) data) (concat (map (ti_keys st) its)) (view e sh g)"
    by blast
  have "rows sh g' = fold (cc_step data) (concat (map (ti_keys st) its)) (rows sh g)"
    using arg_cong [OF g'(2), of fst] unfolding K cc_fold_view by (simp add: view_def)
  with g'(1) show ?thesis by blast
qed



section \<open>Two nodes\<close>

definition duo_pair :: "int \<Rightarrow> int list" where
  "duo_pair k = (if k = 0 then [1] else [0])"

abbreviation duo_cc :: "(int, int, int list) genv" where
  "duo_cc \<equiv> duo_env_of mk_int uk_int con_component_kernel"

lemma duo_cc_start: "cc_start duo_cc (\<lambda>_. 0) duo_pair (duo_global (duo_table 0 1 0))"
proof -
  let ?g = "duo_global (duo_table 0 1 0) :: (int, int, int list) GlobalTable"
  have dom: "dom (rows (\<lambda>_. 0) ?g) = {0, 1}" by (auto simp: duo_rows)
  have "\<forall>k r. rows (\<lambda>_. 0) ?g k = Some r \<longrightarrow> 0 \<le> k \<and> fst r = k_init_c con_component_kernel k (duo_pair k) \<and>
      fst (snd r) = k_init_v con_component_kernel k (duo_pair k)"
    by (auto simp: duo_rows con_component_kernel_def split: if_splits)
  moreover have "\<forall>k \<in> {0, 1}. set (duo_pair k) \<subseteq> {0, 1}" by (simp add: duo_pair_def)
  ultimately show ?thesis
    using duo_ready_of [of uk_int mk_int con_component_kernel 0 1 0] duo_local [of mk_int uk_int con_component_kernel] uk_mk_int
    unfolding cc_start_def dom by (simp add: duo_env_of_def)
qed

lemma duo_pair_fetches: "fetches (\<lambda>k p u. Inr (duo_pair k, u)) (\<lambda>_. True) duo_pair ks"
  by (simp add: fetches_def)



end
