(* ===== verification/Files.thy ===== *)
theory Files
  imports CppString
begin

text \<open>
  \<^verbatim>\<open>src/util/file.h\<close> and \<^verbatim>\<open>file.cc\<close>: local files over stdio, files that are written in compressed blocks
  (\<^verbatim>\<open>LZOFile\<close>), and the files of length-prefixed chunks (\<^verbatim>\<open>RecordFile\<close>) that hold the checkpoints.
  The disk is a \<open>filesys\<close>; a \<^verbatim>\<open>FILE*\<close> is a position in a file and the bytes that \<^verbatim>\<open>fwrite\<close> has taken
  and \<^verbatim>\<open>fflush\<close> has not yet written. The LZO library is the argument \<open>z\<close>, a pair of functions that
  return \<open>None\<close> where the library returns an error. Machine integers are stored with the low byte first.
\<close>

section \<open>Bytes of an integer\<close>

fun le_string :: "nat \<Rightarrow> nat \<Rightarrow> string" where
  "le_string 0 n = []"
| "le_string (Suc k) n = char_of (n mod 256) # le_string k (n div 256)"

fun le_value :: "string \<Rightarrow> nat" where
  "le_value [] = 0"
| "le_value (c # cs) = of_char c + 256 * le_value cs"

definition int_bytes :: "int \<Rightarrow> string" where
  "int_bytes n = le_string 4 (nat (n mod 2 ^ 32))"

definition bytes_int :: "string \<Rightarrow> int" where
  "bytes_int s = to_int32 (int (le_value s))"

lemma length_le_string [simp]: "length (le_string k n) = k"
  by (induction k arbitrary: n) simp_all

lemma le_value_bytes: "le_value (le_string k n) = n mod 256 ^ k"
proof (induction k arbitrary: n)
  case (Suc k)
  then show ?case using mod_mult2_eq [of n 256 "256 ^ k"] by (simp add: of_char_of)
qed simp

lemma le_string_value: "le_string (length s) (le_value s) = s"
proof (induction s)
  case (Cons c s)
  then show ?case using nat_of_char_less_256 [of c] by (simp del: nat_of_char_less_256)
qed simp

lemma bytes_int_bytes: "- (2 ^ 31) \<le> n \<Longrightarrow> n < 2 ^ 31 \<Longrightarrow> bytes_int (int_bytes n) = n"
  using to_int32_id [of n] by (simp add: bytes_int_def int_bytes_def le_value_bytes to_int32_def mod_simps)

lemma length_int_bytes [simp]: "length (int_bytes n) = 4"
  by (simp add: int_bytes_def)

section \<open>The disk\<close>

text \<open>
  A directory from paths to files, their contents, and the paths at which the operating system lets
  the process create a file.
\<close>

record filesys =
  fs_dir :: "string \<Rightarrow> nat option"
  fs_data :: "nat \<Rightarrow> string"
  fs_next :: nat
  fs_grants :: "string \<Rightarrow> bool"

definition fs_new :: "(string \<Rightarrow> bool) \<Rightarrow> filesys" where
  "fs_new grants = \<lparr>fs_dir = (\<lambda>_. None), fs_data = (\<lambda>_. []), fs_next = 0, fs_grants = grants\<rparr>"

definition fs_content :: "filesys \<Rightarrow> string \<Rightarrow> string option" where
  "fs_content fs path = map_option (fs_data fs) (fs_dir fs path)"

text \<open>
  Every file of the directory has been created, and two paths never name the same file (the program
  makes no links).
\<close>

definition fs_ok :: "filesys \<Rightarrow> bool" where
  "fs_ok fs \<longleftrightarrow> (\<forall>p i. fs_dir fs p = Some i \<longrightarrow> i < fs_next fs) \<and>
     (\<forall>p q i. fs_dir fs p = Some i \<longrightarrow> fs_dir fs q = Some i \<longrightarrow> p = q)"

definition File_Exists :: "string \<Rightarrow> filesys \<Rightarrow> bool" where
  "File_Exists f fs \<longleftrightarrow> fs_dir fs f \<noteq> None"

definition File_Move :: "string \<Rightarrow> string \<Rightarrow> filesys \<Rightarrow> filesys result" where
  "File_Move src dst fs = rbind (check (fs_dir fs src \<noteq> None)) (\<lambda>_.
     if src = dst then Inr fs else Inr (fs\<lparr>fs_dir := (fs_dir fs)(dst := fs_dir fs src, src := None)\<rparr>))"

section \<open>Local files\<close>

record LocalFile =
  lf_inode :: nat
  lf_path :: string
  lf_mode :: string
  lf_pos :: nat
  lf_eof :: bool
  lf_wbuf :: string
  lf_close_on_delete :: bool

text \<open>\<^verbatim>\<open>fopen\<close>; the modes of the program are \<^verbatim>\<open>"r"\<close> and, for every other, writing an empty file.\<close>

definition lf_fopen :: "string \<Rightarrow> string \<Rightarrow> filesys \<Rightarrow> (nat \<times> filesys) option" where
  "lf_fopen name mode fs =
     (if mode = ''r'' then map_option (\<lambda>i. (i, fs)) (fs_dir fs name)
      else if \<not> fs_grants fs name then None
      else case fs_dir fs name of
        Some i \<Rightarrow> Some (i, fs\<lparr>fs_data := (fs_data fs)(i := [])\<rparr>)
      | None \<Rightarrow> Some (fs_next fs, fs\<lparr>fs_dir := (fs_dir fs)(name := Some (fs_next fs)),
          fs_data := (fs_data fs)(fs_next fs := []), fs_next := fs_next fs + 1\<rparr>))"

definition lf_new :: "string \<Rightarrow> string \<Rightarrow> filesys \<Rightarrow> (LocalFile \<times> filesys) result" where
  "lf_new name mode fs = (case lf_fopen name mode fs of None \<Rightarrow> Inl CheckFailed
     | Some (i, fs') \<Rightarrow> Inr (\<lparr>lf_inode = i, lf_path = name, lf_mode = mode, lf_pos = 0, lf_eof = False, lf_wbuf = [],
         lf_close_on_delete = True\<rparr>, fs'))"

text \<open>A file around a stream that somebody else opened and closes.\<close>

definition lf_of_stream :: "(nat \<times> string) option \<Rightarrow> LocalFile result" where
  "lf_of_stream stream = (case stream of None \<Rightarrow> Inl CheckFailed
     | Some (i, mode) \<Rightarrow> Inr \<lparr>lf_inode = i, lf_path = ''<EXTERNAL FILE>'', lf_mode = mode, lf_pos = 0, lf_eof = False, lf_wbuf = [],
         lf_close_on_delete = False\<rparr>)"

text \<open>
  A stream that is not open for reading gives no bytes, one that is open for reading only takes none;
  neither is the end of the file.
\<close>

definition lf_left :: "filesys \<Rightarrow> LocalFile \<Rightarrow> string" where
  "lf_left fs f = (if lf_mode f = ''r'' then drop (lf_pos f) (fs_data fs (lf_inode f)) else [])"

definition lf_read :: "filesys \<Rightarrow> nat \<Rightarrow> LocalFile \<Rightarrow> string \<times> LocalFile" where
  "lf_read fs n f = (let s = take n (lf_left fs f) in
     (s, f\<lparr>lf_pos := lf_pos f + length s, lf_eof := lf_eof f \<or> (lf_mode f = ''r'' \<and> length s < n)\<rparr>))"

definition lf_write :: "string \<Rightarrow> LocalFile \<Rightarrow> LocalFile" where
  "lf_write s f = (if lf_mode f = ''r'' then f else f\<lparr>lf_wbuf := lf_wbuf f @ s\<rparr>)"

definition lf_write_string :: "string \<Rightarrow> LocalFile \<Rightarrow> LocalFile" where
  "lf_write_string = lf_write"

definition lf_seek :: "nat \<Rightarrow> LocalFile \<Rightarrow> LocalFile" where
  "lf_seek p f = f\<lparr>lf_pos := p, lf_eof := False\<rparr>"

definition lf_tell :: "LocalFile \<Rightarrow> nat" where
  "lf_tell f = lf_pos f + length (lf_wbuf f)"

definition lf_flush :: "LocalFile \<Rightarrow> filesys \<Rightarrow> LocalFile \<times> filesys" where
  "lf_flush f fs = (let d = fs_data fs (lf_inode f); n = length (lf_wbuf f) in
     (f\<lparr>lf_pos := lf_pos f + n, lf_wbuf := []\<rparr>,
      fs\<lparr>fs_data := (fs_data fs)(lf_inode f := take (lf_pos f) d @ lf_wbuf f @ drop (lf_pos f + n) d)\<rparr>))"

text \<open>\<^verbatim>\<open>sync\<close> calls \<^verbatim>\<open>fsync\<close>, which does not see what \<^verbatim>\<open>fwrite\<close> still holds back.\<close>

definition lf_sync :: "LocalFile \<Rightarrow> LocalFile" where
  "lf_sync f = f"

definition lf_delete :: "LocalFile \<Rightarrow> filesys \<Rightarrow> filesys" where
  "lf_delete f fs = (if lf_close_on_delete f then snd (lf_flush f fs) else fs)"

text \<open>
  \<^verbatim>\<open>read_line\<close>: \<^verbatim>\<open>fgets\<close> into a buffer of 8192 zero bytes, and the C string that is in it.
\<close>

definition fgets_line :: "nat \<Rightarrow> string \<Rightarrow> string" where
  "fgets_line n s = (let w = take n s; l = takeWhile (\<lambda>c. c \<noteq> newline) w in take (length l + 1) w)"

definition lf_read_line :: "filesys \<Rightarrow> LocalFile \<Rightarrow> (bool \<times> string) \<times> LocalFile" where
  "lf_read_line fs f = (let s = fgets_line 8191 (lf_left fs f) in
     ((s \<noteq> [], takeWhile (\<lambda>c. c \<noteq> CHR 0x00) s),
      f\<lparr>lf_pos := lf_pos f + length s, lf_eof := lf_eof f \<or> (lf_mode f = ''r'' \<and> length s < 8191 \<and> newline \<notin> set s)\<rparr>))"

definition File_readLine :: "filesys \<Rightarrow> LocalFile \<Rightarrow> string \<times> LocalFile" where
  "File_readLine fs f = (case lf_read_line fs f of ((_, s), f') \<Rightarrow> (s, f'))"

text \<open>\<^verbatim>\<open>Slurp\<close>: read 32768 bytes at a time until nothing comes.\<close>

function slurp_loop :: "filesys \<Rightarrow> LocalFile \<Rightarrow> string \<Rightarrow> string" where
  "slurp_loop fs f out =
     (if lf_eof f then out
      else case lf_read fs 32768 f of (s, f') \<Rightarrow> if s \<noteq> [] then slurp_loop fs f' (out @ s) else out)"
  by pat_completeness auto
termination
  by (relation "measure (\<lambda>(fs, f, out). length (lf_left fs f))") (auto simp: lf_read_def lf_left_def Let_def split: if_splits)

declare slurp_loop.simps [simp del]

definition File_Slurp :: "string \<Rightarrow> filesys \<Rightarrow> string result" where
  "File_Slurp file fs = rbind (lf_new file ''r'' fs) (\<lambda>(f, fs'). Inr (slurp_loop fs' f []))"

definition File_Dump :: "string \<Rightarrow> string \<Rightarrow> filesys \<Rightarrow> filesys result" where
  "File_Dump file data fs = (case lf_fopen file ''w+'' fs of None \<Rightarrow> Inl Fatal
     | Some (i, fs') \<Rightarrow> Inr (fs'\<lparr>fs_data := (fs_data fs')(i := data)\<rparr>))"

lemma lf_read_left:
  assumes "lf_read fs n f = (s, f')"
  shows "s = take n (lf_left fs f)" and "lf_left fs f' = drop n (lf_left fs f)" and "lf_inode f' = lf_inode f"
    and "lf_eof f' \<longleftrightarrow> lf_eof f \<or> lf_mode f = ''r'' \<and> length (lf_left fs f) < n" and "lf_mode f' = lf_mode f"
    and "lf_path f' = lf_path f" and "lf_wbuf f' = lf_wbuf f"
proof -
  have s: "s = take n (lf_left fs f)"
    and f': "f' = f\<lparr>lf_pos := lf_pos f + length s, lf_eof := lf_eof f \<or> (lf_mode f = ''r'' \<and> length s < n)\<rparr>"
    using assms by (auto simp: lf_read_def Let_def)
  show "s = take n (lf_left fs f)" by (rule s)
  show "lf_left fs f' = drop n (lf_left fs f)"
    by (auto simp: f' s lf_left_def min_def add.commute)
  show "lf_eof f' \<longleftrightarrow> lf_eof f \<or> lf_mode f = ''r'' \<and> length (lf_left fs f) < n" using f' s by auto
qed (use assms in \<open>auto simp: lf_read_def Let_def\<close>)

lemma slurp_loop_eq: "slurp_loop fs f out = out @ (if lf_eof f then [] else lf_left fs f)"
proof (induction fs f out rule: slurp_loop.induct)
  case (1 fs f out)
  obtain s f' where r: "lf_read fs 32768 f = (s, f')" by (cases "lf_read fs 32768 f")
  note l = lf_read_left [OF r]
  show ?case
  proof (cases "lf_eof f \<or> s = []")
    case True
    then show ?thesis using l(1) by (subst slurp_loop.simps) (auto simp: r)
  next
    case False
    with 1 r have "slurp_loop fs f' (out @ s) = (out @ s) @ (if lf_eof f' then [] else lf_left fs f')" by simp
    moreover have "lf_mode f = ''r''" using False l(1) by (auto simp: lf_left_def split: if_splits)
    then have "s @ (if lf_eof f' then [] else lf_left fs f') = lf_left fs f"
      using False l(1,2,4) append_take_drop_id [of 32768 "lf_left fs f"] by auto
    ultimately show ?thesis using False by (subst slurp_loop.simps) (simp add: r)
  qed
qed

section \<open>Compressed files\<close>

record lzo =
  lzo_compress :: "string \<Rightarrow> string option"
  lzo_decompress :: "string \<Rightarrow> string option"

definition kBlockSize :: nat where "kBlockSize = 512000"
definition kCompressedBlockSize :: nat where "kCompressedBlockSize = kBlockSize + kBlockSize div 16 + 64 + 3"

text \<open>\<open>lz_raw\<close> is \<^verbatim>\<open>block.raw\<close> up to \<^verbatim>\<open>block.len\<close>, \<open>lz_bpos\<close> is \<^verbatim>\<open>block.pos\<close>.\<close>

record LZOFile =
  lz_f :: LocalFile
  lz_pos :: nat
  lz_raw :: string
  lz_bpos :: nat

definition lz_write_block :: "lzo \<Rightarrow> LZOFile \<Rightarrow> LZOFile result" where
  "lz_write_block z x = (if lz_raw x = [] then Inr x
     else case lzo_compress z (lz_raw x) of None \<Rightarrow> Inl CheckFailed
     | Some c \<Rightarrow> Inr (x\<lparr>lz_f := lf_write c (lf_write (int_bytes (int (length c))) (lz_f x)), lz_raw := []\<rparr>))"

definition lz_read_block :: "lzo \<Rightarrow> filesys \<Rightarrow> LZOFile \<Rightarrow> (bool \<times> LZOFile) result" where
  "lz_read_block z fs x = (case lf_read fs 4 (lz_f x) of (s, f1) \<Rightarrow>
     if length s \<noteq> 4 then Inr (False, x\<lparr>lz_f := f1, lz_raw := [], lz_bpos := 0\<rparr>)
     else let comp_size = bytes_int s in
       if comp_size < 0 \<or> int kCompressedBlockSize < comp_size then Inl OutOfBounds
       else case lf_read fs (nat comp_size) f1 of (c, f2) \<Rightarrow>
         rbind (check (int (length c) = comp_size)) (\<lambda>_.
         rbind (check (0 < comp_size)) (\<lambda>_.
           case lzo_decompress z c of None \<Rightarrow> Inl CheckFailed
           | Some r \<Rightarrow> Inr (True, x\<lparr>lz_f := f2, lz_raw := r, lz_bpos := 0\<rparr>))))"

definition lz_init :: "lzo \<Rightarrow> filesys \<Rightarrow> LocalFile \<Rightarrow> string \<Rightarrow> LZOFile result" where
  "lz_init z fs f mode = (let x = \<lparr>lz_f = f, lz_pos = 0, lz_raw = [], lz_bpos = 0\<rparr> in
     if mode = ''r'' then rbind (lz_read_block z fs x) (\<lambda>(_, x). Inr x) else Inr x)"

lemma lz_write_block_raw: "lz_write_block z x = Inr x1 \<Longrightarrow> lz_raw x1 = []"
  by (auto simp: lz_write_block_def split: if_splits option.splits)

text \<open>\<^verbatim>\<open>write\<close>: every round of the loop takes at least one byte of what is left.\<close>

function lz_write :: "lzo \<Rightarrow> string \<Rightarrow> LZOFile \<Rightarrow> LZOFile result" where
  "lz_write z data x =
     (case (if kBlockSize < length (lz_raw x) + length data then lz_write_block z x else Inr x) of
        Inl e \<Rightarrow> Inl e
      | Inr x1 \<Rightarrow>
          let n = min (kBlockSize - length (lz_raw x1)) (length data);
              x2 = x1\<lparr>lz_raw := lz_raw x1 @ take n data\<rparr>
          in if drop n data \<noteq> [] then lz_write z (drop n data) x2 else Inr x2)"
  by pat_completeness auto
termination
proof (relation "measure (\<lambda>(z, data, x). length data)", goal_cases)
  case (2 z data x x1 n x2)
  then have "lz_raw x1 = [] \<or> n = length data"
    using lz_write_block_raw [of z x x1] by (auto split: if_splits)
  with 2 show ?case by (auto simp: kBlockSize_def)
qed simp

declare lz_write.simps [simp del]

text \<open>
  \<^verbatim>\<open>read\<close>: the value it returns, the bytes it has copied into the buffer, and the file.
\<close>

lemma lz_read_block_left:
  assumes "lz_read_block z fs x = Inr (ok, x')"
  shows "length (lf_left fs (lz_f x')) \<le> length (lf_left fs (lz_f x)) \<and>
    (ok \<longrightarrow> length (lf_left fs (lz_f x')) < length (lf_left fs (lz_f x))) \<and> (\<not> ok \<longrightarrow> lz_raw x' = [] \<and> lz_bpos x' = 0)"
proof -
  obtain s f1 where r: "lf_read fs 4 (lz_f x) = (s, f1)" by (cases "lf_read fs 4 (lz_f x)")
  obtain c f2 where r2: "lf_read fs (nat (bytes_int s)) f1 = (c, f2)" by (cases "lf_read fs (nat (bytes_int s)) f1")
  have "length s = min (length (lf_left fs (lz_f x))) 4" "length (lf_left fs f1) = length (lf_left fs (lz_f x)) - 4"
    "length (lf_left fs f2) \<le> length (lf_left fs f1)"
    using lf_read_left(1,2) [OF r] lf_read_left(2) [OF r2] by simp_all
  then show ?thesis using assms
    by (auto simp: lz_read_block_def r r2 Let_def result_simps split: if_splits option.splits)
qed

function lz_read :: "lzo \<Rightarrow> filesys \<Rightarrow> nat \<Rightarrow> string \<Rightarrow> LZOFile \<Rightarrow> (bool \<times> string \<times> LZOFile) result" where
  "lz_read z fs left out x =
     (case (if lz_bpos x = length (lz_raw x) then lz_read_block z fs x else Inr (True, x)) of
        Inl e \<Rightarrow> Inl e
      | Inr (ok, x1) \<Rightarrow> if \<not> ok then Inr (False, out, x1)
          else let n = min left (length (lz_raw x1) - lz_bpos x1);
                   x2 = x1\<lparr>lz_bpos := lz_bpos x1 + n, lz_pos := lz_pos x1 + n\<rparr>;
                   out' = out @ take n (drop (lz_bpos x1) (lz_raw x1))
               in if lz_bpos x1 > length (lz_raw x1) then Inl OutOfBounds
                  else if left - n > 0 then lz_read z fs (left - n) out' x2 else Inr (True, out', x2))"
  by pat_completeness auto
termination
proof (relation "measure (\<lambda>(z, fs, left, out, x). left + length (lf_left fs (lz_f x)))", goal_cases)
  case (2 z fs left out x p ok x1 n x2 out')
  show ?case
  proof (cases "lz_bpos x = length (lz_raw x)")
    case True
    with 2 have "length (lf_left fs (lz_f x1)) < length (lf_left fs (lz_f x))"
      using lz_read_block_left [of z fs x ok x1] by auto
    with 2 show ?thesis by simp
  next
    case False
    with 2 show ?thesis by auto
  qed
qed simp

declare lz_read.simps [simp del]

definition lz_eof :: "LZOFile \<Rightarrow> bool" where
  "lz_eof x \<longleftrightarrow> lf_eof (lz_f x) \<and> lz_bpos x = length (lz_raw x)"

text \<open>The destructor writes the last block and closes the file.\<close>

definition lz_delete :: "lzo \<Rightarrow> LZOFile \<Rightarrow> filesys \<Rightarrow> filesys result" where
  "lz_delete z x fs = rbind (lz_write_block z x) (\<lambda>x'. Inr (lf_delete (lz_f x') fs))"

section \<open>Either kind of file\<close>

datatype File = Local LocalFile | Lzo LZOFile

text \<open>\<^verbatim>\<open>read\<close> returns a number and fills the buffer; the two differ for a compressed file at its end.\<close>

definition fl_read :: "lzo \<Rightarrow> filesys \<Rightarrow> nat \<Rightarrow> File \<Rightarrow> (nat \<times> string \<times> File) result" where
  "fl_read z fs n f = (case f of
       Local l \<Rightarrow> (case lf_read fs n l of (s, l') \<Rightarrow> Inr (length s, s, Local l'))
     | Lzo x \<Rightarrow> rbind (lz_read z fs n [] x) (\<lambda>(ok, s, x'). Inr (if ok then n else 0, s, Lzo x')))"

definition fl_write :: "lzo \<Rightarrow> string \<Rightarrow> File \<Rightarrow> File result" where
  "fl_write z s f = (case f of
       Local l \<Rightarrow> Inr (Local (lf_write s l))
     | Lzo x \<Rightarrow> rbind (lz_write z s x) (\<lambda>x'. Inr (Lzo x')))"

definition fl_eof :: "File \<Rightarrow> bool" where
  "fl_eof f = (case f of Local l \<Rightarrow> lf_eof l | Lzo x \<Rightarrow> lz_eof x)"

definition fl_tell :: "File \<Rightarrow> nat" where
  "fl_tell f = (case f of Local l \<Rightarrow> lf_tell l | Lzo x \<Rightarrow> lz_pos x)"

definition fl_seek :: "nat \<Rightarrow> File \<Rightarrow> File result" where
  "fl_seek p f = (case f of Local l \<Rightarrow> Inr (Local (lf_seek p l)) | Lzo x \<Rightarrow> Inl Fatal)"

definition fl_sync :: "File \<Rightarrow> File" where
  "fl_sync f = (case f of Local l \<Rightarrow> Local (lf_sync l) | Lzo x \<Rightarrow> Lzo (x\<lparr>lz_f := lf_sync (lz_f x)\<rparr>))"

definition fl_delete :: "lzo \<Rightarrow> File \<Rightarrow> filesys \<Rightarrow> filesys result" where
  "fl_delete z f fs = (case f of Local l \<Rightarrow> Inr (lf_delete l fs) | Lzo x \<Rightarrow> lz_delete z x fs)"

section \<open>Record files\<close>

datatype CompressionType = NONE | LZO

record RecordFile =
  rf_fp :: File
  rf_path :: string
  rf_mode :: string

definition rf_new :: "lzo \<Rightarrow> string \<Rightarrow> string \<Rightarrow> CompressionType \<Rightarrow> filesys \<Rightarrow> (RecordFile \<times> filesys) result" where
  "rf_new z path mode compression fs =
     rbind (lf_new (if mode = ''r'' then path else path @ ''.tmp'') mode fs) (\<lambda>(l, fs').
     rbind (if compression = LZO then rbind (lz_init z fs' l mode) (\<lambda>x. Inr (Lzo x)) else Inr (Local l)) (\<lambda>fp.
       Inr (\<lparr>rf_fp = fp, rf_path = path, rf_mode = mode\<rparr>, fs')))"

text \<open>The destructor: the file gets its name before its last bytes are written.\<close>

definition rf_delete :: "lzo \<Rightarrow> RecordFile \<Rightarrow> filesys \<Rightarrow> filesys result" where
  "rf_delete z r fs =
     (if rf_mode r \<noteq> ''r''
      then rbind (File_Move (rf_path r @ ''.tmp'') (rf_path r) fs) (\<lambda>fs'. fl_delete z (fl_sync (rf_fp r)) fs')
      else fl_delete z (rf_fp r) fs)"

definition rf_writeChunk :: "lzo \<Rightarrow> string \<Rightarrow> RecordFile \<Rightarrow> RecordFile result" where
  "rf_writeChunk z data r =
     rbind (fl_write z (int_bytes (int (length data))) (rf_fp r)) (\<lambda>fp.
     rbind (fl_write z data fp) (\<lambda>fp'. Inr (r\<lparr>rf_fp := fp'\<rparr>)))"

text \<open>
  \<^verbatim>\<open>readChunk\<close>, over the \<^verbatim>\<open>read\<close> of a file: \<open>None\<close> is the return value \<^verbatim>\<open>false\<close>. What a short second read
  does not fill are the zero bytes of \<^verbatim>\<open>resize\<close>.
\<close>

definition read_chunk :: "(nat \<Rightarrow> 'h \<Rightarrow> (nat \<times> string \<times> 'h) result) \<Rightarrow> 'h \<Rightarrow> (string option \<times> 'h) result" where
  "read_chunk rd h = rbind (rd 4 h) (\<lambda>(r, s, h1).
     if r < 4 then Inr (None, h1)
     else let len = bytes_int s in
       if len < 0 then Inl LengthError
       else rbind (rd (nat len) h1) (\<lambda>(_, d, h2).
         Inr (Some (d @ replicate (nat len - length d) (CHR 0x00)), h2)))"

definition rf_readChunk :: "lzo \<Rightarrow> filesys \<Rightarrow> RecordFile \<Rightarrow> (string option \<times> RecordFile) result" where
  "rf_readChunk z fs r = rbind (read_chunk (fl_read z fs) (rf_fp r)) (\<lambda>(s, fp). Inr (s, r\<lparr>rf_fp := fp\<rparr>))"

text \<open>Protocol buffers: \<open>ser\<close> is \<^verbatim>\<open>SerializeAsString\<close>, \<open>parse\<close> is \<^verbatim>\<open>ParseFromString\<close>.\<close>

definition rf_write :: "lzo \<Rightarrow> ('m \<Rightarrow> string) \<Rightarrow> 'm \<Rightarrow> RecordFile \<Rightarrow> RecordFile result" where
  "rf_write z ser m r = rf_writeChunk z (ser m) r"

definition rf_read :: "lzo \<Rightarrow> filesys \<Rightarrow> (string \<Rightarrow> 'm option) \<Rightarrow> RecordFile \<Rightarrow> ('m option \<times> RecordFile) result" where
  "rf_read z fs parse r = rbind (rf_readChunk z fs r) (\<lambda>(s, r').
     case s of None \<Rightarrow> Inr (None, r')
     | Some buf \<Rightarrow> (case parse buf of None \<Rightarrow> Inl CheckFailed | Some m \<Rightarrow> Inr (Some m, r')))"

definition rf_eof :: "RecordFile \<Rightarrow> bool" where
  "rf_eof r = fl_eof (rf_fp r)"

definition rf_sync :: "RecordFile \<Rightarrow> RecordFile" where
  "rf_sync r = r\<lparr>rf_fp := fl_sync (rf_fp r)\<rparr>"

text \<open>\<^verbatim>\<open>seek\<close> skips chunks; each takes at least four bytes, so \<open>pos\<close> rounds are enough.\<close>

fun rf_seek_loop :: "nat \<Rightarrow> lzo \<Rightarrow> filesys \<Rightarrow> nat \<Rightarrow> RecordFile \<Rightarrow> RecordFile result" where
  "rf_seek_loop fuel z fs p r =
     (if fl_tell (rf_fp r) < p
      then rbind (rf_readChunk z fs r) (\<lambda>(s, r').
        if s = None then Inr r' else case fuel of 0 \<Rightarrow> Inl Diverges | Suc fuel' \<Rightarrow> rf_seek_loop fuel' z fs p r')
      else Inr r)"

declare rf_seek_loop.simps [simp del]

definition rf_seek :: "lzo \<Rightarrow> filesys \<Rightarrow> nat \<Rightarrow> RecordFile \<Rightarrow> RecordFile result" where
  "rf_seek z fs p r = rf_seek_loop p z fs p r"

section \<open>Chunks over a stream of bytes\<close>

definition frame :: "string \<Rightarrow> string" where
  "frame s = int_bytes (int (length s)) @ s"

definition chunk_ok :: "string \<Rightarrow> bool" where
  "chunk_ok s \<longleftrightarrow> length s < 2 ^ 31"

text \<open>
  What a reader of chunks needs of a file: \<open>gives h w\<close> says that the bytes \<open>w\<close> are still to come; a read
  of at most that many gives the first of them, a longer one returns less than it was asked for.
\<close>

locale byte_source =
  fixes rd :: "nat \<Rightarrow> 'h \<Rightarrow> (nat \<times> string \<times> 'h) result" and gives :: "'h \<Rightarrow> string \<Rightarrow> bool"
  assumes rd_enough: "gives h (u @ w) \<Longrightarrow> \<exists>h'. rd (length u) h = Inr (length u, u, h') \<and> gives h' w"
    and rd_short: "gives h w \<Longrightarrow> length w < n \<Longrightarrow> \<exists>r s h'. rd n h = Inr (r, s, h') \<and> r < n \<and> gives h' []"
begin

lemma read_chunk_frame:
  assumes "gives h (frame c @ w)" and "chunk_ok c"
  shows "\<exists>h'. read_chunk rd h = Inr (Some c, h') \<and> gives h' w"
proof -
  from assms(1) have "gives h (int_bytes (int (length c)) @ c @ w)" by (simp add: frame_def)
  from rd_enough [OF this] obtain h1 where h1: "rd 4 h = Inr (4, int_bytes (int (length c)), h1)" "gives h1 (c @ w)"
    by auto
  from rd_enough [OF h1(2)] obtain h2 where h2: "rd (length c) h1 = Inr (length c, c, h2)" "gives h2 w" by blast
  have "bytes_int (int_bytes (int (length c))) = int (length c)"
    using assms(2) by (intro bytes_int_bytes) (simp_all add: chunk_ok_def)
  with h1 h2 show ?thesis by (simp add: read_chunk_def)
qed

lemma read_chunk_end:
  assumes "gives h []"
  shows "\<exists>h'. read_chunk rd h = Inr (None, h') \<and> gives h' []"
  using rd_short [OF assms, of 4] by (auto simp: read_chunk_def)

end

text \<open>And a writer: \<open>holds h w\<close> says that \<open>w\<close> has been written.\<close>

locale byte_sink =
  fixes wr :: "string \<Rightarrow> 'h \<Rightarrow> 'h result" and holds :: "'h \<Rightarrow> string \<Rightarrow> bool"
  assumes wr_appends: "holds h w \<Longrightarrow> \<exists>h'. wr s h = Inr h' \<and> holds h' (w @ s)"
begin

lemma wr_frame:
  assumes "holds h w"
  shows "\<exists>h'. rbind (wr (int_bytes (int (length c))) h) (wr c) = Inr h' \<and> holds h' (w @ frame c)"
proof -
  obtain h1 where h1: "wr (int_bytes (int (length c))) h = Inr h1" "holds h1 (w @ int_bytes (int (length c)))"
    using wr_appends [OF assms] by blast
  from wr_appends [OF h1(2), of c] h1(1) show ?thesis by (auto simp: frame_def)
qed

end

section \<open>Local files are streams of bytes\<close>

definition lf_reading :: "LocalFile \<Rightarrow> bool" where
  "lf_reading f \<longleftrightarrow> lf_mode f = ''r'' \<and> lf_wbuf f = []"

definition lf_gives :: "filesys \<Rightarrow> LocalFile \<Rightarrow> string \<Rightarrow> bool" where
  "lf_gives fs f w \<longleftrightarrow> lf_reading f \<and> lf_left fs f = w"

definition lf_holds :: "nat \<Rightarrow> LocalFile \<Rightarrow> string \<Rightarrow> bool" where
  "lf_holds i f w \<longleftrightarrow> lf_inode f = i \<and> lf_mode f \<noteq> ''r'' \<and> lf_pos f = 0 \<and> lf_wbuf f = w \<and> lf_close_on_delete f"

interpretation plain: byte_source "\<lambda>n f. case lf_read fs n f of (s, f') \<Rightarrow> Inr (length s, s, f')" "lf_gives fs" for fs
proof
  fix h u w
  assume "lf_gives fs h (u @ w)"
  moreover obtain s f' where r: "lf_read fs (length u) h = (s, f')" by (cases "lf_read fs (length u) h")
  ultimately show "\<exists>h'. (case lf_read fs (length u) h of (s, f') \<Rightarrow> Inr (length s, s, f')) = Inr (length u, u, h') \<and> lf_gives fs h' w"
    using lf_read_left [OF r] by (simp add: lf_gives_def lf_reading_def)
next
  fix h w n
  assume "lf_gives fs h w" "length w < n"
  moreover obtain s f' where r: "lf_read fs n h = (s, f')" by (cases "lf_read fs n h")
  ultimately show "\<exists>r s h'. (case lf_read fs n h of (s, f') \<Rightarrow> Inr (length s, s, f')) = Inr (r, s, h') \<and> r < n \<and> lf_gives fs h' []"
    using lf_read_left [OF r] by (simp add: lf_gives_def lf_reading_def)
qed

interpretation plain_out: byte_sink "\<lambda>s f. Inr (lf_write s f)" "lf_holds i" for i
  by unfold_locales (auto simp: lf_holds_def lf_write_def)

section \<open>Compressed files are streams of bytes\<close>

text \<open>What the library promises: a block that it compresses, it can restore.\<close>

definition lzo_ok :: "lzo \<Rightarrow> bool" where
  "lzo_ok z \<longleftrightarrow> (\<forall>b. 0 < length b \<and> length b \<le> kBlockSize \<longrightarrow>
     (\<exists>c. lzo_compress z b = Some c \<and> 0 < length c \<and> length c \<le> kCompressedBlockSize \<and> lzo_decompress z c = Some b))"

definition pack :: "lzo \<Rightarrow> string list \<Rightarrow> string" where
  "pack z bs = concat (map (\<lambda>b. frame (the (lzo_compress z b))) bs)"

definition blocks_ok :: "string list \<Rightarrow> bool" where
  "blocks_ok bs \<longleftrightarrow> (\<forall>b \<in> set bs. 0 < length b \<and> length b \<le> kBlockSize)"

lemma blocks_ok_simps [simp]: "blocks_ok []"
  "blocks_ok (b # bs) \<longleftrightarrow> 0 < length b \<and> length b \<le> kBlockSize \<and> blocks_ok bs"
  "blocks_ok (as @ bs) \<longleftrightarrow> blocks_ok as \<and> blocks_ok bs"
  by (auto simp: blocks_ok_def)

lemma pack_simps [simp]: "pack z [] = []" "pack z (b # bs) = frame (the (lzo_compress z b)) @ pack z bs"
  "pack z (as @ bs) = pack z as @ pack z bs"
  by (simp_all add: pack_def)

definition lz_gives :: "lzo \<Rightarrow> filesys \<Rightarrow> LZOFile \<Rightarrow> string \<Rightarrow> bool" where
  "lz_gives z fs x w \<longleftrightarrow> lzo_ok z \<and> lf_reading (lz_f x) \<and> lz_bpos x \<le> length (lz_raw x) \<and> length (lz_raw x) \<le> kBlockSize \<and>
     (\<exists>bs. blocks_ok bs \<and> lf_left fs (lz_f x) = pack z bs \<and> w = drop (lz_bpos x) (lz_raw x) @ concat bs)"

definition lz_holds :: "lzo \<Rightarrow> nat \<Rightarrow> LZOFile \<Rightarrow> string \<Rightarrow> bool" where
  "lz_holds z i x w \<longleftrightarrow> lzo_ok z \<and> length (lz_raw x) \<le> kBlockSize \<and>
     (\<exists>bs. blocks_ok bs \<and> lf_holds i (lz_f x) (pack z bs) \<and> w = concat bs @ lz_raw x)"

lemma lzo_okD:
  assumes "lzo_ok z" "0 < length b" "length b \<le> kBlockSize"
  obtains c where "lzo_compress z b = Some c" "0 < length c" "length c \<le> kCompressedBlockSize" "lzo_decompress z c = Some b"
  using assms unfolding lzo_ok_def by blast

lemma lz_write_block_holds:
  assumes "lz_holds z i x w"
  shows "\<exists>x'. lz_write_block z x = Inr x' \<and> lz_holds z i x' w \<and> lz_raw x' = []"
proof (cases "lz_raw x = []")
  case False
  obtain bs where bs: "lzo_ok z" "length (lz_raw x) \<le> kBlockSize" "blocks_ok bs" "lf_holds i (lz_f x) (pack z bs)"
      "w = concat bs @ lz_raw x"
    using assms by (auto simp: lz_holds_def)
  obtain c where c: "lzo_compress z (lz_raw x) = Some c" using lzo_okD [OF bs(1), of "lz_raw x"] bs(2) False by auto
  have "lf_holds i (lf_write c (lf_write (int_bytes (int (length c))) (lz_f x))) (pack z (bs @ [lz_raw x]))"
    using bs(4) by (auto simp: lf_holds_def lf_write_def frame_def c)
  then show ?thesis using False bs c
    by (auto simp: lz_write_block_def lz_holds_def intro!: exI [of _ "bs @ [lz_raw x]"])
qed (use assms in \<open>auto simp: lz_write_block_def\<close>)

lemma lz_write_holds: "lz_holds z i x w \<Longrightarrow> \<exists>x'. lz_write z s x = Inr x' \<and> lz_holds z i x' (w @ s)"
proof (induction z s x arbitrary: w rule: lz_write.induct)
  case (1 z data x)
  obtain x1 where x1: "(if kBlockSize < length (lz_raw x) + length data then lz_write_block z x else Inr x) = Inr x1"
      "lz_holds z i x1 w" "lz_raw x1 = [] \<or> length (lz_raw x1) + length data \<le> kBlockSize"
    using lz_write_block_holds [OF 1(2)] 1(2) by (cases "kBlockSize < length (lz_raw x) + length data") auto
  let ?n = "min (kBlockSize - length (lz_raw x1)) (length data)"
  let ?x2 = "x1\<lparr>lz_raw := lz_raw x1 @ take ?n data\<rparr>"
  have h2: "lz_holds z i ?x2 (w @ take ?n data)" using x1(2) by (auto simp: lz_holds_def)
  show ?case
  proof (cases "drop ?n data = []")
    case True
    then have "take ?n data = data" by simp
    then show ?thesis using h2 x1(1) True by (subst lz_write.simps) (simp add: Let_def)
  next
    case False
    from 1(1) [OF x1(1) refl refl False h2] show ?thesis
      by (subst lz_write.simps) (simp only: x1(1) sum.case Let_def append.assoc append_take_drop_id False simp_thms if_True)
  qed
qed

interpretation packed_out: byte_sink "lz_write z" "lz_holds z i" for z i
  by unfold_locales (rule lz_write_holds)

lemma lf_read_frame:
  assumes "lf_reading f" and "lf_left fs f = frame c @ w" and "chunk_ok c"
  shows "\<exists>f1 f2. lf_read fs 4 f = (int_bytes (int (length c)), f1) \<and> lf_read fs (length c) f1 = (c, f2) \<and>
    lf_left fs f2 = w \<and> lf_reading f2 \<and> bytes_int (int_bytes (int (length c))) = int (length c)"
proof -
  obtain s f1 where r1: "lf_read fs 4 f = (s, f1)" by (cases "lf_read fs 4 f")
  obtain d f2 where r2: "lf_read fs (length c) f1 = (d, f2)" by (cases "lf_read fs (length c) f1")
  have "bytes_int (int_bytes (int (length c))) = int (length c)"
    using assms(3) by (intro bytes_int_bytes) (simp_all add: chunk_ok_def)
  then show ?thesis using assms r1 r2 lf_read_left [OF r1] lf_read_left [OF r2] by (simp add: frame_def lf_reading_def)
qed

lemma lz_read_block_gives:
  assumes "lzo_ok z" and "lf_reading (lz_f x)" and "lf_left fs (lz_f x) = pack z bs" and "blocks_ok bs"
  shows "\<exists>x'. lf_reading (lz_f x') \<and> lz_bpos x' = 0 \<and> (case bs of
      [] \<Rightarrow> lz_read_block z fs x = Inr (False, x') \<and> lz_raw x' = [] \<and> lf_left fs (lz_f x') = []
    | b # bs' \<Rightarrow> lz_read_block z fs x = Inr (True, x') \<and> lz_raw x' = b \<and> lf_left fs (lz_f x') = pack z bs')"
proof (cases bs)
  case Nil
  obtain s f1 where r: "lf_read fs 4 (lz_f x) = (s, f1)" by (cases "lf_read fs 4 (lz_f x)")
  show ?thesis using Nil assms(2,3) lf_read_left [OF r] by (simp add: lz_read_block_def r lf_reading_def)
next
  case (Cons b bs')
  obtain c where c: "lzo_compress z b = Some c" "0 < length c" "length c \<le> kCompressedBlockSize" "lzo_decompress z c = Some b"
    using lzo_okD [OF assms(1), of b] assms(4) Cons by auto
  have "chunk_ok c" using c(3) by (simp add: chunk_ok_def kCompressedBlockSize_def kBlockSize_def)
  moreover have "lf_left fs (lz_f x) = frame c @ pack z bs'" using assms(3) Cons c(1) by simp
  ultimately obtain f1 f2 where r: "lf_read fs 4 (lz_f x) = (int_bytes (int (length c)), f1)" "lf_read fs (length c) f1 = (c, f2)"
      "lf_left fs f2 = pack z bs'" "lf_reading f2" "bytes_int (int_bytes (int (length c))) = int (length c)"
    using lf_read_frame [OF assms(2)] by blast
  then show ?thesis using Cons c by (simp add: lz_read_block_def check_def)
qed

text \<open>One round of the reading loop: first make sure that there are bytes in the block.\<close>

lemma lz_refill_gives:
  assumes "lz_gives z fs x w"
  shows "\<exists>ok x1. (if lz_bpos x = length (lz_raw x) then lz_read_block z fs x else Inr (True, x)) = Inr (ok, x1) \<and>
    lz_gives z fs x1 w \<and> (if ok then lz_bpos x1 < length (lz_raw x1) else w = [])"
proof (cases "lz_bpos x = length (lz_raw x)")
  case True
  obtain bs where bs: "lzo_ok z" "lf_reading (lz_f x)" "lf_left fs (lz_f x) = pack z bs" "blocks_ok bs" "w = concat bs"
    using assms True by (auto simp: lz_gives_def)
  obtain x' where x': "lf_reading (lz_f x')" "lz_bpos x' = 0" and c: "case bs of
      [] \<Rightarrow> lz_read_block z fs x = Inr (False, x') \<and> lz_raw x' = [] \<and> lf_left fs (lz_f x') = []
    | b # bs' \<Rightarrow> lz_read_block z fs x = Inr (True, x') \<and> lz_raw x' = b \<and> lf_left fs (lz_f x') = pack z bs'"
    using lz_read_block_gives [OF bs(1-4)] by blast
  have "lz_gives z fs x' w"
    unfolding lz_gives_def using x' c bs by (intro conjI exI [of _ "tl bs"]) (auto split: list.splits)
  with c x' bs(4,5) True show ?thesis by (cases bs) auto
qed (use assms in \<open>auto simp: lz_gives_def\<close>)

lemma lz_read_gives:
  "lz_gives z fs x w \<Longrightarrow>
   if left \<le> length w
   then \<exists>ok x'. lz_read z fs left out x = Inr (ok, out @ take left w, x') \<and> (ok \<or> left = 0) \<and> lz_gives z fs x' (drop left w)
   else \<exists>s x'. lz_read z fs left out x = Inr (False, s, x') \<and> lz_gives z fs x' []"
proof (induction z fs left out x arbitrary: w rule: lz_read.induct)
  case (1 z fs left out x)
  let ?fill = "if lz_bpos x = length (lz_raw x) then lz_read_block z fs x else Inr (True, x)"
  obtain ok x1 where x1: "?fill = Inr (ok, x1)" "lz_gives z fs x1 w" "if ok then lz_bpos x1 < length (lz_raw x1) else w = []"
    using lz_refill_gives [OF 1(2)] by blast
  show ?case
  proof (cases ok)
    case False
    with x1 show ?thesis by (subst (1 2) lz_read.simps) auto
  next
    case True
    let ?n = "min left (length (lz_raw x1) - lz_bpos x1)"
    let ?x2 = "x1\<lparr>lz_bpos := lz_bpos x1 + ?n, lz_pos := lz_pos x1 + ?n\<rparr>"
    have b: "lz_bpos x1 < length (lz_raw x1)" using x1(3) True by simp
    have nok: "\<not> \<not> ok" using True by simp
    from b have nb: "(length (lz_raw x1) < lz_bpos x1) = False" by simp
    obtain bs where bs: "w = drop (lz_bpos x1) (lz_raw x1) @ concat bs" using x1(2) by (auto simp: lz_gives_def)
    have n: "take ?n (drop (lz_bpos x1) (lz_raw x1)) = take ?n w" "?n \<le> length w" by (auto simp: bs)
    have x2: "lz_gives z fs ?x2 (drop ?n w)"
      using x1(2) b by (auto simp: lz_gives_def add.commute)
    have step: "lz_read z fs left out x = (if left - ?n > 0 then lz_read z fs (left - ?n) (out @ take ?n w) ?x2
        else Inr (True, out @ take ?n w, ?x2))"
      using True by (subst lz_read.simps) (simp only: x1(1) sum.case prod.case Let_def n(1) nb simp_thms if_False)
    show ?thesis
    proof (cases "left - ?n > 0")
      case False
      then have "?n = left" by simp
      with step x2 n(2) show ?thesis by auto
    next
      case more: True
      have "\<not> lz_bpos x1 > length (lz_raw x1)" using b by simp
      note IH = 1(1) [OF x1(1) refl nok refl refl refl this more, unfolded n(1), OF x2]
      have e: "lz_read z fs left out x = lz_read z fs (left - ?n) (out @ take ?n w) ?x2"
        unfolding step by (rule if_P [OF more])
      have "take ?n w @ take (left - ?n) (drop ?n w) = take left w"
        by (metis le_add_diff_inverse min.cobounded1 take_add)
      moreover have "drop (left - ?n) (drop ?n w) = drop left w" by (simp only: drop_drop) simp
      moreover have "left - ?n \<le> length (drop ?n w) \<longleftrightarrow> left \<le> length w" using n(2) by (simp only: length_drop) arith
      moreover have "(left - ?n = 0) = False" using more by simp
      ultimately have "if left \<le> length w
        then \<exists>ok x'. lz_read z fs left out x = Inr (ok, out @ take left w, x') \<and> (ok \<or> False) \<and> lz_gives z fs x' (drop left w)
        else \<exists>s x'. lz_read z fs left out x = Inr (False, s, x') \<and> lz_gives z fs x' []"
        using IH by (simp only: e append.assoc)
      then show ?thesis by (cases "left \<le> length w") (simp_all only: if_True if_False simp_thms, blast+)
    qed
  qed
qed

interpretation packed: byte_source
  "\<lambda>n x. rbind (lz_read z fs n [] x) (\<lambda>(ok, s, x'). Inr (if ok then n else 0, s, x'))" "lz_gives z fs" for z fs
proof
  fix h u w
  assume "lz_gives z fs h (u @ w)"
  from lz_read_gives [OF this, of "length u" "[]"]
  show "\<exists>h'. rbind (lz_read z fs (length u) [] h) (\<lambda>(ok, s, x'). Inr (if ok then length u else 0, s, x')) =
      Inr (length u, u, h') \<and> lz_gives z fs h' w" by auto
next
  fix h w n
  assume "lz_gives z fs h w" "length w < n"
  with lz_read_gives [OF this(1), of n "[]"]
  show "\<exists>r s h'. rbind (lz_read z fs n [] h) (\<lambda>(ok, s, x'). Inr (if ok then n else 0, s, x')) = Inr (r, s, h') \<and> r < n \<and> lz_gives z fs h' []" by auto
qed

section \<open>Round trip of a record file\<close>

definition fl_gives :: "lzo \<Rightarrow> filesys \<Rightarrow> File \<Rightarrow> string \<Rightarrow> bool" where
  "fl_gives z fs f w = (case f of Local l \<Rightarrow> lf_gives fs l w | Lzo x \<Rightarrow> lz_gives z fs x w)"

definition fl_holds :: "lzo \<Rightarrow> CompressionType \<Rightarrow> nat \<Rightarrow> File \<Rightarrow> string \<Rightarrow> bool" where
  "fl_holds z c i f w = (case f of Local l \<Rightarrow> c = NONE \<and> lf_holds i l w | Lzo x \<Rightarrow> c = LZO \<and> lz_holds z i x w)"

interpretation files: byte_source "fl_read z fs" "fl_gives z fs" for z fs
proof
  fix h u w
  assume "fl_gives z fs h (u @ w)"
  then show "\<exists>h'. fl_read z fs (length u) h = Inr (length u, u, h') \<and> fl_gives z fs h' w"
    using plain.rd_enough [of fs _ u w] packed.rd_enough [of z fs _ u w]
    by (cases h) (fastforce simp: fl_gives_def fl_read_def result_simps split: prod.splits)+
next
  fix h w n
  assume "fl_gives z fs h w" "length w < n"
  then show "\<exists>r s h'. fl_read z fs n h = Inr (r, s, h') \<and> r < n \<and> fl_gives z fs h' []"
    using plain.rd_short [of fs _ w n] packed.rd_short [of z fs _ w n]
    by (cases h) (fastforce simp: fl_gives_def fl_read_def result_simps split: prod.splits)+
qed

interpretation files_out: byte_sink "fl_write z" "fl_holds z c i" for z c i
proof
  fix h w s
  assume "fl_holds z c i h w"
  then show "\<exists>h'. fl_write z s h = Inr h' \<and> fl_holds z c i h' (w @ s)"
    using plain_out.wr_appends [of i _ w s] packed_out.wr_appends [of z i _ w s]
    by (cases h) (fastforce simp: fl_holds_def fl_write_def)+
qed

lemma rf_writeChunk_holds:
  assumes "fl_holds z c i (rf_fp r) w"
  shows "\<exists>fp. rf_writeChunk z s r = Inr (r\<lparr>rf_fp := fp\<rparr>) \<and> fl_holds z c i fp (w @ frame s)"
  using files_out.wr_frame [OF assms, of s] by (auto simp: rf_writeChunk_def result_simps)

lemma rf_writeChunks_holds:
  "fl_holds z c i (rf_fp r) w \<Longrightarrow>
   \<exists>fp. rfold (rf_writeChunk z) cs r = Inr (r\<lparr>rf_fp := fp\<rparr>) \<and> fl_holds z c i fp (w @ concat (map frame cs))"
proof (induction cs arbitrary: r w)
  case (Cons s cs)
  obtain fp where fp: "rf_writeChunk z s r = Inr (r\<lparr>rf_fp := fp\<rparr>)" "fl_holds z c i fp (w @ frame s)"
    using rf_writeChunk_holds [OF Cons.prems] by blast
  then show ?case using Cons.IH [of "r\<lparr>rf_fp := fp\<rparr>" "w @ frame s"] by simp
next
  case Nil
  then show ?case by (intro exI [of _ "rf_fp r"]) simp
qed

text \<open>The loop of a caller that reads a file to its end, by the number of chunks it takes.\<close>

fun rf_read_all :: "nat \<Rightarrow> lzo \<Rightarrow> filesys \<Rightarrow> RecordFile \<Rightarrow> string list result" where
  "rf_read_all 0 z fs r = Inl Diverges"
| "rf_read_all (Suc fuel) z fs r = rbind (rf_readChunk z fs r) (\<lambda>(s, r').
     case s of None \<Rightarrow> Inr [] | Some c \<Rightarrow> rbind (rf_read_all fuel z fs r') (\<lambda>cs. Inr (c # cs)))"

lemma rf_read_all_gives:
  "fl_gives z fs (rf_fp r) (concat (map frame cs)) \<Longrightarrow> \<forall>c \<in> set cs. chunk_ok c \<Longrightarrow> length cs < fuel \<Longrightarrow>
   rf_read_all fuel z fs r = Inr cs"
proof (induction cs arbitrary: r fuel)
  case Nil
  then obtain f where "fuel = Suc f" by (cases fuel) auto
  with Nil files.read_chunk_end [of z fs "rf_fp r"] show ?case by (auto simp: rf_readChunk_def)
next
  case (Cons c cs)
  then obtain f where f: "fuel = Suc f" by (cases fuel) auto
  obtain fp where fp: "read_chunk (fl_read z fs) (rf_fp r) = Inr (Some c, fp)" "fl_gives z fs fp (concat (map frame cs))"
    using files.read_chunk_frame [of z fs "rf_fp r" c "concat (map frame cs)"] Cons.prems by auto
  with Cons.IH [of "r\<lparr>rf_fp := fp\<rparr>" f] Cons.prems f show ?case by (simp add: rf_readChunk_def)
qed

text \<open>A file as it is on the disk: the bytes themselves, or a sequence of compressed blocks.\<close>

definition stores :: "lzo \<Rightarrow> CompressionType \<Rightarrow> filesys \<Rightarrow> string \<Rightarrow> string \<Rightarrow> bool" where
  "stores z c fs path w = (case c of
       NONE \<Rightarrow> fs_content fs path = Some w
     | LZO \<Rightarrow> lzo_ok z \<and> (\<exists>bs. blocks_ok bs \<and> fs_content fs path = Some (pack z bs) \<and> w = concat bs))"

lemma rf_new_mode: "rf_new z path mode c fs = Inr (r, fs') \<Longrightarrow> rf_mode r = mode"
proof -
  assume "rf_new z path mode c fs = Inr (r, fs')"
  then obtain fp where "r = \<lparr>rf_fp = fp, rf_path = path, rf_mode = mode\<rparr>"
    unfolding rf_new_def rbind_Inr_iff by (force simp: rbind_Inr_iff simp del: rbind.simps)
  then show ?thesis by simp
qed

lemma rf_new_gives:
  assumes "stores z c fs path w"
  shows "\<exists>r. rf_new z path ''r'' c fs = Inr (r, fs) \<and> fl_gives z fs (rf_fp r) w"
proof -
  obtain i where i: "fs_dir fs path = Some i" using assms by (auto simp: stores_def fs_content_def split: CompressionType.splits)
  let ?l = "\<lparr>lf_inode = i, lf_path = path, lf_mode = ''r'', lf_pos = 0, lf_eof = False, lf_wbuf = [], lf_close_on_delete = True\<rparr>"
  have l: "lf_new path ''r'' fs = Inr (?l, fs)" by (simp add: lf_new_def lf_fopen_def i)
  show ?thesis
  proof (cases c)
    case NONE
    with assms i l show ?thesis by (simp add: rf_new_def stores_def fs_content_def fl_gives_def lf_gives_def lf_reading_def lf_left_def)
  next
    case LZO
    with assms i obtain bs where bs: "lzo_ok z" "blocks_ok bs" "fs_data fs i = pack z bs" "w = concat bs"
      by (auto simp: stores_def fs_content_def)
    let ?x = "\<lparr>lz_f = ?l, lz_pos = 0, lz_raw = [], lz_bpos = 0\<rparr>"
    have "lz_gives z fs ?x w" using bs by (auto simp: lz_gives_def lf_reading_def lf_left_def)
    from lz_refill_gives [OF this] obtain ok x1 where "lz_read_block z fs ?x = Inr (ok, x1)" "lz_gives z fs x1 w" by auto
    then show ?thesis using LZO by (simp add: rf_new_def l lz_init_def fl_gives_def Let_def)
  qed
qed

definition fs_writes :: "filesys \<Rightarrow> string \<Rightarrow> string \<Rightarrow> filesys \<Rightarrow> bool" where
  "fs_writes fs name path fs' \<longleftrightarrow> fs_ok fs' \<and> fs_grants fs' = fs_grants fs \<and>
     (\<forall>p. p \<noteq> name \<longrightarrow> p \<noteq> path \<longrightarrow> fs_dir fs' p = fs_dir fs p \<and> fs_content fs' p = fs_content fs p)"

lemma lf_new_holds:
  assumes "fs_ok fs" and "fs_grants fs name"
  shows "\<exists>l fs'. lf_new name ''w'' fs = Inr (l, fs') \<and> lf_holds (lf_inode l) l [] \<and> fs_dir fs' name = Some (lf_inode l) \<and>
    fs_data fs' (lf_inode l) = [] \<and> fs_writes fs name name fs'"
proof (cases "fs_dir fs name")
  case None
  have "fs_dir fs p \<noteq> Some (fs_next fs)" for p using assms(1) by (auto simp: fs_ok_def)
  then show ?thesis using None assms
    by (auto simp: lf_new_def lf_fopen_def lf_holds_def fs_writes_def fs_ok_def fs_content_def less_Suc_eq
        intro!: option.map_cong0 split: option.splits)
next
  case (Some i)
  let ?fs = "fs\<lparr>fs_data := (fs_data fs)(i := [])\<rparr>"
  have inj: "j \<noteq> i" if "fs_dir fs p = Some j" "p \<noteq> name" for p j
    using assms(1) Some that by (auto simp: fs_ok_def)
  have "fs_content ?fs p = fs_content fs p" if "p \<noteq> name" for p
    using inj [OF _ that] by (cases "fs_dir fs p") (simp_all add: fs_content_def)
  moreover have "fs_ok ?fs" using assms(1) by (simp add: fs_ok_def)
  ultimately show ?thesis using Some assms(2)
    by (simp add: lf_new_def lf_fopen_def lf_holds_def fs_writes_def)
qed

text \<open>Renaming a file that is open and closing it afterwards.\<close>

lemma move_and_close:
  assumes "fs_ok fs" and "fs_dir fs name = Some i" and "name \<noteq> path"
  shows "\<exists>fs'. File_Move name path fs = Inr fs' \<and> fs_dir fs' name = None \<and>
    (let fs'' = fs'\<lparr>fs_data := (fs_data fs')(i := w)\<rparr> in fs_content fs'' path = Some w \<and> fs_writes fs name path fs'')"
proof -
  let ?d = "(fs_dir fs)(path := Some i, name := None)"
  have inj: "j \<noteq> i" if "fs_dir fs p = Some j" "p \<noteq> name" for p j
    using assms(1,2) that by (auto simp: fs_ok_def)
  have uniq: "p = q" if "?d p = Some j" "?d q = Some j" for p q j
    using that inj assms(1) by (auto simp: fs_ok_def split: if_splits)
  have below: "j < fs_next fs" if "?d p = Some j" for p j
    using that assms(1,2) by (auto simp: fs_ok_def split: if_splits)
  have "fs_ok (fs\<lparr>fs_dir := ?d, fs_data := x\<rparr>)" for x
  proof -
    have e: "fs_dir (fs\<lparr>fs_dir := ?d, fs_data := x\<rparr>) = ?d" "fs_next (fs\<lparr>fs_dir := ?d, fs_data := x\<rparr>) = fs_next fs"
      by simp_all
    show ?thesis unfolding fs_ok_def e using below uniq by blast
  qed
  moreover have "map_option ((fs_data fs)(i := w)) (fs_dir fs p) = map_option (fs_data fs) (fs_dir fs p)" if "p \<noteq> name" for p
    using inj [OF _ that] by (cases "fs_dir fs p") simp_all
  ultimately show ?thesis using assms
    by (simp add: File_Move_def check_def fs_writes_def fs_content_def Let_def)
qed

lemma lf_delete_holds:
  assumes "lf_holds i l w" and "fs_data fs i = []"
  shows "lf_delete l fs = fs\<lparr>fs_data := (fs_data fs)(i := w)\<rparr>"
  using assms by (simp add: lf_delete_def lf_holds_def lf_flush_def Let_def)

text \<open>Writing a whole file: open, write the chunks, destroy.\<close>

definition rf_write_file :: "lzo \<Rightarrow> CompressionType \<Rightarrow> string \<Rightarrow> string list \<Rightarrow> filesys \<Rightarrow> filesys result" where
  "rf_write_file z c path chunks fs = rbind (rf_new z path ''w'' c fs) (\<lambda>(r, fs').
     rbind (rfold (rf_writeChunk z) chunks r) (\<lambda>r'. rf_delete z r' fs'))"

definition rf_read_file :: "nat \<Rightarrow> lzo \<Rightarrow> CompressionType \<Rightarrow> string \<Rightarrow> filesys \<Rightarrow> string list result" where
  "rf_read_file fuel z c path fs = rbind (rf_new z path ''r'' c fs) (\<lambda>(r, fs'). rf_read_all fuel z fs' r)"

lemma rf_new_holds:
  assumes "fs_ok fs" and "fs_grants fs (path @ ''.tmp'')" and "c = LZO \<Longrightarrow> lzo_ok z"
  shows "\<exists>r i fs'. rf_new z path ''w'' c fs = Inr (r, fs') \<and> fl_holds z c i (rf_fp r) [] \<and> rf_path r = path \<and> rf_mode r = ''w'' \<and>
    (case rf_fp r of Local _ \<Rightarrow> c = NONE | Lzo _ \<Rightarrow> c = LZO) \<and>
    fs_dir fs' (path @ ''.tmp'') = Some i \<and> fs_data fs' i = [] \<and> fs_writes fs (path @ ''.tmp'') (path @ ''.tmp'') fs'"
proof -
  obtain l fs' where l: "lf_new (path @ ''.tmp'') ''w'' fs = Inr (l, fs')" "lf_holds (lf_inode l) l []"
      "fs_dir fs' (path @ ''.tmp'') = Some (lf_inode l)" "fs_data fs' (lf_inode l) = []"
      "fs_writes fs (path @ ''.tmp'') (path @ ''.tmp'') fs'"
    using lf_new_holds [OF assms(1,2)] by blast
  have "lz_holds z (lf_inode l) \<lparr>lz_f = l, lz_pos = 0, lz_raw = [], lz_bpos = 0\<rparr> []" if "c = LZO"
    using assms(3) [OF that] l(2) by (simp add: lz_holds_def exI [of _ "[]"])
  with l show ?thesis
    by (cases c) (auto simp: rf_new_def fl_holds_def lz_init_def Let_def intro!: exI [of _ "lf_inode l"])
qed

lemma rf_delete_holds:
  assumes "fl_holds z c i (rf_fp r) w" and "rf_mode r = ''w''" and "fs_ok fs"
    and "fs_dir fs (rf_path r @ ''.tmp'') = Some i" and "fs_data fs i = []"
  shows "\<exists>fs'. rf_delete z r fs = Inr fs' \<and> stores z c fs' (rf_path r) w \<and> fs_dir fs' (rf_path r @ ''.tmp'') = None \<and>
    fs_writes fs (rf_path r @ ''.tmp'') (rf_path r) fs'"
proof -
  let ?name = "rf_path r @ ''.tmp''"
  have close: "\<exists>fs' fs''. File_Move ?name (rf_path r) fs = Inr fs' \<and> lf_delete l fs' = fs'' \<and>
      fs_content fs'' (rf_path r) = Some d \<and> fs_dir fs'' ?name = None \<and> fs_writes fs ?name (rf_path r) fs''"
    if "lf_holds i l d" for l d
  proof -
    obtain fs' where fs': "File_Move ?name (rf_path r) fs = Inr fs'" "fs_dir fs' ?name = None"
        "let fs'' = fs'\<lparr>fs_data := (fs_data fs')(i := d)\<rparr> in fs_content fs'' (rf_path r) = Some d \<and> fs_writes fs ?name (rf_path r) fs''"
      using move_and_close [OF assms(3,4), of "rf_path r" d] by auto
    have "fs_data fs' i = []" using fs'(1) assms(5) by (auto simp: File_Move_def check_def split: if_splits)
    from lf_delete_holds [OF that this] fs' show ?thesis by (auto simp: Let_def)
  qed
  show ?thesis
  proof (cases "rf_fp r")
    case (Local l)
    then show ?thesis using close [of l w] assms(1,2)
      by (auto simp: rf_delete_def fl_delete_def fl_sync_def lf_sync_def fl_holds_def stores_def)
  next
    case (Lzo x)
    then obtain x' bs where x': "lz_write_block z x = Inr x'" "lzo_ok z" "blocks_ok bs" "lf_holds i (lz_f x') (pack z bs)" "w = concat bs"
      using lz_write_block_holds [of z i x w] assms(1) by (auto simp: fl_holds_def lz_holds_def)
    then show ?thesis using Lzo close [OF x'(4)] assms(1,2)
      by (auto simp: rf_delete_def fl_delete_def fl_sync_def lf_sync_def lz_delete_def fl_holds_def stores_def)
  qed
qed

lemma rf_write_file_stores:
  assumes "fs_ok fs" and "fs_grants fs (path @ ''.tmp'')" and "c = LZO \<Longrightarrow> lzo_ok z"
  shows "\<exists>fs'. rf_write_file z c path chunks fs = Inr fs' \<and> stores z c fs' path (concat (map frame chunks)) \<and>
    fs_dir fs' (path @ ''.tmp'') = None \<and> fs_writes fs (path @ ''.tmp'') path fs'"
proof -
  obtain r i fs1 where r: "rf_new z path ''w'' c fs = Inr (r, fs1)" "fl_holds z c i (rf_fp r) []" "rf_path r = path"
      "rf_mode r = ''w''" "fs_dir fs1 (path @ ''.tmp'') = Some i" "fs_data fs1 i = []"
      "fs_writes fs (path @ ''.tmp'') (path @ ''.tmp'') fs1"
    using rf_new_holds [OF assms] by blast
  obtain fp where fp: "rfold (rf_writeChunk z) chunks r = Inr (r\<lparr>rf_fp := fp\<rparr>)" "fl_holds z c i fp (concat (map frame chunks))"
    using rf_writeChunks_holds [OF r(2), of chunks] by auto
  have ok: "fs_ok fs1" using r(7) by (simp add: fs_writes_def)
  show ?thesis using rf_delete_holds [of z c i "r\<lparr>rf_fp := fp\<rparr>" "concat (map frame chunks)" fs1] fp ok r
    by (auto simp: rf_write_file_def fs_writes_def)
qed

text \<open>
  C16: what is written to a record file is what is read from it. In either format, on a disk where the
  temporary file may be created, writing any chunks shorter than 2 GB succeeds, removes the temporary file, leaves
  the other files alone, and reading the file to its end gives the chunks in order. For the compressed
  format the LZO library must restore what it has compressed.
\<close>

theorem record_file_roundtrip:
  assumes "fs_ok fs" and "fs_grants fs (path @ ''.tmp'')" and "\<forall>c \<in> set chunks. chunk_ok c"
    and "fmt = LZO \<Longrightarrow> lzo_ok z" and "length chunks < fuel"
  shows "\<exists>fs'. rf_write_file z fmt path chunks fs = Inr fs' \<and> rf_read_file fuel z fmt path fs' = Inr chunks \<and>
    fs_content fs' (path @ ''.tmp'') = None \<and>
    (\<forall>p. p \<noteq> path \<longrightarrow> p \<noteq> path @ ''.tmp'' \<longrightarrow> fs_content fs' p = fs_content fs p)"
proof -
  obtain fs' where fs': "rf_write_file z fmt path chunks fs = Inr fs'" "stores z fmt fs' path (concat (map frame chunks))"
      "fs_dir fs' (path @ ''.tmp'') = None" "fs_writes fs (path @ ''.tmp'') path fs'"
    using rf_write_file_stores [OF assms(1,2,4)] by blast
  obtain r where r: "rf_new z path ''r'' fmt fs' = Inr (r, fs')" "fl_gives z fs' (rf_fp r) (concat (map frame chunks))"
    using rf_new_gives [OF fs'(2)] by blast
  from rf_read_all_gives [OF r(2) assms(3,5)] r(1) fs' show ?thesis
    by (auto simp: rf_read_file_def fs_writes_def fs_content_def)
qed

definition ex_lzo :: lzo where
  "ex_lzo = \<lparr>lzo_compress = Some \<circ> Cons (CHR ''z''), lzo_decompress = (\<lambda>c. case c of [] \<Rightarrow> None | _ # b \<Rightarrow> Some b)\<rparr>"

lemma ex_lzo_ok: "lzo_ok ex_lzo"
  by (simp add: lzo_ok_def ex_lzo_def kCompressedBlockSize_def kBlockSize_def)

theorem record_file_roundtrip_witness:
  "\<exists>fs'. rf_write_file ex_lzo LZO ''cp'' [''ab'', '''', ''c''] (fs_new (\<lambda>_. True)) = Inr fs' \<and>
    rf_read_file 5 ex_lzo LZO ''cp'' fs' = Inr [''ab'', '''', ''c''] \<and> fs_content fs' ''cp.tmp'' = None"
  using record_file_roundtrip [of "fs_new (\<lambda>_. True)" "''cp''" "[''ab'', '''', ''c'']" LZO ex_lzo 5] ex_lzo_ok
  by (auto simp: fs_ok_def fs_new_def chunk_ok_def)

text \<open>Closing a file that was read does not change the disk.\<close>

lemma lf_delete_reading: "lf_reading f \<Longrightarrow> lf_delete f fs = fs"
  by (simp add: lf_delete_def lf_flush_def lf_reading_def Let_def)

lemma fl_delete_gives:
  assumes "fl_gives z fs f w"
  shows "fl_delete z f fs' = Inr fs'"
proof (cases f)
  case (Local l)
  then show ?thesis using assms lf_delete_reading by (simp add: fl_gives_def lf_gives_def fl_delete_def)
next
  case (Lzo x)
  then have x: "lzo_ok z" "lf_reading (lz_f x)" "length (lz_raw x) \<le> kBlockSize"
    using assms by (simp_all add: fl_gives_def lz_gives_def)
  have "\<exists>x'. lz_write_block z x = Inr x' \<and> lf_reading (lz_f x')"
  proof (cases "lz_raw x = []")
    case False
    then obtain c where "lzo_compress z (lz_raw x) = Some c" using lzo_okD [OF x(1), of "lz_raw x"] x(3) by auto
    with x(2) show ?thesis by (auto simp: lz_write_block_def lf_write_def lf_reading_def)
  qed (use x(2) in \<open>simp add: lz_write_block_def\<close>)
  then show ?thesis using Lzo lf_delete_reading by (auto simp: fl_delete_def lz_delete_def)
qed

section \<open>Skipping chunks\<close>

lemma lz_read_block_pos: "lz_read_block z fs x = Inr (ok, x1) \<Longrightarrow> lz_pos x1 = lz_pos x"
  by (auto simp: lz_read_block_def Let_def result_simps split: if_splits option.splits prod.splits)

lemma lz_read_block_ends: "lz_read_block z fs x \<noteq> Inl Diverges"
  by (auto simp: lz_read_block_def Let_def check_def split: option.splits prod.splits)

lemma lz_read_pos: "case lz_read z fs left out x of
    Inl e \<Rightarrow> e \<noteq> Diverges
  | Inr (ok, s, x') \<Rightarrow> lz_pos x \<le> lz_pos x' \<and> (ok \<longrightarrow> lz_pos x' = lz_pos x + left)"
proof (induction z fs left out x rule: lz_read.induct)
  case (1 z fs left out x)
  let ?fill = "if lz_bpos x = length (lz_raw x) then lz_read_block z fs x else Inr (True, x)"
  show ?case
  proof (cases ?fill)
    case (Inl e)
    then show ?thesis using lz_read_block_ends [of z fs x] by (subst lz_read.simps) (auto split: if_splits)
  next
    case (Inr p)
    obtain ok x1 where p: "p = (ok, x1)" by (cases p)
    have pos1: "lz_pos x1 = lz_pos x" using Inr p lz_read_block_pos [of z fs x ok x1] by (auto split: if_splits)
    let ?n = "min left (length (lz_raw x1) - lz_bpos x1)"
    note IH = 1 [OF Inr p [symmetric] _ refl refl refl]
    show ?thesis
    proof (cases "ok \<and> lz_bpos x1 \<le> length (lz_raw x1) \<and> 0 < left - ?n")
      case True
      then have "\<not> \<not> ok" "\<not> lz_bpos x1 > length (lz_raw x1)" by simp_all
      moreover from this(2) have nb: "(lz_bpos x1 > length (lz_raw x1)) = False" by simp
      ultimately have IH': "case lz_read z fs (left - ?n) (out @ take ?n (drop (lz_bpos x1) (lz_raw x1)))
          (x1\<lparr>lz_bpos := lz_bpos x1 + ?n, lz_pos := lz_pos x1 + ?n\<rparr>) of Inl e \<Rightarrow> e \<noteq> Diverges
        | Inr (ok, s, x') \<Rightarrow> lz_pos x1 + ?n \<le> lz_pos x' \<and> (ok \<longrightarrow> lz_pos x' = lz_pos x1 + ?n + (left - ?n))"
        using IH [OF _ _ conjunct2 [OF conjunct2 [OF True]]] by (simp split: sum.splits prod.splits)
      have step: "lz_read z fs left out x = lz_read z fs (left - ?n) (out @ take ?n (drop (lz_bpos x1) (lz_raw x1)))
          (x1\<lparr>lz_bpos := lz_bpos x1 + ?n, lz_pos := lz_pos x1 + ?n\<rparr>)"
        using True by (subst lz_read.simps) (simp only: Inr p sum.case prod.case Let_def simp_thms if_False if_True nb)
      have "?n + (left - ?n) = left" by simp
      then show ?thesis unfolding step using IH' pos1
        by (auto simp del: min_less_iff_disj split: sum.splits prod.splits)
    next
      case False
      then show ?thesis using pos1 by (subst lz_read.simps) (auto simp: Inr p Let_def)
    qed
  qed
qed

lemma fl_read_tell:
  assumes "fl_read z fs n f = Inr (r, s, f')"
  shows "fl_tell f + r \<le> fl_tell f'"
proof (cases f)
  case (Lzo x)
  then show ?thesis using assms lz_read_pos [where z = z and fs = fs and left = n and out = "[]" and x = x]
    by (auto simp: fl_read_def fl_tell_def result_simps)
qed (use assms in \<open>auto simp: fl_read_def fl_tell_def lf_read_def lf_tell_def Let_def\<close>)

lemma rbind_Inl_iff: "rbind m f = Inl e \<longleftrightarrow> m = Inl e \<or> (\<exists>a. m = Inr a \<and> f a = Inl e)"
  by (cases m) auto

lemma fl_read_ends: "fl_read z fs n f \<noteq> Inl Diverges"
proof (cases f)
  case (Lzo x)
  with lz_read_pos [where z = z and fs = fs and left = n and out = "[]" and x = x] show ?thesis
    by (cases "lz_read z fs n [] x") (auto simp: fl_read_def)
qed (simp add: fl_read_def split: prod.splits)

lemma rf_readChunk_tell:
  assumes "rf_readChunk z fs r = Inr (Some c, r')"
  shows "fl_tell (rf_fp r) + 4 \<le> fl_tell (rf_fp r')"
proof -
  obtain s f1 d f2 n k j where "fl_read z fs 4 (rf_fp r) = Inr (n, s, f1)" "4 \<le> n" "fl_read z fs k f1 = Inr (j, d, f2)" "rf_fp r' = f2"
    using assms by (fastforce simp: rf_readChunk_def read_chunk_def result_simps Let_def split: if_splits)
  then show ?thesis using fl_read_tell [of z fs 4 "rf_fp r" n s f1] fl_read_tell [of z fs k f1 j d f2] by auto
qed

lemma rf_readChunk_ends: "rf_readChunk z fs r \<noteq> Inl Diverges"
  by (auto simp: rf_readChunk_def read_chunk_def rbind_Inl_iff fl_read_ends Let_def split: if_splits)

text \<open>
  C32: \<^verbatim>\<open>RecordFile::seek\<close> always ends, whatever is in the file: it stops at a position that is not before the
  one it was asked for, or after a read that found no further chunk.
\<close>

theorem seek_ends:
  "case rf_seek z fs p r of Inl e \<Rightarrow> e \<noteq> Diverges
   | Inr r' \<Rightarrow> p \<le> fl_tell (rf_fp r') \<or> (\<exists>r''. rf_readChunk z fs r'' = Inr (None, r'))"
proof -
  have "case rf_seek_loop fuel z fs p r of Inl e \<Rightarrow> e \<noteq> Diverges
     | Inr r' \<Rightarrow> p \<le> fl_tell (rf_fp r') \<or> (\<exists>r''. rf_readChunk z fs r'' = Inr (None, r'))"
    if "p - fl_tell (rf_fp r) \<le> fuel" for fuel
    using that
  proof (induction fuel arbitrary: r)
    case 0
    then show ?case by (subst rf_seek_loop.simps) simp
  next
    case (Suc fuel)
    show ?case
    proof (cases "rf_readChunk z fs r")
      case (Inl e)
      then show ?thesis using rf_readChunk_ends [of z fs r] by (subst rf_seek_loop.simps) auto
    next
      case (Inr q)
      obtain c r' where q: "q = (c, r')" by (cases q)
      show ?thesis
      proof (cases c)
        case None
        then show ?thesis using Inr q by (subst rf_seek_loop.simps) auto
      next
        case (Some s)
        have "p - fl_tell (rf_fp r') \<le> fuel" using Suc.prems rf_readChunk_tell [of z fs r s r'] Inr q Some by simp
        from Suc.IH [OF this] show ?thesis using Inr q Some by (subst rf_seek_loop.simps) simp
      qed
    qed
  qed
  then show ?thesis unfolding rf_seek_def by simp
qed

section \<open>Encoders and decoders\<close>

datatype Encoder = ToString string | ToFile File

definition enc_write_bytes :: "lzo \<Rightarrow> string \<Rightarrow> Encoder \<Rightarrow> Encoder result" where
  "enc_write_bytes z s e = (case e of ToString w \<Rightarrow> Inr (ToString (w @ s))
     | ToFile f \<Rightarrow> rbind (fl_write z s f) (\<lambda>f'. Inr (ToFile f')))"

text \<open>\<^verbatim>\<open>write\<close> of a number, given by its size and its bit pattern.\<close>

definition enc_write :: "lzo \<Rightarrow> nat \<Rightarrow> nat \<Rightarrow> Encoder \<Rightarrow> Encoder result" where
  "enc_write z n v e = enc_write_bytes z (le_string n v) e"

definition enc_write_string :: "lzo \<Rightarrow> string \<Rightarrow> Encoder \<Rightarrow> Encoder result" where
  "enc_write_string z s e = rbind (enc_write z 4 (length s) e) (enc_write_bytes z s)"

definition enc_pos :: "Encoder \<Rightarrow> nat" where
  "enc_pos e = (case e of ToString w \<Rightarrow> length w | ToFile f \<Rightarrow> fl_tell f)"

datatype Decoder = FromString string nat | FromFile File nat

text \<open>
  \<^verbatim>\<open>read(V* t)\<close>, with \<open>n\<close> the size of \<^verbatim>\<open>V\<close>. From a file it asks for \<^verbatim>\<open>sizeof(t)\<close> bytes, the size of a pointer,
  and writes all of them to \<^verbatim>\<open>*t\<close>.
\<close>

definition dec_read :: "lzo \<Rightarrow> filesys \<Rightarrow> nat \<Rightarrow> Decoder \<Rightarrow> (nat \<times> Decoder) result" where
  "dec_read z fs n d = (case d of
       FromString s p \<Rightarrow> if p + n \<le> length s then Inr (le_value (take n (drop p s)), FromString s (p + n)) else Inl OutOfBounds
     | FromFile f p \<Rightarrow> rbind (fl_read z fs 8 f) (\<lambda>(_, w, f').
         if n < length w then Inl OutOfBounds
         else if length w < n then Inl Uninitialised else Inr (le_value w, FromFile f' p)))"

definition dec_read_bytes :: "lzo \<Rightarrow> filesys \<Rightarrow> nat \<Rightarrow> Decoder \<Rightarrow> (string \<times> Decoder) result" where
  "dec_read_bytes z fs n d = (case d of
       FromString s p \<Rightarrow> if p + n \<le> length s then Inr (take n (drop p s), FromString s (p + n)) else Inl OutOfBounds
     | FromFile f p \<Rightarrow> rbind (fl_read z fs n f) (\<lambda>(_, w, f').
         Inr (w @ replicate (n - length w) (CHR 0x00), FromFile f' (p + n))))"

definition dec_read_string :: "lzo \<Rightarrow> filesys \<Rightarrow> Decoder \<Rightarrow> (string \<times> Decoder) result" where
  "dec_read_string z fs d = rbind (dec_read z fs 4 d) (\<lambda>(len, d'). dec_read_bytes z fs len d')"

definition dec_done :: "Decoder \<Rightarrow> bool" where
  "dec_done d = (case d of FromString s p \<Rightarrow> p = length s | FromFile f _ \<Rightarrow> fl_eof f)"

definition dec_pos :: "Decoder \<Rightarrow> nat" where
  "dec_pos d = (case d of FromString _ p \<Rightarrow> p | FromFile f _ \<Rightarrow> fl_tell f)"

definition dec_seek :: "nat \<Rightarrow> Decoder \<Rightarrow> Decoder result" where
  "dec_seek p d = (case d of FromString s _ \<Rightarrow> Inr (FromString s p)
     | FromFile f _ \<Rightarrow> rbind (fl_seek p f) (\<lambda>f'. Inr (FromFile f' p)))"

text \<open>A sequence of values: numbers of some size and strings.\<close>

datatype item = Num nat nat | Str string

fun enc_item :: "lzo \<Rightarrow> item \<Rightarrow> Encoder \<Rightarrow> Encoder result" where
  "enc_item z (Num n v) e = enc_write z n v e"
| "enc_item z (Str s) e = enc_write_string z s e"

fun dec_item :: "lzo \<Rightarrow> filesys \<Rightarrow> item \<Rightarrow> Decoder \<Rightarrow> (item \<times> Decoder) result" where
  "dec_item z fs (Num n _) d = rbind (dec_read z fs n d) (\<lambda>(v, d'). Inr (Num n v, d'))"
| "dec_item z fs (Str _) d = rbind (dec_read_string z fs d) (\<lambda>(s, d'). Inr (Str s, d'))"

fun dec_items :: "lzo \<Rightarrow> filesys \<Rightarrow> item list \<Rightarrow> Decoder \<Rightarrow> (item list \<times> Decoder) result" where
  "dec_items z fs [] d = Inr ([], d)"
| "dec_items z fs (x # xs) d = rbind (dec_item z fs x d) (\<lambda>(y, d').
     rbind (dec_items z fs xs d') (\<lambda>(ys, d''). Inr (y # ys, d'')))"

fun item_ok :: "item \<Rightarrow> bool" where
  "item_ok (Num n v) \<longleftrightarrow> v < 256 ^ n"
| "item_ok (Str s) \<longleftrightarrow> length s < 2 ^ 32"

fun item_bytes :: "item \<Rightarrow> string" where
  "item_bytes (Num n v) = le_string n v"
| "item_bytes (Str s) = le_string 4 (length s) @ s"

lemma enc_items_bytes: "rfold (enc_item z) xs (ToString w) = Inr (ToString (w @ concat (map item_bytes xs)))"
proof (induction xs arbitrary: w)
  case (Cons x xs)
  then show ?case by (cases x) (simp_all add: enc_write_def enc_write_bytes_def enc_write_string_def)
qed simp

lemma dec_item_bytes:
  assumes "item_ok x" and "drop p s = item_bytes x @ w" and "p \<le> length s"
  shows "dec_item z fs x (FromString s p) = Inr (x, FromString s (p + length (item_bytes x)))"
proof -
  have "length (drop p s) = length (item_bytes x @ w)" using assms(2) by simp
  then have "p + length (item_bytes x) \<le> length s" using assms(3) by simp
  moreover have "drop (p + k) s = drop k (item_bytes x @ w)" for k
    using drop_drop [of k p s] assms(2) by (simp add: add.commute)
  ultimately show ?thesis using assms
    by (cases x) (auto simp: dec_read_def dec_read_string_def dec_read_bytes_def le_value_bytes add.assoc)
qed

text \<open>
  An \<^verbatim>\<open>Encoder\<close> and a \<^verbatim>\<open>Decoder\<close> over a string are inverse: numbers that fit their size and strings
  shorter than 4 GB, written in any order and read in the same order, come back, and the decoder is done.
\<close>

lemma encoder_roundtrip:
  assumes "\<forall>x \<in> set xs. item_ok x"
  shows "\<exists>s. rfold (enc_item z) xs (ToString []) = Inr (ToString s) \<and>
    (\<exists>d. dec_items z fs xs (FromString s 0) = Inr (xs, d) \<and> dec_done d)"
proof -
  have "dec_items z fs xs (FromString (u @ concat (map item_bytes xs)) (length u)) =
      Inr (xs, FromString (u @ concat (map item_bytes xs)) (length u + length (concat (map item_bytes xs))))" for u
    using assms
  proof (induction xs arbitrary: u)
    case (Cons x xs)
    from Cons.IH [of "u @ item_bytes x"] Cons.prems
      dec_item_bytes [of x "length u" "u @ concat (map item_bytes (x # xs))" "concat (map item_bytes xs)" z fs]
    show ?case by (simp add: add.assoc)
  qed simp
  from this [of "[]"] show ?thesis by (simp add: enc_items_bytes dec_done_def)
qed

text \<open>
  A \<^verbatim>\<open>Decoder\<close> over a file cannot read a number of 32 bits, and so no string either: it copies eight
  bytes into the four of the variable whenever the file still has them.
\<close>

lemma file_decoder_overruns:
  assumes "fl_gives z fs f w" and "8 \<le> length w"
  shows "dec_read z fs 4 (FromFile f p) = Inl OutOfBounds \<and> dec_read_string z fs (FromFile f p) = Inl OutOfBounds"
  using files.rd_enough [of z fs f "take 8 w" "drop 8 w"] assms
  by (auto simp: dec_read_def dec_read_string_def)

end
