(* ===== verification/Utils.thy ===== *)
theory Utils
  imports Complex_Main Files "HOL-Library.Word"
begin

unbundle bit_operations_syntax

text \<open>
  The small parts of \<^verbatim>\<open>src/util\<close>: \<^verbatim>\<open>stringpiece.h\<close>/\<^verbatim>\<open>.cc\<close> (splitting, stripping, joining and searching
  strings), \<^verbatim>\<open>hash.h\<close> (the hash function of string pieces and tuples, on 32-bit words), \<^verbatim>\<open>common.h\<close>/\<^verbatim>\<open>.cc\<close>
  (\<^verbatim>\<open>range\<close>, \<^verbatim>\<open>Stats\<close>, \<^verbatim>\<open>Histogram\<close>, \<^verbatim>\<open>SpinLock\<close>, the marshalling of plain data), \<^verbatim>\<open>timer.h\<close> (the two macros that
  limit how often something runs), \<^verbatim>\<open>static-initializers.h\<close>/\<^verbatim>\<open>.cc\<close> and \<^verbatim>\<open>File::Mkdirs\<close>. A \<^verbatim>\<open>StringPiece\<close> is the
  string it points to.
\<close>

section \<open>String pieces\<close>

definition isspace :: "char \<Rightarrow> bool" where
  "isspace c \<longleftrightarrow> c \<in> {CHR '' '', CHR 0x09, CHR 0x0A, CHR 0x0B, CHR 0x0C, CHR 0x0D}"

definition sp_strip :: "string \<Rightarrow> string" where
  "sp_strip s = rev (dropWhile isspace (rev (dropWhile isspace s)))"

text \<open>\<^verbatim>\<open>StringPiece::split\<close>: every character of \<open>delim\<close> separates.\<close>

function sp_split :: "string \<Rightarrow> string \<Rightarrow> string list" where
  "sp_split s delim =
     (if s = [] then []
      else takeWhile (\<lambda>c. c \<notin> set delim) s # sp_split (drop 1 (dropWhile (\<lambda>c. c \<notin> set delim) s)) delim)"
  by pat_completeness auto
termination
proof (relation "measure (\<lambda>(s, delim). length s)", goal_cases)
  case (2 s delim)
  then show ?case using length_dropWhile_le [of "\<lambda>c. c \<notin> set delim" s]
    by (simp only: in_measure prod.case length_drop) (cases s; simp)
qed simp

declare sp_split.simps [simp del]

fun JoinString :: "string \<Rightarrow> string list \<Rightarrow> string" where
  "JoinString delim [] = []"
| "JoinString delim [p] = p"
| "JoinString delim (p # q # ps) = p @ delim @ JoinString delim (q # ps)"

text \<open>\<^verbatim>\<open>strnstr\<close>: the index of the first occurrence; the loop stops before \<^verbatim>\<open>len - nlen\<close>.\<close>

definition strnstr :: "string \<Rightarrow> string \<Rightarrow> nat \<Rightarrow> nat option" where
  "strnstr haystack needle len =
     find (\<lambda>i. take (length needle) (drop i haystack) = needle) [0..<len - length needle]"

definition range_step :: "int \<Rightarrow> int \<Rightarrow> int \<Rightarrow> int list" where
  "range_step from to step = [from..to - 1]"

section \<open>Hashing\<close>

definition byte :: "string \<Rightarrow> nat \<Rightarrow> 32 word" where
  "byte s i = of_nat (of_char (s ! i))"

definition get16bits :: "string \<Rightarrow> 32 word" where
  "get16bits s = push_bit 8 (byte s 1) + byte s 0"

text \<open>A \<^verbatim>\<open>char\<close> is signed: it is extended by its sign.\<close>

definition signed_char :: "char \<Rightarrow> 32 word" where
  "signed_char c = signed (of_nat (of_char c) :: 8 word)"

text \<open>One round of the main loop, over four bytes.\<close>

definition sfh_round :: "string \<Rightarrow> 32 word \<Rightarrow> 32 word" where
  "sfh_round s h =
     (let h1 = h + get16bits s;
          tmp = xor (push_bit 11 (get16bits (drop 2 s))) h1;
          h2 = xor (push_bit 16 h1) tmp
      in h2 + drop_bit 11 h2)"

fun sfh_loop :: "nat \<Rightarrow> string \<Rightarrow> 32 word \<Rightarrow> string \<times> 32 word" where
  "sfh_loop 0 s h = (s, h)"
| "sfh_loop (Suc n) s h = sfh_loop n (drop 4 s) (sfh_round s h)"

definition sfh_tail :: "nat \<Rightarrow> string \<Rightarrow> 32 word \<Rightarrow> 32 word" where
  "sfh_tail r s h =
     (if r = 3 then
        (let h1 = h + get16bits s; h2 = xor h1 (push_bit 16 h1); h3 = xor h2 (push_bit 18 (signed_char (s ! 2)))
         in h3 + drop_bit 11 h3)
      else if r = 2 then
        (let h1 = h + get16bits s; h2 = xor h1 (push_bit 11 h1) in h2 + drop_bit 17 h2)
      else if r = 1 then
        (let h1 = h + signed_char (s ! 0); h2 = xor h1 (push_bit 10 h1) in h2 + drop_bit 1 h2)
      else h)"

definition sfh_final :: "32 word \<Rightarrow> 32 word" where
  "sfh_final h =
     (let h1 = xor h (push_bit 3 h); h2 = h1 + drop_bit 5 h1; h3 = xor h2 (push_bit 4 h2); h4 = h3 + drop_bit 17 h3;
          h5 = xor h4 (push_bit 25 h4)
      in h5 + drop_bit 6 h5)"

definition SuperFastHash :: "string \<Rightarrow> 32 word" where
  "SuperFastHash data =
     (if data = [] then 0
      else case sfh_loop (length data div 4) data (of_nat (length data)) of
        (s, h) \<Rightarrow> sfh_final (sfh_tail (length data mod 4) s h))"

definition sp_hash :: "string \<Rightarrow> nat" where
  "sp_hash s = unat (SuperFastHash s)"

text \<open>The hash of a \<^verbatim>\<open>tuple2\<close>, over the hashes of its parts as an array of two 64-bit numbers, and of a pair.\<close>

definition tuple2_hash :: "('a \<Rightarrow> nat) \<Rightarrow> ('b \<Rightarrow> nat) \<Rightarrow> 'a \<times> 'b \<Rightarrow> nat" where
  "tuple2_hash ha hb p = sp_hash (le_string 8 (ha (fst p)) @ le_string 8 (hb (snd p)))"

definition tuple3_hash :: "('a \<Rightarrow> nat) \<Rightarrow> ('b \<Rightarrow> nat) \<Rightarrow> ('c \<Rightarrow> nat) \<Rightarrow> 'a \<times> 'b \<times> 'c \<Rightarrow> nat" where
  "tuple3_hash ha hb hc p = sp_hash (le_string 8 (ha (fst p)) @ le_string 8 (hb (fst (snd p))) @ le_string 8 (hc (snd (snd p))))"

definition pair_hash :: "('a \<Rightarrow> 64 word) \<Rightarrow> ('b \<Rightarrow> 64 word) \<Rightarrow> 'a \<times> 'b \<Rightarrow> 64 word" where
  "pair_hash ha hb p = xor (ha (fst p)) (hb (snd p))"

section \<open>Marshalling of plain data\<close>

text \<open>
  \<^verbatim>\<open>Marshal<T>\<close> for plain data of \<open>n\<close> bytes, given by their bit pattern: the bytes of the object. Reading takes
  \<open>n\<close> bytes from where the string piece starts, however long it is.
\<close>

definition pod_marshal :: "nat \<Rightarrow> nat \<Rightarrow> string" where
  "pod_marshal n v = le_string n v"

definition pod_unmarshal :: "nat \<Rightarrow> string \<Rightarrow> nat result" where
  "pod_unmarshal n s = (if n \<le> length s then Inr (le_value (take n s)) else Inl OutOfBounds)"

section \<open>Statistics\<close>

type_synonym stats = "string \<Rightarrow> rat option"

text \<open>\<^verbatim>\<open>operator[]\<close> makes an entry with value zero.\<close>

definition stats_index :: "string \<Rightarrow> stats \<Rightarrow> rat \<times> stats" where
  "stats_index k p = (let v = case p k of None \<Rightarrow> 0 | Some x \<Rightarrow> x in (v, p(k \<mapsto> v)))"

definition stats_Merge :: "(string \<times> rat) list \<Rightarrow> stats \<Rightarrow> stats" where
  "stats_Merge other p = fold (\<lambda>(k, v) p. p(k \<mapsto> fst (stats_index k p) + v)) other p"

text \<open>\<^verbatim>\<open>Histogram\<close>; \<open>bucket\<close> is \<^verbatim>\<open>bucketForVal\<close>, which takes logarithms.\<close>

record Histogram =
  hist_count :: nat
  hist_buckets :: "nat list"

definition hist_add :: "(rat \<Rightarrow> nat) \<Rightarrow> rat \<Rightarrow> Histogram \<Rightarrow> Histogram" where
  "hist_add bucket v h =
     (let b = bucket v;
          bs = (if length (hist_buckets h) \<le> b then hist_buckets h @ replicate (b + 1 - length (hist_buckets h)) 0
                else hist_buckets h)
      in \<lparr>hist_count = hist_count h + 1, hist_buckets = bs[b := bs ! b + 1]\<rparr>)"

section \<open>Limits on how often something runs\<close>

text \<open>\<^verbatim>\<open>EVERY_N\<close> and \<^verbatim>\<open>PERIODIC\<close>: whether the operation runs, and the new value of the static variable.\<close>

definition every_n :: "nat \<Rightarrow> nat \<Rightarrow> bool \<times> nat" where
  "every_n interval count = (count mod interval = 0, count + 1)"

definition periodic :: "int \<Rightarrow> int \<Rightarrow> int \<Rightarrow> bool \<times> int" where
  "periodic cycles now prev = (if cycles < now - prev then (True, now) else (False, prev))"

section \<open>Registered code\<close>

text \<open>\<^verbatim>\<open>Registry<T>\<close> is an ordered map; \<^verbatim>\<open>RunInitializers\<close> and \<^verbatim>\<open>RunTests\<close> run what is in it in the order of the names.\<close>

definition registry_put :: "'k::linorder \<Rightarrow> 'c \<Rightarrow> ('k \<times> 'c) list \<Rightarrow> ('k \<times> 'c) list" where
  "registry_put k c m = smap_put k c m"

definition RunInitializers :: "('c \<Rightarrow> 's \<Rightarrow> 's result) \<Rightarrow> ('k \<times> 'c) list \<Rightarrow> 's \<Rightarrow> 's result" where
  "RunInitializers run m s = rfold (\<lambda>p. run (snd p)) m s"

section \<open>Directories\<close>

text \<open>
  \<^verbatim>\<open>File::Mkdirs\<close>: \<open>cwd\<close> is what \<^verbatim>\<open>getcwd\<close> gives, \<open>mkdir\<close> says whether the call succeeds or the directory is
  there already. The result is the list of the directories it asks for.
\<close>

fun mkdir_bits :: "(string \<Rightarrow> bool) \<Rightarrow> string list \<Rightarrow> string \<Rightarrow> string list result" where
  "mkdir_bits mkdir [] prefix = Inr []"
| "mkdir_bits mkdir (b # bs) prefix =
     (if sp_strip b = [] then mkdir_bits mkdir bs prefix
      else let p = prefix @ ''/'' @ sp_strip b in
        rbind (check (mkdir p)) (\<lambda>_. rbind (mkdir_bits mkdir bs p) (\<lambda>ds. Inr (p # ds))))"

definition File_Mkdirs :: "string \<Rightarrow> (string \<Rightarrow> bool) \<Rightarrow> string \<Rightarrow> string list result" where
  "File_Mkdirs cwd mkdir path =
     (let p = (case path of c # _ \<Rightarrow> if c \<noteq> CHR ''/'' then cwd @ ''/'' @ path else path | [] \<Rightarrow> cwd @ ''/'' @ path)
      in mkdir_bits mkdir (sp_split p ''/'') [])"

section \<open>Splitting and joining\<close>

lemma sp_split_Nil_iff: "sp_split s ds = [] \<longleftrightarrow> s = []"
  by (subst sp_split.simps) simp

lemma split_join: "s \<noteq> [] \<Longrightarrow> JoinString [d] (sp_split s [d]) @ (if last s = d then [d] else []) = s"
proof (induction s "[d]" rule: sp_split.induct)
  case (1 s)
  let ?t = "takeWhile (\<lambda>c. c \<noteq> d) s" and ?r = "dropWhile (\<lambda>c. c \<noteq> d) s"
  have s: "s = ?t @ ?r" by simp
  have split: "sp_split s [d] = ?t # sp_split (drop 1 ?r) [d]" using 1(2) by (subst sp_split.simps) simp
  show ?case
  proof (cases ?r)
    case Nil
    then have "d \<notin> set s" by (auto simp: dropWhile_eq_Nil_conv)
    then have "last s \<noteq> d" using 1(2) last_in_set by metis
    moreover have "?t = s" using s Nil by simp
    moreover have "sp_split [] [d] = []" by (subst sp_split.simps) simp
    ultimately show ?thesis by (simp add: split Nil)
  next
    case (Cons c u)
    then have c: "c = d" using hd_dropWhile [of "\<lambda>c. c \<noteq> d" s] by auto
    have e: "s = ?t @ d # u" using s Cons c by simp
    show ?thesis
    proof (cases u)
      case Nil
      have "last s = d" by (subst e) (simp add: Nil)
      moreover have "sp_split [] [d] = []" by (subst sp_split.simps) simp
      ultimately show ?thesis using e Nil by (simp add: split Cons)
    next
      case (Cons x xs)
      have "last s = last u" by (subst e) (simp add: Cons)
      moreover have "JoinString [d] (sp_split u [d]) @ (if last u = d then [d] else []) = u"
        using 1(1) [OF 1(2)] Cons \<open>?r = c # u\<close> by simp
      moreover obtain q qs where "sp_split u [d] = q # qs"
        using sp_split_Nil_iff [of u "[d]"] Cons by (cases "sp_split u [d]") auto
      ultimately show ?thesis using e by (simp add: split \<open>?r = c # u\<close>)
    qed
  qed
qed

lemma split_parts: "p \<in> set (sp_split s ds) \<Longrightarrow> set p \<inter> set ds = {}"
proof (induction s ds rule: sp_split.induct)
  case (1 s ds)
  then show ?case by (subst (asm) (2) sp_split.simps) (auto split: if_splits dest: set_takeWhileD)
qed

text \<open>
  \<^verbatim>\<open>StringPiece::split\<close> cuts a string at the separators and loses nothing but one separator at the end: no part
  contains a separator, and joining the parts of a non-empty string with a single separator gives the string back, without its
  last character when that is the separator.
\<close>

lemma split_then_join:
  "(\<forall>p \<in> set (sp_split s [d]). d \<notin> set p) \<and>
   (s \<noteq> [] \<longrightarrow> JoinString [d] (sp_split s [d]) = (if last s = d then butlast s else s))"
proof -
  have "JoinString [d] (sp_split s [d]) = (if last s = d then butlast s else s)" if "s \<noteq> []"
    using split_join [OF that, of d] by (cases "last s = d") (auto, metis butlast_snoc)
  then show ?thesis using split_parts [of _ s "[d]"] by auto
qed

text \<open>
  \<^verbatim>\<open>strnstr\<close> stops one position early: no string is found in itself, and in general an occurrence at the
  very end of the searched part is never reported.
\<close>

lemma strnstr_misses_the_end:
  "strnstr haystack needle len = Some i \<Longrightarrow> i + length needle < len"
  "strnstr needle needle (length needle) = None"
  by (auto simp: strnstr_def find_Some_iff)

section \<open>The spin lock\<close>

text \<open>
  \<^verbatim>\<open>SpinLock\<close>: the word \<open>d\<close> and the threads that have come out of \<^verbatim>\<open>lock\<close> and not yet called \<^verbatim>\<open>unlock\<close>. A step is one
  attempt of the compare-and-swap, or the store of \<^verbatim>\<open>unlock\<close> by a thread that is inside.
\<close>

inductive spin_step :: "int \<times> 't set \<Rightarrow> int \<times> 't set \<Rightarrow> bool" where
  cas_taken: "t \<notin> inside \<Longrightarrow> spin_step (0, inside) (1, insert t inside)"
| cas_failed: "d \<noteq> 0 \<Longrightarrow> spin_step (d, inside) (d, inside)"
| unlocked: "t \<in> inside \<Longrightarrow> spin_step (d, inside) (0, inside - {t})"

inductive_cases spin_stepE: "spin_step (d, inside) q"

definition spin_ok :: "int \<times> 't set \<Rightarrow> bool" where
  "spin_ok s = (case s of (d, inside) \<Rightarrow> (d = 0 \<and> inside = {}) \<or> (d = 1 \<and> (\<exists>t. inside = {t})))"

lemma spin_step_ok: "spin_step s s' \<Longrightarrow> spin_ok s \<Longrightarrow> spin_ok s'"
  by (induction rule: spin_step.induct) (auto simp: spin_ok_def)

text \<open>
  C33: the spin lock excludes. From the initial state, whatever the threads do in whatever order, at most one
  thread is between \<^verbatim>\<open>lock\<close> and \<^verbatim>\<open>unlock\<close>, and the lock is free exactly when there is none.
\<close>

theorem spin_lock_excludes:
  assumes "spin_step\<^sup>*\<^sup>* (0, {}) (d, inside)"
  shows "(\<forall>t \<in> inside. \<forall>u \<in> inside. t = u) \<and> (d = 0 \<longleftrightarrow> inside = {})"
proof -
  have "spin_ok s'" if "spin_step\<^sup>*\<^sup>* s s'" "spin_ok s" for s s' :: "int \<times> 'a set"
    using that by (induction rule: rtranclp_induct) (auto intro: spin_step_ok)
  from this [OF assms] show ?thesis by (auto simp: spin_ok_def)
qed

theorem spin_lock_excludes_witness:
  "spin_step\<^sup>*\<^sup>* (0, {}) (1, {2 :: nat}) \<and> ((1 :: int) = 0 \<longleftrightarrow> {2 :: nat} = {})"
proof -
  have "spin_step (0, {}) (1, {1 :: nat})" by (rule spin_step.cas_taken) simp
  moreover have "spin_step (1, {1 :: nat}) (0, {})" using spin_step.unlocked [of "1 :: nat" "{1}" 1] by simp
  moreover have "spin_step (0, {}) (1, {2 :: nat})" using spin_step.cas_taken [of 2 "{}"] by simp
  ultimately have "spin_step\<^sup>*\<^sup>* (0, {}) (1, {2 :: nat})" by (meson rtranclp.rtrancl_into_rtrancl rtranclp.rtrancl_refl)
  with spin_lock_excludes [OF this] show ?thesis by blast
qed

section \<open>Making directories\<close>

lemma mkdir_bits_all:
  assumes "\<And>p. mkdir p"
  shows "\<exists>ds. mkdir_bits mkdir bs prefix = Inr ds \<and>
    (if filter (\<lambda>b. b \<noteq> []) (map sp_strip bs) = [] then ds = []
     else ds \<noteq> [] \<and> last ds = prefix @ concat (map (\<lambda>b. ''/'' @ b) (filter (\<lambda>b. b \<noteq> []) (map sp_strip bs))))"
proof (induction bs arbitrary: prefix)
  case (Cons b bs)
  show ?case
  proof (cases "sp_strip b = []")
    case False
    from Cons.IH [of "prefix @ ''/'' @ sp_strip b"] False assms show ?thesis
      by (cases "filter (\<lambda>b. b \<noteq> []) (map sp_strip bs) = []") (auto simp: Let_def check_def)
  next
    case True
    from Cons.IH [of prefix] True show ?thesis by (auto split: if_splits)
  qed
qed simp

end
