(* ===== verification/BlockStore.thy ===== *)
theory BlockStore
  imports FileManager FlatStore Utils
begin

text \<open>
  The block store of \<^verbatim>\<open>src/store\<close>: \<^verbatim>\<open>record.{h,cpp}\<close>, \<^verbatim>\<open>blockwriter.h\<close>, \<^verbatim>\<open>index.h\<close>, \<^verbatim>\<open>blockreader.h\<close> and \<^verbatim>\<open>kvreader.h\<close>. The
  writer packs lines into blocks and notes the first key of each, the index finds the block of a key by a
  binary search in these keys, the reader maps a block and the last class takes it apart again. The
  functions of boost are modelled by what they do on strings, except \<^verbatim>\<open>lexical_cast\<close>, which is an argument as in the
  other theories.
\<close>

section \<open>Strings\<close>

text \<open>\<^verbatim>\<open>trim_right\<close>, \<^verbatim>\<open>trim_right_if\<close>, \<^verbatim>\<open>split\<close> on one character, and \<^verbatim>\<open>split\<close> with \<^verbatim>\<open>token_compress_on\<close>\<close>

definition trim_right_if :: "(char \<Rightarrow> bool) \<Rightarrow> string \<Rightarrow> string" where
  "trim_right_if p s = rev (dropWhile p (rev s))"

definition trim_right :: "string \<Rightarrow> string" where
  "trim_right = trim_right_if isspace"

function boost_split :: "char \<Rightarrow> string \<Rightarrow> string list" where
  "boost_split d s = takeWhile (\<lambda>c. c \<noteq> d) s #
     (case dropWhile (\<lambda>c. c \<noteq> d) s of [] \<Rightarrow> [] | _ # t \<Rightarrow> boost_split d t)"
  by pat_completeness auto
termination
proof (relation "measure (\<lambda>(d, s). length s)", goal_cases)
  case (2 d s x t)
  then have "length (x # t) \<le> length s" by (metis length_dropWhile_le)
  then show ?case by simp
qed simp

declare boost_split.simps [simp del]

function split_compress :: "char \<Rightarrow> string \<Rightarrow> string list" where
  "split_compress d s = takeWhile (\<lambda>c. c \<noteq> d) s #
     (case dropWhile (\<lambda>c. c \<noteq> d) s of [] \<Rightarrow> [] | _ # t \<Rightarrow> split_compress d (dropWhile (\<lambda>c. c = d) t))"
  by pat_completeness auto
termination
proof (relation "measure (\<lambda>(d, s). length s)", goal_cases)
  case (2 d s x t)
  then have "length (x # t) \<le> length s" by (metis length_dropWhile_le)
  moreover have "length (dropWhile (\<lambda>c. c = d) t) \<le> length t" by (rule length_dropWhile_le)
  ultimately show ?case by simp
qed simp

declare split_compress.simps [simp del]

definition is_digit :: "char \<Rightarrow> bool" where
  "is_digit c \<longleftrightarrow> c \<in> set ''0123456789''"

abbreviation hash :: char where "hash \<equiv> CHR ''#''"
abbreviation eq_sign :: char where "eq_sign \<equiv> CHR ''=''"
abbreviation nul :: char where "nul \<equiv> CHR 0x00"

section \<open>Records\<close>

record Record =
  rec_key :: string
  rec_value :: string

definition record_new :: Record where
  "record_new = \<lparr>rec_key = [], rec_value = []\<rparr>"

text \<open>\<^verbatim>\<open>substr(0, npos)\<close> and \<^verbatim>\<open>substr(npos + 1, \<dots>)\<close> are both the whole string.\<close>

definition record_set :: "string \<Rightarrow> Record" where
  "record_set s = (case str_find s eq_sign of
       None \<Rightarrow> \<lparr>rec_key = s, rec_value = s\<rparr>
     | Some p \<Rightarrow> \<lparr>rec_key = take p s, rec_value = drop (p + 1) s\<rparr>)"

definition record_equals :: "Record \<Rightarrow> Record \<Rightarrow> bool" where
  "record_equals a b \<longleftrightarrow> rec_key a = rec_key b"

definition record_toString :: "Record \<Rightarrow> string" where
  "record_toString r = ''key: '' @ rec_key r @ [tab] @ '' value:  '' @ rec_value r"

section \<open>The writer\<close>

text \<open>
  \<open>bw_in\<close> is what the input stream still has, \<open>bw_out\<close> what the output file holds, \<open>None\<close> when it could not be opened: then the stream
  ignores all writes.
\<close>

record BlockWriter =
  bw_masters :: string
  bw_buffer :: string
  bw_keys :: string
  bw_in :: string
  bw_out :: "string option"

definition bw_new :: "(string \<Rightarrow> bool) \<Rightarrow> files \<Rightarrow> string \<Rightarrow> string \<Rightarrow> BlockWriter" where
  "bw_new can_write fs infile outfile =
     \<lparr>bw_masters = [], bw_buffer = [], bw_keys = [],
      bw_in = (case fs infile of None \<Rightarrow> [] | Some s \<Rightarrow> if infile = outfile \<and> can_write outfile then [] else s),
      bw_out = (if can_write outfile then Some [] else None)\<rparr>"

definition bw_write :: "nat \<Rightarrow> string \<Rightarrow> BlockWriter \<Rightarrow> BlockWriter result" where
  "bw_write blockStart buf w = rbind (fm_bytes (int blockStart)) (\<lambda>offset.
     Inr (w\<lparr>bw_out := map_option (overwrite (nat offset) buf) (bw_out w)\<rparr>))"

definition bw_fillBuffer :: "BlockWriter \<Rightarrow> BlockWriter" where
  "bw_fillBuffer w = w\<lparr>bw_buffer := bw_buffer w @ replicate (BLOCK_SIZE - length (bw_buffer w)) hash\<rparr>"

text \<open>\<^verbatim>\<open>strs[1]\<close> is an access behind the end when the line has no tab.\<close>

definition bw_handleLine :: "string \<Rightarrow> BlockWriter \<Rightarrow> (string \<times> BlockWriter) result" where
  "bw_handleLine line w = (case boost_split tab (trim_right line) of
       k # v # _ \<Rightarrow> Inr (k @ ''='' @ v @ ''#'', w\<lparr>bw_keys := bw_keys w @ k @ ''#''\<rparr>)
     | _ \<Rightarrow> Inl OutOfBounds)"

definition bw_setMasters :: "string \<Rightarrow> BlockWriter \<Rightarrow> BlockWriter" where
  "bw_setMasters buf w = w\<lparr>bw_masters := bw_masters w @ takeWhile (\<lambda>c. c \<noteq> eq_sign) buf @ ''#''\<rparr>"

definition bw_flush :: "nat \<times> BlockWriter \<Rightarrow> (nat \<times> BlockWriter) result" where
  "bw_flush = (\<lambda>(i, w). let w = bw_fillBuffer (bw_setMasters (bw_buffer w) w) in
     rbind (bw_write i (bw_buffer w) w) (\<lambda>w. Inr (i + 1, w\<lparr>bw_buffer := []\<rparr>)))"

definition bw_line :: "string \<Rightarrow> nat \<times> BlockWriter \<Rightarrow> (nat \<times> BlockWriter) result" where
  "bw_line line s = rbind (if BLOCK_SIZE < length (bw_buffer (snd s)) + length line then bw_flush s else Inr s)
     (\<lambda>(i, w). rbind (bw_handleLine line w) (\<lambda>(hl, w). Inr (i, w\<lparr>bw_buffer := bw_buffer w @ hl\<rparr>)))"

definition bw_batchedWrite :: "BlockWriter \<Rightarrow> BlockWriter result" where
  "bw_batchedWrite w =
     rbind (rfold bw_line (getlines newline (bw_in w)) (0, w\<lparr>bw_in := []\<rparr>)) (\<lambda>(i, w).
       if bw_buffer w \<noteq> []
       then let w = bw_setMasters (bw_buffer w) w in rbind (bw_write i (bw_buffer w) w) (\<lambda>w. Inr (bw_fillBuffer w))
       else Inr w)"

text \<open>\<^verbatim>\<open>saveMasters\<close> and \<^verbatim>\<open>saveKeys\<close>\<close>

definition bw_saveMasters :: "(string \<Rightarrow> bool) \<Rightarrow> string \<Rightarrow> BlockWriter \<Rightarrow> files \<Rightarrow> files" where
  "bw_saveMasters can_write metafile w fs = (if can_write metafile then fs(metafile \<mapsto> bw_masters w) else fs)"

definition bw_saveKeys :: "(string \<Rightarrow> bool) \<Rightarrow> string \<Rightarrow> BlockWriter \<Rightarrow> files \<Rightarrow> files" where
  "bw_saveKeys can_write keysfile w fs = (if can_write keysfile then fs(keysfile \<mapsto> bw_keys w) else fs)"

section \<open>The index\<close>

type_synonym Index = "int list"

definition index_splitString :: "(string \<Rightarrow> int option) \<Rightarrow> string \<Rightarrow> char \<Rightarrow> int list result" where
  "index_splitString lc line delimiter =
     (if str_find line delimiter = None then Inr [] else rmap (lexical_cast lc) (getlines delimiter line))"

definition initIndex :: "(string \<Rightarrow> int option) \<Rightarrow> string \<Rightarrow> Index result" where
  "initIndex lc keys = index_splitString lc keys hash"

definition index_new :: "(string \<Rightarrow> int option) \<Rightarrow> files \<Rightarrow> Index result" where
  "index_new lc fs = initIndex lc (fm_readFully fs META_FILE [])"

text \<open>\<^verbatim>\<open>std::upper_bound\<close> on the \<open>len\<close> elements from \<open>first\<close> on\<close>

fun upper_bound :: "int list \<Rightarrow> nat \<Rightarrow> nat \<Rightarrow> int \<Rightarrow> nat" where
  "upper_bound xs first len v = (if len = 0 then first
     else let half = len div 2; middle = first + half in
       if v < xs ! middle then upper_bound xs first half v
       else upper_bound xs (middle + 1) (len - half - 1) v)"

declare upper_bound.simps [simp del]

definition getBlockAddr :: "Index \<Rightarrow> int \<Rightarrow> int" where
  "getBlockAddr index key = to_int32 (int (upper_bound index 0 (length index) key)) - 1"

definition getFixedWidthString :: "string \<Rightarrow> nat \<Rightarrow> char \<Rightarrow> string" where
  "getFixedWidthString strSrc iLen cFill = replicate (iLen - length strSrc) cFill @ strSrc"

section \<open>The reader\<close>

text \<open>
  \<^verbatim>\<open>getBlockText\<close>: a block is mapped and copied up to its first zero byte. Behind the end of the file the rest of the last
  page reads as zeros; anything further is not accessible. A mapping that fails closes the file.
\<close>

type_synonym BlockReader = "string option"

definition br_new :: "files \<Rightarrow> BlockReader" where
  "br_new fs = fs DATA_FILE"

definition getBlockText :: "nat \<Rightarrow> bool \<Rightarrow> int \<Rightarrow> BlockReader \<Rightarrow> (string \<times> BlockReader) result" where
  "getBlockText page mmap_ok blockIndex rd = rbind (fm_bytes blockIndex) (\<lambda>offset.
     case rd of None \<Rightarrow> Inr ([], None)
     | Some s \<Rightarrow>
         if offset < 0 \<or> \<not> int page dvd offset \<or> \<not> mmap_ok then Inr ([], None)
         else let got = take BLOCK_SIZE (drop (nat offset) s);
                  mem = got @ replicate (upper_align_to_page page (length got) - length got) nul
              in if nul \<in> set mem then Inr (takeWhile (\<lambda>c. c \<noteq> nul) mem, rd) else Inl OutOfBounds)"

section \<open>Taking a block apart\<close>

text \<open>
  The loop of \<^verbatim>\<open>splitString\<close> removes characters until the text ends in four hashes; on the empty string \<^verbatim>\<open>erase_tail\<close> does
  nothing.
\<close>

function kv_cut :: "string \<Rightarrow> string result" where
  "kv_cut text = (if 4 \<le> length text \<and> drop (length text - 4) text = ''####'' then Inr text
     else if text = [] then Inl Diverges else kv_cut (butlast text))"
  by pat_completeness auto
termination by (relation "measure length") simp_all

declare kv_cut.simps [simp del]

definition kv_splitString :: "string \<Rightarrow> char \<Rightarrow> string list result" where
  "kv_splitString text delimiter = rbind (kv_cut text) (\<lambda>text.
     Inr (split_compress delimiter (trim_right_if (\<lambda>c. \<not> is_digit c) text)))"

definition getRecordList :: "string \<Rightarrow> Record list result" where
  "getRecordList text = rbind (kv_splitString text hash) (\<lambda>result. Inr (map record_set result))"

text \<open>\<open>gk\<close> and \<open>gv\<close> are \<^verbatim>\<open>getKey\<close> and \<^verbatim>\<open>getValue\<close> of the kernel.\<close>

definition getKeyValue :: "(string \<Rightarrow> 'k::linorder result) \<Rightarrow> (string \<Rightarrow> 'd result) \<Rightarrow> string \<Rightarrow> ('k, 'd) KVMap result" where
  "getKeyValue gk gv text = rbind (getRecordList text) (\<lambda>rs.
     rfold (\<lambda>r m. rbind (gk (rec_key r)) (\<lambda>k. rbind (gv (rec_value r)) (\<lambda>v. Inr (kvmap_add m k v)))) rs kvmap_new)"

section \<open>The binary search\<close>

lemma upper_bound_spec:
  assumes "sorted xs" and "first + len \<le> length xs" and "\<forall>i < first. xs ! i \<le> v" and "\<forall>i. first + len \<le> i \<and> i < length xs \<longrightarrow> v < xs ! i"
  shows "(\<forall>i < upper_bound xs first len v. xs ! i \<le> v) \<and>
    (\<forall>i. upper_bound xs first len v \<le> i \<and> i < length xs \<longrightarrow> v < xs ! i) \<and> upper_bound xs first len v \<le> length xs"
  using assms
proof (induction xs first len v rule: upper_bound.induct)
  case (1 xs first len v)
  note mono = sorted_nth_mono [OF 1(3)]
  let ?half = "len div 2" and ?m = "first + len div 2"
  consider (stop) "len = 0" | (left) "len \<noteq> 0" "v < xs ! ?m" | (right) "len \<noteq> 0" "\<not> v < xs ! ?m" by blast
  then show ?case
  proof cases
    case stop
    with 1(4-6) show ?thesis by (simp add: upper_bound.simps)
  next
    case left
    have m: "?m < length xs" using 1(4) left(1) by linarith
    have "\<forall>i. first + ?half \<le> i \<and> i < length xs \<longrightarrow> v < xs ! i" using left(2) mono [of ?m] by (metis less_le_trans)
    with 1(1) [OF left(1) refl refl left(2) 1(3) _ 1(5)] m show ?thesis
      using left upper_bound.simps [of xs first len v] by (simp add: Let_def)
  next
    case right
    have m: "?m < length xs" using 1(4) right(1) by linarith
    have "\<forall>i < ?m + 1. xs ! i \<le> v" using right(2) mono [OF _ m] by (metis Suc_eq_plus1 less_Suc_eq_le not_less order_trans)
    moreover have "?m + 1 + (len - ?half - 1) = first + len" using right(1) by linarith
    ultimately show ?thesis
      using 1(2) [OF right(1) refl refl right(2) 1(3)] 1(4,6) right upper_bound.simps [of xs first len v] by (simp add: Let_def)
  qed
qed

text \<open>
  The binary search of the index finds the last block whose first key is not above the key. On an index
  that is sorted, \<^verbatim>\<open>getBlockAddr\<close> is the number of entries that are not above the key, minus one.
\<close>

lemma getBlockAddr_counts:
  assumes "sorted index" and "length index < 2 ^ 31"
  shows "getBlockAddr index key = int (length (filter (\<lambda>x. x \<le> key) index)) - 1"
proof -
  let ?r = "upper_bound index 0 (length index) key"
  have r: "\<forall>i < ?r. index ! i \<le> key" "\<forall>i. ?r \<le> i \<and> i < length index \<longrightarrow> key < index ! i" "?r \<le> length index"
    using upper_bound_spec [OF assms(1), of 0 "length index" key] by simp_all
  have "filter (\<lambda>x. x \<le> key) index = filter (\<lambda>x. x \<le> key) (take ?r index) @ filter (\<lambda>x. x \<le> key) (drop ?r index)"
    by (metis append_take_drop_id filter_append)
  moreover have "filter (\<lambda>x. x \<le> key) (take ?r index) = take ?r index"
    using r(1,3) by (auto simp: filter_id_conv in_set_conv_nth)
  moreover have "filter (\<lambda>x. x \<le> key) (drop ?r index) = []"
    using r(2,3) by (auto simp: filter_empty_conv in_set_conv_nth not_le)
  ultimately have "length (filter (\<lambda>x. x \<le> key) index) = ?r" using r(3) by simp
  then show ?thesis using assms(2) r(3) by (simp add: getBlockAddr_def to_int32_id)
qed

section \<open>Rows and the text of a block\<close>

text \<open>A line of the input is a key and a value; neither has a separator in it and the value ends in a digit.\<close>

definition row_ok :: "string \<times> string \<Rightarrow> bool" where
  "row_ok r = (case r of (k, v) \<Rightarrow> set k \<inter> {tab, newline, nul, hash, eq_sign} = {} \<and> set v \<inter> {tab, newline, nul, hash} = {} \<and>
     v \<noteq> [] \<and> is_digit (last v) \<and> length k + length v < BLOCK_SIZE)"

definition row_line :: "string \<times> string \<Rightarrow> string" where
  "row_line r = (case r of (k, v) \<Rightarrow> k @ tab # v)"

definition row_text :: "string \<times> string \<Rightarrow> string" where
  "row_text r = (case r of (k, v) \<Rightarrow> k @ eq_sign # v)"

definition row_record :: "string \<times> string \<Rightarrow> Record" where
  "row_record r = (case r of (k, v) \<Rightarrow> \<lparr>rec_key = k, rec_value = v\<rparr>)"

abbreviation "recs rs \<equiv> concat (map (\<lambda>r. row_text r @ [hash]) rs)"

lemma record_set_row: "row_ok r \<Longrightarrow> record_set (row_text r) = row_record r"
  by (auto simp: row_ok_def row_text_def row_record_def record_set_def str_find_append split: prod.splits)

lemma row_text_no_hash: "row_ok r \<Longrightarrow> hash \<notin> set (row_text r) \<and> nul \<notin> set (row_text r) \<and> row_text r \<noteq> [] \<and> is_digit (last (row_text r))"
  by (auto simp: row_ok_def row_text_def split: prod.splits)

lemma trim_right_if_last: "s \<noteq> [] \<Longrightarrow> \<not> p (last s) \<Longrightarrow> trim_right_if p (s @ t) = s @ trim_right_if p t"
  by (cases s rule: rev_cases) (auto simp: trim_right_if_def dropWhile_append)

lemma trim_right_if_all: "\<forall>c \<in> set t. p c \<Longrightarrow> trim_right_if p t = []"
  by (simp add: trim_right_if_def)

lemma split_compress_word: "d \<notin> set w \<Longrightarrow> split_compress d w = [w]"
proof -
  assume "d \<notin> set w"
  then have "takeWhile (\<lambda>c. c \<noteq> d) w = w" "dropWhile (\<lambda>c. c \<noteq> d) w = []" by (auto simp: takeWhile_eq_all_conv dropWhile_eq_Nil_conv)
  then show ?thesis by (subst split_compress.simps) (simp del: takeWhile_eq_all_conv dropWhile_eq_Nil_conv)
qed

lemma split_compress_Cons:
  assumes "d \<notin> set w" and "s \<noteq> []" and "hd s \<noteq> d"
  shows "split_compress d (w @ d # s) = w # split_compress d s"
  using assms by (subst split_compress.simps) (cases s; simp add: takeWhile_delim dropWhile_delim)

text \<open>The text of a non-empty block, without the hashes at its end, is split into its rows.\<close>

definition joined :: "(string \<times> string) list \<Rightarrow> string" where
  "joined rs = recs (butlast rs) @ row_text (last rs)"

lemma joined_Cons: "rs \<noteq> [] \<Longrightarrow> joined (r # rs) = row_text r @ hash # joined rs"
  by (simp add: joined_def)

lemma joined_hd: "rs \<noteq> [] \<Longrightarrow> \<forall>r \<in> set rs. row_ok r \<Longrightarrow> joined rs \<noteq> [] \<and> hd (joined rs) \<noteq> hash"
proof (cases rs)
  case (Cons r rs')
  moreover assume "\<forall>r \<in> set rs. row_ok r"
  ultimately have "row_text r \<noteq> []" "hash \<notin> set (row_text r)" using row_text_no_hash [of r] by auto
  moreover from this have "hd (row_text r) \<noteq> hash" by (metis hd_in_set)
  ultimately show ?thesis using Cons by (cases rs') (auto simp: joined_def)
qed simp

lemma split_joined: "rs \<noteq> [] \<Longrightarrow> \<forall>r \<in> set rs. row_ok r \<Longrightarrow> split_compress hash (joined rs) = map row_text rs"
proof (induction rs)
  case (Cons r rs)
  show ?case
  proof (cases "rs = []")
    case True
    with Cons.prems show ?thesis using row_text_no_hash [of r] by (simp add: joined_def split_compress_word)
  next
    case False
    with Cons show ?thesis using row_text_no_hash [of r] joined_hd [of rs]
      by (simp add: joined_Cons split_compress_Cons)
  qed
qed simp

lemma recs_joined: "rs \<noteq> [] \<Longrightarrow> recs rs = joined rs @ [hash]"
  by (cases rs rule: rev_cases) (simp_all add: joined_def)

lemma joined_last: "rs \<noteq> [] \<Longrightarrow> \<forall>r \<in> set rs. row_ok r \<Longrightarrow> joined rs \<noteq> [] \<and> is_digit (last (joined rs))"
  using row_text_no_hash [of "last rs"] by (auto simp: joined_def)

text \<open>
  A block with at least three hashes of padding is taken apart into the records that were put in: \<^verbatim>\<open>getRecordList\<close> of the
  text of any non-empty list of rows, followed by three or more hashes, is the list of their records in order.
\<close>

lemma padded_block_is_read:
  assumes "rs \<noteq> []" and "\<forall>r \<in> set rs. row_ok r" and "3 \<le> n"
  shows "getRecordList (concat (map (\<lambda>(k, v). k @ ''='' @ v @ ''#'') rs) @ replicate n hash) = Inr (map row_record rs)"
proof -
  have recs: "concat (map (\<lambda>(k, v). k @ ''='' @ v @ ''#'') rs) = recs rs"
    by (rule arg_cong [where f = concat]) (auto simp: row_text_def)
  let ?t = "recs rs @ replicate n hash"
  have t: "?t = joined rs @ replicate (Suc n) hash" using recs_joined [OF assms(1)] by simp
  have "drop (length ?t - 4) ?t = ''####''" "4 \<le> length ?t"
  proof -
    have "Suc n = (n - 3) + 4" using assms(3) by simp
    then obtain m where n: "Suc n = m + 4" by blast
    have "replicate 4 hash = ''####''" by (simp add: eval_nat_numeral)
    then have "?t = (joined rs @ replicate m hash) @ ''####''" unfolding t n replicate_add by simp
    then show "drop (length ?t - 4) ?t = ''####''" "4 \<le> length ?t" by simp_all
  qed
  then have "kv_cut ?t = Inr ?t" by (subst kv_cut.simps) simp
  moreover have "trim_right_if (\<lambda>c. \<not> is_digit c) ?t = joined rs"
    unfolding t using joined_last [OF assms(1,2)]
    by (subst trim_right_if_last) (simp_all add: trim_right_if_all is_digit_def)
  ultimately show ?thesis unfolding recs
    using split_joined [OF assms(1,2)] record_set_row assms(2)
    by (simp add: getRecordList_def kv_splitString_def)
qed

section \<open>What the writer leaves on disk\<close>

lemma boost_split_two: "d \<notin> set k \<Longrightarrow> d \<notin> set v \<Longrightarrow> boost_split d (k @ d # v) = [k, v]"
proof -
  assume d: "d \<notin> set k" "d \<notin> set v"
  then have "takeWhile (\<lambda>c. c \<noteq> d) v = v" "dropWhile (\<lambda>c. c \<noteq> d) v = []" by (auto simp: takeWhile_eq_all_conv dropWhile_eq_Nil_conv)
  then have "boost_split d v = [v]" by (subst boost_split.simps) (simp del: takeWhile_eq_all_conv dropWhile_eq_Nil_conv)
  then show ?thesis using d by (subst boost_split.simps) (simp add: takeWhile_delim dropWhile_delim)
qed

lemma handleLine_row:
  assumes "row_ok r"
  shows "bw_handleLine (row_line r) w = Inr (row_text r @ [hash], w\<lparr>bw_keys := bw_keys w @ fst r @ ''#''\<rparr>)"
proof -
  obtain k v where r: "r = (k, v)" by (cases r)
  have v: "v \<noteq> []" "\<not> isspace (last v)" using assms by (auto simp: row_ok_def r is_digit_def isspace_def)
  have "trim_right (k @ tab # v) = k @ tab # v"
    using trim_right_if_last [of "k @ tab # v" isspace "[]"] v by (simp add: trim_right_def trim_right_if_all)
  moreover have "tab \<notin> set k" "tab \<notin> set v" using assms by (auto simp: row_ok_def r)
  ultimately show ?thesis by (simp add: bw_handleLine_def r row_line_def row_text_def boost_split_two)
qed

lemma length_row: "length (row_text r) = length (row_line r)"
  by (simp add: row_text_def row_line_def split: prod.splits)

lemma length_row_line: "row_ok r \<Longrightarrow> length (row_line r) \<le> BLOCK_SIZE"
  by (auto simp: row_ok_def row_line_def)

lemma recs_master: "rs \<noteq> [] \<Longrightarrow> \<forall>r \<in> set rs. row_ok r \<Longrightarrow> takeWhile (\<lambda>c. c \<noteq> eq_sign) (recs rs) = fst (hd rs)"
  by (cases rs) (auto simp: row_text_def row_ok_def takeWhile_delim split: prod.splits)

text \<open>The first byte behind the block may be lost to the next one, so it does not count.\<close>

definition filled :: "string \<Rightarrow> string" where
  "filled s = s @ replicate (BLOCK_SIZE - length s) hash"

abbreviation block_at :: "nat \<Rightarrow> string \<Rightarrow> string" where
  "block_at j s \<equiv> take BLOCK_SIZE (drop (j * BLOCK_SIZE) s)"

text \<open>
  While the writer runs: \<open>bs\<close> are the rows of the blocks that are on disk, \<open>cur\<close> those in the buffer.
\<close>

definition bw_inv :: "(string \<times> string) list \<Rightarrow> (string \<times> string) list list \<Rightarrow> (string \<times> string) list \<Rightarrow> string \<Rightarrow> nat \<times> BlockWriter \<Rightarrow> bool" where
  "bw_inv rows bs cur s st \<longleftrightarrow> (case st of (i, w) \<Rightarrow>
     i = length bs \<and> concat bs @ cur = rows \<and> [] \<notin> set bs \<and> (rows = [] \<or> cur \<noteq> []) \<and>
     bw_buffer w = recs cur \<and> bw_masters w = concat (map (\<lambda>b. fst (hd b) @ [hash]) bs) \<and>
     bw_keys w = concat (map (\<lambda>r. fst r @ [hash]) rows) \<and> bw_out w = Some s \<and>
     length (recs cur) \<le> BLOCK_SIZE + 1 \<and> length bs * BLOCK_SIZE \<le> length s \<and> length s \<le> length bs * BLOCK_SIZE + 1 \<and>
     (\<forall>b \<in> set bs. length (recs b) \<le> BLOCK_SIZE + 1) \<and>
     (\<forall>j < length bs. block_at j s = take BLOCK_SIZE (filled (recs (bs ! j)))))"

lemma block_at_overwrite:
  assumes "i * BLOCK_SIZE \<le> length s"
  shows "j < i \<Longrightarrow> block_at j (overwrite (i * BLOCK_SIZE) new s) = block_at j s"
    and "length s \<le> i * BLOCK_SIZE + length new \<Longrightarrow> block_at i (overwrite (i * BLOCK_SIZE) new s) = take BLOCK_SIZE new"
proof -
  assume j: "j < i"
  then have "j * BLOCK_SIZE + BLOCK_SIZE \<le> i * BLOCK_SIZE" by (metis Suc_leI add.commute mult_Suc mult_le_mono1)
  then show "block_at j (overwrite (i * BLOCK_SIZE) new s) = block_at j s"
    using assms by (intro overwrite_elsewhere) simp_all
next
  assume "length s \<le> i * BLOCK_SIZE + length new"
  then have "length (drop (i * BLOCK_SIZE) (overwrite (i * BLOCK_SIZE) new s)) = length new" by (simp add: length_overwrite)
  then show "block_at i (overwrite (i * BLOCK_SIZE) new s) = take BLOCK_SIZE new"
    using overwrite_same [of new "i * BLOCK_SIZE" s] by (metis order_refl take_all)
qed

lemma bw_write_ok: "i < 2 ^ 18 \<Longrightarrow> bw_out w = Some s \<Longrightarrow> bw_write i buf w = Inr (w\<lparr>bw_out := Some (overwrite (i * BLOCK_SIZE) buf s)\<rparr>)"
  by (simp add: bw_write_def fm_bytes_nat nat_mult_distrib)

lemma length_filled: "length s \<le> BLOCK_SIZE + 1 \<Longrightarrow> BLOCK_SIZE \<le> length (filled s) \<and> length (filled s) \<le> BLOCK_SIZE + 1"
  by (auto simp: filled_def)

text \<open>A full buffer goes to disk and the next row starts a new block.\<close>

lemma bw_flush_row:
  assumes inv: "bw_inv rows bs cur s (i, w)" and ok: "cur \<noteq> []" "\<forall>r \<in> set cur. row_ok r" "row_ok r" and i: "i < 2 ^ 18"
  shows "\<exists>s' w1. bw_flush (i, w) = Inr (i + 1, w1) \<and>
    bw_inv (rows @ [r]) (bs @ [cur]) [r] s' (i + 1, w1\<lparr>bw_keys := bw_keys w1 @ fst r @ ''#'', bw_buffer := bw_buffer w1 @ row_text r @ [hash]\<rparr>)"
proof -
  let ?s' = "overwrite (i * BLOCK_SIZE) (filled (recs cur)) s"
  have w: "i = length bs" "concat bs @ cur = rows" "[] \<notin> set bs" "bw_buffer w = recs cur" "bw_out w = Some s"
      "bw_masters w = concat (map (\<lambda>b. fst (hd b) @ [hash]) bs)" "bw_keys w = concat (map (\<lambda>r. fst r @ [hash]) rows)"
      "length (recs cur) \<le> BLOCK_SIZE + 1" "i * BLOCK_SIZE \<le> length s" "length s \<le> i * BLOCK_SIZE + 1"
      "\<forall>j < i. block_at j s = take BLOCK_SIZE (filled (recs (bs ! j)))" "\<forall>b \<in> set bs. length (recs b) \<le> BLOCK_SIZE + 1"
    using inv by (simp_all add: bw_inv_def)
  note len = length_filled [OF w(8)]
  have ls: "length ?s' = i * BLOCK_SIZE + length (filled (recs cur))"
    using w(10) len by (simp add: length_overwrite BLOCK_SIZE_def)
  have blocks: "block_at j ?s' = take BLOCK_SIZE (filled (recs ((bs @ [cur]) ! j)))" if "j < i + 1" for j
    using that block_at_overwrite(1) [OF w(9), where j = j and new = "filled (recs cur)"] block_at_overwrite(2) [OF w(9), of "filled (recs cur)"] w(1,10,11) len
    by (cases "j = i") (auto simp: nth_append BLOCK_SIZE_def)
  let ?w1 = "w\<lparr>bw_masters := bw_masters w @ fst (hd cur) @ ''#'', bw_buffer := [], bw_out := Some ?s'\<rparr>"
  have "bw_flush (i, w) = Inr (i + 1, ?w1)"
    using recs_master [OF ok(1,2)] w(4,5)
    by (simp add: bw_flush_def bw_setMasters_def bw_fillBuffer_def filled_def Let_def bw_write_ok [OF i])
  moreover have "bw_inv (rows @ [r]) (bs @ [cur]) [r] ?s' (i + 1, ?w1\<lparr>bw_keys := bw_keys ?w1 @ fst r @ ''#'', bw_buffer := bw_buffer ?w1 @ row_text r @ [hash]\<rparr>)"
    using w ok(1) ls len blocks length_row_line [OF ok(3)] by (simp add: bw_inv_def length_row)
  ultimately show ?thesis by blast
qed

lemma bw_line_inv:
  assumes inv: "bw_inv rows bs cur s (i, w)" and ok: "\<forall>r \<in> set rows. row_ok r" "row_ok r" and i: "i < 2 ^ 18"
  shows "\<exists>bs' cur' s' i' w'. bw_line (row_line r) (i, w) = Inr (i', w') \<and> bw_inv (rows @ [r]) bs' cur' s' (i', w') \<and> i' \<le> i + 1"
proof -
  have w: "concat bs @ cur = rows" "bw_buffer w = recs cur" "i = length bs" using inv by (simp_all add: bw_inv_def)
  show ?thesis
  proof (cases "BLOCK_SIZE < length (recs cur) + length (row_line r)")
    case True
    then have "cur \<noteq> []" using length_row_line [OF ok(2)] by auto
    moreover have "\<forall>r \<in> set cur. row_ok r" using ok(1) w(1) by auto
    ultimately obtain s' w1 where "bw_flush (i, w) = Inr (i + 1, w1)"
        "bw_inv (rows @ [r]) (bs @ [cur]) [r] s' (i + 1, w1\<lparr>bw_keys := bw_keys w1 @ fst r @ ''#'', bw_buffer := bw_buffer w1 @ row_text r @ [hash]\<rparr>)"
      using bw_flush_row [OF inv _ _ ok(2) i] by blast
    with True show ?thesis
      by (intro exI conjI) (auto simp: bw_line_def w(2) handleLine_row [OF ok(2)])
  next
    case False
    let ?w' = "w\<lparr>bw_keys := bw_keys w @ fst r @ ''#'', bw_buffer := bw_buffer w @ row_text r @ [hash]\<rparr>"
    have "bw_line (row_line r) (i, w) = Inr (i, ?w')" using False by (simp add: bw_line_def w(2) handleLine_row [OF ok(2)])
    moreover have "bw_inv (rows @ [r]) bs (cur @ [r]) s (i, ?w')" using inv False by (simp add: bw_inv_def length_row)
    ultimately show ?thesis by (intro exI conjI) auto
  qed
qed

lemma bw_lines_inv:
  assumes "\<forall>r \<in> set (prev @ rows). row_ok r" and "bw_inv prev bs cur s (i, w)" and "i + length rows < 2 ^ 18"
  shows "\<exists>bs' cur' s' i' w'. rfold bw_line (map row_line rows) (i, w) = Inr (i', w') \<and> bw_inv (prev @ rows) bs' cur' s' (i', w') \<and> i' \<le> i + length rows"
  using assms
proof (induction rows arbitrary: "prev" bs cur s i w)
  case Nil
  then show ?case by (intro exI conjI) auto
next
  case (Cons r rows)
  obtain bs1 cur1 s1 i1 w1 where one: "bw_line (row_line r) (i, w) = Inr (i1, w1)" "bw_inv (prev @ [r]) bs1 cur1 s1 (i1, w1)" "i1 \<le> i + 1"
    using bw_line_inv [OF Cons.prems(2), of r] Cons.prems(1,3) by auto
  then obtain bs' cur' s' i' w' where "rfold bw_line (map row_line rows) (i1, w1) = Inr (i', w')"
      "bw_inv ((prev @ [r]) @ rows) bs' cur' s' (i', w')" "i' \<le> i1 + length rows"
    using Cons.IH [of "prev @ [r]" bs1 cur1 s1 i1 w1] Cons.prems(1,3) by auto
  with one show ?case by (intro exI [of _ bs'] exI [of _ cur'] exI [of _ s'] exI [of _ i'] exI [of _ w']) simp
qed

text \<open>What is on disk when all rows are written: the rows \<open>bs\<close> of the blocks; the last block has no padding.\<close>

definition stored_blocks :: "(string \<times> string) list \<Rightarrow> (string \<times> string) list list \<Rightarrow> string \<Rightarrow> bool" where
  "stored_blocks rows bs s \<longleftrightarrow> concat bs = rows \<and> [] \<notin> set bs \<and> bs \<noteq> [] \<and> (\<forall>b \<in> set bs. length (recs b) \<le> BLOCK_SIZE + 1) \<and>
     length s = (length bs - 1) * BLOCK_SIZE + length (recs (last bs)) \<and>
     (\<forall>j < length bs. block_at j s = take BLOCK_SIZE (if Suc j = length bs then recs (bs ! j) else filled (recs (bs ! j))))"

lemma batchedWrite_rows:
  assumes ok: "\<forall>r \<in> set rows. row_ok r" "rows \<noteq> []" "length rows < 2 ^ 18"
    and input: "bw_in w = concat (map (\<lambda>r. row_line r @ [newline]) rows)"
    and fresh: "bw_masters w = []" "bw_buffer w = []" "bw_keys w = []" "bw_out w = Some []"
  shows "\<exists>w' bs s. bw_batchedWrite w = Inr w' \<and> stored_blocks rows bs s \<and> bw_out w' = Some s \<and>
    bw_masters w' = concat (map (\<lambda>b. fst (hd b) @ [hash]) bs)"
proof -
  have "\<forall>l \<in> set (map row_line rows). newline \<notin> set l"
    using ok(1) by (auto simp: row_line_def row_ok_def tab_def newline_def)
  from getlines_concat [OF this] have lines: "getlines newline (bw_in w) = map row_line rows"
    by (simp add: input comp_def)
  have "bw_inv [] [] [] [] (0, w\<lparr>bw_in := []\<rparr>)" using fresh by (simp add: bw_inv_def)
  from bw_lines_inv [OF _ this, of rows] ok(1,3) obtain bs cur s i u where
      u: "rfold bw_line (map row_line rows) (0, w\<lparr>bw_in := []\<rparr>) = Inr (i, u)" "bw_inv rows bs cur s (i, u)" "i < 2 ^ 18" by auto
  have inv: "i = length bs" "concat bs @ cur = rows" "[] \<notin> set bs" "cur \<noteq> []" "bw_buffer u = recs cur" "bw_out u = Some s"
      "bw_masters u = concat (map (\<lambda>b. fst (hd b) @ [hash]) bs)" "length (recs cur) \<le> BLOCK_SIZE + 1"
      "i * BLOCK_SIZE \<le> length s" "length s \<le> i * BLOCK_SIZE + 1" "\<forall>b \<in> set bs. length (recs b) \<le> BLOCK_SIZE + 1"
      "\<forall>j < i. block_at j s = take BLOCK_SIZE (filled (recs (bs ! j)))"
    using u(2) ok(2) by (auto simp: bw_inv_def)
  let ?s = "overwrite (i * BLOCK_SIZE) (recs cur) s"
  have one: "1 \<le> length (recs cur)" using inv(4) by (cases cur) auto
  have "recs cur \<noteq> []" using one by (metis list.size(3) not_one_le_zero)
  then have run: "bw_batchedWrite w = Inr (bw_fillBuffer (u\<lparr>bw_masters := bw_masters u @ fst (hd cur) @ ''#'', bw_out := Some ?s\<rparr>))"
    using u(1,3) inv(2,5,6) ok(1) recs_master [of cur] inv(4)
    by (auto simp: bw_batchedWrite_def lines bw_setMasters_def bw_write_ok)
  have "block_at j ?s = take BLOCK_SIZE (if Suc j = length (bs @ [cur]) then recs ((bs @ [cur]) ! j) else filled (recs ((bs @ [cur]) ! j)))"
    if "j < length (bs @ [cur])" for j
    using that block_at_overwrite(1) [OF inv(9), where j = j and new = "recs cur"] block_at_overwrite(2) [OF inv(9), of "recs cur"] inv(1,10,12) one
    by (cases "j = i") (auto simp: nth_append)
  moreover have "length ?s = i * BLOCK_SIZE + length (recs cur)" using inv(10) one by (simp add: length_overwrite)
  ultimately have "stored_blocks rows (bs @ [cur]) ?s"
    using inv(1-4,8,11) by (simp add: stored_blocks_def)
  then show ?thesis using run inv(7)
    by (intro exI [of _ "bw_fillBuffer (u\<lparr>bw_masters := bw_masters u @ fst (hd cur) @ ''#'', bw_out := Some ?s\<rparr>)"] exI [of _ "bs @ [cur]"] exI [of _ ?s])
      (auto simp: bw_fillBuffer_def)
qed

section \<open>Finding the block of a key\<close>

lemma getBlockAddr_at:
  assumes "sorted index" and "length index < 2 ^ 31" and "j < length index" "index ! j \<le> key"
    and "\<And>i. j < i \<Longrightarrow> i < length index \<Longrightarrow> key < index ! i"
  shows "getBlockAddr index key = int j"
proof -
  let ?r = "upper_bound index 0 (length index) key"
  have r: "\<forall>i < ?r. index ! i \<le> key" "\<forall>i. ?r \<le> i \<and> i < length index \<longrightarrow> key < index ! i" "?r \<le> length index"
    using upper_bound_spec [OF assms(1), of 0 "length index" key] by simp_all
  have "j < ?r" using r(2) assms(3,4) by (metis not_less)
  moreover have "\<not> Suc j < ?r" using r(1,3) assms(5) [of "Suc j"] by (metis lessI less_le_trans not_less)
  ultimately have "?r = Suc j" by simp
  then show ?thesis using assms(2,3) by (simp add: getBlockAddr_def to_int32_id)
qed

lemma concat_later:
  assumes "sorted_wrt (<) (map f (concat bs))" and "j < k" "k < length bs" and "x \<in> set (bs ! j)" "y \<in> set (bs ! k)"
  shows "(f x :: int) < f y"
proof -
  have "concat bs = concat (take k bs) @ concat (drop k bs)" by (metis append_take_drop_id concat_append)
  moreover have "bs ! j \<in> set (take k bs)" using assms(2,3) by (auto simp: in_set_conv_nth)
  moreover have "bs ! k \<in> set (drop k bs)" using assms(3) by (metis Cons_nth_drop_Suc list.set_intros(1))
  ultimately show ?thesis using assms(1,4,5) by (auto simp: sorted_wrt_append)
qed

lemma concat_hd:
  assumes "sorted_wrt (<) (map f (concat bs))" and "j < length bs" and "x \<in> set (bs ! j)"
  shows "(f (hd (bs ! j)) :: int) \<le> f x"
proof -
  have "concat bs = concat (take j bs) @ bs ! j @ concat (drop (Suc j) bs)"
    using id_take_nth_drop [OF assms(2)] by (metis concat.simps(2) concat_append)
  then have "sorted_wrt (<) (map f (bs ! j))" using assms(1) by (simp add: sorted_wrt_append)
  then show ?thesis using assms(3) by (cases "bs ! j") auto
qed

text \<open>A row of a block stands in the text of the block, between two hashes or at an end of it.\<close>

lemma row_in_text:
  assumes "length (recs b) \<le> BLOCK_SIZE + 1" and "r \<in> set b"
  shows "\<exists>pre post. take BLOCK_SIZE (recs b @ t) = pre @ row_text r @ post \<and> (pre = [] \<or> last pre = hash) \<and> (post = [] \<or> hd post = hash)"
proof -
  obtain xs ys where b: "b = xs @ r # ys" using assms(2) by (metis split_list)
  have "length (recs xs @ row_text r) \<le> BLOCK_SIZE" using assms(1) by (simp add: b)
  then have "take BLOCK_SIZE (recs b @ t) = recs xs @ row_text r @ take (BLOCK_SIZE - length (recs xs @ row_text r)) (hash # recs ys @ t)"
    by (simp add: b)
  moreover have "recs xs = [] \<or> last (recs xs) = hash" by (cases xs rule: rev_cases) auto
  moreover have "take m (hash # u) = [] \<or> hd (take m (hash # u)) = hash" for m u by (cases m) auto
  ultimately show ?thesis by blast
qed

lemma index_of_masters:
  assumes "bs \<noteq> []" and "\<forall>b \<in> set bs. hash \<notin> set (fst (hd b)) \<and> lc (fst (hd b)) = Some (num (hd b))"
  shows "initIndex lc (concat (map (\<lambda>b. fst (hd b) @ [hash]) bs)) = Inr (map (num \<circ> hd) bs)"
proof -
  have "getlines hash (concat (map (\<lambda>w. w @ [hash]) (map (fst \<circ> hd) bs))) = map (fst \<circ> hd) bs"
    using assms(2) by (intro getlines_concat) auto
  then have g: "getlines hash (concat (map (\<lambda>b. fst (hd b) @ [hash]) bs)) = map (fst \<circ> hd) bs" by (simp add: comp_def)
  have "rmap (lexical_cast lc) (map (fst \<circ> hd) bs) = Inr (map (num \<circ> hd) bs)"
    using assms(2) by (induction bs) (auto simp: lexical_cast_def)
  moreover have "hash \<in> set (concat (map (\<lambda>b. fst (hd b) @ [hash]) bs))" using assms(1) by (cases bs) auto
  ultimately show ?thesis by (simp add: initIndex_def index_splitString_def g)
qed

lemma getBlockAddr_blocks:
  fixes num :: "'r \<Rightarrow> int"
  assumes keys: "sorted_wrt (<) (map num (concat bs))" and bs: "[] \<notin> set bs" "length bs < 2 ^ 31" and j: "j < length bs" "r \<in> set (bs ! j)"
  shows "getBlockAddr (map (num \<circ> hd) bs) (num r) = int j"
proof (rule getBlockAddr_at)
  have hd_in: "hd (bs ! i) \<in> set (bs ! i)" if "i < length bs" for i using that bs(1) by (metis hd_in_set nth_mem)
  show "sorted (map (num \<circ> hd) bs)"
    unfolding sorted_iff_nth_mono_less
  proof (intro allI impI)
    fix i k assume ik: "i < k" "k < length (map (num \<circ> hd) bs)"
    then have "num (hd (bs ! i)) < num (hd (bs ! k))" using hd_in [of i] hd_in [of k] by (intro concat_later [OF keys]) simp_all
    with ik show "map (num \<circ> hd) bs ! i \<le> map (num \<circ> hd) bs ! k" by simp
  qed
  show "length (map (num \<circ> hd) bs) < 2 ^ 31" "j < length (map (num \<circ> hd) bs)" using bs(2) j(1) by simp_all
  show "map (num \<circ> hd) bs ! j \<le> num r" using concat_hd [OF keys j] j(1) by simp
  show "num r < map (num \<circ> hd) bs ! i" if "j < i" "i < length (map (num \<circ> hd) bs)" for i
  proof -
    have "num r < num (hd (bs ! i))" using that hd_in j(2) by (intro concat_later [OF keys that(1)]) simp_all
    then show ?thesis using that(2) by simp
  qed
qed

lemma length_le_concat: "[] \<notin> set bs \<Longrightarrow> length bs \<le> length (concat bs)"
proof (induction bs)
  case (Cons b bs)
  then show ?case by (cases b) auto
qed simp


definition ex_rows :: "(string \<times> string) list" where
  "ex_rows = [(''1'', ''2 3''), (''4'', ''1'')]"

definition ex_lc :: "string \<Rightarrow> int option" where
  "ex_lc s = (if s = ''1'' then Some 1 else if s = ''4'' then Some 4 else None)"

lemma ex_rows_ok: "\<forall>r \<in> set ex_rows. row_ok r" "ex_rows \<noteq> []" "length ex_rows < 2 ^ 18"
  by (simp_all add: ex_rows_def row_ok_def is_digit_def tab_def newline_def BLOCK_SIZE_def)


section \<open>Reading blocks back\<close>

text \<open>A text in which no hash is followed by another never ends in four of them.\<close>

lemma kv_cut_diverges: "(\<forall>p. \<not> (\<exists>q. s = p @ ''####'' @ q)) \<Longrightarrow> kv_cut s = Inl Diverges"
proof (induction "length s" arbitrary: s)
  case 0
  then show ?case by (subst kv_cut.simps) simp
next
  case (Suc n)
  have "\<not> (4 \<le> length s \<and> drop (length s - 4) s = ''####'')"
    using Suc.prems by (metis append_Nil2 append_take_drop_id)
  moreover have "kv_cut (butlast s) = Inl Diverges"
  proof (rule Suc.hyps(1))
    show "n = length (butlast s)" using Suc.hyps(2) by simp
    show "\<forall>p. \<not> (\<exists>q. butlast s = p @ ''####'' @ q)"
      using Suc.prems Suc.hyps(2) by (metis append.assoc append_butlast_last_id list.size(3) nat.distinct(1))
  qed
  ultimately show ?case by (subst kv_cut.simps) (use Suc.hyps(2) in auto)
qed

fun hash_alone :: "string \<Rightarrow> bool" where
  "hash_alone (a # b # s) \<longleftrightarrow> \<not> (a = hash \<and> b = hash) \<and> hash_alone (b # s)"
| "hash_alone _ \<longleftrightarrow> True"

lemma hash_alone_two: "\<not> hash_alone (p @ hash # hash # q)"
proof (induction p)
  case (Cons a p)
  then show ?case by (cases p) auto
qed simp

lemma hash_alone_diverges: "hash_alone s \<Longrightarrow> kv_cut s = Inl Diverges"
  using hash_alone_two by (intro kv_cut_diverges) auto

lemma hash_alone_word:
  assumes "hash \<notin> set w" and "s = [] \<or> hd s \<noteq> hash" and "hash_alone s"
  shows "hash_alone (w @ hash # s)"
  using assms(1)
proof (induction w)
  case Nil
  then show ?case using assms(2,3) by (cases s) auto
next
  case (Cons a w)
  then show ?case by (cases w) auto
qed

lemma hash_alone_recs: "\<forall>r \<in> set rs. row_ok r \<Longrightarrow> hash_alone (recs rs) \<and> (recs rs = [] \<or> hd (recs rs) \<noteq> hash)"
proof (induction rs)
  case (Cons r rs)
  then have r: "hash \<notin> set (row_text r)" "row_text r \<noteq> []" using row_text_no_hash [of r] by auto
  then have "hd (row_text r @ hash # recs rs) \<noteq> hash" by (metis hd_append2 hd_in_set)
  then show ?case using hash_alone_word [OF r(1)] Cons by simp
qed simp

lemma upper_align_multiple: "0 < page \<Longrightarrow> page dvd x \<Longrightarrow> upper_align_to_page page x = x"
proof (elim dvdE)
  fix k assume "0 < page" "x = page * k"
  moreover from this have "(page * k + (page - 1)) mod page = page - 1" by (subst mod_mult_self4) simp
  ultimately show ?thesis by (simp add: upper_align_to_page_def align_to_page_def)
qed

lemma getBlockText_eq:
  assumes "b < 2 ^ 18" and "page dvd BLOCK_SIZE"
  shows "getBlockText page True (int b) (Some s) =
    (let got = block_at b s; mem = got @ replicate (upper_align_to_page page (length got) - length got) nul
     in if nul \<in> set mem then Inr (takeWhile (\<lambda>c. c \<noteq> nul) got, Some s) else Inl OutOfBounds)"
proof -
  have "int page dvd int b * int BLOCK_SIZE" using assms(2) by (metis dvd_mult int_dvd_int_iff of_nat_mult)
  moreover have "takeWhile (\<lambda>c. c \<noteq> nul) (got @ replicate m nul) = takeWhile (\<lambda>c. c \<noteq> nul) got" for got m
    by (induction got) (cases m; simp)+
  moreover have "nat (int b * int BLOCK_SIZE) = b * BLOCK_SIZE" by (metis nat_int of_nat_mult)
  moreover have "\<not> int b * int BLOCK_SIZE < 0" by (simp add: mult_less_0_iff)
  ultimately show ?thesis using assms(1) by (simp add: getBlockText_def fm_bytes_nat Let_def)
qed

abbreviation "block_records page b s \<equiv> rbind (getBlockText page True (int b) (Some s)) (\<lambda>(text, _). getRecordList text)"

lemma full_block_overruns:
  assumes "b < 2 ^ 18" and "0 < page" "page dvd BLOCK_SIZE" and "length (block_at b s) = BLOCK_SIZE" and "nul \<notin> set (block_at b s)"
  shows "block_records page b s = Inl OutOfBounds"
  using assms by (simp add: getBlockText_eq upper_align_multiple Let_def del: length_take)

lemma short_block_diverges:
  assumes "b < 2 ^ 18" and "page dvd BLOCK_SIZE" and "hash_alone (takeWhile (\<lambda>c. c \<noteq> nul) (block_at b s))"
  shows "block_records page b s \<in> {Inl OutOfBounds, Inl Diverges}"
  using assms hash_alone_diverges [OF assms(3)]
  by (auto simp: getBlockText_eq Let_def getRecordList_def kv_splitString_def)

lemma recs_no_nul: "\<forall>r \<in> set rs. row_ok r \<Longrightarrow> nul \<notin> set (recs rs)"
  by (induction rs) (use row_text_no_hash in auto)

lemma hash_alone_short: "length s \<le> 1 \<Longrightarrow> hash_alone (takeWhile p s)"
  by (cases s rule: hash_alone.cases) auto

lemma stored_block_unreadable:
  assumes "stored_blocks rows bs s" and ok: "\<forall>r \<in> set rows. row_ok r" "length rows < 2 ^ 18"
    and page: "0 < page" "page dvd BLOCK_SIZE" and b: "b * BLOCK_SIZE < length s"
  shows "block_records page b s \<in> {Inl OutOfBounds, Inl Diverges}"
proof -
  have bs: "concat bs = rows" "bs \<noteq> []" "\<forall>b \<in> set bs. length (recs b) \<le> BLOCK_SIZE + 1"
      "length s = (length bs - 1) * BLOCK_SIZE + length (recs (last bs))"
      "\<forall>j < length bs. block_at j s = take BLOCK_SIZE (if Suc j = length bs then recs (bs ! j) else filled (recs (bs ! j)))"
    using assms(1) by (simp_all add: stored_blocks_def)
  have rows: "\<forall>r \<in> set b. row_ok r" if "b \<in> set bs" for b using that ok(1) bs(1) by auto
  have n: "length bs < 2 ^ 18" using length_le_concat [of bs] assms(1) ok(2) by (simp add: stored_blocks_def)
  show ?thesis
  proof (cases "b < length bs")
    case True
    note here = bs(5) [rule_format, OF True]
    have no: "nul \<notin> set (recs (bs ! b))" using recs_no_nul [OF rows [OF nth_mem [OF True]]] .
    show ?thesis
    proof (cases "length (block_at b s) = BLOCK_SIZE")
      case full: True
      have "nul \<notin> set (filled (recs (bs ! b)))" using no by (simp add: filled_def)
      then have "nul \<notin> set (block_at b s)" unfolding here using no by (auto dest: in_set_takeD)
      then show ?thesis using full_block_overruns [OF _ page full] True n by simp
    next
      case False
      then have "block_at b s = recs (bs ! b)" unfolding here
        using length_filled [of "recs (bs ! b)"] bs(3) True by (auto split: if_splits)
      moreover have "takeWhile (\<lambda>c. c \<noteq> nul) (recs (bs ! b)) = recs (bs ! b)" using no by (auto simp: takeWhile_eq_all_conv)
      ultimately have "hash_alone (takeWhile (\<lambda>c. c \<noteq> nul) (block_at b s))"
        using hash_alone_recs [OF rows [OF nth_mem [OF True]]] by (simp only:)
      then show ?thesis using True n by (intro short_block_diverges [OF _ page(2)]) simp_all
    qed
  next
    case False
    have "length s \<le> length bs * BLOCK_SIZE + 1" using bs(2,3,4) by (cases bs rule: rev_cases) auto
    then have "length s \<le> b * BLOCK_SIZE + 1" using False mult_le_mono1 [of "length bs" b BLOCK_SIZE] by linarith
    moreover from this have "b = length bs" using b False bs(2,3,4) by (cases bs rule: rev_cases) (auto simp: BLOCK_SIZE_def)
    ultimately show ?thesis using n by (intro short_block_diverges [OF _ page(2)] hash_alone_short) simp_all
  qed
qed

lemma stored_blocks_nonempty: "stored_blocks rows bs s \<Longrightarrow> s \<noteq> []"
proof -
  assume st: "stored_blocks rows bs s"
  then have "last bs \<noteq> []" by (metis last_in_set stored_blocks_def)
  then have "0 < length (recs (last bs))" by (cases "last bs") auto
  then show ?thesis using st unfolding stored_blocks_def by (metis add_is_0 list.size(3) less_numeral_extra(3))
qed



end
