(* ===== verification/Network.thy ===== *)
theory Network
  imports Prelude
begin

text \<open>
  \<^verbatim>\<open>src/util/rpc.h\<close> and \<^verbatim>\<open>rpc.cc\<close>: the network thread of a process. Requests and replies that arrive are
  put into queues by message type and source rank, or handed to a registered callback; messages that
  are sent wait in \<^verbatim>\<open>pending_sends_\<close> until the thread gives them to MPI. MPI itself is a library: what
  \<^verbatim>\<open>Iprobe\<close> and \<^verbatim>\<open>Recv\<close> deliver is the input \<open>nt_inbox\<close>, one batch for every time a caller
  polls, and what \<^verbatim>\<open>Isend\<close> was given is the list \<open>nt_isent\<close>. Messages are protocol-buffer values of
  some type \<open>'m\<close>; writing them to bytes and parsing them back is the identity. A blocking call that
  the rest of \<open>nt_inbox\<close> does not answer is \<open>Diverges\<close>. The statistics counters are left out.
\<close>

section \<open>Data\<close>

record Header =
  is_reply :: bool

definition header_new :: Header where
  "header_new = \<lparr>is_reply = False\<rparr>"

record 'm RPCRequest =
  target :: int
  rpc_type :: int
  failures :: int
  payload :: "Header \<times> 'm"

definition rpc_new :: "int \<Rightarrow> int \<Rightarrow> 'm \<Rightarrow> Header \<Rightarrow> 'm RPCRequest" where
  "rpc_new tgt meth ureq h = \<lparr>target = tgt, rpc_type = meth, failures = 0, payload = (h, ureq)\<rparr>"

text \<open>What the thread receives: source, tag and the two parts of the payload.\<close>

record 'm packet =
  pkt_source :: int
  pkt_tag :: int
  pkt_header :: Header
  pkt_body :: 'm

text \<open>\<^verbatim>\<open>CallbackInfo\<close>; the function itself belongs to the process that registers it.\<close>

record 'm CallbackInfo =
  ci_req :: 'm
  ci_resp :: 'm
  ci_spawn_thread :: bool

record RPCInfo =
  rpc_source :: int
  rpc_dest :: int
  rpc_tag :: int

record 'm NetworkThread =
  nt_running :: bool
  nt_id :: int
  nt_world_size :: nat
  nt_callbacks :: "int \<Rightarrow> 'm CallbackInfo option"
  nt_pending_sends :: "'m RPCRequest list"
  nt_active_sends :: "'m RPCRequest list"
  nt_requests :: "int \<Rightarrow> int \<Rightarrow> 'm list"
  nt_replies :: "int \<Rightarrow> int \<Rightarrow> 'm list"
  nt_isent :: "'m RPCRequest list"
  nt_inbox :: "'m packet list list"

definition kMaxHosts :: int where "kMaxHosts = 512"
definition kMaxMethods :: int where "kMaxMethods = 64"

definition nt_new :: "int \<Rightarrow> nat \<Rightarrow> 'm packet list list \<Rightarrow> 'm NetworkThread" where
  "nt_new rank n inbox = \<lparr>nt_running = True, nt_id = rank, nt_world_size = n, nt_callbacks = (\<lambda>_. None),
     nt_pending_sends = [], nt_active_sends = [], nt_requests = (\<lambda>_ _. []), nt_replies = (\<lambda>_ _. []),
     nt_isent = [], nt_inbox = inbox\<rparr>"

lemma nt_new_simps [simp]:
  "nt_world_size (nt_new r k inbox) = k" "nt_inbox (nt_new r k inbox) = inbox" "nt_replies (nt_new r k inbox) t i = []"
  "nt_requests (nt_new r k inbox) t i = []" "nt_pending_sends (nt_new r k inbox) = []" "nt_isent (nt_new r k inbox) = []"
  "nt_callbacks (nt_new r k inbox) t = None" "nt_id (nt_new r k inbox) = r"
  by (simp_all add: nt_new_def)

section \<open>Sending\<close>

definition nt_active :: "'m NetworkThread \<Rightarrow> bool" where
  "nt_active n \<longleftrightarrow> length (nt_active_sends n) + length (nt_pending_sends n) > 0"

text \<open>\<open>sz\<close> is the serialised size of a message; the header takes one byte.\<close>

definition nt_pending_bytes :: "('m \<Rightarrow> nat) \<Rightarrow> 'm NetworkThread \<Rightarrow> nat" where
  "nt_pending_bytes sz n =
     sum_list (map (\<lambda>r. 1 + sz (snd (payload r))) (nt_active_sends n)) +
     sum_list (map (\<lambda>r. 1 + sz (snd (payload r))) (nt_pending_sends n))"

definition nt_Send_req :: "'m RPCRequest \<Rightarrow> 'm NetworkThread \<Rightarrow> 'm NetworkThread" where
  "nt_Send_req req n = n\<lparr>nt_pending_sends := nt_pending_sends n @ [req]\<rparr>"

definition nt_Send :: "int \<Rightarrow> int \<Rightarrow> 'm \<Rightarrow> 'm NetworkThread \<Rightarrow> 'm NetworkThread" where
  "nt_Send dst meth msg n = nt_Send_req (rpc_new dst meth msg header_new) n"

definition nt_Isend :: "'m RPCRequest \<Rightarrow> 'm NetworkThread \<Rightarrow> 'm NetworkThread" where
  "nt_Isend r n = n\<lparr>nt_isent := nt_isent n @ [r], nt_active_sends := nt_active_sends n @ [r]\<rparr>"

definition nt_DSend :: "int \<Rightarrow> int \<Rightarrow> 'm \<Rightarrow> 'm NetworkThread \<Rightarrow> 'm NetworkThread" where
  "nt_DSend dst meth msg n = nt_Isend (rpc_new dst meth msg header_new) n"

text \<open>\<^verbatim>\<open>ObjectCreate\<close> makes a request and deletes it.\<close>

definition nt_ObjectCreate :: "int \<Rightarrow> int \<Rightarrow> 'm NetworkThread \<Rightarrow> 'm NetworkThread" where
  "nt_ObjectCreate dst meth n = n"

text \<open>The loop of \<^verbatim>\<open>Run\<close> that empties \<^verbatim>\<open>pending_sends_\<close>, taking from its back.\<close>

function nt_push_sends :: "'m NetworkThread \<Rightarrow> 'm NetworkThread" where
  "nt_push_sends n = (if nt_pending_sends n = [] then n
     else nt_push_sends (nt_Isend (last (nt_pending_sends n)) (n\<lparr>nt_pending_sends := butlast (nt_pending_sends n)\<rparr>)))"
  by auto
termination by (relation "measure (\<lambda>n. length (nt_pending_sends n))") (auto simp: nt_Isend_def)

declare nt_push_sends.simps [simp del]

text \<open>\<^verbatim>\<open>CollectActive\<close>: \<open>fin\<close> is what \<^verbatim>\<open>MPI::Request::Test\<close> answers.\<close>

definition nt_CollectActive :: "('m RPCRequest \<Rightarrow> bool) \<Rightarrow> 'm NetworkThread \<Rightarrow> 'm NetworkThread" where
  "nt_CollectActive fin n = n\<lparr>nt_active_sends := filter (\<lambda>r. \<not> fin r) (nt_active_sends n)\<rparr>"

text \<open>
  \<^verbatim>\<open>Flush\<close> waits while there are active sends; the thread goes through its loop meanwhile. One
  element of the list is the answer of MPI in one round.
\<close>

fun nt_Flush :: "('m RPCRequest \<Rightarrow> bool) list \<Rightarrow> 'm NetworkThread \<Rightarrow> 'm NetworkThread result" where
  "nt_Flush [] n = (if nt_active n then Inl Diverges else Inr n)"
| "nt_Flush (fin # fins) n = (if nt_active n then nt_Flush fins (nt_CollectActive fin (nt_push_sends n)) else Inr n)"

definition nt_Shutdown :: "('m RPCRequest \<Rightarrow> bool) list \<Rightarrow> 'm NetworkThread \<Rightarrow> 'm NetworkThread result" where
  "nt_Shutdown fins n = (if nt_running n then rbind (nt_Flush fins n) (\<lambda>n. Inr (n\<lparr>nt_running := False\<rparr>)) else Inr n)"

definition nt_Broadcast :: "int \<Rightarrow> 'm \<Rightarrow> 'm NetworkThread \<Rightarrow> 'm NetworkThread" where
  "nt_Broadcast meth msg n = fold (\<lambda>i. nt_Send (int i) meth msg) [1..<nt_world_size n] n"

section \<open>Receiving\<close>

definition nt_RegisterCallback :: "int \<Rightarrow> 'm \<Rightarrow> 'm \<Rightarrow> 'm NetworkThread \<Rightarrow> 'm NetworkThread result" where
  "nt_RegisterCallback message_type req resp n = rbind (check (message_type < kMaxMethods)) (\<lambda>_.
     if message_type < 0 then Inl OutOfBounds
     else Inr (n\<lparr>nt_callbacks := (nt_callbacks n)(message_type :=
       Some \<lparr>ci_req = req, ci_resp = resp, ci_spawn_thread = False\<rparr>)\<rparr>))"

definition nt_SpawnThreadFor :: "int \<Rightarrow> 'm NetworkThread \<Rightarrow> 'm NetworkThread result" where
  "nt_SpawnThreadFor req_type n = (case nt_callbacks n req_type of None \<Rightarrow> Inl NullDeref
     | Some ci \<Rightarrow> Inr (n\<lparr>nt_callbacks := (nt_callbacks n)(req_type := Some (ci\<lparr>ci_spawn_thread := True\<rparr>))\<rparr>))"

definition queue_add :: "int \<Rightarrow> int \<Rightarrow> 'm \<Rightarrow> (int \<Rightarrow> int \<Rightarrow> 'm list) \<Rightarrow> int \<Rightarrow> int \<Rightarrow> 'm list" where
  "queue_add tag src x q = q(tag := (q tag)(src := q tag src @ [x]))"

definition queue_drop :: "int \<Rightarrow> int \<Rightarrow> (int \<Rightarrow> int \<Rightarrow> 'm list) \<Rightarrow> int \<Rightarrow> int \<Rightarrow> 'm list" where
  "queue_drop tag src q = q(tag := (q tag)(src := tl (q tag src)))"

text \<open>
  A packet arrives: a reply is queued; a request is queued or, when its type has a callback, parsed
  into the callback's request object, and the call is due.
\<close>

definition nt_arrive :: "'m packet \<Rightarrow> 'm NetworkThread \<Rightarrow> (RPCInfo option \<times> 'm NetworkThread) result" where
  "nt_arrive p n = rbind (check (pkt_source p < kMaxHosts)) (\<lambda>_.
     if pkt_source p < 0 \<or> pkt_tag p < 0 \<or> kMaxMethods \<le> pkt_tag p then Inl OutOfBounds
     else if is_reply (pkt_header p)
     then Inr (None, n\<lparr>nt_replies := queue_add (pkt_tag p) (pkt_source p) (pkt_body p) (nt_replies n)\<rparr>)
     else case nt_callbacks n (pkt_tag p) of
       Some ci \<Rightarrow> Inr (Some \<lparr>rpc_source = pkt_source p, rpc_dest = nt_id n, rpc_tag = pkt_tag p\<rparr>,
         n\<lparr>nt_callbacks := (nt_callbacks n)(pkt_tag p := Some (ci\<lparr>ci_req := pkt_body p\<rparr>))\<rparr>)
     | None \<Rightarrow> Inr (None, n\<lparr>nt_requests := queue_add (pkt_tag p) (pkt_source p) (pkt_body p) (nt_requests n)\<rparr>))"

text \<open>The next batch arrives at a process that has no callbacks.\<close>

definition nt_poll :: "'m NetworkThread \<Rightarrow> 'm NetworkThread result" where
  "nt_poll n = (case nt_inbox n of [] \<Rightarrow> Inr n
     | b # bs \<Rightarrow> rfold (\<lambda>p n. rbind (nt_arrive p n) (\<lambda>(_, n). Inr n)) b (n\<lparr>nt_inbox := bs\<rparr>))"

definition nt_check_request_queue :: "int \<Rightarrow> int \<Rightarrow> 'm NetworkThread \<Rightarrow> ('m option \<times> 'm NetworkThread) result" where
  "nt_check_request_queue src tag n =
     rbind (check (src < kMaxHosts)) (\<lambda>_. rbind (check (tag < kMaxMethods)) (\<lambda>_.
       if src < 0 \<or> tag < 0 then Inl OutOfBounds
       else case nt_requests n tag src of
         [] \<Rightarrow> Inr (None, n)
       | s # _ \<Rightarrow> Inr (Some s, n\<lparr>nt_requests := queue_drop tag src (nt_requests n)\<rparr>)))"

definition nt_check_reply_queue :: "int \<Rightarrow> int \<Rightarrow> 'm NetworkThread \<Rightarrow> ('m option \<times> 'm NetworkThread) result" where
  "nt_check_reply_queue src tag n =
     rbind (check (src < kMaxHosts)) (\<lambda>_. rbind (check (tag < kMaxMethods)) (\<lambda>_.
       if src < 0 \<or> tag < 0 then Inl OutOfBounds
       else case nt_replies n tag src of
         [] \<Rightarrow> Inr (None, n)
       | s # _ \<Rightarrow> Inr (Some s, n\<lparr>nt_replies := queue_drop tag src (nt_replies n)\<rparr>)))"

text \<open>\<^verbatim>\<open>TryRead\<close> for \<^verbatim>\<open>MPI::ANY_SOURCE\<close> (\<open>None\<close>) asks the ranks in order.\<close>

fun nt_try_ranks :: "nat list \<Rightarrow> int \<Rightarrow> 'm NetworkThread \<Rightarrow> (('m \<times> int) option \<times> 'm NetworkThread) result" where
  "nt_try_ranks [] tag n = Inr (None, n)"
| "nt_try_ranks (i # is) tag n = rbind (nt_check_request_queue (int i) tag n) (\<lambda>(r, n').
     case r of Some m \<Rightarrow> Inr (Some (m, int i), n') | None \<Rightarrow> nt_try_ranks is tag n')"

definition nt_TryRead :: "int option \<Rightarrow> int \<Rightarrow> 'm NetworkThread \<Rightarrow> (('m \<times> int) option \<times> 'm NetworkThread) result" where
  "nt_TryRead src tag n = (case src of
       None \<Rightarrow> nt_try_ranks [0..<nt_world_size n] tag n
     | Some s \<Rightarrow> rbind (nt_check_request_queue s tag n) (\<lambda>(r, n'). Inr (map_option (\<lambda>m. (m, s)) r, n')))"

text \<open>
  The blocking calls poll until a condition holds; the list is the part of the inbox that is still to
  arrive.
\<close>

fun nt_await :: "('m NetworkThread \<Rightarrow> ('a option \<times> 'm NetworkThread) result) \<Rightarrow> 'm packet list list \<Rightarrow>
    'm NetworkThread \<Rightarrow> ('a \<times> 'm NetworkThread) result" where
  "nt_await try [] n = rbind (try n) (\<lambda>(r, n'). case r of Some x \<Rightarrow> Inr (x, n') | None \<Rightarrow> Inl Diverges)"
| "nt_await try (b # bs) n = rbind (try n) (\<lambda>(r, n').
     case r of Some x \<Rightarrow> Inr (x, n') | None \<Rightarrow> rbind (nt_poll n') (nt_await try bs))"

definition nt_Read :: "int option \<Rightarrow> int \<Rightarrow> 'm NetworkThread \<Rightarrow> (('m \<times> int) \<times> 'm NetworkThread) result" where
  "nt_Read src tag n = nt_await (nt_TryRead src tag) (nt_inbox n) n"

definition nt_Call :: "int \<Rightarrow> int \<Rightarrow> 'm \<Rightarrow> 'm NetworkThread \<Rightarrow> ('m \<times> 'm NetworkThread) result" where
  "nt_Call dst meth msg n = nt_await (nt_check_reply_queue dst meth) (nt_inbox n) (nt_Send dst meth msg n)"

text \<open>One sweep of \<^verbatim>\<open>WaitForSync\<close> over all ranks: every reply that is there counts.\<close>

fun nt_sweep :: "nat list \<Rightarrow> int \<Rightarrow> int \<Rightarrow> 'm NetworkThread \<Rightarrow> (int \<times> 'm NetworkThread) result" where
  "nt_sweep [] meth count n = Inr (count, n)"
| "nt_sweep (i # is) meth count n = rbind (nt_check_reply_queue (int i) meth n) (\<lambda>(r, n').
     nt_sweep is meth (case r of Some _ \<Rightarrow> count - 1 | None \<Rightarrow> count) n')"

fun nt_wait :: "int \<Rightarrow> int \<Rightarrow> 'm packet list list \<Rightarrow> 'm NetworkThread \<Rightarrow> 'm NetworkThread result" where
  "nt_wait meth count bs n = (if count \<le> 0 then Inr n else
     rbind (nt_sweep [0..<nt_world_size n] meth count n) (\<lambda>(count', n').
       case bs of [] \<Rightarrow> if count' \<le> 0 then Inr n' else Inl Diverges
       | b # bs' \<Rightarrow> rbind (nt_poll n') (nt_wait meth count' bs')))"

definition nt_WaitForSync :: "int \<Rightarrow> int \<Rightarrow> 'm NetworkThread \<Rightarrow> 'm NetworkThread result" where
  "nt_WaitForSync meth count n = nt_wait meth count (nt_inbox n) n"

definition nt_SyncBroadcast :: "int \<Rightarrow> 'm \<Rightarrow> 'm NetworkThread \<Rightarrow> 'm NetworkThread result" where
  "nt_SyncBroadcast meth msg n =
     nt_WaitForSync meth (int (nt_world_size n) - 1) (nt_Broadcast meth msg n)"

section \<open>Arrival\<close>

text \<open>A packet that MPI can deliver in a world of \<open>N\<close> ranks.\<close>

definition pkt_ok :: "nat \<Rightarrow> 'm packet \<Rightarrow> bool" where
  "pkt_ok N p \<longleftrightarrow> 0 \<le> pkt_source p \<and> pkt_source p < int N \<and> 0 \<le> pkt_tag p \<and> pkt_tag p < kMaxMethods"

definition net_ok :: "'m NetworkThread \<Rightarrow> bool" where
  "net_ok n \<longleftrightarrow> int (nt_world_size n) \<le> kMaxHosts \<and> (\<forall>b \<in> set (nt_inbox n). \<forall>p \<in> set b. pkt_ok (nt_world_size n) p)"

definition bodies :: "(Header \<Rightarrow> bool) \<Rightarrow> int \<Rightarrow> int \<Rightarrow> 'm packet list \<Rightarrow> 'm list" where
  "bodies h tag src ps = map pkt_body (filter (\<lambda>p. h (pkt_header p) \<and> pkt_tag p = tag \<and> pkt_source p = src) ps)"

abbreviation "reply_bodies \<equiv> bodies is_reply"
abbreviation "request_bodies \<equiv> bodies (\<lambda>h. \<not> is_reply h)"

lemma bodies_simps [simp]:
  "bodies h tag src [] = []"
  "bodies h tag src (p # ps) =
     (if h (pkt_header p) \<and> pkt_tag p = tag \<and> pkt_source p = src then pkt_body p # bodies h tag src ps else bodies h tag src ps)"
  "bodies h tag src (ps @ qs) = bodies h tag src ps @ bodies h tag src qs"
  by (simp_all add: bodies_def)

lemma queue_add_app [simp]: "queue_add tag src x q t i = (if t = tag \<and> i = src then q t i @ [x] else q t i)"
  by (simp add: queue_add_def)

lemma queue_drop_app [simp]: "queue_drop tag src q t i = (if t = tag \<and> i = src then tl (q t i) else q t i)"
  by (simp add: queue_drop_def)

lemma nt_arrive_effect:
  assumes "pkt_ok N p" and "int N \<le> kMaxHosts"
  shows "\<exists>c n'. nt_arrive p n = Inr (c, n') \<and> nt_inbox n' = nt_inbox n \<and> nt_world_size n' = nt_world_size n \<and>
    nt_pending_sends n' = nt_pending_sends n \<and> nt_isent n' = nt_isent n \<and>
    (\<forall>t. (nt_callbacks n' t = None) = (nt_callbacks n t = None)) \<and>
    (\<forall>t i. nt_replies n' t i = nt_replies n t i @ reply_bodies t i [p]) \<and>
    (\<forall>t i. nt_callbacks n t = None \<longrightarrow> nt_requests n' t i = nt_requests n t i @ request_bodies t i [p])"
  using assms by (auto simp: nt_arrive_def pkt_ok_def check_def split: option.splits)

lemma nt_arrive_all:
  assumes "\<forall>p \<in> set ps. pkt_ok N p" and "int N \<le> kMaxHosts"
  shows "\<exists>n'. rfold (\<lambda>p n. rbind (nt_arrive p n) (\<lambda>(_, n). Inr n)) ps n = Inr n' \<and> nt_inbox n' = nt_inbox n \<and>
    nt_world_size n' = nt_world_size n \<and> nt_pending_sends n' = nt_pending_sends n \<and> nt_isent n' = nt_isent n \<and>
    (\<forall>t. (nt_callbacks n' t = None) = (nt_callbacks n t = None)) \<and>
    (\<forall>t i. nt_replies n' t i = nt_replies n t i @ reply_bodies t i ps) \<and>
    (\<forall>t i. nt_callbacks n t = None \<longrightarrow> nt_requests n' t i = nt_requests n t i @ request_bodies t i ps)"
  using assms(1)
proof (induction ps arbitrary: n)
  case (Cons p ps)
  obtain c n1 where n1: "nt_arrive p n = Inr (c, n1)" "nt_inbox n1 = nt_inbox n" "nt_world_size n1 = nt_world_size n"
      "nt_pending_sends n1 = nt_pending_sends n" "nt_isent n1 = nt_isent n"
      "\<forall>t. (nt_callbacks n1 t = None) = (nt_callbacks n t = None)"
      "\<forall>t i. nt_replies n1 t i = nt_replies n t i @ reply_bodies t i [p]"
      "\<forall>t i. nt_callbacks n t = None \<longrightarrow> nt_requests n1 t i = nt_requests n t i @ request_bodies t i [p]"
    using nt_arrive_effect [of N p n] Cons.prems assms(2) by auto
  from Cons.IH [of n1] Cons.prems n1 show ?case by (auto simp del: not_None_eq)
qed simp

lemma nt_poll_effect:
  assumes "net_ok n"
  shows "\<exists>n'. nt_poll n = Inr n' \<and> net_ok n' \<and> nt_inbox n' = tl (nt_inbox n) \<and> nt_world_size n' = nt_world_size n \<and>
    nt_pending_sends n' = nt_pending_sends n \<and> nt_isent n' = nt_isent n \<and>
    (\<forall>t. (nt_callbacks n' t = None) = (nt_callbacks n t = None)) \<and>
    (\<forall>t i. nt_replies n' t i = nt_replies n t i @ reply_bodies t i (concat (take 1 (nt_inbox n)))) \<and>
    (\<forall>t i. nt_callbacks n t = None \<longrightarrow>
      nt_requests n' t i = nt_requests n t i @ request_bodies t i (concat (take 1 (nt_inbox n))))"
proof (cases "nt_inbox n")
  case Nil
  then show ?thesis using assms by (simp add: nt_poll_def)
next
  case (Cons b bs)
  have ok: "\<forall>p \<in> set b. pkt_ok (nt_world_size n) p" "int (nt_world_size n) \<le> kMaxHosts"
    using assms Cons by (auto simp: net_ok_def)
  from nt_arrive_all [OF ok, of "n\<lparr>nt_inbox := bs\<rparr>"] assms Cons show ?thesis
    by (auto simp: nt_poll_def net_ok_def simp del: not_None_eq)
qed

section \<open>Queues deliver in order\<close>

text \<open>A history of a queue: \<open>Some e\<close> is an arrival, \<open>None\<close> an attempt to read.\<close>

fun history :: "('e \<Rightarrow> 'q \<Rightarrow> 'q result) \<Rightarrow> ('q \<Rightarrow> ('a option \<times> 'q) result) \<Rightarrow> 'e option list \<Rightarrow> 'q \<Rightarrow> ('a list \<times> 'q) result" where
  "history deliver try_take [] q = Inr ([], q)"
| "history deliver try_take (Some e # es) q = rbind (deliver e q) (history deliver try_take es)"
| "history deliver try_take (None # es) q = rbind (try_take q) (\<lambda>(r, q').
     rbind (history deliver try_take es q') (\<lambda>(got, q''). Inr ((case r of None \<Rightarrow> got | Some x \<Rightarrow> x # got), q'')))"

fun arrived :: "'e option list \<Rightarrow> 'e list" where
  "arrived [] = []"
| "arrived (Some e # es) = e # arrived es"
| "arrived (None # es) = arrived es"

text \<open>The contract of a message queue: nothing is lost, repeated or reordered.\<close>

locale mailbox =
  fixes valid :: "'q \<Rightarrow> bool"
    and items :: "'q \<Rightarrow> 'a list"
    and brings :: "'e \<Rightarrow> 'a list"
    and event_ok :: "'e \<Rightarrow> bool"
    and deliver :: "'e \<Rightarrow> 'q \<Rightarrow> 'q result"
    and try_take :: "'q \<Rightarrow> ('a option \<times> 'q) result"
  assumes deliver_items: "valid q \<Longrightarrow> event_ok e \<Longrightarrow> \<exists>q'. deliver e q = Inr q' \<and> valid q' \<and> items q' = items q @ brings e"
    and take_items: "valid q \<Longrightarrow> \<exists>q'. try_take q = Inr (case items q of [] \<Rightarrow> None | x # _ \<Rightarrow> Some x, q') \<and> valid q' \<and> items q' = tl (items q)"
begin

lemma history_in_order:
  "valid q \<Longrightarrow> \<forall>e. Some e \<in> set es \<longrightarrow> event_ok e \<Longrightarrow>
     \<exists>got q'. history deliver try_take es q = Inr (got, q') \<and> valid q' \<and>
       got @ items q' = items q @ concat (map brings (arrived es))"
proof (induction es arbitrary: q)
  case Nil
  then show ?case by simp
next
  case (Cons e es)
  show ?case
  proof (cases e)
    case (Some x)
    then obtain q1 where q1: "deliver x q = Inr q1" "valid q1" "items q1 = items q @ brings x"
      using deliver_items [of q x] Cons.prems by auto
    from Cons.IH [OF q1(2)] Cons.prems(2) q1 Some show ?thesis by auto
  next
    case None
    obtain q1 where q1: "try_take q = Inr (case items q of [] \<Rightarrow> None | x # _ \<Rightarrow> Some x, q1)" "valid q1" "items q1 = tl (items q)"
      using take_items [OF Cons.prems(1)] by blast
    from Cons.IH [OF q1(2)] Cons.prems(2) obtain got q2 where "history deliver try_take es q1 = Inr (got, q2)" "valid q2"
        "got @ items q2 = items q1 @ concat (map brings (arrived es))"
      by auto
    with q1 None show ?thesis by (cases "items q") auto
  qed
qed

end

definition requests_valid :: "int \<Rightarrow> int \<Rightarrow> 'm NetworkThread \<Rightarrow> bool" where
  "requests_valid src tag n \<longleftrightarrow> 0 \<le> src \<and> src < kMaxHosts \<and> 0 \<le> tag \<and> tag < kMaxMethods \<and> nt_callbacks n tag = None"

definition replies_valid :: "int \<Rightarrow> int \<Rightarrow> 'm NetworkThread \<Rightarrow> bool" where
  "replies_valid src tag n \<longleftrightarrow> 0 \<le> src \<and> src < kMaxHosts \<and> 0 \<le> tag \<and> tag < kMaxMethods"

definition nt_get_arrived :: "'m packet \<Rightarrow> 'm NetworkThread \<Rightarrow> 'm NetworkThread result" where
  "nt_get_arrived p n = rbind (nt_arrive p n) (\<lambda>(_, n). Inr n)"

interpretation requests: mailbox "requests_valid src tag" "\<lambda>n. nt_requests n tag src"
    "\<lambda>p. request_bodies tag src [p]" "pkt_ok (nat kMaxHosts)" nt_get_arrived "nt_check_request_queue src tag"
  for src tag :: int
proof
  fix n :: "'m NetworkThread" and p :: "'m packet"
  assume "requests_valid src tag n" "pkt_ok (nat kMaxHosts) p"
  then show "\<exists>n'. nt_get_arrived p n = Inr n' \<and> requests_valid src tag n' \<and>
      nt_requests n' tag src = nt_requests n tag src @ request_bodies tag src [p]"
    using nt_arrive_effect [of "nat kMaxHosts" p n]
    by (auto simp: nt_get_arrived_def requests_valid_def kMaxHosts_def simp del: bodies_simps not_None_eq)
next
  fix n :: "'m NetworkThread"
  assume "requests_valid src tag n"
  then show "\<exists>n'. nt_check_request_queue src tag n = Inr (case nt_requests n tag src of [] \<Rightarrow> None | x # _ \<Rightarrow> Some x, n') \<and>
      requests_valid src tag n' \<and> nt_requests n' tag src = tl (nt_requests n tag src)"
    by (auto simp: nt_check_request_queue_def requests_valid_def check_def split: list.splits)
qed

interpretation replies: mailbox "replies_valid src tag" "\<lambda>n. nt_replies n tag src"
    "\<lambda>p. reply_bodies tag src [p]" "pkt_ok (nat kMaxHosts)" nt_get_arrived "nt_check_reply_queue src tag"
  for src tag :: int
proof
  fix n :: "'m NetworkThread" and p :: "'m packet"
  assume "replies_valid src tag n" "pkt_ok (nat kMaxHosts) p"
  then show "\<exists>n'. nt_get_arrived p n = Inr n' \<and> replies_valid src tag n' \<and>
      nt_replies n' tag src = nt_replies n tag src @ reply_bodies tag src [p]"
    using nt_arrive_effect [of "nat kMaxHosts" p n]
    by (auto simp: nt_get_arrived_def replies_valid_def kMaxHosts_def simp del: bodies_simps not_None_eq)
next
  fix n :: "'m NetworkThread"
  assume "replies_valid src tag n"
  then show "\<exists>n'. nt_check_reply_queue src tag n = Inr (case nt_replies n tag src of [] \<Rightarrow> None | x # _ \<Rightarrow> Some x, n') \<and>
      replies_valid src tag n' \<and> nt_replies n' tag src = tl (nt_replies n tag src)"
    by (auto simp: nt_check_reply_queue_def replies_valid_def check_def split: list.splits)
qed

text \<open>
  C23: the queues of the network thread deliver in order. However arrivals of valid packets (of any type,
  from any rank, requests and replies) and attempts to read type \<open>tag\<close> from rank \<open>src\<close> interleave, no
  step fails, and what was read so far followed by what is still queued is what was queued at first
  followed by the requests of that type and source in the order of their arrival.
\<close>

theorem requests_in_order:
  assumes "0 \<le> src" "src < kMaxHosts" "0 \<le> tag" "tag < kMaxMethods" "nt_callbacks n tag = None"
    and "\<And>p. Some p \<in> set es \<Longrightarrow> pkt_ok (nat kMaxHosts) p"
  shows "\<exists>got n'. history nt_get_arrived (nt_check_request_queue src tag) es n = Inr (got, n') \<and>
    got @ nt_requests n' tag src = nt_requests n tag src @ request_bodies tag src (arrived es)"
proof -
  have "concat (map (\<lambda>p. request_bodies tag src [p]) ps) = request_bodies tag src ps" for ps :: "'a packet list"
    by (induction ps) simp_all
  moreover have "requests_valid src tag n" using assms by (simp add: requests_valid_def)
  ultimately show ?thesis using requests.history_in_order [of src tag n es] assms(6) by auto
qed

definition ex_packet :: "string \<Rightarrow> string packet" where
  "ex_packet s = \<lparr>pkt_source = 1, pkt_tag = 2, pkt_header = header_new, pkt_body = s\<rparr>"

theorem requests_in_order_witness:
  "\<exists>got n'. history nt_get_arrived (nt_check_request_queue 1 2)
      [Some (ex_packet ''a''), None, Some (ex_packet ''b'')] (nt_new 0 3 []) = Inr (got, n') \<and>
    got @ nt_requests n' 2 1 = [''a'', ''b'']"
proof -
  have "pkt_ok (nat kMaxHosts) p" if "Some p \<in> set [Some (ex_packet ''a''), None, Some (ex_packet ''b'')]" for p
    using that by (auto simp: ex_packet_def pkt_ok_def kMaxHosts_def kMaxMethods_def)
  then have "\<exists>got n'. history nt_get_arrived (nt_check_request_queue 1 2)
      [Some (ex_packet ''a''), None, Some (ex_packet ''b'')] (nt_new 0 3 []) = Inr (got, n') \<and>
      got @ nt_requests n' 2 1 = nt_requests (nt_new 0 3 []) 2 1 @
        request_bodies 2 1 (arrived [Some (ex_packet ''a''), None, Some (ex_packet ''b'')])"
    by (intro requests_in_order) (simp_all add: kMaxHosts_def kMaxMethods_def nt_new_def)
  moreover have "nt_requests (nt_new 0 3 []) 2 1 @
        request_bodies 2 1 (arrived [Some (ex_packet ''a''), None, Some (ex_packet ''b'')]) = [''a'', ''b'']"
    by (simp add: ex_packet_def header_new_def)
  ultimately show ?thesis by simp
qed

section \<open>The order of sends\<close>

lemma nt_push_sends_isent:
  "nt_isent (nt_push_sends n) = nt_isent n @ rev (nt_pending_sends n) \<and> nt_pending_sends (nt_push_sends n) = []"
proof (induction n rule: nt_push_sends.induct)
  case (1 n)
  show ?case
  proof (cases "nt_pending_sends n = []")
    case True
    then show ?thesis by (subst (1 2) nt_push_sends.simps) simp
  next
    case False
    then obtain rs r where "nt_pending_sends n = rs @ [r]" by (cases "nt_pending_sends n" rule: rev_cases) auto
    with 1 [OF False] show ?thesis by (subst (1 2) nt_push_sends.simps) (simp add: nt_Isend_def)
  qed
qed

lemma nt_Sends_pending:
  "nt_pending_sends (fold (\<lambda>m. nt_Send dst tag m) ms n) = nt_pending_sends n @ map (\<lambda>m. rpc_new dst tag m header_new) ms"
  "nt_isent (fold (\<lambda>m. nt_Send dst tag m) ms n) = nt_isent n"
  by (induction ms arbitrary: n) (simp_all add: nt_Send_def nt_Send_req_def)

text \<open>
  C38: a burst of sends leaves in the wrong order. Messages that are sent to one rank with one type
  between two rounds of the network thread are given to MPI last first, so MPI, which keeps the order
  of messages between two ranks with one tag, delivers them reversed.
\<close>

theorem burst_is_reversed:
  "nt_pending_sends n = [] \<Longrightarrow>
   nt_isent (nt_push_sends (fold (\<lambda>m. nt_Send dst tag m) ms n)) =
     nt_isent n @ map (\<lambda>m. rpc_new dst tag m header_new) (rev ms)"
  by (simp add: nt_push_sends_isent nt_Sends_pending rev_map)

theorem burst_is_reversed_witness:
  "nt_isent (nt_push_sends (fold (\<lambda>m. nt_Send 1 4 m) [''first'', ''second''] (nt_new 0 2 []))) =
     [rpc_new 1 4 ''second'' header_new, rpc_new 1 4 ''first'' header_new]"
  using burst_is_reversed [of "nt_new 0 2 []" 1 4 "[''first'', ''second'']"] by simp

section \<open>Synchronous broadcasts\<close>

text \<open>The replies of a type that a list of packets holds, as the ranks they come from.\<close>

definition answers :: "int \<Rightarrow> 'm packet list \<Rightarrow> int list" where
  "answers meth ps = map pkt_source (filter (\<lambda>p. is_reply (pkt_header p) \<and> pkt_tag p = meth) ps)"

lemma answers_append [simp]: "answers meth (ps @ qs) = answers meth ps @ answers meth qs"
  by (simp add: answers_def)

lemma length_reply_bodies: "length (reply_bodies meth i ps) = count_list (answers meth ps) i"
  by (induction ps) (auto simp: answers_def)

lemma sum_count_list: "set xs \<subseteq> int ` {..<N} \<Longrightarrow> (\<Sum>i<N. count_list xs (int i)) = length xs"
proof (induction xs)
  case (Cons x xs)
  then obtain j where j: "x = int j" "j < N" by auto
  have "(\<Sum>i<N. count_list (x # xs) (int i)) = (\<Sum>i<N. count_list xs (int i)) + (\<Sum>i<N. if i = j then 1 else 0)"
    unfolding sum.distrib [symmetric] by (rule sum.cong) (auto simp: j)
  with Cons j show ?case by simp
qed simp

lemma nt_check_reply_effect:
  assumes "0 \<le> src" "src < kMaxHosts" "0 \<le> meth" "meth < kMaxMethods"
  shows "\<exists>r n'. nt_check_reply_queue src meth n = Inr (r, n') \<and> (r = None) = (nt_replies n meth src = []) \<and>
    nt_inbox n' = nt_inbox n \<and> nt_world_size n' = nt_world_size n \<and> nt_pending_sends n' = nt_pending_sends n \<and>
    (\<forall>i. nt_replies n' meth i = (if i = src then tl (nt_replies n meth src) else nt_replies n meth i))"
  using assms by (cases "nt_replies n meth src") (simp_all add: nt_check_reply_queue_def check_def)

lemma count_list_distinct: "distinct xs \<Longrightarrow> count_list xs x \<le> 1"
  by (induction xs) auto

text \<open>One sweep takes at most one reply of every rank.\<close>

lemma nt_sweep_effect:
  assumes "distinct is" and "\<forall>i \<in> set is. int i < kMaxHosts" and "0 \<le> meth" "meth < kMaxMethods"
  shows "\<exists>n'. nt_sweep is meth count n =
      Inr (count - int (length (filter (\<lambda>i. nt_replies n meth (int i) \<noteq> []) is)), n') \<and>
    nt_inbox n' = nt_inbox n \<and> nt_world_size n' = nt_world_size n \<and> nt_pending_sends n' = nt_pending_sends n \<and>
    (\<forall>i. nt_replies n' meth (int i) = (if i \<in> set is then tl (nt_replies n meth (int i)) else nt_replies n meth (int i)))"
  using assms(1,2)
proof (induction "is" arbitrary: count n)
  case (Cons i js)
  obtain r n1 where n1: "nt_check_reply_queue (int i) meth n = Inr (r, n1)"
      "r = None \<longleftrightarrow> nt_replies n meth (int i) = []" "nt_inbox n1 = nt_inbox n" "nt_world_size n1 = nt_world_size n"
      "nt_pending_sends n1 = nt_pending_sends n"
      "\<And>j. nt_replies n1 meth (int j) = (if j = i then tl (nt_replies n meth (int i)) else nt_replies n meth (int j))"
    using nt_check_reply_effect [of "int i" meth n] Cons.prems assms(3,4) by auto
  have same: "filter (\<lambda>j. nt_replies n1 meth (int j) \<noteq> []) js = filter (\<lambda>j. nt_replies n meth (int j) \<noteq> []) js"
    using Cons.prems by (intro filter_cong) (auto simp: n1)
  obtain n2 where n2: "nt_sweep js meth (case r of Some _ \<Rightarrow> count - 1 | None \<Rightarrow> count) n1 =
      Inr ((case r of Some _ \<Rightarrow> count - 1 | None \<Rightarrow> count) - int (length (filter (\<lambda>i. nt_replies n1 meth (int i) \<noteq> []) js)), n2)"
      "nt_inbox n2 = nt_inbox n1" "nt_world_size n2 = nt_world_size n1" "nt_pending_sends n2 = nt_pending_sends n1"
      "\<And>j. nt_replies n2 meth (int j) = (if j \<in> set js then tl (nt_replies n1 meth (int j)) else nt_replies n1 meth (int j))"
    using Cons.IH [of "case r of Some _ \<Rightarrow> count - 1 | None \<Rightarrow> count" n1] Cons.prems by auto
  have "nt_replies n2 meth (int j) =
      (if j \<in> set (i # js) then tl (nt_replies n meth (int j)) else nt_replies n meth (int j))" for j
    using Cons.prems by (auto simp: n2(5) n1(6))
  moreover have "nt_sweep (i # js) meth count n =
      Inr (count - int (length (filter (\<lambda>i. nt_replies n meth (int i) \<noteq> []) (i # js))), n2)"
    using n1(1,2) n2(1) by (cases r) (simp_all add: same)
  ultimately show ?case using n1 n2 by (intro exI [of _ n2]) simp
qed simp

lemma sweep_total:
  assumes "\<And>i. i < N \<Longrightarrow> length (q i) \<le> 1"
  shows "(\<Sum>i<N. length (q i)) = length (filter (\<lambda>i. q i \<noteq> []) [0..<N])"
  using assms
proof (induction N)
  case (Suc N)
  moreover from Suc.prems [of N] have "length (q N) = (if q N = [] then 0 else 1)"
    by (cases "q N") auto
  ultimately show ?case by simp
qed simp

definition queued :: "int \<Rightarrow> 'm NetworkThread \<Rightarrow> nat" where
  "queued meth n = (\<Sum>i<nt_world_size n. length (nt_replies n meth (int i)))"

lemma nt_sweep_all:
  assumes "net_ok n" and "0 \<le> meth" "meth < kMaxMethods"
    and one: "\<And>i. i < nt_world_size n \<Longrightarrow> length (nt_replies n meth (int i)) \<le> 1"
  shows "\<exists>n'. nt_sweep [0..<nt_world_size n] meth count n = Inr (count - int (queued meth n), n') \<and>
    net_ok n' \<and> nt_inbox n' = nt_inbox n \<and> nt_world_size n' = nt_world_size n \<and> nt_pending_sends n' = nt_pending_sends n \<and>
    (\<forall>i < nt_world_size n. nt_replies n' meth (int i) = [])"
proof -
  have hosts: "\<forall>i \<in> set [0..<nt_world_size n]. int i < kMaxHosts" using assms(1) by (auto simp: net_ok_def)
  have "tl (nt_replies n meth (int i)) = []" if "i < nt_world_size n" for i
    using one [OF that] by (cases "nt_replies n meth (int i)") auto
  moreover have "queued meth n = length (filter (\<lambda>i. nt_replies n meth (int i) \<noteq> []) [0..<nt_world_size n])"
    unfolding queued_def by (rule sweep_total) (rule one)
  ultimately show ?thesis
    using nt_sweep_effect [OF distinct_upt hosts assms(2,3), of count n] assms(1) by (auto simp: net_ok_def)
qed

text \<open>
  The waiting loop, when every rank has at most one reply outstanding: it ends exactly when there are
  enough replies.
\<close>

lemma nt_wait_counts:
  assumes "net_ok n" and "nt_inbox n = bs" and "0 \<le> meth" "meth < kMaxMethods"
    and "\<And>i. i < nt_world_size n \<Longrightarrow> length (nt_replies n meth (int i)) + count_list (answers meth (concat bs)) (int i) \<le> 1"
  shows "if count \<le> int (queued meth n) + int (length (answers meth (concat bs)))
    then \<exists>n'. nt_wait meth count bs n = Inr n' \<and> nt_pending_sends n' = nt_pending_sends n
    else nt_wait meth count bs n = Inl Diverges"
  using assms
proof (induction bs arbitrary: n count)
  case Nil
  have le: "length (nt_replies n meth (int i)) \<le> 1" if "i < nt_world_size n" for i using Nil.prems(5) [OF that] by simp
  from nt_sweep_all [OF Nil.prems(1,3,4) le, of count] show ?case by (auto simp: answers_def)
next
  case (Cons b bs)
  have le: "length (nt_replies n meth (int i)) \<le> 1" if "i < nt_world_size n" for i using Cons.prems(5) [OF that] by simp
  obtain n1 where n1: "nt_sweep [0..<nt_world_size n] meth count n = Inr (count - int (queued meth n), n1)"
      "net_ok n1" "nt_inbox n1 = b # bs" "nt_world_size n1 = nt_world_size n" "nt_pending_sends n1 = nt_pending_sends n"
      "\<And>i. i < nt_world_size n \<Longrightarrow> nt_replies n1 meth (int i) = []"
    using nt_sweep_all [OF Cons.prems(1,3,4) le, of count] Cons.prems(2) by auto
  obtain n2 where n2: "nt_poll n1 = Inr n2" "net_ok n2" "nt_inbox n2 = bs" "nt_world_size n2 = nt_world_size n"
      "nt_pending_sends n2 = nt_pending_sends n"
      "\<And>i. i < nt_world_size n \<Longrightarrow> nt_replies n2 meth (int i) = reply_bodies meth (int i) b"
    using nt_poll_effect [OF n1(2)] n1(3-6) by auto
  have src: "set (answers meth b) \<subseteq> int ` {..<nt_world_size n}"
  proof
    fix x assume "x \<in> set (answers meth b)"
    then obtain p where "p \<in> set b" "x = pkt_source p" by (auto simp: answers_def)
    then have "0 \<le> x" "x < int (nt_world_size n)" using Cons.prems(1,2) by (auto simp: net_ok_def pkt_ok_def)
    then show "x \<in> int ` {..<nt_world_size n}" by (intro image_eqI [of _ _ "nat x"]) auto
  qed
  have q2: "queued meth n2 = length (answers meth b)"
    using sum_count_list [OF src] n2(6) by (simp add: queued_def n2(4) length_reply_bodies)
  have one2: "length (nt_replies n2 meth (int i)) + count_list (answers meth (concat bs)) (int i) \<le> 1"
    if "i < nt_world_size n2" for i
    using Cons.prems(5) [of i] that by (simp add: n2(4,6) length_reply_bodies count_list_append)
  have loop: "nt_wait meth count (b # bs) n = (if count \<le> 0 then Inr n else nt_wait meth (count - int (queued meth n)) bs n2)"
    using n1(1) n2(1) by simp
  show ?case
  proof (cases "count \<le> 0")
    case False
    then show ?thesis
      using Cons.IH [OF n2(2,3) Cons.prems(3,4) one2, of "count - int (queued meth n)"] q2 n2(5)
      by (auto simp: loop algebra_simps simp del: nt_wait.simps split: if_splits)
  qed (simp add: loop del: nt_wait.simps)
qed

lemma nt_Broadcast_effect:
  "nt_pending_sends (nt_Broadcast meth msg n) =
     nt_pending_sends n @ map (\<lambda>i. rpc_new (int i) meth msg header_new) [1..<nt_world_size n] \<and>
   nt_inbox (nt_Broadcast meth msg n) = nt_inbox n \<and> nt_replies (nt_Broadcast meth msg n) = nt_replies n \<and>
   nt_world_size (nt_Broadcast meth msg n) = nt_world_size n"
proof -
  have "nt_pending_sends (fold (\<lambda>i. nt_Send (int i) meth msg) is m) = nt_pending_sends m @ map (\<lambda>i. rpc_new (int i) meth msg header_new) is \<and>
     nt_inbox (fold (\<lambda>i. nt_Send (int i) meth msg) is m) = nt_inbox m \<and>
     nt_replies (fold (\<lambda>i. nt_Send (int i) meth msg) is m) = nt_replies m \<and>
     nt_world_size (fold (\<lambda>i. nt_Send (int i) meth msg) is m) = nt_world_size m" for "is" and m :: "'a NetworkThread"
    by (induction "is" arbitrary: m) (simp_all add: nt_Send_def nt_Send_req_def)
  then show ?thesis by (simp add: nt_Broadcast_def)
qed

text \<open>
  C22: a synchronous broadcast is a barrier. When no reply to \<open>meth\<close> is left over from before, the master
  (rank \<open>0\<close>) does not answer itself and every worker answers at most once, \<^verbatim>\<open>SyncBroadcast\<close> returns if
  and only if every worker has answered; it has sent the message once to every worker. With an answer
  missing it waits for ever.
\<close>

theorem sync_broadcast_barrier:
  fixes n :: "'m NetworkThread" and meth :: int
  defines "replied \<equiv> answers meth (concat (nt_inbox n))"
  assumes "net_ok n" and "0 < nt_world_size n" and "0 \<le> meth" "meth < kMaxMethods"
    and "\<And>i. nt_replies n meth i = []" and "distinct replied" and "0 \<notin> set replied"
  shows "if set replied = {1..<int (nt_world_size n)}
    then \<exists>n'. nt_SyncBroadcast meth msg n = Inr n' \<and> nt_pending_sends n' =
      nt_pending_sends n @ map (\<lambda>i. rpc_new (int i) meth msg header_new) [1..<nt_world_size n]
    else nt_SyncBroadcast meth msg n = Inl Diverges"
proof -
  let ?n = "nt_Broadcast meth msg n" and ?k = "int (nt_world_size n) - 1"
  have sub: "set replied \<subseteq> {1..<int (nt_world_size n)}"
  proof
    fix x assume x: "x \<in> set replied"
    then obtain b p where "b \<in> set (nt_inbox n)" "p \<in> set b" "x = pkt_source p" by (auto simp: replied_def answers_def)
    then have "0 \<le> x" "x < int (nt_world_size n)" using assms(2) by (auto simp: net_ok_def pkt_ok_def)
    moreover have "x \<noteq> 0" using x assms(8) by metis
    ultimately show "x \<in> {1..<int (nt_world_size n)}" by simp
  qed
  have len: "int (length replied) \<ge> ?k \<longleftrightarrow> set replied = {1..<int (nt_world_size n)}"
    using card_seteq [OF _ sub] distinct_card [OF assms(7)] assms(3) by auto
  have ok: "net_ok ?n" "nt_inbox ?n = nt_inbox n" "queued meth ?n = 0"
    using assms(2) nt_Broadcast_effect [of meth msg n] assms(6) by (simp_all add: net_ok_def queued_def)
  have one: "length (nt_replies ?n meth (int i)) + count_list (answers meth (concat (nt_inbox n))) (int i) \<le> 1" for i
    using nt_Broadcast_effect [of meth msg n] assms(6) assms(7) count_list_distinct [of replied]
    by (auto simp: replied_def)
  show ?thesis
    using nt_wait_counts [OF ok(1,2) assms(4,5) one, of ?k] ok(3) len nt_Broadcast_effect [of meth msg n]
    by (auto simp: nt_SyncBroadcast_def nt_WaitForSync_def replied_def simp del: nt_wait.simps split: if_splits)
qed

definition ex_reply :: "int \<Rightarrow> string packet" where
  "ex_reply i = \<lparr>pkt_source = i, pkt_tag = 15, pkt_header = \<lparr>is_reply = True\<rparr>, pkt_body = []\<rparr>"

theorem sync_broadcast_barrier_witness:
  "(\<exists>n'. nt_SyncBroadcast 15 [] (nt_new 0 3 [[ex_reply 2], [], [ex_reply 1]]) = Inr n') \<and>
   nt_SyncBroadcast 15 [] (nt_new 0 3 [[ex_reply 2], []]) = Inl Diverges"
proof -
  have s: "{1..<3} = {1, 2 :: int}" by auto
  have ok: "net_ok (nt_new 0 3 [[ex_reply 2], [], [ex_reply 1]])" "net_ok (nt_new 0 3 [[ex_reply 2], []])"
    by (auto simp: net_ok_def ex_reply_def pkt_ok_def kMaxHosts_def kMaxMethods_def)
  have a: "answers 15 [ex_reply 2, ex_reply 1] = [2, 1]" "answers 15 [ex_reply 2] = [2]"
    by (simp_all add: answers_def ex_reply_def)
  show ?thesis
    using sync_broadcast_barrier [OF ok(1), of 15 "[]"] sync_broadcast_barrier [OF ok(2), of 15 "[]"]
    by (auto simp: kMaxMethods_def a s split: if_splits)
qed

end
