(* ===== verification/Registry.thy ===== *)
theory Registry
  imports GlobalTable "HOL-Library.AList"
begin

text \<open>
  \<^verbatim>\<open>src/kernel/kernel.h\<close>, \<^verbatim>\<open>kernel.cc\<close>, \<^verbatim>\<open>table-registry.h\<close> and \<^verbatim>\<open>table-registry.cc\<close>: the parameter
  maps that travel with a kernel request, the kernel objects a worker creates, and the process-wide
  registries of tables, kernels and runners. A registry is a singleton in the program and a value that
  is passed along here. Null pointers are \<open>None\<close>.
\<close>

named_theorems registry_defs \<open>definitions of the registries\<close>

section \<open>Marshalled maps\<close>

text \<open>
  \<open>mm_p\<close> holds the values that have been put or read (\<^verbatim>\<open>p_\<close>), \<open>mm_serialized\<close> the ones that arrived in a
  message and have not been read yet (\<^verbatim>\<open>serialized_\<close>). Both are hash maps; the order in which
  \<^verbatim>\<open>ToMessage\<close> lists the entries is the order of the association list here. \<open>mar\<close> and \<open>unmar\<close> are
  \<^verbatim>\<open>Marshal<T>\<close> for the type of the values.
\<close>

record 'a MarshalledMap =
  mm_p :: "(string \<times> 'a) list"
  mm_serialized :: "(string \<times> string) list"

definition mm_new :: "'a MarshalledMap" where
  "mm_new = \<lparr>mm_p = [], mm_serialized = []\<rparr>"

definition mm_put :: "string \<Rightarrow> 'a \<Rightarrow> 'a MarshalledMap \<Rightarrow> 'a MarshalledMap" where
  "mm_put k v m = m\<lparr>mm_serialized := AList.delete k (mm_serialized m), mm_p := AList.update k v (mm_p m)\<rparr>"

definition mm_get :: "(string \<Rightarrow> 'a) \<Rightarrow> string \<Rightarrow> 'a MarshalledMap \<Rightarrow> ('a \<times> 'a MarshalledMap) result" where
  "mm_get unmar k m =
     (let m' = (case map_of (mm_serialized m) k of
                  None \<Rightarrow> m
                | Some s \<Rightarrow> m\<lparr>mm_p := AList.update k (unmar s) (mm_p m),
                              mm_serialized := AList.delete k (mm_serialized m)\<rparr>)
      in case map_of (mm_p m') k of None \<Rightarrow> Inl NullDeref | Some v \<Rightarrow> Inr (v, m'))"

definition mm_contains :: "string \<Rightarrow> 'a MarshalledMap \<Rightarrow> bool" where
  "mm_contains k m \<longleftrightarrow> map_of (mm_p m) k \<noteq> None \<or> map_of (mm_serialized m) k \<noteq> None"

definition mm_ToMessage :: "('a \<Rightarrow> string) \<Rightarrow> 'a MarshalledMap \<Rightarrow> (string \<times> string) list" where
  "mm_ToMessage mar m = map (\<lambda>(k, v). (k, mar v)) (mm_p m)"

definition mm_FromMessage :: "(string \<times> string) list \<Rightarrow> 'a MarshalledMap \<Rightarrow> 'a MarshalledMap" where
  "mm_FromMessage p m = m\<lparr>mm_serialized := fold (\<lambda>(k, s). AList.update k s) p (mm_serialized m)\<rparr>"

text \<open>What the map holds for a key, wherever it is kept.\<close>

definition mm_lookup :: "(string \<Rightarrow> 'a) \<Rightarrow> 'a MarshalledMap \<Rightarrow> string \<Rightarrow> 'a option" where
  "mm_lookup unmar m k = (case map_of (mm_serialized m) k of
       Some s \<Rightarrow> Some (unmar s) | None \<Rightarrow> map_of (mm_p m) k)"

lemma mm_put_lookup: "mm_lookup unmar (mm_put k v m) = (mm_lookup unmar m)(k \<mapsto> v)"
  by (auto simp: mm_lookup_def mm_put_def update_conv' delete_conv' fun_eq_iff split: option.splits)

lemma mm_get_lookup:
  "mm_get unmar k m = (case mm_lookup unmar m k of
     None \<Rightarrow> Inl NullDeref
   | Some v \<Rightarrow> Inr (v, if map_of (mm_serialized m) k = None then m
        else m\<lparr>mm_p := AList.update k v (mm_p m), mm_serialized := AList.delete k (mm_serialized m)\<rparr>))"
  by (auto simp: mm_get_def mm_lookup_def update_conv' Let_def split: option.splits)

lemma mm_get_keeps: "mm_get unmar k m = Inr (v, m') \<Longrightarrow> mm_lookup unmar m' = mm_lookup unmar m"
  by (auto simp: mm_get_lookup mm_lookup_def update_conv' delete_conv' fun_eq_iff split: option.splits if_splits)

lemma mm_contains_lookup: "mm_contains k m \<longleftrightarrow> mm_lookup unmar m k \<noteq> None"
  by (auto simp: mm_contains_def mm_lookup_def split: option.splits)

lemma fold_update_map: "map_of (fold (\<lambda>(k, s). AList.update k s) p m) = map_of m ++ map_of (rev p)"
  by (induction p arbitrary: m) (auto simp: update_conv' map_add_assoc)

lemma map_of_image: "map_of (map (\<lambda>(k, v). (k, f v)) ps) k = map_option f (map_of ps k)"
  by (induction ps) auto

lemma map_of_rev_distinct: "distinct (map fst ps) \<Longrightarrow> map_of (rev ps) = map_of ps"
  by (subst map_of_inject_set) (simp_all add: rev_map [symmetric])

lemma mm_put_distinct: "distinct (map fst (mm_p m)) \<Longrightarrow> distinct (map fst (mm_p (mm_put k v m)))"
  by (simp add: mm_put_def distinct_update)

lemma mm_puts:
  defines "puts \<equiv> fold (\<lambda>(k, v). mm_put k v)"
  shows "mm_serialized (puts xs mm_new) = []" "distinct (map fst (mm_p (puts xs mm_new)))"
    "map_of (mm_p (puts xs mm_new)) = map_of (rev xs)"
proof -
  have *: "mm_serialized m = [] \<Longrightarrow> distinct (map fst (mm_p m)) \<Longrightarrow> mm_serialized (puts xs m) = [] \<and>
      distinct (map fst (mm_p (puts xs m))) \<and> map_of (mm_p (puts xs m)) = map_of (mm_p m) ++ map_of (rev xs)" for m :: "'a MarshalledMap"
    unfolding puts_def
  proof (induction xs arbitrary: m)
    case (Cons x xs)
    have "map_of (mm_p (mm_put k v m)) = (map_of (mm_p m))(k \<mapsto> v)" "mm_serialized (mm_put k v m) = []" for k v
      using Cons.prems(1) by (simp_all add: mm_put_def update_conv')
    with Cons.IH [of "mm_put (fst x) (snd x) m"] Cons.prems mm_put_distinct [of m] show ?case
      by (cases x) (auto simp: map_add_def fun_eq_iff split: option.splits)
  qed simp
  from * [of mm_new] show "mm_serialized (puts xs mm_new) = []" "distinct (map fst (mm_p (puts xs mm_new)))"
    "map_of (mm_p (puts xs mm_new)) = map_of (rev xs)" by (simp_all add: mm_new_def)
qed

text \<open>
  C24: the arguments of a kernel arrive. Whatever sequence of \<^verbatim>\<open>put\<close> calls filled a parameter map, after
  \<^verbatim>\<open>ToMessage\<close> on one process and \<^verbatim>\<open>FromMessage\<close> into an empty map on another, the second map holds
  for every key the value of the last \<^verbatim>\<open>put\<close> and nothing else.
\<close>

theorem args_roundtrip:
  assumes "\<And>v. unmar (mar v) = v"
  shows "mm_lookup unmar (mm_FromMessage (mm_ToMessage mar (fold (\<lambda>(k, v). mm_put k v) xs mm_new)) mm_new) = map_of (rev xs)"
proof -
  let ?m = "fold (\<lambda>(k, v). mm_put k v) xs mm_new"
  have d: "distinct (map fst (mm_ToMessage mar ?m))"
    using mm_puts(2) [of xs] by (simp add: mm_ToMessage_def comp_def case_prod_unfold)
  have "map_of (mm_serialized (mm_FromMessage (mm_ToMessage mar ?m) mm_new)) k = map_option mar (map_of (rev xs) k)" for k
    using map_of_rev_distinct [OF d] mm_puts(3) [of xs]
    by (simp add: mm_FromMessage_def fold_update_map mm_new_def) (simp add: mm_ToMessage_def map_of_image)
  then show ?thesis
    by (auto simp: mm_lookup_def assms fun_eq_iff mm_FromMessage_def mm_new_def split: option.splits)
qed

theorem args_roundtrip_witness:
  "mm_lookup id (mm_FromMessage (mm_ToMessage id (fold (\<lambda>(k, v). mm_put k v)
     [(''a'', ''1''), (''b'', ''2''), (''a'', ''3'')] mm_new)) mm_new) =
   [''b'' \<mapsto> ''2'', ''a'' \<mapsto> ''3'']"
  using args_roundtrip [of id id "[(''a'', ''1''), (''b'', ''2''), (''a'', ''3'')]"] by (simp add: fun_eq_iff)

text \<open>Reading a list of keys, one \<^verbatim>\<open>get\<close> after the other.\<close>

definition mm_reads :: "(string \<Rightarrow> 'a) \<Rightarrow> string list \<Rightarrow> 'a MarshalledMap \<Rightarrow> 'a MarshalledMap result" where
  "mm_reads unmar ks m = rfold (\<lambda>k m. rbind (mm_get unmar k m) (\<lambda>(_, m'). Inr m')) ks m"

lemma mm_get_moves:
  assumes "mm_get unmar k m = Inr (v, m')"
  shows "fst ` set (mm_p m') = insert k (fst ` set (mm_p m))"
proof (cases "map_of (mm_serialized m) k")
  case None
  then have "m' = m" and "map_of (mm_p m) k = Some v"
    using assms by (auto simp: mm_get_lookup mm_lookup_def split: option.splits)
  then show ?thesis by (auto dest: map_of_SomeD intro: rev_image_eqI)
next
  case (Some s)
  then have "mm_p m' = AList.update k v (mm_p m)"
    using assms by (auto simp: mm_get_lookup mm_lookup_def)
  then show ?thesis by (simp add: dom_update)
qed

lemma mm_reads_keys:
  "mm_reads unmar ks m = Inr m' \<Longrightarrow> fst ` set (mm_p m') = set ks \<union> fst ` set (mm_p m)"
proof (induction ks arbitrary: m)
  case (Cons k ks)
  from Cons.prems obtain v m1 where g: "mm_get unmar k m = Inr (v, m1)" and r: "mm_reads unmar ks m1 = Inr m'"
    by (auto simp: mm_reads_def result_simps)
  from Cons.IH [OF r] mm_get_moves [OF g] show ?case by simp
qed (simp add: mm_reads_def)

lemma mm_reads_total:
  "\<forall>k \<in> set ks. mm_lookup unmar m k \<noteq> None \<Longrightarrow> \<exists>m'. mm_reads unmar ks m = Inr m'"
proof (induction ks arbitrary: m)
  case (Cons k ks)
  then obtain v where "mm_lookup unmar m k = Some v" by auto
  then obtain m1 where g: "mm_get unmar k m = Inr (v, m1)" by (auto simp: mm_get_lookup)
  have "\<exists>m'. mm_reads unmar ks m1 = Inr m'"
    using Cons.prems mm_get_keeps [OF g] by (intro Cons.IH) simp
  then show ?case using g by (auto simp: mm_reads_def)
qed (simp add: mm_reads_def)

text \<open>
  What was not read is not passed on. A map filled from a message and read at some of its keys
  gives \<^verbatim>\<open>ToMessage\<close> exactly the keys that were read: the entries that are still serialised are not in
  the message. The master restores its checkpoint variables this way, so a variable that no
  \<^verbatim>\<open>get_cp_var\<close> touched between a restore and the next checkpoint is missing from that checkpoint.
\<close>

lemma unread_entries_dropped:
  assumes "set ks \<subseteq> fst ` set p"
  shows "\<exists>m. mm_reads unmar ks (mm_FromMessage p mm_new) = Inr m \<and> fst ` set (mm_ToMessage mar m) = set ks \<and>
    (\<forall>k \<in> fst ` set p. mm_contains k m)"
proof -
  let ?m = "mm_FromMessage p mm_new :: 'a MarshalledMap"
  have all: "\<forall>k \<in> fst ` set p. mm_lookup unmar ?m k \<noteq> None"
    by (auto simp: mm_lookup_def mm_FromMessage_def mm_new_def fold_update_map map_of_None_keys split: option.splits)
  with assms obtain m where m: "mm_reads unmar ks ?m = Inr m" using mm_reads_total [of ks unmar ?m] by blast
  have "mm_lookup unmar m = mm_lookup unmar ?m"
    by (rule rfold_invariant [OF m [unfolded mm_reads_def], of "\<lambda>x. mm_lookup unmar x = mm_lookup unmar ?m"])
       (auto simp: result_simps mm_get_keeps)
  then have "\<forall>k \<in> fst ` set p. mm_contains k m" using all by (simp add: mm_contains_lookup [of _ m unmar])
  moreover have "fst ` set (mm_ToMessage mar m) = set ks"
    using mm_reads_keys [OF m] by (force simp: mm_ToMessage_def mm_FromMessage_def mm_new_def image_image case_prod_unfold)
  ultimately show ?thesis using m by blast
qed

section \<open>Kernel objects\<close>

record 'a DSMKernel =
  kn_shard :: int
  kn_table_id :: int
  kn_args :: "'a MarshalledMap"
  kn_cp :: "'a MarshalledMap"

definition kn_initialize_internal :: "int \<Rightarrow> int \<Rightarrow> 'a DSMKernel \<Rightarrow> 'a DSMKernel" where
  "kn_initialize_internal table_id shard d = d\<lparr>kn_table_id := table_id, kn_shard := shard\<rparr>"

definition kn_set_args :: "'a MarshalledMap \<Rightarrow> 'a DSMKernel \<Rightarrow> 'a DSMKernel" where
  "kn_set_args args d = d\<lparr>kn_args := args\<rparr>"

definition kn_get_arg :: "(string \<Rightarrow> 'a) \<Rightarrow> string \<Rightarrow> 'a DSMKernel \<Rightarrow> ('a \<times> 'a DSMKernel) result" where
  "kn_get_arg unmar key d = rbind (mm_get unmar key (kn_args d)) (\<lambda>(v, m). Inr (v, d\<lparr>kn_args := m\<rparr>))"

text \<open>\<^verbatim>\<open>get_cp_var\<close>, of a kernel and of the master: the default is stored when the key is missing.\<close>

definition get_cp_var :: "(string \<Rightarrow> 'a) \<Rightarrow> string \<Rightarrow> 'a \<Rightarrow> 'a MarshalledMap \<Rightarrow> ('a \<times> 'a MarshalledMap) result" where
  "get_cp_var unmar key defval m =
     mm_get unmar key (if mm_contains key m then m else mm_put key defval m)"

lemma get_cp_var_total:
  "\<exists>m'. get_cp_var unmar key d m = Inr (case mm_lookup unmar m key of None \<Rightarrow> d | Some v \<Rightarrow> v, m')"
  by (auto simp: get_cp_var_def mm_get_lookup mm_contains_lookup [of key m unmar] mm_put_lookup split: option.splits)

section \<open>The registry of tables\<close>

type_synonym ('k, 'v, 'd) tables = "(int \<times> ('k, 'v, 'd) genv \<times> ('k, 'v, 'd) GlobalTable) list"

definition tr_table :: "int \<Rightarrow> (int \<times> 't) list \<Rightarrow> 't result" where
  "tr_table i tmap = rbind (check (map_of tmap i \<noteq> None)) (\<lambda>_. Inr (the (map_of tmap i)))"

text \<open>Every registered table is a \<^verbatim>\<open>TypedGlobalTable\<close>, so the \<^verbatim>\<open>dynamic_cast\<close> succeeds.\<close>

definition tr_mutable_table :: "int \<Rightarrow> (int \<times> 't) list \<Rightarrow> 't result" where
  "tr_mutable_table i tmap = rbind (check (map_of tmap i \<noteq> None)) (\<lambda>_. Inr (the (map_of tmap i)))"

text \<open>\<^verbatim>\<open>tables()[id]\<close>: the bracket operator gives a null pointer for an id that is not there.\<close>

definition tr_index :: "int \<Rightarrow> (int \<times> 't) list \<Rightarrow> 't result" where
  "tr_index i tmap = (case map_of tmap i of None \<Rightarrow> Inl NullDeref | Some t \<Rightarrow> Inr t)"

definition tr_update :: "int \<Rightarrow> 't \<Rightarrow> (int \<times> 't) list \<Rightarrow> (int \<times> 't) list" where
  "tr_update i t tmap = map (\<lambda>(j, u). if j = i then (j, t) else (j, u)) tmap"

definition CreateTable :: "('k, 'v, 'd) genv \<Rightarrow> ('k, 'v, 'd) tables \<Rightarrow>
    (('k, 'v, 'd) GlobalTable \<times> ('k, 'v, 'd) tables) result" where
  "CreateTable info tmap = rbind (gt_Init info) (\<lambda>t. Inr (t, smap_insert (ge_table_id info) (info, t) tmap))"

lemma tr_update_keys [simp]: "map fst (tr_update i t tmap) = map fst tmap"
  by (induction tmap) (auto simp: tr_update_def)

lemma map_of_tr_update: "map_of (tr_update i t tmap) = (if map_of tmap i = None then map_of tmap else (map_of tmap)(i \<mapsto> t))"
  by (induction tmap) (auto simp: tr_update_def fun_eq_iff)

section \<open>The registries of kernels and runners\<close>

record KernelInfo =
  ki_name :: string
  ki_methods :: "string list"

type_synonym kernels = "(string \<times> KernelInfo option) list"

definition ki_has_method :: "string \<Rightarrow> KernelInfo \<Rightarrow> bool" where
  "ki_has_method name k \<longleftrightarrow> name \<in> set (ki_methods k)"

definition ki_register_method :: "string \<Rightarrow> KernelInfo \<Rightarrow> KernelInfo" where
  "ki_register_method mname k = k\<lparr>ki_methods := List.insert mname (ki_methods k)\<rparr>"

text \<open>\<^verbatim>\<open>kernel(name)\<close> is \<^verbatim>\<open>m_[name]\<close>: asking for an unknown kernel registers a null pointer.\<close>

definition kr_kernel :: "string \<Rightarrow> kernels \<Rightarrow> KernelInfo option \<times> kernels" where
  "kr_kernel name m = (case map_of m name of
       Some k \<Rightarrow> (k, m) | None \<Rightarrow> (None, AList.update name None m))"

definition KernelRegistrationHelper :: "string \<Rightarrow> kernels \<Rightarrow> kernels result" where
  "KernelRegistrationHelper name kreg = rbind (check (map_of kreg name = None))
     (\<lambda>_. Inr (AList.update name (Some \<lparr>ki_name = name, ki_methods = []\<rparr>) kreg))"

definition MethodRegistrationHelper :: "string \<Rightarrow> string \<Rightarrow> kernels \<Rightarrow> kernels result" where
  "MethodRegistrationHelper klass mname kreg = (case kr_kernel klass kreg of
       (None, _) \<Rightarrow> Inl NullDeref
     | (Some k, kreg') \<Rightarrow> Inr (AList.update klass (Some (ki_register_method mname k)) kreg'))"

text \<open>\<^verbatim>\<open>RunnerRegistry\<close>: \<^verbatim>\<open>insert\<close> keeps a runner that is there.\<close>

definition RunnerRegistrationHelper :: "'r \<Rightarrow> string \<Rightarrow> (string \<times> 'r) list \<Rightarrow> (string \<times> 'r) list" where
  "RunnerRegistrationHelper k name m = (if map_of m name = None then (name, k) # m else m)"

definition rr_runner :: "string \<Rightarrow> (string \<times> 'r) list \<Rightarrow> 'r option" where
  "rr_runner name m = map_of m name"

section \<open>Registering a job\<close>

text \<open>
  \<^verbatim>\<open>MaiterKernel\<close>: what a job is made of. The pointers matter here only by being set or not; the
  functions behind them are in the \<open>genv\<close> of the table.
\<close>

record MaiterKernel =
  mk_num_nodes :: int
  mk_schedule_portion :: rat
  mk_num_workers :: int
  mk_output :: string
  mk_sharder :: bool
  mk_iterkernel :: bool
  mk_termchecker :: bool

definition maiter_Reset :: "MaiterKernel \<Rightarrow> MaiterKernel" where
  "maiter_Reset m = m\<lparr>mk_num_nodes := 0, mk_schedule_portion := 1, mk_output := ''result'',
     mk_sharder := False, mk_iterkernel := False, mk_termchecker := False\<rparr>"

definition phase1 :: string where "phase1 = ''MaiterKernel1''"
definition phase2 :: string where "phase2 = ''MaiterKernel2''"
definition phase3 :: string where "phase3 = ''MaiterKernel3''"

definition registerMaiter :: "MaiterKernel \<Rightarrow> ('k, 'v, 'd) genv \<Rightarrow> ('k, 'v, 'd) tables \<Rightarrow> kernels \<Rightarrow>
    (('k, 'v, 'd) tables \<times> kernels) result" where
  "registerMaiter m info tmap kreg =
     rbind (CreateTable (info\<lparr>ge_table_id := 0, ge_num_shards := nat (mk_num_workers m),
         ge_schedule_portion := mk_schedule_portion m, ge_helper_id := None\<rparr>) tmap) (\<lambda>(t, tmap).
     rbind (rbind (KernelRegistrationHelper phase1 kreg) (MethodRegistrationHelper phase1 ''run'')) (\<lambda>kreg.
     rbind (if mk_iterkernel m
       then rbind (KernelRegistrationHelper phase2 kreg) (MethodRegistrationHelper phase2 ''map'')
       else Inr kreg) (\<lambda>kreg.
     rbind (if mk_termchecker m
       then rbind (KernelRegistrationHelper phase3 kreg) (MethodRegistrationHelper phase3 ''run'')
       else Inr kreg) (\<lambda>kreg. Inr (tmap, kreg)))))"

lemma register_step:
  "map_of kreg klass = None \<Longrightarrow>
   rbind (KernelRegistrationHelper klass kreg) (MethodRegistrationHelper klass mname) =
     Inr (AList.update klass (Some \<lparr>ki_name = klass, ki_methods = [mname]\<rparr>) (AList.update klass (Some \<lparr>ki_name = klass, ki_methods = []\<rparr>) kreg))"
  by (simp add: KernelRegistrationHelper_def MethodRegistrationHelper_def kr_kernel_def check_def
      update_conv' ki_register_method_def)

lemma phases_distinct [simp]:
  "phase1 \<noteq> phase2" "phase1 \<noteq> phase3" "phase2 \<noteq> phase3" "phase2 \<noteq> phase1" "phase3 \<noteq> phase1" "phase3 \<noteq> phase2"
  by (simp_all add: phase1_def phase2_def phase3_def)

text \<open>What \<^verbatim>\<open>Master::run\<close> asks of the registry before it starts a phase.\<close>

definition kr_runnable :: "string \<Rightarrow> string \<Rightarrow> kernels \<Rightarrow> bool" where
  "kr_runnable kname method kreg = (case fst (kr_kernel kname kreg) of None \<Rightarrow> False | Some k \<Rightarrow> ki_has_method method k)"

lemma kr_runnable_update:
  "kr_runnable k meth (AList.update k' (Some i) kreg) = (if k = k' then ki_has_method meth i else kr_runnable k meth kreg)"
  by (simp add: kr_runnable_def kr_kernel_def update_conv' split: option.split)

text \<open>
  A registered job can be run. In a process whose registries do not know the job yet,
  \<^verbatim>\<open>registerMaiter\<close> succeeds, table \<open>0\<close> is there with one shard per worker, and exactly the phases that
  \<^verbatim>\<open>Master::run_maiter\<close> will ask for are runnable: the second one when there is an iterate kernel, the
  third one when there is a termination checker. Registering the job a second time fails a CHECK.
\<close>

lemma registerMaiter_runnable:
  assumes "map_of tmap 0 = None" and "smap_ok tmap"
    and "\<And>k. k \<in> {phase1, phase2, phase3} \<Longrightarrow> map_of kreg k = None"
  shows "\<exists>tmap' kreg'. registerMaiter m info tmap kreg = Inr (tmap', kreg') \<and>
    (\<exists>e g. tr_table 0 tmap' = Inr (e, g) \<and> length (gt_partitions g) = nat (mk_num_workers m) \<and> ge_num_shards e = nat (mk_num_workers m)) \<and>
    kr_runnable phase1 ''run'' kreg' \<and> kr_runnable phase2 ''map'' kreg' = mk_iterkernel m \<and>
    kr_runnable phase3 ''run'' kreg' = mk_termchecker m \<and>
    registerMaiter m info tmap' kreg' = Inl CheckFailed"
proof -
  let ?info = "info\<lparr>ge_table_id := 0, ge_num_shards := nat (mk_num_workers m),
    ge_schedule_portion := mk_schedule_portion m, ge_helper_id := None\<rparr>"
  obtain dt where dt: "dt_new (ge_hash info) (ge_nd info) 1 = Inr dt" using dt_new_ok [of 1] by (metis zero_less_one)
  have kr: "kr_runnable k meth kreg = False" if "k \<in> {phase1, phase2, phase3}" for k meth
    using assms(3) [OF that] by (simp add: kr_runnable_def kr_kernel_def)
  obtain g where g: "gt_Init ?info = Inr g" "length (gt_partitions g) = nat (mk_num_workers m)"
    by (simp add: gt_Init_def dt)
  show ?thesis
    using assms(3) [of phase1] assms(3) [of phase2] assms(3) [of phase3] assms(1,2)
    by (cases "mk_iterkernel m"; cases "mk_termchecker m")
       (simp_all add: registerMaiter_def CreateTable_def g register_step update_conv' kr_runnable_update kr
          tr_table_def check_def map_of_smap_insert ki_has_method_def,
        simp_all add: KernelRegistrationHelper_def update_conv' check_def)
qed

end
