(* ===== verification/Protocol.thy ===== *)
theory Protocol
  imports Network Registry
begin

text \<open>
  The messages between master and workers (\<^verbatim>\<open>src/worker/worker.proto\<close>, \<^verbatim>\<open>src/util/common.proto\<close>): the
  message types that tag them on the wire and one constructor per message that the master or a worker
  sends. A receiver that finds another constructor than its tag promises has required fields that
  were never set (\<open>Uninitialised\<close>).
\<close>

datatype CheckpointType = CP_NONE | CP_MASTER_CONTROLLED | CP_ROLLING

record ShardInfo =
  si_table :: int
  si_shard :: int
  si_entries :: int
  si_owner :: int

record ShardAssignment =
  sa_table :: int
  sa_shard :: int
  sa_new_worker :: int

record KernelRequest =
  kr_kname :: string
  kr_method :: string
  kr_table :: int
  kr_shard :: int
  kr_args :: "(string \<times> string) list"

record IteratorResponse =
  ir_id :: int
  ir_done :: bool
  ir_key :: "string list"
  ir_value :: "string list"
  ir_row_count :: int

datatype msg =
    EmptyMessage
  | RegisterWorkerRequest int
  | RunKernel KernelRequest
  | KernelDone KernelRequest "ShardInfo list"
  | PutRequest KVPairData
  | EpochMarker int int
  | ShardAssignmentRequest "ShardAssignment list"
  | CheckpointRequest int CheckpointType "int list"
  | StartRestore int
  | TermcheckDelta int rat int
  | TerminationNotification int
  | SwapTable int int
  | ClearTable int
  | EnableTrigger int int bool
  | IteratorRequest int int int int
  | IteratorReply IteratorResponse

definition MTYPE_RUN_KERNEL :: int where "MTYPE_RUN_KERNEL = 1"
definition MTYPE_KERNEL_DONE :: int where "MTYPE_KERNEL_DONE = 2"
definition MTYPE_PUT_REQUEST :: int where "MTYPE_PUT_REQUEST = 4"
definition MTYPE_WORKER_SHUTDOWN :: int where "MTYPE_WORKER_SHUTDOWN = 8"
definition MTYPE_REGISTER_WORKER :: int where "MTYPE_REGISTER_WORKER = 9"
definition MTYPE_START_CHECKPOINT :: int where "MTYPE_START_CHECKPOINT = 10"
definition MTYPE_FINISH_CHECKPOINT :: int where "MTYPE_FINISH_CHECKPOINT = 11"
definition MTYPE_CHECKPOINT_DONE :: int where "MTYPE_CHECKPOINT_DONE = 12"
definition MTYPE_RESTORE :: int where "MTYPE_RESTORE = 13"
definition MTYPE_RESTORE_DONE :: int where "MTYPE_RESTORE_DONE = 14"
definition MTYPE_WORKER_FLUSH :: int where "MTYPE_WORKER_FLUSH = 15"
definition MTYPE_SHARD_ASSIGNMENT :: int where "MTYPE_SHARD_ASSIGNMENT = 17"
definition MTYPE_ITERATOR :: int where "MTYPE_ITERATOR = 20"
definition MTYPE_TERMCHECK_DONE :: int where "MTYPE_TERMCHECK_DONE = 21"
definition MTYPE_TERMINATION :: int where "MTYPE_TERMINATION = 22"
definition MTYPE_WORKER_APPLY :: int where "MTYPE_WORKER_APPLY = 33"
definition MTYPE_SWAP_TABLE :: int where "MTYPE_SWAP_TABLE = 35"
definition MTYPE_CLEAR_TABLE :: int where "MTYPE_CLEAR_TABLE = 37"
definition MTYPE_ENABLE_TRIGGER :: int where "MTYPE_ENABLE_TRIGGER = 38"

lemmas mtype_defs =
  MTYPE_RUN_KERNEL_def MTYPE_KERNEL_DONE_def MTYPE_PUT_REQUEST_def MTYPE_WORKER_SHUTDOWN_def
  MTYPE_REGISTER_WORKER_def MTYPE_START_CHECKPOINT_def MTYPE_FINISH_CHECKPOINT_def
  MTYPE_CHECKPOINT_DONE_def MTYPE_RESTORE_def MTYPE_RESTORE_DONE_def MTYPE_WORKER_FLUSH_def
  MTYPE_SHARD_ASSIGNMENT_def MTYPE_ITERATOR_def MTYPE_TERMCHECK_DONE_def MTYPE_TERMINATION_def
  MTYPE_WORKER_APPLY_def MTYPE_SWAP_TABLE_def MTYPE_CLEAR_TABLE_def MTYPE_ENABLE_TRIGGER_def

text \<open>
  The loop \<^verbatim>\<open>while (network_->TryRead(src, type, &msg)) ...\<close>: what it reads. The fuel is the number of
  messages that are queued.
\<close>

fun nt_read_loop :: "nat \<Rightarrow> int \<Rightarrow> int \<Rightarrow> 'm NetworkThread \<Rightarrow> ('m list \<times> 'm NetworkThread) result" where
  "nt_read_loop fuel src tag n = rbind (nt_TryRead (Some src) tag n) (\<lambda>(r, n').
     case r of None \<Rightarrow> Inr ([], n')
     | Some (m, _) \<Rightarrow> (case fuel of 0 \<Rightarrow> Inl Diverges
         | Suc fuel' \<Rightarrow> rbind (nt_read_loop fuel' src tag n') (\<lambda>(ms, n''). Inr (m # ms, n''))))"

definition nt_read_all :: "int \<Rightarrow> int \<Rightarrow> 'm NetworkThread \<Rightarrow> ('m list \<times> 'm NetworkThread) result" where
  "nt_read_all src tag n = nt_read_loop (length (nt_requests n tag src)) src tag n"

lemma nt_read_loop_eq:
  assumes "0 \<le> src" "src < kMaxHosts" "0 \<le> tag" "tag < kMaxMethods" and "length (nt_requests n tag src) \<le> fuel"
  shows "nt_read_loop fuel src tag n =
    Inr (nt_requests n tag src, n\<lparr>nt_requests := (nt_requests n)(tag := (nt_requests n tag)(src := []))\<rparr>)"
  using assms(5)
proof (induction "nt_requests n tag src" arbitrary: n fuel)
  case Nil
  then have "(nt_requests n)(tag := (nt_requests n tag)(src := [])) = nt_requests n" by (auto simp: fun_eq_iff)
  with Nil assms(1-4) show ?case
    by (subst nt_read_loop.simps) (simp add: nt_TryRead_def nt_check_request_queue_def check_def)
next
  case (Cons m ms)
  then obtain f where f: "fuel = Suc f" by (cases fuel) (simp_all flip: Cons.hyps(2))
  let ?n = "n\<lparr>nt_requests := queue_drop tag src (nt_requests n)\<rparr>"
  have "nt_read_loop f src tag ?n =
    Inr (nt_requests ?n tag src, ?n\<lparr>nt_requests := (nt_requests ?n)(tag := (nt_requests ?n tag)(src := []))\<rparr>)"
    using Cons.prems by (intro Cons.hyps(1)) (simp_all add: f flip: Cons.hyps(2))
  moreover have "(queue_drop tag src (nt_requests n))(tag := (queue_drop tag src (nt_requests n) tag)(src := [])) =
      (nt_requests n)(tag := (nt_requests n tag)(src := []))" by (auto simp: fun_eq_iff)
  ultimately show ?case using assms(1-4)
    by (subst nt_read_loop.simps) (simp add: f nt_TryRead_def nt_check_request_queue_def check_def flip: Cons.hyps(2))
qed

lemma nt_read_all_eq:
  assumes "0 \<le> src" "src < kMaxHosts" "0 \<le> tag" "tag < kMaxMethods"
  shows "nt_read_all src tag n =
    Inr (nt_requests n tag src, n\<lparr>nt_requests := (nt_requests n)(tag := (nt_requests n tag)(src := []))\<rparr>)"
  unfolding nt_read_all_def by (rule nt_read_loop_eq [OF assms]) simp

end
