(* ===== verification/Checkpoints.thy ===== *)
theory Checkpoints
  imports Protocol Utils
begin

text \<open>
  Checkpoints of tables: \<^verbatim>\<open>src/kernel/local-table.cc\<close> (the coder that writes entries to a record file, and
  start, delta log, finish and restore of one shard) and the checkpoint operations of
  \<^verbatim>\<open>src/kernel/global-table.cc\<close>, which apply them to the local shards of a table. The member
  \<^verbatim>\<open>delta_file_\<close> of every shard is kept in a list beside the table; the disk is passed along. The coders
  over protocol buffers and the two broadcasts \<^verbatim>\<open>swap\<close> and \<^verbatim>\<open>clear\<close> are here as well.
\<close>

section \<open>Names\<close>

text \<open>What \<^verbatim>\<open>StringPrintf\<close> makes of \<^verbatim>\<open>%d\<close> and \<^verbatim>\<open>%05d\<close> for a number that is not negative.\<close>

fun decimal :: "nat \<Rightarrow> string" where
  "decimal n = (if n < 10 then [char_of (48 + n)] else decimal (n div 10) @ [char_of (48 + n mod 10)])"

declare decimal.simps [simp del]

definition dec5 :: "nat \<Rightarrow> string" where
  "dec5 n = replicate (5 - length (decimal n)) (CHR ''0'') @ decimal n"

definition shard_file :: "string \<Rightarrow> nat \<Rightarrow> nat \<Rightarrow> string" where
  "shard_file f i n = f @ ''.'' @ dec5 i @ ''-of-'' @ dec5 n"

section \<open>Entries in a record file\<close>

type_synonym entry = "string \<times> string \<times> string \<times> string"

definition tc_WriteEntryToFile :: "lzo \<Rightarrow> entry \<Rightarrow> RecordFile \<Rightarrow> RecordFile result" where
  "tc_WriteEntryToFile z en r = (case en of (k, a, b, c) \<Rightarrow>
     rbind (rf_writeChunk z k r) (\<lambda>r. rbind (rf_writeChunk z a r) (\<lambda>r.
     rbind (rf_writeChunk z b r) (rf_writeChunk z c))))"

text \<open>The results of the last three reads are not looked at; a failed read leaves an empty string.\<close>

definition tc_read_value :: "lzo \<Rightarrow> filesys \<Rightarrow> RecordFile \<Rightarrow> (string \<times> RecordFile) result" where
  "tc_read_value z fs r = rbind (rf_readChunk z fs r) (\<lambda>(s, r'). Inr (case s of None \<Rightarrow> [] | Some v \<Rightarrow> v, r'))"

definition tc_ReadEntryFromFile :: "lzo \<Rightarrow> filesys \<Rightarrow> RecordFile \<Rightarrow> (entry option \<times> RecordFile) result" where
  "tc_ReadEntryFromFile z fs r = rbind (rf_readChunk z fs r) (\<lambda>(k, r1).
     case k of None \<Rightarrow> Inr (None, r1)
     | Some k \<Rightarrow> rbind (tc_read_value z fs r1) (\<lambda>(a, r2). rbind (tc_read_value z fs r2) (\<lambda>(b, r3).
         rbind (tc_read_value z fs r3) (\<lambda>(c, r4). Inr (Some (k, a, b, c), r4)))))"

section \<open>A read takes something from the file\<close>

definition fl_size :: "filesys \<Rightarrow> File \<Rightarrow> nat \<times> nat" where
  "fl_size fs f = (case f of Local l \<Rightarrow> (length (lf_left fs l), 0)
     | Lzo x \<Rightarrow> (length (lf_left fs (lz_f x)), length (lz_raw x) - lz_bpos x))"

abbreviation "shrinks \<equiv> less_than <*lex*> less_than"

lemma shrinks_trans: "(a, b) \<in> shrinks\<^sup>= \<Longrightarrow> (b, c) \<in> shrinks \<Longrightarrow> (a, c) \<in> shrinks"
  "(a, b) \<in> shrinks \<Longrightarrow> (b, c) \<in> shrinks\<^sup>= \<Longrightarrow> (a, c) \<in> shrinks"
  "(a, b) \<in> shrinks\<^sup>= \<Longrightarrow> (b, c) \<in> shrinks\<^sup>= \<Longrightarrow> (a, c) \<in> shrinks\<^sup>="
  by (auto simp: lex_prod_def)

lemma lz_read_size:
  "lz_read z fs left out x = Inr (ok, s, x') \<Longrightarrow>
   (fl_size fs (Lzo x'), fl_size fs (Lzo x)) \<in> shrinks\<^sup>= \<and>
   (ok \<and> 0 < left \<longrightarrow> (fl_size fs (Lzo x'), fl_size fs (Lzo x)) \<in> shrinks)"
proof (induction z fs left out x rule: lz_read.induct)
  case (1 z fs left out x)
  let ?fill = "if lz_bpos x = length (lz_raw x) then lz_read_block z fs x else Inr (True, x)"
  from 1(2) obtain ok1 x1 where fill: "?fill = Inr (ok1, x1)" by (subst (asm) lz_read.simps) (auto split: sum.splits)
  have f1: "(fl_size fs (Lzo x1), fl_size fs (Lzo x)) \<in> shrinks\<^sup>= \<and>
      (ok1 \<longrightarrow> lz_bpos x1 < length (lz_raw x1) \<or> (fl_size fs (Lzo x1), fl_size fs (Lzo x)) \<in> shrinks \<or> lz_bpos x1 > length (lz_raw x1))"
    using fill lz_read_block_left [of z fs x ok1 x1]
    by (cases "lz_bpos x = length (lz_raw x)") (auto simp: fl_size_def lex_prod_def)
  let ?n = "min left (length (lz_raw x1) - lz_bpos x1)"
  let ?x2 = "x1\<lparr>lz_bpos := lz_bpos x1 + ?n, lz_pos := lz_pos x1 + ?n\<rparr>"
  show ?case
  proof (cases ok1)
    case False
    with 1(2) fill f1 show ?thesis by (subst (asm) lz_read.simps) auto
  next
    case True
    have b: "lz_bpos x1 \<le> length (lz_raw x1)" using 1(2) fill True
      by (subst (asm) lz_read.simps) (auto simp: Let_def split: if_splits)
    have f2: "(fl_size fs (Lzo ?x2), fl_size fs (Lzo x1)) \<in> shrinks\<^sup>= \<and>
        (0 < left \<longrightarrow> (fl_size fs (Lzo ?x2), fl_size fs (Lzo x1)) \<in> shrinks \<or> lz_bpos x1 = length (lz_raw x1))"
      using b by (auto simp: fl_size_def lex_prod_def)
    have f12: "(fl_size fs (Lzo ?x2), fl_size fs (Lzo x)) \<in> shrinks\<^sup>="
      by (rule shrinks_trans(3) [OF conjunct1 [OF f2] conjunct1 [OF f1]])
    have f12': "(fl_size fs (Lzo ?x2), fl_size fs (Lzo x)) \<in> shrinks" if "0 < left"
    proof (cases "lz_bpos x1 = length (lz_raw x1)")
      case eq: True
      then have "(fl_size fs (Lzo x1), fl_size fs (Lzo x)) \<in> shrinks" using f1 True by simp
      then show ?thesis by (rule shrinks_trans(1) [OF conjunct1 [OF f2]])
    next
      case False
      then have "(fl_size fs (Lzo ?x2), fl_size fs (Lzo x1)) \<in> shrinks" using f2 that by simp
      then show ?thesis by (rule shrinks_trans(2) [OF _ conjunct1 [OF f1]])
    qed
    show ?thesis
    proof (cases "0 < left - ?n")
      case False
      with 1(2) fill True b have "x' = ?x2" by (subst (asm) lz_read.simps) (auto simp: Let_def split: if_splits)
      with f12 f12' show ?thesis by simp
    next
      case more: True
      have nb: "\<not> length (lz_raw x1) < lz_bpos x1" "\<not> \<not> ok1" using b True by auto
      have "lz_read z fs (left - ?n) (out @ take ?n (drop (lz_bpos x1) (lz_raw x1))) ?x2 = Inr (ok, s, x')"
        using 1(2) more nb by (subst (asm) lz_read.simps) (simp only: fill sum.case prod.case Let_def if_False if_True simp_thms)
      note IH = 1(1) [OF fill refl nb(2) refl refl refl nb(1) more this]
      have "0 < left" using more by simp
      with shrinks_trans(1) [OF conjunct1 [OF IH] f12'] show ?thesis by simp
    qed
  qed
qed

lemma fl_read_size:
  assumes "fl_read z fs n f = Inr (r, s, f')"
  shows "(fl_size fs f', fl_size fs f) \<in> shrinks\<^sup>= \<and> (0 < r \<longrightarrow> (fl_size fs f', fl_size fs f) \<in> shrinks)"
proof (cases f)
  case (Local l)
  obtain t l' where r: "lf_read fs n l = (t, l')" by (cases "lf_read fs n l")
  show ?thesis using assms Local lf_read_left(1,2) [OF r] by (auto simp: fl_read_def fl_size_def r lex_prod_def)
next
  case (Lzo x)
  with assms obtain ok x' where "lz_read z fs n [] x = Inr (ok, s, x')" "f' = Lzo x'" "r = (if ok then n else 0)"
    by (auto simp: fl_read_def result_simps)
  with lz_read_size [OF this(1)] Lzo show ?thesis by auto
qed

lemma rf_readChunk_size:
  assumes "rf_readChunk z fs r = Inr (c, r')"
  shows "(fl_size fs (rf_fp r'), fl_size fs (rf_fp r)) \<in> shrinks\<^sup>= \<and>
    (c \<noteq> None \<longrightarrow> (fl_size fs (rf_fp r'), fl_size fs (rf_fp r)) \<in> shrinks)"
proof -
  obtain n s f1 where f1: "fl_read z fs 4 (rf_fp r) = Inr (n, s, f1)"
    using assms by (auto simp: rf_readChunk_def read_chunk_def result_simps)
  consider "c = None" "rf_fp r' = f1" | k j d f2 where "fl_read z fs k f1 = Inr (j, d, f2)" "rf_fp r' = f2" "4 \<le> n"
    using assms f1 by (fastforce simp: rf_readChunk_def read_chunk_def result_simps Let_def split: if_splits)
  then show ?thesis
  proof cases
    case 1
    with fl_read_size [OF f1] show ?thesis by simp
  next
    case 2
    with fl_read_size [OF f1] fl_read_size [OF 2(1)] shrinks_trans show ?thesis by (metis not_numeral_le_zero not_gr_zero)
  qed
qed

lemma tc_ReadEntry_size:
  assumes "tc_ReadEntryFromFile z fs r = Inr (Some en, r')"
  shows "(fl_size fs (rf_fp r'), fl_size fs (rf_fp r)) \<in> shrinks"
proof -
  obtain k r1 a r2 b r3 c where "rf_readChunk z fs r = Inr (Some k, r1)" "tc_read_value z fs r1 = Inr (a, r2)"
      "tc_read_value z fs r2 = Inr (b, r3)" "tc_read_value z fs r3 = Inr (c, r')"
    using assms by (auto simp: tc_ReadEntryFromFile_def result_simps split: option.splits)
  moreover have "(fl_size fs (rf_fp q'), fl_size fs (rf_fp q)) \<in> shrinks\<^sup>=" if "tc_read_value z fs q = Inr (v, q')" for q v q'
    using that rf_readChunk_size by (fastforce simp: tc_read_value_def result_simps)
  ultimately show ?thesis using rf_readChunk_size [of z fs r "Some k" r1] shrinks_trans by (metis option.distinct(1))
qed

section \<open>Checkpoints of a shard\<close>

text \<open>
  How the members of a row are written and read; reading may run over the end of a string. \<open>cd_rs\<close> is the
  randomness that an iterator of a state table asks for.
\<close>

record ('k, 'v, 'd) codec =
  cd_md :: "'d \<Rightarrow> string"
  cd_uk :: "string \<Rightarrow> 'k result"
  cd_uv :: "string \<Rightarrow> 'v result"
  cd_ud :: "string \<Rightarrow> 'd result"
  cd_rs :: "nat \<Rightarrow> int list"

definition lt_serializeToFile :: "('k, rat, 'd) codec \<Rightarrow> ('k, rat, 'd) genv \<Rightarrow> ('k, rat, 'd) local_table \<Rightarrow> entry list result" where
  "lt_serializeToFile cd e p = (case p of
       Delta dt \<Rightarrow> dt_serializeToFile (ge_mk e) (ge_mv e) dt
     | State st \<Rightarrow> st_serializeToFile (ge_mk e) (ge_mv e) (cd_md cd) (k_default_v (ge_kernel e)) (cd_rs cd) st)"

definition lt_update_str :: "('k, 'v, 'd) codec \<Rightarrow> ('k, 'v, 'd) genv \<Rightarrow> entry \<Rightarrow> ('k, 'v, 'd) local_table \<Rightarrow>
    ('k, 'v, 'd) local_table result" where
  "lt_update_str cd e en p = (case en of (ks, as, bs, cs) \<Rightarrow>
     rbind (cd_uk cd ks) (\<lambda>k. rbind (cd_uv cd as) (\<lambda>a. case p of
       Delta dt \<Rightarrow> rbind (dt_put dt_fuel (ge_hash e) (ge_nd e) k a dt) (\<lambda>dt'. Inr (Delta dt'))
     | State st \<Rightarrow> rbind (cd_uv cd bs) (\<lambda>b. rbind (cd_ud cd cs) (\<lambda>c.
         rbind (st_put st_fuel (ge_hash e) (ge_ns e) (ge_kernel e) k a b c st) (\<lambda>st'. Inr (State st')))))))"

text \<open>\<^verbatim>\<open>start_checkpoint\<close>; the coder of the table itself is destroyed when the function returns.\<close>

definition lt_start_checkpoint :: "lzo \<Rightarrow> ('k, rat, 'd) codec \<Rightarrow> ('k, rat, 'd) genv \<Rightarrow> string \<Rightarrow> ('k, rat, 'd) local_table \<Rightarrow>
    filesys \<Rightarrow> (RecordFile \<times> filesys) result" where
  "lt_start_checkpoint z cd e f p fs =
     rbind (rf_new z f ''w'' LZO fs) (\<lambda>(c, fs).
     rbind (rbind (lt_serializeToFile cd e p) (\<lambda>ens. rfold (tc_WriteEntryToFile z) ens c)) (\<lambda>c.
     rbind (rf_new z (f @ ''.delta'') ''w'' LZO fs) (\<lambda>(delta, fs).
     rbind (rf_delete z c fs) (\<lambda>fs. Inr (delta, fs)))))"

definition lt_finish_checkpoint :: "lzo \<Rightarrow> RecordFile option \<Rightarrow> filesys \<Rightarrow> filesys result" where
  "lt_finish_checkpoint z delta fs = (case delta of None \<Rightarrow> Inr fs | Some r \<Rightarrow> rf_delete z r fs)"

definition delta_entry :: "string \<times> string \<Rightarrow> entry" where
  "delta_entry p = (fst p, snd p, ''0'', ''0'')"

definition lt_write_delta :: "lzo \<Rightarrow> KVPairData \<Rightarrow> RecordFile option \<Rightarrow> RecordFile option result" where
  "lt_write_delta z put delta = rfold (\<lambda>p d. case d of None \<Rightarrow> Inl NullDeref
     | Some r \<Rightarrow> rbind (tc_WriteEntryToFile z (delta_entry p) r) (\<lambda>r'. Inr (Some r'))) (kv_data put) delta"

text \<open>\<^verbatim>\<open>while (f.ReadEntryFromFile(...)) update_str(...)\<close>; it ends because every entry takes bytes from the file.\<close>

function restore_loop :: "lzo \<Rightarrow> filesys \<Rightarrow> (entry \<Rightarrow> 's \<Rightarrow> 's result) \<Rightarrow> RecordFile \<Rightarrow> 's \<Rightarrow> ('s \<times> RecordFile) result" where
  "restore_loop z fs upd r s = (case tc_ReadEntryFromFile z fs r of
       Inl e \<Rightarrow> Inl e
     | Inr (None, r') \<Rightarrow> Inr (s, r')
     | Inr (Some en, r') \<Rightarrow> (case upd en s of Inl e \<Rightarrow> Inl e | Inr s' \<Rightarrow> restore_loop z fs upd r' s'))"
  by pat_completeness auto
termination
  by (relation "inv_image shrinks (\<lambda>(z, fs, upd, r, s). fl_size fs (rf_fp r))")
    (auto intro: tc_ReadEntry_size)

declare restore_loop.simps [simp del]

definition restore_from :: "lzo \<Rightarrow> (entry \<Rightarrow> 's \<Rightarrow> 's result) \<Rightarrow> string \<Rightarrow> filesys \<Rightarrow> 's \<Rightarrow> ('s \<times> RecordFile) result" where
  "restore_from z upd f fs s = rbind (rf_new z f ''r'' LZO fs) (\<lambda>(r, _). restore_loop z fs upd r s)"

definition lt_restore :: "lzo \<Rightarrow> ('k, 'v, 'd) codec \<Rightarrow> ('k, 'v, 'd) genv \<Rightarrow> string \<Rightarrow> ('k, 'v, 'd) local_table \<Rightarrow>
    filesys \<Rightarrow> (('k, 'v, 'd) local_table \<times> filesys) result" where
  "lt_restore z cd e f p fs =
     (if \<not> File_Exists f fs then Inr (p, fs)
      else rbind (restore_from z (lt_update_str cd e) f fs p) (\<lambda>(p, rf).
           rbind (restore_from z (lt_update_str cd e) (f @ ''.delta'') fs p) (\<lambda>(p, df).
           rbind (rf_delete z df fs) (\<lambda>fs. rbind (rf_delete z rf fs) (\<lambda>fs. Inr (p, fs))))))"

section \<open>Checkpoints of a table\<close>

text \<open>A table, the member \<^verbatim>\<open>delta_file_\<close> of each of its partitions, and the disk.\<close>

type_synonym ('k, 'v, 'd) cp = "('k, 'v, 'd) GlobalTable \<times> RecordFile option list \<times> filesys"

definition on_local :: "('k, 'v, 'd) genv \<Rightarrow> (nat \<Rightarrow> ('k, 'v, 'd) cp \<Rightarrow> ('k, 'v, 'd) cp result) \<Rightarrow>
    (nat \<Rightarrow> ('k, 'v, 'd) cp \<Rightarrow> ('k, 'v, 'd) cp result) \<Rightarrow> ('k, 'v, 'd) cp \<Rightarrow> ('k, 'v, 'd) cp result" where
  "on_local e act other s = rfold (\<lambda>i s. rbind (gt_is_local_shard e (int i) (fst s)) (\<lambda>loc.
     if loc then act i s else other i s)) [0..<length (gt_partitions (fst s))] s"

definition gt_start_checkpoint :: "lzo \<Rightarrow> ('k, rat, 'd) codec \<Rightarrow> ('k, rat, 'd) genv \<Rightarrow> string \<Rightarrow>
    ('k, rat, 'd) cp \<Rightarrow> ('k, rat, 'd) cp result" where
  "gt_start_checkpoint z cd e f = on_local e (\<lambda>i (g, ds, fs).
     rbind (vec_at (gt_partitions g) (int i)) (\<lambda>p.
     rbind (lt_start_checkpoint z cd e (shard_file f i (length (gt_partitions g))) p fs) (\<lambda>(delta, fs').
       Inr (g, ds[i := Some delta], fs')))) (\<lambda>i s. Inr s)"

definition gt_write_delta :: "lzo \<Rightarrow> ('k, 'v, 'd) genv \<Rightarrow> KVPairData \<Rightarrow> ('k, 'v, 'd) cp \<Rightarrow> ('k, 'v, 'd) cp result" where
  "gt_write_delta z e d s = (case s of (g, ds, fs) \<Rightarrow>
     rbind (gt_is_local_shard e (kv_shard d) g) (\<lambda>loc.
       if \<not> loc then Inr s
       else rbind (vec_at ds (kv_shard d)) (\<lambda>delta. rbind (lt_write_delta z d delta) (\<lambda>delta'.
         Inr (g, ds[nat (kv_shard d) := delta'], fs)))))"

definition gt_finish_checkpoint :: "lzo \<Rightarrow> ('k, 'v, 'd) genv \<Rightarrow> ('k, 'v, 'd) cp \<Rightarrow> ('k, 'v, 'd) cp result" where
  "gt_finish_checkpoint z e = on_local e (\<lambda>i (g, ds, fs).
     rbind (vec_at ds (int i)) (\<lambda>delta. rbind (lt_finish_checkpoint z delta fs) (\<lambda>fs'. Inr (g, ds[i := None], fs'))))
     (\<lambda>i s. Inr s)"

definition lt_clear :: "('k, 'v, 'd) local_table \<Rightarrow> ('k, 'v, 'd) local_table" where
  "lt_clear p = (case p of Delta dt \<Rightarrow> Delta (dt_clear dt) | State st \<Rightarrow> State (st_clear st))"

definition gt_restore :: "lzo \<Rightarrow> ('k, 'v, 'd) codec \<Rightarrow> ('k, 'v, 'd) genv \<Rightarrow> string \<Rightarrow> ('k, 'v, 'd) cp \<Rightarrow> ('k, 'v, 'd) cp result" where
  "gt_restore z cd e f = on_local e
     (\<lambda>i (g, ds, fs). rbind (vec_at (gt_partitions g) (int i)) (\<lambda>p.
        rbind (lt_restore z cd e (shard_file f i (length (gt_partitions g))) p fs) (\<lambda>(p', fs').
          Inr (gt_set (int i) p' g, ds, fs'))))
     (\<lambda>i (g, ds, fs). rbind (vec_at (gt_partitions g) (int i)) (\<lambda>p. Inr (gt_set (int i) (lt_clear p) g, ds, fs)))"

section \<open>Coders over protocol buffers, and broadcasts\<close>

text \<open>A \<^verbatim>\<open>ProtoTableCoder\<close> or \<^verbatim>\<open>ProtoKVPairCoder\<close>: the repeated field and the position of the reader.\<close>

definition proto_read :: "'w list \<Rightarrow> nat \<Rightarrow> 'w option \<times> nat" where
  "proto_read ws p = (if p < length ws then (Some (ws ! p), p + 1) else (None, p))"

definition proto_write :: "'w \<Rightarrow> 'w list \<Rightarrow> 'w list" where
  "proto_write w ws = ws @ [w]"

definition gt_swap :: "int \<Rightarrow> int \<Rightarrow> msg NetworkThread \<Rightarrow> msg NetworkThread result" where
  "gt_swap a b n = nt_SyncBroadcast MTYPE_SWAP_TABLE (SwapTable a b) n"

definition gt_clear :: "int \<Rightarrow> msg NetworkThread \<Rightarrow> msg NetworkThread result" where
  "gt_clear tbl n = nt_SyncBroadcast MTYPE_CLEAR_TABLE (ClearTable tbl) n"

text \<open>\<^verbatim>\<open>TermCheck\<close> runs \<^verbatim>\<open>termcheck\<close> when the clock says so; \<open>prev\<close> is the static variable of the macro.\<close>

definition gt_TermCheck :: "int \<Rightarrow> int \<Rightarrow> ('k, rat, 'd) genv \<Rightarrow> int \<times> ('k, rat, 'd) GlobalTable \<Rightarrow>
    (int \<times> ('k, rat, 'd) GlobalTable) result" where
  "gt_TermCheck cycles now e s = (case s of (prev, g) \<Rightarrow>
     case periodic cycles now prev of (run, prev') \<Rightarrow>
       if run then rbind (gt_termcheck e g) (\<lambda>g'. Inr (prev', g')) else Inr (prev', g))"

section \<open>A checkpoint is restored\<close>

fun entry_chunks :: "entry \<Rightarrow> string list" where
  "entry_chunks (k, a, b, c) = [k, a, b, c]"

definition entries_bytes :: "entry list \<Rightarrow> string" where
  "entries_bytes ens = concat (map frame (concat (map entry_chunks ens)))"

definition entry_ok :: "entry \<Rightarrow> bool" where
  "entry_ok en \<longleftrightarrow> (\<forall>s \<in> set (entry_chunks en). chunk_ok s)"

lemma write_entries: "rfold (tc_WriteEntryToFile z) ens r = rfold (rf_writeChunk z) (concat (map entry_chunks ens)) r"
proof -
  have "tc_WriteEntryToFile z en r = rfold (rf_writeChunk z) (entry_chunks en) r" for en r
  proof -
    have r: "rbind m Inr = m" for m :: "RecordFile result" by (cases m) auto
    have n: "rfold f [] = Inr" for f :: "string \<Rightarrow> RecordFile \<Rightarrow> RecordFile result" by (simp add: fun_eq_iff)
    have e: "rfold f [x] = f x" "rfold f (x # y # xs) = (\<lambda>s. rbind (f x s) (rfold f (y # xs)))"
      for f :: "string \<Rightarrow> RecordFile \<Rightarrow> RecordFile result" and x y xs by (simp_all add: fun_eq_iff n r)
    obtain k a b c where "en = (k, a, b, c)" by (cases en)
    then show ?thesis by (simp add: tc_WriteEntryToFile_def e del: rfold.simps)
  qed
  then have "tc_WriteEntryToFile z = (\<lambda>en. rfold (rf_writeChunk z) (entry_chunks en))" by (simp add: fun_eq_iff)
  then show ?thesis using rfold_concat [of "rf_writeChunk z" entry_chunks ens r] by simp
qed

lemma readChunk_gives:
  assumes "fl_gives z fs (rf_fp r) (frame c @ w)" and "chunk_ok c"
  shows "\<exists>fp. rf_readChunk z fs r = Inr (Some c, r\<lparr>rf_fp := fp\<rparr>) \<and> fl_gives z fs fp w"
  using files.read_chunk_frame [OF assms] by (auto simp: rf_readChunk_def)

lemma readEntry_gives:
  assumes "fl_gives z fs (rf_fp r) (entries_bytes (en # ens))" and "entry_ok en"
  shows "\<exists>fp. tc_ReadEntryFromFile z fs r = Inr (Some en, r\<lparr>rf_fp := fp\<rparr>) \<and> fl_gives z fs fp (entries_bytes ens)"
proof -
  obtain k a b c where en: "en = (k, a, b, c)" by (cases en)
  have ok: "chunk_ok k" "chunk_ok a" "chunk_ok b" "chunk_ok c" using assms(2) by (simp_all add: entry_ok_def en)
  from assms(1) have "fl_gives z fs (rf_fp r) (frame k @ frame a @ frame b @ frame c @ entries_bytes ens)"
    by (simp add: entries_bytes_def en)
  from readChunk_gives [OF this ok(1)] obtain f1 where 1: "rf_readChunk z fs r = Inr (Some k, r\<lparr>rf_fp := f1\<rparr>)"
      "fl_gives z fs (rf_fp (r\<lparr>rf_fp := f1\<rparr>)) (frame a @ frame b @ frame c @ entries_bytes ens)" by auto
  from readChunk_gives [OF 1(2) ok(2)] obtain f2 where 2: "rf_readChunk z fs (r\<lparr>rf_fp := f1\<rparr>) = Inr (Some a, r\<lparr>rf_fp := f2\<rparr>)"
      "fl_gives z fs (rf_fp (r\<lparr>rf_fp := f2\<rparr>)) (frame b @ frame c @ entries_bytes ens)" by auto
  from readChunk_gives [OF 2(2) ok(3)] obtain f3 where 3: "rf_readChunk z fs (r\<lparr>rf_fp := f2\<rparr>) = Inr (Some b, r\<lparr>rf_fp := f3\<rparr>)"
      "fl_gives z fs (rf_fp (r\<lparr>rf_fp := f3\<rparr>)) (frame c @ entries_bytes ens)" by auto
  from readChunk_gives [OF 3(2) ok(4)] 1 2 3 en show ?thesis
    by (auto simp: tc_ReadEntryFromFile_def tc_read_value_def)
qed

lemma restore_loop_gives:
  "fl_gives z fs (rf_fp r) (entries_bytes ens) \<Longrightarrow> \<forall>en \<in> set ens. entry_ok en \<Longrightarrow>
   \<exists>fp. restore_loop z fs upd r s = rbind (rfold upd ens s) (\<lambda>s'. Inr (s', r\<lparr>rf_fp := fp\<rparr>)) \<and> fl_gives z fs fp []"
proof (induction ens arbitrary: r s)
  case Nil
  then obtain fp where "read_chunk (fl_read z fs) (rf_fp r) = Inr (None, fp)" "fl_gives z fs fp []"
    using files.read_chunk_end [of z fs "rf_fp r"] by (auto simp: entries_bytes_def)
  then show ?case by (subst restore_loop.simps) (auto simp: tc_ReadEntryFromFile_def rf_readChunk_def)
next
  case (Cons en ens)
  obtain f1 where f1: "tc_ReadEntryFromFile z fs r = Inr (Some en, r\<lparr>rf_fp := f1\<rparr>)" "fl_gives z fs f1 (entries_bytes ens)"
    using readEntry_gives [OF Cons.prems(1)] Cons.prems(2) by auto
  show ?case
  proof (cases "upd en s")
    case (Inl e)
    then show ?thesis using Cons.IH [of "r\<lparr>rf_fp := f1\<rparr>" undefined] f1 Cons.prems(2) by (subst restore_loop.simps) auto
  next
    case (Inr s')
    from Cons.IH [of "r\<lparr>rf_fp := f1\<rparr>" s'] Cons.prems(2) f1 Inr show ?thesis
      by (subst restore_loop.simps) auto
  qed
qed

lemma restore_from_stores:
  assumes "stores z LZO fs f (entries_bytes ens)" and "\<forall>en \<in> set ens. entry_ok en"
  shows "\<exists>r. restore_from z upd f fs s = rbind (rfold upd ens s) (\<lambda>s'. Inr (s', r)) \<and> (\<forall>fs'. rf_delete z r fs' = Inr fs')"
proof -
  obtain r where r: "rf_new z f ''r'' LZO fs = Inr (r, fs)" "fl_gives z fs (rf_fp r) (entries_bytes ens)"
    using rf_new_gives [OF assms(1)] by blast
  moreover have "rf_mode r = ''r''" using r(1) by (rule rf_new_mode)
  moreover obtain fp where "restore_loop z fs upd r s = rbind (rfold upd ens s) (\<lambda>s'. Inr (s', r\<lparr>rf_fp := fp\<rparr>))" "fl_gives z fs fp []"
    using restore_loop_gives [OF r(2) assms(2), of upd s] by (elim exE conjE)
  ultimately show ?thesis using fl_delete_gives [of z fs fp "[]"]
    by (intro exI [of _ "r\<lparr>rf_fp := fp\<rparr>"]) (simp add: restore_from_def rf_delete_def)
qed

lemma stores_content: "fs_content fs' f = fs_content fs f \<Longrightarrow> stores z c fs' f w = stores z c fs f w"
  by (simp add: stores_def split: CompressionType.splits)

lemma write_delta_holds:
  "fl_holds z c i (rf_fp r) w \<Longrightarrow> \<exists>fp. lt_write_delta z put (Some r) = Inr (Some (r\<lparr>rf_fp := fp\<rparr>)) \<and>
    fl_holds z c i fp (w @ entries_bytes (map delta_entry (kv_data put)))"
proof -
  have "rfold (\<lambda>p d. case d of None \<Rightarrow> Inl NullDeref | Some r \<Rightarrow> rbind (tc_WriteEntryToFile z (delta_entry p) r) (\<lambda>r'. Inr (Some r'))) ps (Some r) =
      rbind (rfold (tc_WriteEntryToFile z) (map delta_entry ps) r) (\<lambda>r'. Inr (Some r'))" for ps r
  proof (induction ps arbitrary: r)
    case (Cons p ps)
    then show ?case by (cases "tc_WriteEntryToFile z (delta_entry p) r") auto
  qed simp
  moreover assume "fl_holds z c i (rf_fp r) w"
  ultimately show ?thesis
    using rf_writeChunks_holds [of z c i r w "concat (map entry_chunks (map delta_entry (kv_data put)))"]
    by (auto simp: lt_write_delta_def write_entries entries_bytes_def)
qed

lemma put_all_entries:
  assumes "dt_ok (ge_hash e) dt" and "\<forall>p \<in> set ps. cd_uk cd (ge_mk e (fst p)) = Inr (fst p) \<and> cd_uv cd (ge_mv e (snd p)) = Inr (snd p)"
  shows "\<exists>dt'. rfold (lt_update_str cd e) (map (\<lambda>p. (ge_mk e (fst p), ge_mv e (snd p), a p, b p)) ps) (Delta dt) = Inr (Delta dt') \<and>
    dt_ok (ge_hash e) dt' \<and> dt_lookup dt' = dt_lookup dt ++ map_of (rev ps)"
  using assms
proof (induction ps arbitrary: dt)
  case (Cons p ps)
  obtain dt1 where dt1: "dt_put dt_fuel (ge_hash e) (ge_nd e) (fst p) (snd p) dt = Inr dt1" "dt_ok (ge_hash e) dt1"
      "dt_lookup dt1 = (dt_lookup dt)(fst p \<mapsto> snd p)"
    using dt_put_ok [OF Cons.prems(1), of "Suc 0" "ge_nd e" "fst p" "snd p"] by (auto simp: dt_fuel_Suc simp del: dt_put.simps)
  have "(dt_lookup dt)(fst p \<mapsto> snd p) ++ map_of (rev ps) = dt_lookup dt ++ map_of (rev (p # ps))"
    by (cases p) (simp add: map_add_def fun_eq_iff split: option.splits)
  moreover have "lt_update_str cd e (ge_mk e (fst p), ge_mv e (snd p), a p, b p) (Delta dt) = Inr (Delta dt1)"
    using dt1(1) Cons.prems(2) by (simp add: lt_update_str_def)
  ultimately show ?case using Cons.IH [OF dt1(2)] Cons.prems(2) dt1(3) by (auto simp: fun_upd_def)
qed simp

text \<open>The rows of a table and the pairs of the put requests, as the checkpoint has them.\<close>

definition dt_pairs :: "('k, 'v) DeltaTable \<Rightarrow> ('k \<times> 'v) list" where
  "dt_pairs dt = map (\<lambda>s. (skey s, v1 s)) (filter in_use (dt_buckets dt))"

lemma dt_file_entries:
  "dt_ok h dt \<Longrightarrow> dt_serializeToFile mk mv dt = Inr (map (\<lambda>p. (mk (fst p), mv (snd p), [], [])) (dt_pairs dt))"
  unfolding dt_serializeToFile_def dt_pairs_def by (subst dt_serialize_all) (simp_all add: comp_def)

lemma dt_pairs_lookup: "dt_ok h dt \<Longrightarrow> map_of (rev (dt_pairs dt)) = dt_lookup dt"
  using open_ok_distinct [of "\<lambda>k. h k mod dt_size dt" "dt_buckets dt"] dt_okD(3) [of h dt]
  by (simp add: dt_pairs_def dt_lookup_map_of map_of_rev_distinct comp_def)

text \<open>A whole checkpoint of a shard: start, the put requests that arrive meanwhile, finish.\<close>

definition lt_checkpoint :: "lzo \<Rightarrow> ('k, rat, 'd) codec \<Rightarrow> ('k, rat, 'd) genv \<Rightarrow> string \<Rightarrow> ('k, rat, 'd) local_table \<Rightarrow>
    KVPairData list \<Rightarrow> filesys \<Rightarrow> filesys result" where
  "lt_checkpoint z cd e f p puts fs =
     rbind (lt_start_checkpoint z cd e f p fs) (\<lambda>(delta, fs).
     rbind (rfold (lt_write_delta z) puts (Some delta)) (\<lambda>delta. lt_finish_checkpoint z delta fs))"

text \<open>The pairs \<open>ps\<close> are read as they were written, and their strings are shorter than 2 GB.\<close>

definition codec_ok :: "('k, 'v, 'd) codec \<Rightarrow> ('k, 'v, 'd) genv \<Rightarrow> ('k \<times> 'v) list \<Rightarrow> bool" where
  "codec_ok cd e ps \<longleftrightarrow> (\<forall>p \<in> set ps. cd_uk cd (ge_mk e (fst p)) = Inr (fst p) \<and> chunk_ok (ge_mk e (fst p)) \<and>
     cd_uv cd (ge_mv e (snd p)) = Inr (snd p) \<and> chunk_ok (ge_mv e (snd p)))"

lemma write_deltas_hold:
  "fl_holds z c i (rf_fp r) w \<Longrightarrow> \<exists>fp. rfold (lt_write_delta z) puts (Some r) = Inr (Some (r\<lparr>rf_fp := fp\<rparr>)) \<and>
    fl_holds z c i fp (w @ entries_bytes (map delta_entry (concat (map kv_data puts))))"
proof (induction puts arbitrary: r w)
  case Nil
  then show ?case by (intro exI [of _ "rf_fp r"]) (simp add: entries_bytes_def)
next
  case (Cons p puts)
  obtain fp where fp: "lt_write_delta z p (Some r) = Inr (Some (r\<lparr>rf_fp := fp\<rparr>))"
      "fl_holds z c i fp (w @ entries_bytes (map delta_entry (kv_data p)))"
    using write_delta_holds [OF Cons.prems] by blast
  from Cons.IH [of "r\<lparr>rf_fp := fp\<rparr>" "w @ entries_bytes (map delta_entry (kv_data p))"] fp show ?case
    by (simp add: entries_bytes_def)
qed

lemma fs_writes_keeps:
  assumes "fs_writes fs name path fs'" and "p \<noteq> name" "p \<noteq> path"
  shows "fs_dir fs' p = fs_dir fs p" and "fs_content fs' p = fs_content fs p"
    and "fs_dir fs p = Some i \<Longrightarrow> fs_data fs' i = fs_data fs i"
  using assms by (auto simp: fs_writes_def fs_content_def)

lemma start_checkpoint_stores:
  assumes "dt_ok (ge_hash e) dt" and "fs_ok fs" and "fs_grants fs (f @ ''.tmp'')" "fs_grants fs (f @ ''.delta.tmp'')" and "lzo_ok z"
  shows "\<exists>delta j fs'. lt_start_checkpoint z cd e f (Delta dt) fs = Inr (delta, fs') \<and> fs_ok fs' \<and>
    stores z LZO fs' f (entries_bytes (map (\<lambda>p. (ge_mk e (fst p), ge_mv e (snd p), [], [])) (dt_pairs dt))) \<and>
    fl_holds z LZO j (rf_fp delta) [] \<and> rf_path delta = f @ ''.delta'' \<and> rf_mode delta = ''w'' \<and>
    fs_dir fs' (f @ ''.delta.tmp'') = Some j \<and> fs_data fs' j = []"
proof -
  let ?ens = "map (\<lambda>p. (ge_mk e (fst p), ge_mv e (snd p), [], [])) (dt_pairs dt)"
  obtain r i fs1 where r: "rf_new z f ''w'' LZO fs = Inr (r, fs1)" "fl_holds z LZO i (rf_fp r) []" "rf_path r = f"
      "rf_mode r = ''w''" "fs_dir fs1 (f @ ''.tmp'') = Some i" "fs_data fs1 i = []" "fs_writes fs (f @ ''.tmp'') (f @ ''.tmp'') fs1"
    using rf_new_holds [OF assms(2,3), of LZO z] assms(5) by blast
  obtain fp where fp: "rfold (tc_WriteEntryToFile z) ?ens r = Inr (r\<lparr>rf_fp := fp\<rparr>)" "fl_holds z LZO i fp (entries_bytes ?ens)"
    using rf_writeChunks_holds [OF r(2), of "concat (map entry_chunks ?ens)"] by (auto simp: write_entries entries_bytes_def)
  have fs1: "fs_ok fs1" "fs_grants fs1 ((f @ ''.delta'') @ ''.tmp'')" using r(7) assms(4) by (auto simp: fs_writes_def)
  obtain delta j fs2 where d: "rf_new z (f @ ''.delta'') ''w'' LZO fs1 = Inr (delta, fs2)" "fl_holds z LZO j (rf_fp delta) []"
      "rf_path delta = f @ ''.delta''" "rf_mode delta = ''w''" "fs_dir fs2 ((f @ ''.delta'') @ ''.tmp'') = Some j" "fs_data fs2 j = []"
      "fs_writes fs1 ((f @ ''.delta'') @ ''.tmp'') ((f @ ''.delta'') @ ''.tmp'') fs2"
    using rf_new_holds [OF fs1, of LZO z] assms(5) by blast
  have fs2: "fs_ok fs2" "fs_dir fs2 (f @ ''.tmp'') = Some i" "fs_data fs2 i = []"
    using d(7) fs_writes_keeps [OF d(7), of "f @ ''.tmp''"] r(5,6) by (auto simp: fs_writes_def)
  obtain fs3 where fs3: "rf_delete z (r\<lparr>rf_fp := fp\<rparr>) fs2 = Inr fs3" "stores z LZO fs3 f (entries_bytes ?ens)"
      "fs_writes fs2 (f @ ''.tmp'') f fs3"
    using rf_delete_holds [of z LZO i "r\<lparr>rf_fp := fp\<rparr>" "entries_bytes ?ens" fs2] fp(2) r(3,4) fs2 by auto
  have "fs_dir fs3 (f @ ''.delta.tmp'') = Some j" "fs_data fs3 j = []"
    using fs_writes_keeps [OF fs3(3), of "f @ ''.delta.tmp''"] d(5,6) by auto
  moreover have "fs_ok fs3" using fs3(3) by (simp add: fs_writes_def)
  ultimately show ?thesis using r(1) fp(1) d fs3 dt_file_entries [OF assms(1)]
    by (simp add: lt_start_checkpoint_def lt_serializeToFile_def)
qed

text \<open>
  C17: a checkpoint of a shard that is still a \<^verbatim>\<open>DeltaTable\<close> is restored, with its delta log. After
  \<^verbatim>\<open>start_checkpoint\<close>, any put requests recorded by \<^verbatim>\<open>write_delta\<close>, and \<^verbatim>\<open>finish_checkpoint\<close>, \<^verbatim>\<open>restore\<close>
  into any shard succeeds and leaves in it, on top of what was there, the rows of the checkpointed shard and then, one by one in
  the order of the log, the logged pairs. The logged pairs replace what the checkpoint has for their keys; they are
  not accumulated into it, as \<^verbatim>\<open>ApplyUpdates\<close> did when they arrived.
\<close>

theorem checkpoint_restored:
  assumes "dt_ok (ge_hash e) dt" and "dt_ok (ge_hash e) dt0" and "codec_ok cd e (dt_pairs dt @ pairs)" and "lzo_ok z"
    and "fs_ok fs" and "fs_grants fs (f @ ''.tmp'')" "fs_grants fs (f @ ''.delta.tmp'')"
    and "concat (map kv_data puts) = map (\<lambda>p. (ge_mk e (fst p), ge_mv e (snd p))) pairs"
  shows "\<exists>fs' dt'. lt_checkpoint z cd e f (Delta dt) puts fs = Inr fs' \<and>
    lt_restore z cd e f (Delta dt0) fs' = Inr (Delta dt', fs') \<and> dt_ok (ge_hash e) dt' \<and>
    dt_lookup dt' = (dt_lookup dt0 ++ dt_lookup dt) ++ map_of (rev pairs)"
proof -
  let ?ens = "map (\<lambda>p. (ge_mk e (fst p), ge_mv e (snd p), [], [])) (dt_pairs dt)"
  let ?ds = "map (\<lambda>p. (ge_mk e (fst p), ge_mv e (snd p), ''0'', ''0'')) pairs"
  obtain delta j fs1 where s: "lt_start_checkpoint z cd e f (Delta dt) fs = Inr (delta, fs1)" "fs_ok fs1"
      "stores z LZO fs1 f (entries_bytes ?ens)" "fl_holds z LZO j (rf_fp delta) []" "rf_path delta = f @ ''.delta''"
      "rf_mode delta = ''w''" "fs_dir fs1 (f @ ''.delta.tmp'') = Some j" "fs_data fs1 j = []"
    using start_checkpoint_stores [OF assms(1,5,6,7,4)] by blast
  have ds: "map delta_entry (concat (map kv_data puts)) = ?ds" by (simp add: assms(8) delta_entry_def)
  obtain fp where fp: "rfold (lt_write_delta z) puts (Some delta) = Inr (Some (delta\<lparr>rf_fp := fp\<rparr>))"
      "fl_holds z LZO j fp (entries_bytes ?ds)"
    using write_deltas_hold [OF s(4), of puts] by (auto simp: ds)
  obtain fs2 where fs2: "rf_delete z (delta\<lparr>rf_fp := fp\<rparr>) fs1 = Inr fs2" "stores z LZO fs2 (f @ ''.delta'') (entries_bytes ?ds)"
      "fs_writes fs1 (f @ ''.delta.tmp'') (f @ ''.delta'') fs2"
    using rf_delete_holds [of z LZO j "delta\<lparr>rf_fp := fp\<rparr>" "entries_bytes ?ds" fs1] fp(2) s by auto
  have st: "stores z LZO fs2 f (entries_bytes ?ens)"
    using s(3) stores_content [OF fs_writes_keeps(2) [OF fs2(3), of f]] by simp
  have ok: "\<forall>en \<in> set ?ens. entry_ok en" "\<forall>en \<in> set ?ds. entry_ok en"
    using assms(3) by (auto simp: entry_ok_def codec_ok_def chunk_ok_def)
  have cd: "\<forall>p \<in> set (dt_pairs dt). cd_uk cd (ge_mk e (fst p)) = Inr (fst p) \<and> cd_uv cd (ge_mv e (snd p)) = Inr (snd p)"
      "\<forall>p \<in> set pairs. cd_uk cd (ge_mk e (fst p)) = Inr (fst p) \<and> cd_uv cd (ge_mv e (snd p)) = Inr (snd p)"
    using assms(3) by (auto simp: codec_ok_def)
  obtain dt1 where dt1: "rfold (lt_update_str cd e) ?ens (Delta dt0) = Inr (Delta dt1)" "dt_ok (ge_hash e) dt1"
      "dt_lookup dt1 = dt_lookup dt0 ++ dt_lookup dt"
    using put_all_entries [OF assms(2) cd(1), of "\<lambda>_. []" "\<lambda>_. []"] dt_pairs_lookup [OF assms(1)] by auto
  obtain dt2 where dt2: "rfold (lt_update_str cd e) ?ds (Delta dt1) = Inr (Delta dt2)" "dt_ok (ge_hash e) dt2"
      "dt_lookup dt2 = (dt_lookup dt0 ++ dt_lookup dt) ++ map_of (rev pairs)"
    using put_all_entries [OF dt1(2) cd(2), of "\<lambda>_. ''0''" "\<lambda>_. ''0''"] dt1(3) by auto
  obtain rf where rf: "restore_from z (lt_update_str cd e) f fs2 (Delta dt0) = Inr (Delta dt1, rf)" "\<And>fs'. rf_delete z rf fs' = Inr fs'"
    using restore_from_stores [OF st ok(1), of "lt_update_str cd e" "Delta dt0"] dt1(1) by auto
  obtain df where df: "restore_from z (lt_update_str cd e) (f @ ''.delta'') fs2 (Delta dt1) = Inr (Delta dt2, df)"
      "\<And>fs'. rf_delete z df fs' = Inr fs'"
    using restore_from_stores [OF fs2(2) ok(2), of "lt_update_str cd e" "Delta dt1"] dt2(1) by auto
  have "File_Exists f fs2" using st by (auto simp: stores_def File_Exists_def fs_content_def)
  then have "lt_restore z cd e f (Delta dt0) fs2 = Inr (Delta dt2, fs2)" using rf df by (simp add: lt_restore_def)
  moreover have "lt_checkpoint z cd e f (Delta dt) puts fs = Inr fs2"
    using s(1) fp(1) fs2(1) by (simp add: lt_checkpoint_def lt_finish_checkpoint_def)
  ultimately show ?thesis using dt2 by blast
qed

text \<open>A shard with one row, numbers as four and eight bytes, and a log that has the key of the row.\<close>

definition ex_cp_env :: "(nat, rat, unit) genv" where
  "ex_cp_env = \<lparr>ge_table_id = 0, ge_num_shards = 1, ge_schedule_portion = 1, ge_helper_id = Some 0, ge_epoch = 0, ge_bufmsg = 10,
     ge_sharder = (\<lambda>_ _. Inr 0), ge_hash = id,
     ge_kernel = \<lparr>k_default_v = 0, k_init_c = (\<lambda>_ _. 0), k_init_v = (\<lambda>_ _. 0), k_accumulate = (+),
       k_process_delta_v = (\<lambda>_ d v _. (d, v)), k_priority = (\<lambda>_ _ d. d), k_g_func = (\<lambda>_ _ _ _. [])\<rparr>,
     ge_nd = \<lparr>skey = 0, in_use = False, v1 = 0\<rparr>,
     ge_ns = \<lparr>skey = 0, in_use = False, s1 = 0, s2 = 0, s3 = (), priority = 0\<rparr>,
     ge_mk = (\<lambda>k. le_string 4 k), ge_uk = le_value, ge_mv = (\<lambda>v. le_string 8 (nat (floor v))), ge_uv = (\<lambda>s. of_nat (le_value s))\<rparr>"

definition ex_codec :: "(nat, rat, unit) codec" where
  "ex_codec = \<lparr>cd_md = (\<lambda>_. []), cd_uk = pod_unmarshal 4, cd_uv = (\<lambda>s. rbind (pod_unmarshal 8 s) (\<lambda>n. Inr (of_nat n))),
     cd_ud = (\<lambda>_. Inr ()), cd_rs = (\<lambda>_. [])\<rparr>"

definition ex_shard :: "rat \<Rightarrow> (nat, rat) DeltaTable" where
  "ex_shard v = \<lparr>dt_buckets = [\<lparr>skey = 3, in_use = True, v1 = v\<rparr>], dt_entries = 1, dt_size = 1\<rparr>"

definition ex_put :: KVPairData where
  "ex_put = \<lparr>kv_source = 1, kv_table = 0, kv_shard = 0, kv_done = True, kv_data = [(le_string 4 3, le_string 8 9)], kv_epoch = 0\<rparr>"

lemma ex_shard_ok: "dt_ok id (ex_shard v)"
  by (simp add: dt_ok_def ex_shard_def open_ok_def used_def pos_def)

theorem checkpoint_restored_witness:
  "\<exists>fs' dt'. lt_checkpoint ex_lzo ex_codec ex_cp_env ''cp'' (Delta (ex_shard 5)) [ex_put] (fs_new (\<lambda>_. True)) = Inr fs' \<and>
    lt_restore ex_lzo ex_codec ex_cp_env ''cp'' (Delta (ex_shard 0)) fs' = Inr (Delta dt', fs') \<and> dt_lookup dt' 3 = Some 9"
proof -
  have ps: "dt_pairs (ex_shard 5) @ [(3, 9)] = [(3, 5), (3, 9)]" by (simp add: dt_pairs_def ex_shard_def)
  have "codec_ok ex_codec ex_cp_env (dt_pairs (ex_shard 5) @ [(3, 9)])"
    unfolding ps by (simp add: codec_ok_def ex_codec_def ex_cp_env_def pod_unmarshal_def le_value_bytes chunk_ok_def)
  then show ?thesis
    using checkpoint_restored [of ex_cp_env "ex_shard 5" "ex_shard 0" ex_codec "[(3, 9)]" ex_lzo "fs_new (\<lambda>_. True)" "''cp''" "[ex_put]"]
      ex_shard_ok ex_lzo_ok by (auto simp: ex_cp_env_def ex_put_def fs_ok_def fs_new_def map_add_def)
qed

text \<open>
  C36: a worker cannot checkpoint what it computes. When the tables are initialised, every local shard is a
  \<^verbatim>\<open>StateTable\<close>, whose \<^verbatim>\<open>serializeToFile\<close> asks for an iterator without a helper; so \<^verbatim>\<open>start_checkpoint\<close> of a table with at
  least one local shard ends in a null dereference at the first of them.
\<close>

theorem checkpoint_of_state_crashes:
  assumes "gt_ok e g" and "\<exists>i < ge_num_shards e. gt_local e g i"
    and "fs_ok fs" and "\<forall>p. fs_grants fs p" and "lzo_ok z"
  shows "gt_start_checkpoint z cd e f (g, ds, fs) = Inl NullDeref"
proof -
  define act :: "nat \<Rightarrow> ('a, rat, 'b) cp \<Rightarrow> ('a, rat, 'b) cp result" where "act = (\<lambda>i (g, ds, fs). rbind (vec_at (gt_partitions g) (int i)) (\<lambda>p.
     rbind (lt_start_checkpoint z cd e (shard_file f i (length (gt_partitions g))) p fs) (\<lambda>(delta, fs').
       Inr (g, ds[i := Some delta], fs'))))"
  let ?step = "\<lambda>i s. rbind (gt_is_local_shard e (int i) (fst s)) (\<lambda>loc. if loc then act i s else Inr s)"
  have crash: "act i (g, ds, fs) = Inl NullDeref" if i: "i < ge_num_shards e" "gt_local e g i" for i
  proof -
    obtain st where st: "gt_partitions g ! i = State st"
      using assms(1) i by (cases "gt_partitions g ! i") (auto simp: gt_ok_def part_ok_def)
    let ?f = "shard_file f i (length (gt_partitions g))"
    obtain r fs1 where "rf_new z ?f ''w'' LZO fs = Inr (r, fs1)"
      using rf_new_holds [OF assms(3), of ?f LZO z] assms(4,5) by blast
    then have "lt_start_checkpoint z cd e ?f (State st) fs = Inl NullDeref"
      by (simp add: lt_start_checkpoint_def lt_serializeToFile_def st_serializeToFile_def st_serialize_def st_get_iterator_def)
    then show ?thesis using assms(1) i(1) st by (simp add: act_def gt_ok_def vec_at_def)
  qed
  have "rfold ?step is (g, ds, fs) = Inl NullDeref" if "set is \<subseteq> {..<ge_num_shards e}" "\<exists>i \<in> set is. gt_local e g i" for "is"
    using that
  proof (induction "is")
    case (Cons i "is")
    then show ?case using crash [of i] gt_is_local_shard_eq [OF assms(1), of i] by (cases "gt_local e g i") auto
  qed simp
  moreover have "set [0..<length (gt_partitions g)] \<subseteq> {..<ge_num_shards e}" "\<exists>i \<in> set [0..<length (gt_partitions g)]. gt_local e g i"
    using assms(1,2) by (auto simp: gt_ok_def)
  ultimately have "rfold ?step [0..<length (gt_partitions g)] (g, ds, fs) = Inl NullDeref" by blast
  then show ?thesis unfolding gt_start_checkpoint_def on_local_def act_def [symmetric] by (simp only: fst_conv)
qed

definition ex_state_shard :: "(nat, rat, unit) GlobalTable" where
  "ex_state_shard = \<lparr>gt_partitions = [State \<lparr>st_buckets = [ge_ns ex_cp_env], st_entries = 0, st_size = 1, st_total_curr = 0, st_total_updates = 0, st_terminated = False\<rparr>],
     gt_partinfo = [\<lparr>pi_dirty = False, pi_tainted = False, pi_owner = 0, pi_entries = 0\<rparr>],
     gt_pending_writes = 0, gt_snapshot_index = 0, gt_binit = True, gt_update_queue = [], gt_sent = [], gt_termchecks = []\<rparr>"

theorem checkpoint_of_state_crashes_witness:
  "gt_start_checkpoint ex_lzo ex_codec ex_cp_env ''cp'' (ex_state_shard, [None], fs_new (\<lambda>_. True)) = Inl NullDeref"
proof -
  have "gt_ok ex_cp_env ex_state_shard"
    by (simp add: gt_ok_def ex_state_shard_def ex_cp_env_def part_ok_def gt_local_def st_ok_def open_ok_def used_def)
  moreover have "gt_local ex_cp_env ex_state_shard 0" by (simp add: gt_local_def ex_cp_env_def ex_state_shard_def)
  ultimately show ?thesis
    using checkpoint_of_state_crashes [of ex_cp_env ex_state_shard "fs_new (\<lambda>_. True)" ex_lzo ex_codec "''cp''" "[None]"] ex_lzo_ok
    by (auto simp: fs_ok_def fs_new_def ex_cp_env_def)
qed

end
