(* ===== verification/Worker.thy ===== *)
theory Worker
  imports Checkpoints Engine
begin

text \<open>
  \<^verbatim>\<open>src/worker/worker.h\<close> and \<^verbatim>\<open>worker.cc\<close>: a worker process. It runs the kernels that the master asks for,
  applies the updates that other workers send, answers the master's requests through callbacks, and
  takes part in checkpoints. Every registered table is a \<^verbatim>\<open>TypedGlobalTable\<close>, so all dynamic casts succeed. What a
  table operation sends (\<open>gt_sent\<close>, \<open>gt_termchecks\<close>) is handed to the network thread when the operation returns. The
  code of a user kernel is an argument, \<open>run\<close>. Locks, timers, statistics and log output are left out; a loop over
  \<^verbatim>\<open>TryRead\<close> handles the messages that are queued when it starts.
\<close>

section \<open>State\<close>

record ('k, 'd) wtable =
  wt_env :: "('k, rat, 'd) genv"
  wt_gt :: "('k, rat, 'd) GlobalTable"
  wt_delta :: "RecordFile option list"
  wt_triggers :: "Trigger list"
  wt_codec :: "('k, rat, 'd) codec"

text \<open>An iterator that a remote reader has open: its table, its shard and where it stands.\<close>

type_synonym open_iter = "int \<times> int \<times> typed_iter"

type_synonym KernelId = "string \<times> int \<times> int"

record ('k, 'd, 'p) Worker =
  w_id :: int
  w_epoch :: int
  w_running :: bool
  w_active_checkpoint :: CheckpointType
  w_checkpoint_tables :: "int list"
  w_peers :: "int list"
  w_net :: "msg NetworkThread"
  w_dirty_tables :: "int list"
  w_iterator_id :: nat
  w_iterators :: "nat \<rightharpoonup> open_iter"
  w_tables :: "(int \<times> ('k, 'd) wtable) list"
  w_kernel_reg :: kernels
  w_kernels :: "(KernelId \<times> 'p DSMKernel) list"
  w_fs :: filesys
  w_termcheck_last :: int

text \<open>Flags and configuration, and the answers of the operating system and of MPI.\<close>

record wenv =
  we_master :: int
  we_write_dir :: string
  we_read_dir :: string
  we_lzo :: lzo
  we_cwd :: string
  we_mkdir :: "string \<Rightarrow> bool"
  we_fins :: "(msg RPCRequest \<Rightarrow> bool) list"
  we_snapshot_cycles :: int

text \<open>The table as this worker sees it: it is the helper, and its epoch goes into the messages.\<close>

definition w_env :: "('k, 'd, 'p) Worker \<Rightarrow> ('k, 'd) wtable \<Rightarrow> ('k, rat, 'd) genv" where
  "w_env w t = (wt_env t)\<lparr>ge_helper_id := Some (w_id w), ge_epoch := w_epoch w\<rparr>"

definition w_send :: "int \<Rightarrow> int \<Rightarrow> msg \<Rightarrow> ('k, 'd, 'p) Worker \<Rightarrow> ('k, 'd, 'p) Worker" where
  "w_send dst meth x w = w\<lparr>w_net := nt_Send dst meth x (w_net w)\<rparr>"

text \<open>\<^verbatim>\<open>SendTermcheck\<close>\<close>

definition w_SendTermcheck :: "wenv \<Rightarrow> int \<times> int \<times> rat \<Rightarrow> ('k, 'd, 'p) Worker \<Rightarrow> ('k, 'd, 'p) Worker" where
  "w_SendTermcheck c r = (case r of (snapshot, updates, current) \<Rightarrow>
     w_send (we_master c) MTYPE_TERMCHECK_DONE (TermcheckDelta snapshot current updates))"

text \<open>Store a table after an operation and send what the operation wanted to send.\<close>

definition w_put_table :: "wenv \<Rightarrow> int \<Rightarrow> ('k, 'd) wtable \<Rightarrow> ('k, 'd, 'p) Worker \<Rightarrow> ('k, 'd, 'p) Worker" where
  "w_put_table c i t w =
     (let g = wt_gt t;
          w1 = fold (\<lambda>(dst, put). w_send dst MTYPE_PUT_REQUEST (PutRequest put)) (gt_sent g) w;
          w2 = fold (w_SendTermcheck c) (gt_termchecks g) w1
      in w2\<lparr>w_tables := tr_update i (t\<lparr>wt_gt := g\<lparr>gt_sent := [], gt_termchecks := []\<rparr>\<rparr>) (w_tables w2)\<rparr>)"

definition w_on_table :: "wenv \<Rightarrow> int \<Rightarrow> (('k, rat, 'd) genv \<Rightarrow> ('k, rat, 'd) GlobalTable \<Rightarrow> ('k, rat, 'd) GlobalTable result) \<Rightarrow>
    ('k, 'd, 'p) Worker \<Rightarrow> ('k, 'd, 'p) Worker result" where
  "w_on_table c i f w = rbind (tr_table i (w_tables w)) (\<lambda>t. rbind (f (w_env w t) (wt_gt t)) (\<lambda>g.
     Inr (w_put_table c i (t\<lparr>wt_gt := g\<rparr>) w)))"

text \<open>The same for a checkpoint operation, which works on the delta files and on the disk as well.\<close>

definition w_on_checkpoint :: "wenv \<Rightarrow> int \<Rightarrow> (('k, rat, 'd) codec \<Rightarrow> ('k, rat, 'd) genv \<Rightarrow> ('k, rat, 'd) cp \<Rightarrow> ('k, rat, 'd) cp result) \<Rightarrow>
    ('k, 'd, 'p) Worker \<Rightarrow> ('k, 'd, 'p) Worker result" where
  "w_on_checkpoint c i f w = rbind (tr_table i (w_tables w)) (\<lambda>t.
     rbind (f (wt_codec t) (w_env w t) (wt_gt t, wt_delta t, w_fs w)) (\<lambda>(g, ds, fs).
       Inr ((w_put_table c i (t\<lparr>wt_gt := g, wt_delta := ds\<rparr>) w)\<lparr>w_fs := fs\<rparr>)))"

abbreviation "w_table_ids w \<equiv> map fst (w_tables w)"

section \<open>Construction\<close>

definition worker_callbacks :: "int list" where
  "worker_callbacks = [MTYPE_SHARD_ASSIGNMENT, MTYPE_ITERATOR, MTYPE_CLEAR_TABLE, MTYPE_SWAP_TABLE, MTYPE_WORKER_FLUSH,
     MTYPE_WORKER_APPLY, MTYPE_ENABLE_TRIGGER, MTYPE_TERMINATION]"

definition w_new :: "nat \<Rightarrow> (int \<times> ('k, 'd) wtable) list \<Rightarrow> kernels \<Rightarrow> filesys \<Rightarrow> msg NetworkThread \<Rightarrow>
    ('k, 'd, 'p) Worker result" where
  "w_new num_workers tmap kreg fs net =
     rbind (rfold (\<lambda>tag. nt_RegisterCallback tag EmptyMessage EmptyMessage) worker_callbacks net) (\<lambda>net1.
     rbind (nt_SpawnThreadFor MTYPE_WORKER_FLUSH net1) (\<lambda>net2.
       Inr \<lparr>w_id = nt_id net - 1, w_epoch = 0, w_running = True, w_active_checkpoint = CP_NONE, w_checkpoint_tables = [],
            w_peers = replicate num_workers 0, w_net = net2, w_dirty_tables = [], w_iterator_id = 0, w_iterators = Map.empty,
            w_tables = tmap, w_kernel_reg = kreg, w_kernels = [], w_fs = fs, w_termcheck_last = 0\<rparr>))"

definition w_peer_for_shard :: "int \<Rightarrow> int \<Rightarrow> ('k, 'd, 'p) Worker \<Rightarrow> int result" where
  "w_peer_for_shard table shard w = rbind (tr_index table (w_tables w)) (\<lambda>t. gt_owner shard (wt_gt t))"

section \<open>Checkpoints\<close>

definition epoch_dir :: "string \<Rightarrow> int \<Rightarrow> string" where
  "epoch_dir dir epoch = dir @ ''/epoch_'' @ dec5 (nat epoch) @ ''/''"

definition checkpoint_file :: "string \<Rightarrow> int \<Rightarrow> int \<Rightarrow> string" where
  "checkpoint_file dir epoch table = epoch_dir dir epoch @ ''checkpoint.table-'' @ decimal (nat table)"

definition w_StartCheckpoint :: "wenv \<Rightarrow> int \<Rightarrow> CheckpointType \<Rightarrow> ('k, 'd, 'p) Worker \<Rightarrow> ('k, 'd, 'p) Worker result" where
  "w_StartCheckpoint c epoch type w =
     (if epoch \<le> w_epoch w then Inr w
      else let w = w\<lparr>w_epoch := epoch\<rparr> in
        rbind (File_Mkdirs (we_cwd c) (we_mkdir c) (epoch_dir (we_write_dir c) epoch)) (\<lambda>_.
        rbind (rfold (\<lambda>i w. if i \<in> set (w_checkpoint_tables w)
            then w_on_checkpoint c i (\<lambda>cd e. gt_start_checkpoint (we_lzo c) cd e (checkpoint_file (we_write_dir c) epoch i)) w
            else Inr w) (w_table_ids w) w) (\<lambda>w.
          let w = w\<lparr>w_active_checkpoint := type\<rparr> in
          Inr (if type = CP_ROLLING
               then fold (\<lambda>i. w_send (int i + 1) MTYPE_PUT_REQUEST (EpochMarker (w_id w) epoch)) [0..<length (w_peers w)] w
               else w))))"

definition w_FinishCheckpoint :: "wenv \<Rightarrow> ('k, 'd, 'p) Worker \<Rightarrow> ('k, 'd, 'p) Worker result" where
  "w_FinishCheckpoint c w =
     (let w = w\<lparr>w_active_checkpoint := CP_NONE, w_peers := map (\<lambda>_. w_epoch w) (w_peers w)\<rparr> in
      rbind (rfold (\<lambda>i. w_on_checkpoint c i (\<lambda>cd e. gt_finish_checkpoint (we_lzo c) e)) (w_table_ids w) w) (\<lambda>w.
        Inr (w_send (we_master c) MTYPE_CHECKPOINT_DONE EmptyMessage w)))"

definition w_UpdateEpoch :: "wenv \<Rightarrow> int \<Rightarrow> int \<Rightarrow> ('k, 'd, 'p) Worker \<Rightarrow> ('k, 'd, 'p) Worker result" where
  "w_UpdateEpoch c peer peer_epoch w =
     rbind (if w_epoch w < peer_epoch
            then w_StartCheckpoint c peer_epoch CP_ROLLING (w\<lparr>w_checkpoint_tables := w_table_ids w\<rparr>)
            else Inr w) (\<lambda>w.
     rbind (vec_at (w_peers w) peer) (\<lambda>_.
       let w = w\<lparr>w_peers := (w_peers w)[nat peer := peer_epoch]\<rparr> in
       if list_all (\<lambda>x. x = w_epoch w) (w_peers w) then w_FinishCheckpoint c w else Inr w))"

definition w_Restore :: "wenv \<Rightarrow> int \<Rightarrow> ('k, 'd, 'p) Worker \<Rightarrow> ('k, 'd, 'p) Worker result" where
  "w_Restore c epoch w =
     rbind (rfold (\<lambda>i. w_on_checkpoint c i (\<lambda>cd e. gt_restore (we_lzo c) cd e (checkpoint_file (we_read_dir c) epoch i)))
       (w_table_ids w) (w\<lparr>w_epoch := epoch\<rparr>)) (\<lambda>w.
     Inr (w_send (we_master c) MTYPE_RESTORE_DONE EmptyMessage w))"

section \<open>Reading messages\<close>

text \<open>
  \<^verbatim>\<open>while (network_->TryRead(src, tag, &msg)) handle(msg)\<close>, with the number of queued messages as fuel.
\<close>

fun w_drain_loop :: "nat \<Rightarrow> int option \<Rightarrow> int \<Rightarrow> (msg \<Rightarrow> ('k, 'd, 'p) Worker \<Rightarrow> ('k, 'd, 'p) Worker result) \<Rightarrow>
    ('k, 'd, 'p) Worker \<Rightarrow> ('k, 'd, 'p) Worker result" where
  "w_drain_loop fuel src tag handle w = rbind (nt_TryRead src tag (w_net w)) (\<lambda>(r, n).
     let w = w\<lparr>w_net := n\<rparr> in
     case r of None \<Rightarrow> Inr w
     | Some (x, _) \<Rightarrow> (case fuel of 0 \<Rightarrow> Inl Diverges
         | Suc fuel' \<Rightarrow> rbind (handle x w) (w_drain_loop fuel' src tag handle)))"

declare w_drain_loop.simps [simp del]

definition pending_requests :: "int option \<Rightarrow> int \<Rightarrow> 'm NetworkThread \<Rightarrow> 'm list" where
  "pending_requests src tag n = (case src of
       Some s \<Rightarrow> nt_requests n tag s
     | None \<Rightarrow> concat (map (\<lambda>i. nt_requests n tag (int i)) [0..<nt_world_size n]))"

definition w_drain :: "int option \<Rightarrow> int \<Rightarrow> (msg \<Rightarrow> ('k, 'd, 'p) Worker \<Rightarrow> ('k, 'd, 'p) Worker result) \<Rightarrow>
    ('k, 'd, 'p) Worker \<Rightarrow> ('k, 'd, 'p) Worker result" where
  "w_drain src tag handle w = w_drain_loop (length (pending_requests src tag (w_net w))) src tag handle w"

text \<open>The taint of a partition is cleared by the last message of its old owner.\<close>

definition gt_clear_taint :: "KVPairData \<Rightarrow> ('k, 'v, 'd) GlobalTable \<Rightarrow> ('k, 'v, 'd) GlobalTable result" where
  "gt_clear_taint put g = (if \<not> kv_done put then Inr g
     else rbind (vec_at (gt_partinfo g) (kv_shard put)) (\<lambda>p.
       if pi_tainted p
       then Inr (g\<lparr>gt_partinfo := (gt_partinfo g)[nat (kv_shard put) := p\<lparr>pi_tainted := False\<rparr>]\<rparr>) else Inr g))"

definition w_logs :: "KVPairData \<Rightarrow> ('k, 'd, 'p) Worker \<Rightarrow> bool" where
  "w_logs put w \<longleftrightarrow> (w_active_checkpoint w = CP_MASTER_CONTROLLED \<or>
      (w_active_checkpoint w = CP_ROLLING \<and> kv_epoch put < w_epoch w)) \<and> kv_table put \<in> set (w_checkpoint_tables w)"

definition w_apply_put :: "wenv \<Rightarrow> KVPairData \<Rightarrow> ('k, 'd, 'p) Worker \<Rightarrow> ('k, 'd, 'p) Worker result" where
  "w_apply_put c put w =
     rbind (w_on_table c (kv_table put) (\<lambda>e. gt_ApplyUpdates e put) w) (\<lambda>w.
     rbind (if w_logs put w then w_on_checkpoint c (kv_table put) (\<lambda>cd e. gt_write_delta (we_lzo c) e put) w else Inr w) (\<lambda>w.
       w_on_table c (kv_table put) (\<lambda>e. gt_clear_taint put) w))"

text \<open>
  An epoch marker has no data and the table \<^verbatim>\<open>-1\<close>; it is told from a put request by its field \<^verbatim>\<open>marker\<close>, which is \<^verbatim>\<open>-1\<close>
  in the other.
\<close>

definition marker_put :: "int \<Rightarrow> KVPairData" where
  "marker_put src = \<lparr>kv_source = src, kv_table = -1, kv_shard = -1, kv_done = True, kv_data = [], kv_epoch = 0\<rparr>"

definition w_handle_put :: "wenv \<Rightarrow> msg \<Rightarrow> ('k, 'd, 'p) Worker \<Rightarrow> ('k, 'd, 'p) Worker result" where
  "w_handle_put c x w = (case x of
       PutRequest put \<Rightarrow> w_apply_put c put w
     | EpochMarker src marker \<Rightarrow> if marker \<noteq> -1 then w_UpdateEpoch c src marker w else w_apply_put c (marker_put src) w
     | _ \<Rightarrow> Inl Uninitialised)"

definition w_HandlePutRequest :: "wenv \<Rightarrow> ('k, 'd, 'p) Worker \<Rightarrow> ('k, 'd, 'p) Worker result" where
  "w_HandlePutRequest c w = w_drain None MTYPE_PUT_REQUEST (w_handle_put c) w"

definition w_start_request :: "wenv \<Rightarrow> msg \<Rightarrow> ('k, 'd, 'p) Worker \<Rightarrow> ('k, 'd, 'p) Worker result" where
  "w_start_request c x w = (case x of
       CheckpointRequest epoch type tbls \<Rightarrow>
         w_StartCheckpoint c epoch type (w\<lparr>w_checkpoint_tables := fold List.insert tbls (w_checkpoint_tables w)\<rparr>)
     | _ \<Rightarrow> Inl Uninitialised)"

definition w_restore_request :: "wenv \<Rightarrow> msg \<Rightarrow> ('k, 'd, 'p) Worker \<Rightarrow> ('k, 'd, 'p) Worker result" where
  "w_restore_request c x w = (case x of StartRestore epoch \<Rightarrow> w_Restore c epoch w | _ \<Rightarrow> Inl Uninitialised)"

definition w_CheckForMasterUpdates :: "wenv \<Rightarrow> ('k, 'd, 'p) Worker \<Rightarrow> ('k, 'd, 'p) Worker result" where
  "w_CheckForMasterUpdates c w =
     rbind (nt_TryRead (Some (we_master c)) MTYPE_WORKER_SHUTDOWN (w_net w)) (\<lambda>(r, n).
       let w = w\<lparr>w_net := n\<rparr> in
       if r \<noteq> None then Inr (w\<lparr>w_running := False\<rparr>)
       else rbind (w_drain (Some (we_master c)) MTYPE_START_CHECKPOINT (w_start_request c) w) (\<lambda>w.
            rbind (w_drain (Some (we_master c)) MTYPE_FINISH_CHECKPOINT (\<lambda>_. w_FinishCheckpoint c) w) (\<lambda>w.
              w_drain (Some (we_master c)) MTYPE_RESTORE (w_restore_request c) w)))"

definition w_CheckNetwork :: "wenv \<Rightarrow> ('k, 'd, 'p) Worker \<Rightarrow> ('k, 'd, 'p) Worker result" where
  "w_CheckNetwork c w =
     rbind (w_CheckForMasterUpdates c w) (\<lambda>w. rbind (w_HandlePutRequest c w) (\<lambda>w.
     rbind (rfold (\<lambda>i. w_on_table c i gt_SendUpdates) (w_dirty_tables w) w) (\<lambda>w. Inr (w\<lparr>w_dirty_tables := []\<rparr>))))"

section \<open>Callbacks\<close>

definition w_HandleSwapRequest :: "int \<Rightarrow> int \<Rightarrow> ('k, 'd, 'p) Worker \<Rightarrow> ('k, 'd, 'p) Worker result" where
  "w_HandleSwapRequest a b w = rbind (tr_mutable_table a (w_tables w)) (\<lambda>ta. rbind (tr_mutable_table b (w_tables w)) (\<lambda>tb.
     rbind (check (a \<noteq> b)) (\<lambda>_. case gt_local_swap (wt_gt ta) (wt_gt tb) of (ga, gb) \<Rightarrow>
       Inr (w\<lparr>w_tables := tr_update b (tb\<lparr>wt_gt := gb, wt_delta := wt_delta ta\<rparr>)
                (tr_update a (ta\<lparr>wt_gt := ga, wt_delta := wt_delta tb\<rparr>) (w_tables w))\<rparr>))))"

definition gt_map_local :: "('k, 'v, 'd) genv \<Rightarrow> (('k, 'v, 'd) local_table \<Rightarrow> ('k, 'v, 'd) local_table) \<Rightarrow> ('k, 'v, 'd) GlobalTable \<Rightarrow>
    ('k, 'v, 'd) GlobalTable result" where
  "gt_map_local e f g = rfold (\<lambda>i g. rbind (gt_is_local_shard e (int i) g) (\<lambda>loc.
     if loc then rbind (vec_at (gt_partitions g) (int i)) (\<lambda>p. Inr (gt_set (int i) (f p) g)) else Inr g))
     [0..<ge_num_shards e] g"

definition w_HandleClearRequest :: "wenv \<Rightarrow> int \<Rightarrow> ('k, 'd, 'p) Worker \<Rightarrow> ('k, 'd, 'p) Worker result" where
  "w_HandleClearRequest c i w = w_on_table c i (\<lambda>e. gt_map_local e lt_clear) w"

text \<open>\<^verbatim>\<open>terminate\<close> on a partition; the flag of a delta table is never read.\<close>

definition lt_terminate :: "('k, 'v, 'd) local_table \<Rightarrow> ('k, 'v, 'd) local_table" where
  "lt_terminate p = (case p of Delta dt \<Rightarrow> Delta dt | State st \<Rightarrow> State (st\<lparr>st_terminated := True\<rparr>))"

definition w_HandleTermNotification :: "wenv \<Rightarrow> ('k, 'd, 'p) Worker \<Rightarrow> ('k, 'd, 'p) Worker result" where
  "w_HandleTermNotification c w = w_on_table c 0 (\<lambda>e. gt_map_local e lt_terminate) w"

definition w_HandleEnableTrigger :: "int \<Rightarrow> int \<Rightarrow> bool \<Rightarrow> ('k, 'd, 'p) Worker \<Rightarrow> ('k, 'd, 'p) Worker result" where
  "w_HandleEnableTrigger trigger_id table enable w = rbind (tr_index table (w_tables w)) (\<lambda>t.
     rbind (vec_at (wt_triggers t) trigger_id) (\<lambda>tr.
       Inr (w\<lparr>w_tables := tr_update table (t\<lparr>wt_triggers := (wt_triggers t)[nat trigger_id := trigger_enable enable tr]\<rparr>) (w_tables w)\<rparr>)))"

text \<open>One assignment: the new owner, and what it means when this worker gains or loses the shard.\<close>

definition assign_partition :: "int \<Rightarrow> int \<Rightarrow> PartitionInfo \<Rightarrow> PartitionInfo" where
  "assign_partition me new_worker p =
     (let p' = p\<lparr>pi_owner := new_worker\<rparr> in
      if new_worker = me \<and> pi_owner p \<noteq> me then (if pi_owner p \<noteq> -1 then p'\<lparr>pi_tainted := True\<rparr> else p')
      else if pi_owner p = me \<and> new_worker \<noteq> me then p'\<lparr>pi_dirty := True\<rparr> else p')"

definition w_assign_shard :: "ShardAssignment \<Rightarrow> ('k, 'd, 'p) Worker \<Rightarrow> ('k, 'd, 'p) Worker result" where
  "w_assign_shard a w = rbind (tr_table (sa_table a) (w_tables w)) (\<lambda>t.
     rbind (vec_at (gt_partinfo (wt_gt t)) (sa_shard a)) (\<lambda>p.
       let g = (wt_gt t)\<lparr>gt_partinfo := (gt_partinfo (wt_gt t))[nat (sa_shard a) := assign_partition (w_id w) (sa_new_worker a) p]\<rparr>
       in Inr (w\<lparr>w_tables := tr_update (sa_table a) (t\<lparr>wt_gt := g\<rparr>) (w_tables w),
                 w_dirty_tables := (if pi_owner p = w_id w \<and> sa_new_worker a \<noteq> w_id w
                   then List.insert (sa_table a) (w_dirty_tables w) else w_dirty_tables w)\<rparr>)))"

definition w_HandleShardAssignment :: "ShardAssignment list \<Rightarrow> ('k, 'd, 'p) Worker \<Rightarrow> ('k, 'd, 'p) Worker result" where
  "w_HandleShardAssignment req w = rfold w_assign_shard req w"

definition w_HandleFlush :: "wenv \<Rightarrow> ('k, 'd, 'p) Worker \<Rightarrow> ('k, 'd, 'p) Worker result" where
  "w_HandleFlush c w = rbind (rfold (\<lambda>i. w_on_table c i gt_SendUpdates) (w_table_ids w) w) (\<lambda>w.
     rbind (nt_Flush (we_fins c) (w_net w)) (\<lambda>n. Inr (w\<lparr>w_net := n\<rparr>)))"

definition w_HandleApply :: "wenv \<Rightarrow> ('k, 'd, 'p) Worker \<Rightarrow> ('k, 'd, 'p) Worker result" where
  "w_HandleApply = w_HandlePutRequest"

text \<open>\<^verbatim>\<open>FlushUpdates\<close>, which the iterators call: \<open>now\<close> is the cycle counter that \<^verbatim>\<open>TermCheck\<close> looks at.\<close>

definition w_FlushUpdates :: "wenv \<Rightarrow> int \<Rightarrow> ('k, 'd, 'p) Worker \<Rightarrow> ('k, 'd, 'p) Worker result" where
  "w_FlushUpdates c now w = rfold (\<lambda>i w. rbind (w_on_table c i gt_SendUpdates w) (\<lambda>w.
     case periodic (we_snapshot_cycles c) now (w_termcheck_last w) of (due, prev) \<Rightarrow>
       let w = w\<lparr>w_termcheck_last := prev\<rparr> in if due then w_on_table c i gt_termcheck w else Inr w)) (w_table_ids w) w"

definition w_pending_kernel_bytes :: "('k, 'd, 'p) Worker \<Rightarrow> int result" where
  "w_pending_kernel_bytes w = rfold (\<lambda>p s. rbind (gt_pending_write_bytes (w_env w (snd p)) (wt_gt (snd p))) (\<lambda>b. Inr (s + b)))
     (w_tables w) 0"

definition w_network_idle :: "(msg \<Rightarrow> nat) \<Rightarrow> ('k, 'd, 'p) Worker \<Rightarrow> bool" where
  "w_network_idle sz w \<longleftrightarrow> nt_pending_bytes sz (w_net w) = 0"

section \<open>Remote iterators\<close>

text \<open>The rows of one answer: \<open>n\<close> is how many are still wanted.\<close>

fun iter_rows :: "nat \<Rightarrow> ('k, rat, 'd) genv \<Rightarrow> ('k, rat, 'd) StateTable \<Rightarrow> typed_iter \<Rightarrow> IteratorResponse \<Rightarrow>
    (typed_iter \<times> IteratorResponse) result" where
  "iter_rows 0 e st it resp = Inr (it, resp)"
| "iter_rows (Suc n) e st it resp =
     (let resp = resp\<lparr>ir_done := ti_done st it\<rparr> in
      if ti_done st it then Inr (it, resp)
      else rbind (ti_bucket it) (\<lambda>b. rbind (vec_at (st_buckets st) b) (\<lambda>s.
        let resp = resp\<lparr>ir_key := ir_key resp @ [ge_mk e (skey s)], ir_value := ir_value resp @ [ge_mv e (s1 s)],
                        ir_row_count := ir_row_count resp + 1\<rparr>
        in if 0 < n then rbind (ti_Next st it) (\<lambda>(it', _). iter_rows n e st it' resp) else Inr (it, resp))))"

text \<open>
  \<^verbatim>\<open>HandleIteratorRequest\<close>; \<open>eff\<close> and \<open>rs\<close> are the effect of the helper's calls and the random positions that
  making an iterator depends on.
\<close>

definition w_open_iterator :: "wenv \<Rightarrow> (nat \<Rightarrow> ('k, rat, 'd) StateTable \<Rightarrow> ('k, rat, 'd) StateTable) \<Rightarrow> (nat \<Rightarrow> int list) \<Rightarrow>
    int \<Rightarrow> int \<Rightarrow> ('k, 'd, 'p) Worker \<Rightarrow> (nat \<times> typed_iter \<times> ('k, 'd, 'p) Worker) result" where
  "w_open_iterator c eff rs table shard w = rbind (tr_table table (w_tables w)) (\<lambda>t.
     rbind (gt_get_iterator (w_env w t) shard False (Some eff) rs (wt_gt t)) (\<lambda>(it, g).
       case it of None \<Rightarrow> Inl NullDeref
       | Some it \<Rightarrow> let i = w_iterator_id w in
           Inr (i, it, (w_put_table c table (t\<lparr>wt_gt := g\<rparr>) w)\<lparr>w_iterator_id := (i + 1) mod 2 ^ 32,
             w_iterators := (w_iterators w)(i \<mapsto> (table, shard, it))\<rparr>)))"

definition w_HandleIteratorRequest :: "wenv \<Rightarrow> (nat \<Rightarrow> ('k, rat, 'd) StateTable \<Rightarrow> ('k, rat, 'd) StateTable) \<Rightarrow> (nat \<Rightarrow> int list) \<Rightarrow>
    int \<Rightarrow> int \<Rightarrow> int \<Rightarrow> nat \<Rightarrow> ('k, 'd, 'p) Worker \<Rightarrow> (IteratorResponse \<times> ('k, 'd, 'p) Worker) result" where
  "w_HandleIteratorRequest c eff rs table shard req_id row_count w =
     rbind (if req_id = -1 then w_open_iterator c eff rs table shard w
            else (case w_iterators w (nat (req_id mod 2 ^ 32)) of None \<Rightarrow> Inl CheckFailed
              | Some (tb, sh, it) \<Rightarrow> rbind (tr_table tb (w_tables w)) (\<lambda>t. rbind (gt_partition sh (wt_gt t)) (\<lambda>st.
                  rbind (ti_Next st it) (\<lambda>(it', _). Inr (nat (req_id mod 2 ^ 32), it', w)))))) (\<lambda>(i, it, w).
     case w_iterators w i of None \<Rightarrow> Inl NullDeref
     | Some (tb, sh, _) \<Rightarrow> rbind (tr_table tb (w_tables w)) (\<lambda>t. rbind (gt_partition sh (wt_gt t)) (\<lambda>st.
         rbind (iter_rows row_count (w_env w t) st it
           \<lparr>ir_id = int i, ir_done = False, ir_key = [], ir_value = [], ir_row_count = 0\<rparr>) (\<lambda>(it', resp).
           Inr (resp, w\<lparr>w_iterators := (w_iterators w)(i \<mapsto> (tb, sh, it'))\<rparr>)))))"

section \<open>Running kernels\<close>

text \<open>
  One request to run a kernel. \<open>run\<close> is the user's code: from the kernel object and the worker to what
  they are when the function returns; a function that was not registered cannot be called.
\<close>

definition w_kernel_object :: "KernelRequest \<Rightarrow> ('k, 'd, 'p) Worker \<Rightarrow> ('p DSMKernel \<times> ('k, 'd, 'p) Worker) result" where
  "w_kernel_object kreq w = (let kid = (kr_kname kreq, kr_table kreq, kr_shard kreq) in
     case map_of (w_kernels w) kid of
       Some d \<Rightarrow> Inr (d, w)
     | None \<Rightarrow> (case kr_kernel (kr_kname kreq) (w_kernel_reg w) of
         (None, _) \<Rightarrow> Inl NullDeref
       | (Some _, _) \<Rightarrow> let d = kn_initialize_internal (kr_table kreq) (kr_shard kreq)
             \<lparr>kn_shard = 0, kn_table_id = 0, kn_args = Registry.mm_new, kn_cp = Registry.mm_new\<rparr>
           in Inr (d, w\<lparr>w_kernels := AList.update kid d (w_kernels w)\<rparr>)))"

definition shard_infos :: "('k, 'd, 'p) Worker \<Rightarrow> int \<Rightarrow> ('k, 'd) wtable \<Rightarrow> ShardInfo list result" where
  "shard_infos w i t = rfold (\<lambda>j infos. rbind (gt_is_local_shard (w_env w t) (int j) (wt_gt t)) (\<lambda>loc.
     if \<not> loc then Inr infos
     else rbind (gt_shard_size (w_env w t) (int j) (wt_gt t)) (\<lambda>n.
       Inr (infos @ [\<lparr>si_table = i, si_shard = int j, si_entries = n, si_owner = w_id w\<rparr>]))))
     [0..<ge_num_shards (wt_env t)] []"

text \<open>The report on the local shards of every table, with the put requests handled before each.\<close>

definition w_report_tables :: "wenv \<Rightarrow> ('k, 'd, 'p) Worker \<Rightarrow> (ShardInfo list \<times> ('k, 'd, 'p) Worker) result" where
  "w_report_tables c w = rfold (\<lambda>i (infos, w). rbind (w_HandlePutRequest c w) (\<lambda>w.
     rbind (tr_table i (w_tables w)) (\<lambda>t. rbind (shard_infos w i t) (\<lambda>more. Inr (infos @ more, w)))))
     (w_table_ids w) ([], w)"

definition w_run_kernel :: "wenv \<Rightarrow> (string \<Rightarrow> string \<Rightarrow> 'p DSMKernel \<Rightarrow> ('k, 'd, 'p) Worker \<Rightarrow> ('p DSMKernel \<times> ('k, 'd, 'p) Worker) result) \<Rightarrow>
    KernelRequest \<Rightarrow> ('k, 'd, 'p) Worker \<Rightarrow> ('k, 'd, 'p) Worker result" where
  "w_run_kernel c run kreq w =
     rbind (w_peer_for_shard (kr_table kreq) (kr_shard kreq) w) (\<lambda>own.
       if own \<noteq> w_id w then Inl Fatal
       else rbind (w_kernel_object kreq w) (\<lambda>(d, w).
         let d = kn_set_args (mm_FromMessage (kr_args kreq) Registry.mm_new) d in
         case kr_kernel (kr_kname kreq) (w_kernel_reg w) of
           (None, _) \<Rightarrow> Inl NullDeref
         | (Some info, _) \<Rightarrow>
             if \<not> ki_has_method (kr_method kreq) info then Inl NullDeref
             else rbind (run (kr_kname kreq) (kr_method kreq) d w) (\<lambda>(d, w).
               rbind (w_report_tables c (w\<lparr>w_kernels := AList.update (kr_kname kreq, kr_table kreq, kr_shard kreq) d (w_kernels w)\<rparr>))
                 (\<lambda>(infos, w). Inr (w_send (we_master c) MTYPE_KERNEL_DONE (KernelDone kreq infos) w)))))"

section \<open>The network thread of a worker\<close>

text \<open>A request with a callback is handled at once and answered.\<close>

definition w_callback :: "wenv \<Rightarrow> (nat \<Rightarrow> ('k, rat, 'd) StateTable \<Rightarrow> ('k, rat, 'd) StateTable) \<Rightarrow> (nat \<Rightarrow> int list) \<Rightarrow>
    msg \<Rightarrow> ('k, 'd, 'p) Worker \<Rightarrow> (msg \<times> ('k, 'd, 'p) Worker) result" where
  "w_callback c eff rs x w =
     (let empty = (\<lambda>r. rbind r (\<lambda>w. Inr (EmptyMessage, w))) in
      case x of
        ShardAssignmentRequest as \<Rightarrow> empty (w_HandleShardAssignment as w)
      | IteratorRequest table shard i cnt \<Rightarrow>
          rbind (w_HandleIteratorRequest c eff rs table shard i (nat cnt) w) (\<lambda>(resp, w). Inr (IteratorReply resp, w))
      | ClearTable i \<Rightarrow> empty (w_HandleClearRequest c i w)
      | SwapTable a b \<Rightarrow> empty (w_HandleSwapRequest a b w)
      | EnableTrigger tid i en \<Rightarrow> empty (w_HandleEnableTrigger tid i en w)
      | TerminationNotification _ \<Rightarrow> empty (w_HandleTermNotification c w)
      | _ \<Rightarrow> Inl Uninitialised)"

definition w_arrive :: "wenv \<Rightarrow> (nat \<Rightarrow> ('k, rat, 'd) StateTable \<Rightarrow> ('k, rat, 'd) StateTable) \<Rightarrow> (nat \<Rightarrow> int list) \<Rightarrow>
    msg packet \<Rightarrow> ('k, 'd, 'p) Worker \<Rightarrow> ('k, 'd, 'p) Worker result" where
  "w_arrive c eff rs p w = rbind (nt_arrive p (w_net w)) (\<lambda>(info, n).
     let w = w\<lparr>w_net := n\<rparr> in
     case info of None \<Rightarrow> Inr w
     | Some info \<Rightarrow>
         rbind (if rpc_tag info = MTYPE_WORKER_FLUSH then rbind (w_HandleFlush c w) (\<lambda>w. Inr (EmptyMessage, w))
                else if rpc_tag info = MTYPE_WORKER_APPLY then rbind (w_HandleApply c w) (\<lambda>w. Inr (EmptyMessage, w))
                else w_callback c eff rs (pkt_body p) w) (\<lambda>(resp, w).
           Inr (w\<lparr>w_net := nt_Send_req (rpc_new (rpc_source info) (rpc_tag info) resp \<lparr>is_reply = True\<rparr>) (w_net w)\<rparr>)))"

section \<open>The main loop\<close>

text \<open>
  \<^verbatim>\<open>KernelLoop\<close>, after the registration: a round looks for a kernel to run and otherwise at the network; the packets of
  the round arrive at its end. The loop is followed for as many rounds as are listed, or until it returns.
\<close>

definition w_round :: "wenv \<Rightarrow> (string \<Rightarrow> string \<Rightarrow> 'p DSMKernel \<Rightarrow> ('k, 'd, 'p) Worker \<Rightarrow> ('p DSMKernel \<times> ('k, 'd, 'p) Worker) result) \<Rightarrow>
    ('k, 'd, 'p) Worker \<Rightarrow> ('k, 'd, 'p) Worker result" where
  "w_round c run w = rbind (nt_TryRead (Some (we_master c)) MTYPE_RUN_KERNEL (w_net w)) (\<lambda>(r, n).
     let w = w\<lparr>w_net := n\<rparr> in
     case r of
       Some (RunKernel kreq, _) \<Rightarrow> w_run_kernel c run kreq w
     | Some _ \<Rightarrow> Inl Uninitialised
     | None \<Rightarrow> w_CheckNetwork c w)"

fun w_rounds :: "wenv \<Rightarrow> (string \<Rightarrow> string \<Rightarrow> 'p DSMKernel \<Rightarrow> ('k, 'd, 'p) Worker \<Rightarrow> ('p DSMKernel \<times> ('k, 'd, 'p) Worker) result) \<Rightarrow>
    (nat \<Rightarrow> ('k, rat, 'd) StateTable \<Rightarrow> ('k, rat, 'd) StateTable) \<Rightarrow> (nat \<Rightarrow> int list) \<Rightarrow>
    msg packet list list \<Rightarrow> ('k, 'd, 'p) Worker \<Rightarrow> ('k, 'd, 'p) Worker result" where
  "w_rounds c run eff rs [] w = Inr w"
| "w_rounds c run eff rs (b # bs) w = (if \<not> w_running w then Inr w
     else rbind (w_round c run w) (\<lambda>w. rbind (rfold (w_arrive c eff rs) b w) (w_rounds c run eff rs bs)))"

definition w_KernelLoop :: "wenv \<Rightarrow> (string \<Rightarrow> string \<Rightarrow> 'p DSMKernel \<Rightarrow> ('k, 'd, 'p) Worker \<Rightarrow> ('p DSMKernel \<times> ('k, 'd, 'p) Worker) result) \<Rightarrow>
    (nat \<Rightarrow> ('k, rat, 'd) StateTable \<Rightarrow> ('k, rat, 'd) StateTable) \<Rightarrow> (nat \<Rightarrow> int list) \<Rightarrow>
    msg packet list list \<Rightarrow> ('k, 'd, 'p) Worker \<Rightarrow> ('k, 'd, 'p) Worker result" where
  "w_KernelLoop c run eff rs bs w =
     w_rounds c run eff rs bs (w_send 0 MTYPE_REGISTER_WORKER (RegisterWorkerRequest (w_id w)) w)"

end
