(* ===== verification/Rolling.thy ===== *)
theory Rolling
  imports Worker
begin

text \<open>
  Checkpoints of a worker: a rolling checkpoint is finished when the markers of all peers have come, in
  whatever order, and not before.
\<close>

section \<open>Checkpoint operations leave the rest of the worker alone\<close>

definition idle_tables :: "('k, 'd, 'p) Worker \<Rightarrow> bool" where
  "idle_tables w \<longleftrightarrow> (\<forall>t \<in> snd ` set (w_tables w). gt_sent (wt_gt t) = [] \<and> gt_termchecks (wt_gt t) = [])"

definition cp_effect :: "('k, 'd, 'p) Worker \<Rightarrow> ('k, 'd, 'p) Worker \<Rightarrow> bool" where
  "cp_effect w w' \<longleftrightarrow> (\<exists>ts fs. w' = w\<lparr>w_tables := ts, w_fs := fs\<rparr> \<and> map fst ts = w_table_ids w) \<and> idle_tables w'"

lemma cp_effect_refl: "idle_tables w \<Longrightarrow> cp_effect w w"
  unfolding cp_effect_def by (intro conjI exI [of _ "w_tables w"] exI [of _ "w_fs w"]) simp_all

lemma cp_effectI: "w' = w\<lparr>w_tables := ts, w_fs := fs\<rparr> \<Longrightarrow> map fst ts = w_table_ids w \<Longrightarrow> idle_tables w' \<Longrightarrow> cp_effect w w'"
  unfolding cp_effect_def by blast

lemma cp_effectE:
  assumes "cp_effect w w'"
  obtains ts fs where "w' = w\<lparr>w_tables := ts, w_fs := fs\<rparr>" and "map fst ts = w_table_ids w" and "idle_tables w'"
  using assms unfolding cp_effect_def by blast

lemma cp_effect_trans:
  assumes "cp_effect w w'" and "cp_effect w' w''"
  shows "cp_effect w w''"
proof -
  obtain ts fs where w': "w' = w\<lparr>w_tables := ts, w_fs := fs\<rparr>" "map fst ts = w_table_ids w" using cp_effectE [OF assms(1)] .
  obtain ts' fs' where "w'' = w'\<lparr>w_tables := ts', w_fs := fs'\<rparr>" "map fst ts' = w_table_ids w'" "idle_tables w''"
    using cp_effectE [OF assms(2)] .
  with w' show ?thesis by (intro cp_effectI [where ts = ts' and fs = fs']) simp_all
qed

lemma cp_effect_idle: "cp_effect w w' \<Longrightarrow> idle_tables w'"
  by (simp add: cp_effect_def)

lemma cp_effect_rfold:
  assumes "rfold f xs w = Inr w'" and "idle_tables w"
    and "\<And>x u u'. idle_tables u \<Longrightarrow> f x u = Inr u' \<Longrightarrow> cp_effect u u'"
  shows "cp_effect w w'"
  using assms(1,2)
proof (induction xs arbitrary: w)
  case Nil
  then show ?case by (simp add: cp_effect_refl)
next
  case (Cons x xs)
  then obtain u where u: "f x w = Inr u" "rfold f xs u = Inr w'" by (auto simp: rbind_Inr_iff)
  with Cons.IH [OF u(2)] assms(3) [OF Cons.prems(2) u(1)] show ?case
    using cp_effect_trans cp_effect_idle by blast
qed

lemma tr_update_snd: "snd ` set (tr_update i t ts) \<subseteq> insert t (snd ` set ts)"
  by (auto simp: tr_update_def split: if_splits)

lemma w_put_table_idle:
  assumes "idle_tables w" and "gt_sent (wt_gt t) = []" "gt_termchecks (wt_gt t) = []"
  shows "cp_effect w (w_put_table c i t w) \<and> w_fs (w_put_table c i t w) = w_fs w"
proof -
  let ?w = "w\<lparr>w_tables := tr_update i (t\<lparr>wt_gt := (wt_gt t)\<lparr>gt_sent := [], gt_termchecks := []\<rparr>\<rparr>) (w_tables w)\<rparr>"
  have e: "w_put_table c i t w = ?w" using assms(2,3) by (simp add: w_put_table_def Let_def)
  have "idle_tables ?w"
    using assms tr_update_snd [of i "t\<lparr>wt_gt := (wt_gt t)\<lparr>gt_sent := [], gt_termchecks := []\<rparr>\<rparr>" "w_tables w"]
    by (fastforce simp: idle_tables_def)
  then show ?thesis unfolding e cp_effect_def
    by (intro conjI exI [of _ "w_tables ?w"] exI [of _ "w_fs w"]) simp_all
qed

lemma tr_table_Some: "tr_table i ts = Inr t \<Longrightarrow> t \<in> snd ` set ts"
  by (auto simp: tr_table_def check_def rbind_Inr_iff split: if_splits dest!: map_of_SomeD) force

lemma w_on_checkpoint_effect:
  assumes "idle_tables w" and "w_on_checkpoint c i f w = Inr w'"
    and "\<And>cd e g ds fs s. f cd e (g, ds, fs) = Inr s \<Longrightarrow> fst s = g"
  shows "cp_effect w w'"
proof -
  obtain t g ds fs where t: "tr_table i (w_tables w) = Inr t" "f (wt_codec t) (w_env w t) (wt_gt t, wt_delta t, w_fs w) = Inr (g, ds, fs)"
      "w' = (w_put_table c i (t\<lparr>wt_gt := g, wt_delta := ds\<rparr>) w)\<lparr>w_fs := fs\<rparr>"
    using assms(2) by (auto simp: w_on_checkpoint_def rbind_Inr_iff)
  have "g = wt_gt t" using assms(3) [OF t(2)] by simp
  moreover have "gt_sent (wt_gt t) = []" "gt_termchecks (wt_gt t) = []"
    using tr_table_Some [OF t(1)] assms(1) by (auto simp: idle_tables_def)
  ultimately have "cp_effect w (w_put_table c i (t\<lparr>wt_gt := g, wt_delta := ds\<rparr>) w)"
    using w_put_table_idle [OF assms(1), of "t\<lparr>wt_gt := g, wt_delta := ds\<rparr>" c i] by simp
  then obtain ts fs' where "w_put_table c i (t\<lparr>wt_gt := g, wt_delta := ds\<rparr>) w = w\<lparr>w_tables := ts, w_fs := fs'\<rparr>"
      "map fst ts = w_table_ids w" "idle_tables (w\<lparr>w_tables := ts, w_fs := fs'\<rparr>)"
    by (elim cp_effectE) simp
  then show ?thesis unfolding t(3) by (intro cp_effectI [where ts = ts and fs = fs]) (simp_all add: idle_tables_def)
qed

lemma on_local_gt:
  assumes "on_local e act other s = Inr s'"
    and "\<And>i s s'. act i s = Inr s' \<Longrightarrow> fst s' = fst s" "\<And>i s s'. other i s = Inr s' \<Longrightarrow> fst s' = fst s"
  shows "fst s' = fst s"
  using assms(1) unfolding on_local_def
  by (rule rfold_invariant [where I = "\<lambda>u. fst u = fst s"]) (auto simp: rbind_Inr_iff dest: assms(2,3) split: if_splits)

lemma start_checkpoint_gt: "gt_start_checkpoint z cd e f (g, ds, fs) = Inr s \<Longrightarrow> fst s = g"
  unfolding gt_start_checkpoint_def by (drule on_local_gt) (auto simp: rbind_Inr_iff)

lemma finish_checkpoint_gt: "gt_finish_checkpoint z e (g, ds, fs) = Inr s \<Longrightarrow> fst s = g"
  unfolding gt_finish_checkpoint_def by (drule on_local_gt) (auto simp: rbind_Inr_iff)

section \<open>Start and finish\<close>

definition marker_sends :: "int \<Rightarrow> int \<Rightarrow> nat \<Rightarrow> msg RPCRequest list" where
  "marker_sends me epoch n = map (\<lambda>i. rpc_new (int i + 1) MTYPE_PUT_REQUEST (EpochMarker me epoch) header_new) [0..<n]"

lemma w_sends_markers:
  "\<exists>n'. fold (\<lambda>i. w_send (int i + 1) MTYPE_PUT_REQUEST x) is w = w\<lparr>w_net := n'\<rparr> \<and>
     nt_pending_sends n' = nt_pending_sends (w_net w) @ map (\<lambda>i. rpc_new (int i + 1) MTYPE_PUT_REQUEST x header_new) is"
proof (induction "is" arbitrary: w)
  case Nil
  then show ?case by (intro exI [of _ "w_net w"]) simp
next
  case (Cons i "is")
  from Cons [of "w_send (int i + 1) MTYPE_PUT_REQUEST x w"] show ?case
    by (auto simp: w_send_def nt_Send_def nt_Send_req_def)
qed

lemma w_StartCheckpoint_effect:
  assumes "w_StartCheckpoint c ep CP_ROLLING w = Inr w1" and "w_epoch w < ep" and "idle_tables w"
  shows "w_epoch w1 = ep \<and> w_peers w1 = w_peers w \<and> w_active_checkpoint w1 = CP_ROLLING \<and> idle_tables w1 \<and>
    nt_pending_sends (w_net w1) = nt_pending_sends (w_net w) @ marker_sends (w_id w) ep (length (w_peers w))"
proof -
  let ?w = "w\<lparr>w_epoch := ep\<rparr>"
  let ?step = "\<lambda>i w. if i \<in> set (w_checkpoint_tables w)
      then w_on_checkpoint c i (\<lambda>cd e. gt_start_checkpoint (we_lzo c) cd e (checkpoint_file (we_write_dir c) ep i)) w else Inr w"
  obtain u where u: "rfold ?step (w_table_ids w) ?w = Inr u"
      "w1 = (let w = u\<lparr>w_active_checkpoint := CP_ROLLING\<rparr> in
        fold (\<lambda>i. w_send (int i + 1) MTYPE_PUT_REQUEST (EpochMarker (w_id w) ep)) [0..<length (w_peers w)] w)"
    using assms(1,2) by (auto simp: w_StartCheckpoint_def Let_def rbind_Inr_iff)
  have "cp_effect ?w u"
  proof (rule cp_effect_rfold [OF u(1)])
    show "idle_tables ?w" using assms(3) by (simp add: idle_tables_def)
    show "cp_effect v v'" if "idle_tables v" "?step i v = Inr v'" for i v v'
      using that by (auto split: if_splits intro: cp_effect_refl w_on_checkpoint_effect start_checkpoint_gt)
  qed
  then obtain ts fs where e: "u = ?w\<lparr>w_tables := ts, w_fs := fs\<rparr>" "idle_tables u" by (auto simp: cp_effect_def)
  obtain n' where "w1 = u\<lparr>w_active_checkpoint := CP_ROLLING, w_net := n'\<rparr>"
      "nt_pending_sends n' = nt_pending_sends (w_net w) @ marker_sends (w_id w) ep (length (w_peers w))"
    using w_sends_markers [of "EpochMarker (w_id u) ep" "[0..<length (w_peers u)]" "u\<lparr>w_active_checkpoint := CP_ROLLING\<rparr>"] u(2) e(1)
    by (auto simp: Let_def marker_sends_def)
  with e show ?thesis by (simp add: idle_tables_def)
qed

lemma w_FinishCheckpoint_effect:
  assumes "w_FinishCheckpoint c w = Inr w'" and "idle_tables w"
  shows "w_epoch w' = w_epoch w \<and> w_peers w' = replicate (length (w_peers w)) (w_epoch w) \<and> w_active_checkpoint w' = CP_NONE \<and>
    nt_pending_sends (w_net w') = nt_pending_sends (w_net w) @ [rpc_new (we_master c) MTYPE_CHECKPOINT_DONE EmptyMessage header_new]"
proof -
  let ?w = "w\<lparr>w_active_checkpoint := CP_NONE, w_peers := map (\<lambda>_. w_epoch w) (w_peers w)\<rparr>"
  obtain u where u: "rfold (\<lambda>i. w_on_checkpoint c i (\<lambda>cd e. gt_finish_checkpoint (we_lzo c) e)) (w_table_ids w) ?w = Inr u"
      "w' = w_send (we_master c) MTYPE_CHECKPOINT_DONE EmptyMessage u"
    using assms(1) by (auto simp: w_FinishCheckpoint_def Let_def rbind_Inr_iff)
  have "cp_effect ?w u"
    by (rule cp_effect_rfold [OF u(1)])
      (use assms(2) in \<open>auto simp: idle_tables_def intro: w_on_checkpoint_effect finish_checkpoint_gt\<close>)
  then obtain ts fs where "u = ?w\<lparr>w_tables := ts, w_fs := fs\<rparr>" by (auto simp: cp_effect_def)
  then show ?thesis using u(2) by (simp add: w_send_def nt_Send_def nt_Send_req_def map_replicate_const)
qed

lemma w_FinishCheckpoint_peers:
  "length ps = length (w_peers w) \<Longrightarrow> w_FinishCheckpoint c (w\<lparr>w_peers := ps\<rparr>) = w_FinishCheckpoint c w"
  by (simp add: w_FinishCheckpoint_def map_replicate_const)

section \<open>Markers\<close>

text \<open>A worker \<open>v\<close> that is already in the epoch of the markers; the peers in \<open>D\<close> have reported.\<close>

lemma UpdateEpoch_started:
  assumes "w_epoch v = ep" and "length ps = length (w_peers v)" and "s < length ps"
  shows "w_UpdateEpoch c (int s) ep (v\<lparr>w_peers := ps\<rparr>) =
    (if \<forall>x \<in> set (ps[s := ep]). x = ep then w_FinishCheckpoint c v else Inr (v\<lparr>w_peers := ps[s := ep]\<rparr>))"
  using assms w_FinishCheckpoint_peers [of "ps[s := ep]" v c]
  by (simp add: w_UpdateEpoch_def vec_at_def list_all_iff Let_def del: if_split)

definition reported :: "nat set \<Rightarrow> int \<Rightarrow> int list \<Rightarrow> bool" where
  "reported D ep ps \<longleftrightarrow> (\<forall>i < length ps. ps ! i = ep \<longleftrightarrow> i \<in> D)"

lemma reported_update: "reported D ep ps \<Longrightarrow> s < length ps \<Longrightarrow> reported (insert s D) ep (ps[s := ep])"
  by (auto simp: reported_def nth_list_update)

lemma reported_all: "reported D ep ps \<Longrightarrow> (\<forall>x \<in> set ps. x = ep) \<longleftrightarrow> {..<length ps} \<subseteq> D"
  by (auto simp: reported_def set_conv_nth)

lemma markers_partial:
  assumes "w_epoch v = ep" and "length ps = length (w_peers v)" and "reported D ep ps"
    and "set srcs \<subseteq> {..<length ps}" and "\<not> {..<length ps} \<subseteq> D \<union> set srcs"
  shows "\<exists>ps'. rfold (\<lambda>s. w_UpdateEpoch c (int s) ep) srcs (v\<lparr>w_peers := ps\<rparr>) = Inr (v\<lparr>w_peers := ps'\<rparr>) \<and>
    length ps' = length ps \<and> reported (D \<union> set srcs) ep ps'"
  using assms(2-)
proof (induction srcs arbitrary: D ps)
  case (Cons s srcs)
  have s: "s < length ps" using Cons.prems(3) by simp
  note r = reported_update [OF Cons.prems(2) s]
  have "\<not> (\<forall>x \<in> set (ps[s := ep]). x = ep)" using reported_all [OF r] Cons.prems(4) by auto
  then have step: "w_UpdateEpoch c (int s) ep (v\<lparr>w_peers := ps\<rparr>) = Inr (v\<lparr>w_peers := ps[s := ep]\<rparr>)"
    unfolding UpdateEpoch_started [OF assms(1) Cons.prems(1) s, of c] by (rule if_not_P)
  from Cons.IH [of "ps[s := ep]" "insert s D"] Cons.prems r show ?case by (simp add: step)
qed auto

lemma markers_complete:
  assumes "w_epoch v = ep" and "length ps = length (w_peers v)" and "reported D ep ps"
    and "distinct srcs" and "srcs \<noteq> []" and "D \<inter> set srcs = {}" and "D \<union> set srcs = {..<length ps}"
  shows "rfold (\<lambda>s. w_UpdateEpoch c (int s) ep) srcs (v\<lparr>w_peers := ps\<rparr>) = w_FinishCheckpoint c v"
proof -
  obtain xs s where srcs: "srcs = xs @ [s]" using assms(5) by (cases srcs rule: rev_cases) auto
  have s: "s < length ps" "s \<notin> D \<union> set xs" using assms(4,6,7) srcs by auto
  then have "\<not> {..<length ps} \<subseteq> D \<union> set xs" by blast
  moreover have "set xs \<subseteq> {..<length ps}" using assms(7) srcs by auto
  ultimately obtain ps' where ps': "rfold (\<lambda>s. w_UpdateEpoch c (int s) ep) xs (v\<lparr>w_peers := ps\<rparr>) = Inr (v\<lparr>w_peers := ps'\<rparr>)"
      "length ps' = length ps" "reported (D \<union> set xs) ep ps'"
    using markers_partial [OF assms(1-3)] by blast
  have "\<forall>x \<in> set (ps'[s := ep]). x = ep"
    using reported_all [OF reported_update [OF ps'(3)], of s] s ps'(2) assms(7) srcs by auto
  then have "w_UpdateEpoch c (int s) ep (v\<lparr>w_peers := ps'\<rparr>) = w_FinishCheckpoint c v"
    using UpdateEpoch_started [OF assms(1), of ps' s c] ps'(2) s(1) assms(2) by simp
  then show ?thesis using ps'(1) by (cases "w_FinishCheckpoint c v") (simp_all add: srcs rfold_append)
qed

text \<open>The first marker starts the checkpoint.\<close>

lemma UpdateEpoch_first:
  assumes "w_StartCheckpoint c ep CP_ROLLING (w\<lparr>w_checkpoint_tables := w_table_ids w\<rparr>) = Inr w1" and "w_epoch w < ep"
    and "w_epoch w1 = ep"
  shows "w_UpdateEpoch c s ep w = w_UpdateEpoch c s ep w1"
  using assms by (simp add: w_UpdateEpoch_def)

lemma markers_first:
  assumes "w_StartCheckpoint c ep CP_ROLLING (w\<lparr>w_checkpoint_tables := w_table_ids w\<rparr>) = Inr w1" and "w_epoch w < ep"
    and "w_epoch w1 = ep" and "srcs \<noteq> []"
  shows "rfold (\<lambda>s. w_UpdateEpoch c (int s) ep) srcs w = rfold (\<lambda>s. w_UpdateEpoch c (int s) ep) srcs (w1\<lparr>w_peers := w_peers w1\<rparr>)"
  using assms(4) UpdateEpoch_first [OF assms(1-3)] by (cases srcs) simp_all

lemma reported_none: "(\<forall>x \<in> set ps. x \<noteq> ep) \<Longrightarrow> reported {} ep ps"
  by (simp add: reported_def)

lemma proper_prefix_misses:
  assumes "distinct srcs" and "k < length srcs"
  shows "\<not> set srcs \<subseteq> set (take k srcs)"
proof
  assume "set srcs \<subseteq> set (take k srcs)"
  then have "card (set srcs) \<le> card (set (take k srcs))" by (intro card_mono) auto
  with assms show False by (simp add: distinct_card)
qed

text \<open>
  C15: a rolling checkpoint of a worker is complete exactly when the markers of all its peers are in, in whatever
  order they come. The first marker of a newer epoch starts it (all tables are checkpointed and every peer is sent a
  marker); after any proper prefix of the markers the worker is still as it was after the start, apart from
  the epochs of the peers, and has reported nothing; the last marker finishes it, and then the worker has sent one marker
  to every peer and a single \<^verbatim>\<open>MTYPE_CHECKPOINT_DONE\<close> to the master.
\<close>

theorem rolling_checkpoint:
  assumes "w_epoch w < ep" and "\<forall>x \<in> set (w_peers w). x \<noteq> ep" and "idle_tables w"
    and "distinct srcs" and "set srcs = {..<length (w_peers w)}" and "srcs \<noteq> []"
    and "w_StartCheckpoint c ep CP_ROLLING (w\<lparr>w_checkpoint_tables := w_table_ids w\<rparr>) = Inr w1"
    and "w_FinishCheckpoint c w1 = Inr w2"
  shows "rfold (\<lambda>s. w_UpdateEpoch c (int s) ep) srcs w = Inr w2 \<and>
    (\<forall>k. 0 < k \<and> k < length srcs \<longrightarrow>
       (\<exists>ps. rfold (\<lambda>s. w_UpdateEpoch c (int s) ep) (take k srcs) w = Inr (w1\<lparr>w_peers := ps\<rparr>) \<and>
             (\<forall>i < length ps. ps ! i = ep \<longleftrightarrow> i \<in> set (take k srcs)))) \<and>
    w_epoch w2 = ep \<and> w_active_checkpoint w2 = CP_NONE \<and> w_peers w2 = replicate (length (w_peers w)) ep \<and>
    nt_pending_sends (w_net w2) = nt_pending_sends (w_net w) @
      map (\<lambda>i. rpc_new (int i + 1) MTYPE_PUT_REQUEST (EpochMarker (w_id w) ep) header_new) [0..<length (w_peers w)] @
      [rpc_new (we_master c) MTYPE_CHECKPOINT_DONE EmptyMessage header_new]"
proof (intro conjI allI impI)
  have "idle_tables (w\<lparr>w_checkpoint_tables := w_table_ids w\<rparr>)" using assms(3) by (simp add: idle_tables_def)
  then have started: "w_epoch w1 = ep" "w_peers w1 = w_peers w" "idle_tables w1"
      "nt_pending_sends (w_net w1) = nt_pending_sends (w_net w) @ marker_sends (w_id w) ep (length (w_peers w))"
    using w_StartCheckpoint_effect [OF assms(7)] assms(1) by simp_all
  note first = markers_first [OF assms(7,1) started(1)] and none = reported_none [OF assms(2)]
  show "rfold (\<lambda>s. w_UpdateEpoch c (int s) ep) srcs w = Inr w2"
    using markers_complete [OF started(1), of "w_peers w" "{}" srcs c] first [OF assms(6)] none assms(4-8) started(2) by simp
  show "\<exists>ps. rfold (\<lambda>s. w_UpdateEpoch c (int s) ep) (take k srcs) w = Inr (w1\<lparr>w_peers := ps\<rparr>) \<and>
      (\<forall>i < length ps. ps ! i = ep \<longleftrightarrow> i \<in> set (take k srcs))" if k: "0 < k \<and> k < length srcs" for k
  proof -
    have "set (take k srcs) \<subseteq> {..<length (w_peers w)}" using assms(5) set_take_subset [of k srcs] by simp
    moreover have "\<not> {..<length (w_peers w)} \<subseteq> set (take k srcs)" using proper_prefix_misses [OF assms(4)] assms(5) k by simp
    ultimately obtain ps where "rfold (\<lambda>s. w_UpdateEpoch c (int s) ep) (take k srcs) (w1\<lparr>w_peers := w_peers w1\<rparr>) = Inr (w1\<lparr>w_peers := ps\<rparr>)"
        "reported (set (take k srcs)) ep ps"
      using markers_partial [OF started(1) _ none, of "take k srcs" c] started(2) by auto
    then show ?thesis using first [of "take k srcs"] k assms(6) by (auto simp: reported_def)
  qed
  note fin = w_FinishCheckpoint_effect [OF assms(8) started(3)]
  show "w_epoch w2 = ep" "w_active_checkpoint w2 = CP_NONE" "w_peers w2 = replicate (length (w_peers w)) ep"
    using fin started by simp_all
  show "nt_pending_sends (w_net w2) = nt_pending_sends (w_net w) @
      map (\<lambda>i. rpc_new (int i + 1) MTYPE_PUT_REQUEST (EpochMarker (w_id w) ep) header_new) [0..<length (w_peers w)] @
      [rpc_new (we_master c) MTYPE_CHECKPOINT_DONE EmptyMessage header_new]"
    using fin started(4) by (simp add: marker_sends_def)
qed

lemma mkdir_bits_granted: "\<exists>ds. mkdir_bits (\<lambda>_. True) bs p = Inr ds"
proof (induction bs arbitrary: p)
  case (Cons b bs)
  from Cons.IH [of p] Cons.IH [of "p @ ''/'' @ sp_strip b"] show ?case by (auto simp: Let_def check_def)
qed simp

lemma File_Mkdirs_granted: "\<exists>ds. File_Mkdirs cwd (\<lambda>_. True) path = Inr ds"
  unfolding File_Mkdirs_def Let_def by (rule mkdir_bits_granted)

text \<open>Worker 1 of two, with a table of one shard that worker 0 owns.\<close>

definition ex_rolling :: "(nat, unit, unit) Worker" where
  "ex_rolling = \<lparr>w_id = 1, w_epoch = 0, w_running = True, w_active_checkpoint = CP_NONE, w_checkpoint_tables = [],
     w_peers = [0, 0], w_net = nt_new 2 3 [], w_dirty_tables = [], w_iterator_id = 0, w_iterators = Map.empty,
     w_tables = [(0, \<lparr>wt_env = ex_cp_env, wt_gt = ex_state_shard, wt_delta = [None], wt_triggers = [], wt_codec = ex_codec\<rparr>)],
     w_kernel_reg = [], w_kernels = [], w_fs = fs_new (\<lambda>_. True), w_termcheck_last = 0\<rparr>"

definition ex_wenv :: wenv where
  "ex_wenv = \<lparr>we_master = 0, we_write_dir = ''/cp'', we_read_dir = ''/cp'', we_lzo = ex_lzo, we_cwd = ''/'', we_mkdir = (\<lambda>_. True),
     we_fins = [], we_snapshot_cycles = 1\<rparr>"

lemmas ex_rolling_defs = ex_rolling_def ex_wenv_def ex_cp_env_def ex_state_shard_def w_on_checkpoint_def tr_table_def check_def
  gt_start_checkpoint_def gt_finish_checkpoint_def on_local_def gt_is_local_shard_def gt_owner_def vec_at_def w_env_def w_put_table_def tr_update_def Let_def

lemma ex_rolling_starts:
  "\<exists>w1. w_StartCheckpoint ex_wenv 1 CP_ROLLING (ex_rolling\<lparr>w_checkpoint_tables := w_table_ids ex_rolling\<rparr>) = Inr w1 \<and>
     (\<exists>w2. w_FinishCheckpoint ex_wenv w1 = Inr w2)"
proof -
  obtain ds where "File_Mkdirs ''/'' (\<lambda>_. True) (epoch_dir ''/cp'' 1) = Inr ds" using File_Mkdirs_granted by blast
  then show ?thesis
    by (simp add: w_StartCheckpoint_def w_FinishCheckpoint_def ex_rolling_defs w_send_def nt_Send_def nt_Send_req_def)
qed

theorem rolling_checkpoint_witness:
  "\<exists>w2. rfold (\<lambda>s. w_UpdateEpoch ex_wenv (int s) 1) [1, 0] ex_rolling = Inr w2 \<and> w_peers w2 = [1, 1]"
proof -
  obtain w1 w2 where "w_StartCheckpoint ex_wenv 1 CP_ROLLING (ex_rolling\<lparr>w_checkpoint_tables := w_table_ids ex_rolling\<rparr>) = Inr w1"
      "w_FinishCheckpoint ex_wenv w1 = Inr w2"
    using ex_rolling_starts by blast
  then show ?thesis
    using rolling_checkpoint [of ex_rolling 1 "[1, 0]" ex_wenv w1 w2]
    by (simp add: ex_rolling_def idle_tables_def ex_state_shard_def lessThan_Suc numeral_2_eq_2)
qed

end
