(* ===== verification/Tasks.thy ===== *)
theory Tasks
  imports Protocol CppString
begin

text \<open>
  The bookkeeping classes of \<^verbatim>\<open>src/master/master.cc\<close>: tasks and the master's view of a worker.
  \<^verbatim>\<open>std::map<Taskid, TaskState*>\<close> is an ordered association list, \<^verbatim>\<open>std::set<Taskid>\<close> an ordered list. A
  task belongs to the map of one worker at a time, so the pointer is replaced by the task itself.
  The clock is an argument.
\<close>

section \<open>Tasks\<close>

datatype Taskid = Taskid (tid_table: int) (tid_shard: int)

definition taskid_less :: "Taskid \<Rightarrow> Taskid \<Rightarrow> bool" where
  "taskid_less a b \<longleftrightarrow> tid_table a < tid_table b \<or> (tid_table a = tid_table b \<and> tid_shard a < tid_shard b)"

instantiation Taskid :: linorder
begin

definition less_Taskid_def: "(a :: Taskid) < b \<longleftrightarrow> taskid_less a b"

definition less_eq_Taskid_def: "(a :: Taskid) \<le> b \<longleftrightarrow> \<not> taskid_less b a"

instance
proof
  fix a b c :: Taskid
  show "(a < b) = (a \<le> b \<and> \<not> b \<le> a)" by (auto simp: less_Taskid_def less_eq_Taskid_def taskid_less_def)
  show "a \<le> a" by (simp add: less_eq_Taskid_def taskid_less_def)
  show "a \<le> b \<Longrightarrow> b \<le> c \<Longrightarrow> a \<le> c" by (auto simp: less_eq_Taskid_def taskid_less_def)
  show "a \<le> b \<Longrightarrow> b \<le> a \<Longrightarrow> a = b" by (cases a; cases b) (auto simp: less_eq_Taskid_def taskid_less_def)
  show "a \<le> b \<or> b \<le> a" by (auto simp: less_eq_Taskid_def taskid_less_def)
qed

end

datatype Status = PENDING | ACTIVE | FINISHED

record TaskState =
  ts_id :: Taskid
  ts_status :: Status
  ts_size :: int
  ts_stolen :: bool

text \<open>The \<^verbatim>\<open>int64_t\<close> size is stored in an \<^verbatim>\<open>int\<close>.\<close>

definition task_new :: "Taskid \<Rightarrow> int \<Rightarrow> TaskState" where
  "task_new i sz = \<lparr>ts_id = i, ts_status = PENDING, ts_size = to_int32 sz, ts_stolen = False\<rparr>"

definition IdCompare :: "TaskState \<Rightarrow> TaskState \<Rightarrow> bool" where
  "IdCompare a b \<longleftrightarrow> ts_id a < ts_id b"

definition WeightCompare :: "TaskState \<Rightarrow> TaskState \<Rightarrow> bool" where
  "WeightCompare a b \<longleftrightarrow> (ts_stolen a \<and> \<not> ts_stolen b) \<or> ts_size a < ts_size b"

text \<open>\<^verbatim>\<open>std::max_element\<close>: the first element that no later one exceeds, as the library's loop finds it.\<close>

fun max_from :: "('a \<Rightarrow> 'a \<Rightarrow> bool) \<Rightarrow> 'a \<Rightarrow> 'a list \<Rightarrow> 'a" where
  "max_from cmp best [] = best"
| "max_from cmp best (x # xs) = max_from cmp (if cmp best x then x else best) xs"

definition max_element :: "('a \<Rightarrow> 'a \<Rightarrow> bool) \<Rightarrow> 'a list \<Rightarrow> 'a option" where
  "max_element cmp xs = (case xs of [] \<Rightarrow> None | x # ys \<Rightarrow> Some (max_from cmp x ys))"

section \<open>The state of a worker\<close>

record WorkerState =
  ws_work :: "(Taskid \<times> TaskState) list"
  ws_shards :: "Taskid list"
  ws_last_ping_time :: rat
  ws_id :: int
  ws_last_task_start :: rat
  ws_total_runtime :: rat
  ws_checkpointing :: bool
  ws_termchecking :: bool
  ws_current :: rat
  ws_updates :: int

definition worker_new :: "rat \<Rightarrow> int \<Rightarrow> WorkerState" where
  "worker_new now w_id = \<lparr>ws_work = [], ws_shards = [], ws_last_ping_time = now, ws_id = w_id,
     ws_last_task_start = 0, ws_total_runtime = 0, ws_checkpointing = False, ws_termchecking = False,
     ws_current = 0, ws_updates = 0\<rparr>"

text \<open>The three functions the macro \<^verbatim>\<open>COUNT_TASKS\<close> makes for a status.\<close>

definition ws_tasks :: "Status \<Rightarrow> WorkerState \<Rightarrow> TaskState list" where
  "ws_tasks st w = filter (\<lambda>t. ts_status t = st) (map snd (ws_work w))"

definition ws_num :: "Status \<Rightarrow> WorkerState \<Rightarrow> int" where
  "ws_num st w = int (length (filter (\<lambda>t. ts_status t = st) (map snd (ws_work w))))"

definition ws_size :: "Status \<Rightarrow> WorkerState \<Rightarrow> int" where
  "ws_size st w = sum_list (map ts_size (filter (\<lambda>t. ts_status t = st) (map snd (ws_work w))))"

definition PendingCompare :: "WorkerState \<Rightarrow> WorkerState \<Rightarrow> bool" where
  "PendingCompare a b \<longleftrightarrow> ws_num PENDING a < ws_num PENDING b"

definition ws_alive :: "int set \<Rightarrow> WorkerState \<Rightarrow> bool" where
  "ws_alive dead w \<longleftrightarrow> ws_id w \<notin> dead"

definition ws_is_assigned :: "Taskid \<Rightarrow> WorkerState \<Rightarrow> bool" where
  "ws_is_assigned i w \<longleftrightarrow> map_of (ws_work w) i \<noteq> None"

definition ws_ping :: "rat \<Rightarrow> WorkerState \<Rightarrow> WorkerState" where
  "ws_ping now w = w\<lparr>ws_last_ping_time := now\<rparr>"

definition ws_idle_time :: "rat \<Rightarrow> WorkerState \<Rightarrow> rat" where
  "ws_idle_time now w = (if ws_num FINISHED w \<noteq> int (length (ws_work w)) then 0 else now - ws_last_ping_time w)"

definition shard_insert :: "Taskid \<Rightarrow> Taskid list \<Rightarrow> Taskid list" where
  "shard_insert t xs = (if t \<in> set xs then xs else insort t xs)"

text \<open>\<^verbatim>\<open>shards.erase(shards.find(t))\<close>: undefined when \<open>t\<close> is not there.\<close>

definition shard_erase :: "Taskid \<Rightarrow> Taskid list \<Rightarrow> Taskid list result" where
  "shard_erase t xs = (if t \<in> set xs then Inr (remove1 t xs) else Inl OutOfBounds)"

text \<open>\<open>tabs\<close>: the registered tables with their numbers of shards.\<close>

definition ws_assign_shard :: "(int \<times> nat) list \<Rightarrow> int \<Rightarrow> bool \<Rightarrow> WorkerState \<Rightarrow> WorkerState result" where
  "ws_assign_shard tabs shard should_service w = rfold (\<lambda>(i, num_shards) w.
     if shard < int num_shards then
       let t = Taskid i shard in
       if should_service then Inr (w\<lparr>ws_shards := shard_insert t (ws_shards w)\<rparr>)
       else rbind (shard_erase t (ws_shards w)) (\<lambda>s. Inr (w\<lparr>ws_shards := s\<rparr>))
     else Inr w) tabs w"

definition ws_serves :: "Taskid \<Rightarrow> WorkerState \<Rightarrow> bool" where
  "ws_serves i w \<longleftrightarrow> i \<in> set (ws_shards w)"

definition ws_assign_task :: "TaskState \<Rightarrow> WorkerState \<Rightarrow> WorkerState" where
  "ws_assign_task s w = w\<lparr>ws_work := smap_put (ts_id s) s (ws_work w)\<rparr>"

text \<open>\<^verbatim>\<open>work.erase(work.find(id))\<close>: undefined when the task is not there.\<close>

definition ws_remove_task :: "TaskState \<Rightarrow> WorkerState \<Rightarrow> WorkerState result" where
  "ws_remove_task s w = (if map_of (ws_work w) (ts_id s) = None then Inl OutOfBounds
     else Inr (w\<lparr>ws_work := smap_erase (ts_id s) (ws_work w)\<rparr>))"

definition ws_clear_tasks :: "WorkerState \<Rightarrow> WorkerState" where
  "ws_clear_tasks w = w\<lparr>ws_work := []\<rparr>"

definition ws_set_finished :: "Taskid \<Rightarrow> WorkerState \<Rightarrow> WorkerState result" where
  "ws_set_finished i w = (case map_of (ws_work w) i of
       None \<Rightarrow> Inl CheckFailed
     | Some t \<Rightarrow> rbind (check (ts_status t = ACTIVE))
         (\<lambda>_. Inr (w\<lparr>ws_work := smap_put i (t\<lparr>ts_status := FINISHED\<rparr>) (ws_work w)\<rparr>)))"

definition ws_num_assigned :: "WorkerState \<Rightarrow> int" where
  "ws_num_assigned w = int (length (ws_work w))"

definition ws_total_size :: "WorkerState \<Rightarrow> int" where
  "ws_total_size w = sum_list (map (\<lambda>t. 1 + ts_size t) (map snd (ws_work w)))"

text \<open>
  \<^verbatim>\<open>get_next\<close>: the heaviest pending task becomes active. The request is filled in; its arguments are the
  caller's. \<open>None\<close> is the result \<^verbatim>\<open>false\<close>.
\<close>

definition ws_get_next :: "rat \<Rightarrow> string \<Rightarrow> string \<Rightarrow> int \<Rightarrow> (string \<times> string) list \<Rightarrow> WorkerState \<Rightarrow>
    KernelRequest option \<times> WorkerState" where
  "ws_get_next now kname method table args w = (case max_element WeightCompare (ws_tasks PENDING w) of
       None \<Rightarrow> (None, w)
     | Some best \<Rightarrow>
         (Some \<lparr>kr_kname = kname, kr_method = method, kr_table = table, kr_shard = tid_shard (ts_id best), kr_args = args\<rparr>,
          w\<lparr>ws_work := smap_put (ts_id best) (best\<lparr>ts_status := ACTIVE\<rparr>) (ws_work w), ws_last_task_start := now\<rparr>))"

section \<open>Laws\<close>

lemma max_from_in: "max_from cmp b xs \<in> set (b # xs)"
  by (induction cmp b xs rule: max_from.induct) (auto split: if_splits)

lemma max_element_in: "max_element cmp xs = Some x \<Longrightarrow> x \<in> set xs"
  by (cases xs) (use max_from_in [of cmp] in \<open>auto simp: max_element_def\<close>)

lemma max_element_None [simp]: "max_element cmp xs = None \<longleftrightarrow> xs = []"
  by (cases xs) (auto simp: max_element_def)

text \<open>For a comparison by a key, \<open>max_element\<close> is a maximum.\<close>

lemma max_from_key:
  assumes "\<And>x y. x \<in> set (b # xs) \<Longrightarrow> y \<in> set (b # xs) \<Longrightarrow> cmp x y \<longleftrightarrow> f x < (f y :: 'k::linorder)"
  shows "y \<in> set (b # xs) \<Longrightarrow> f y \<le> f (max_from cmp b xs)"
  using assms
proof (induction xs arbitrary: b y)
  case (Cons x xs)
  let ?b = "if cmp b x then x else b"
  have le: "f b \<le> f ?b" "f x \<le> f ?b" using Cons.prems(2) [of b x] by auto
  have *: "f z \<le> f (max_from cmp ?b xs)" if "z \<in> set (?b # xs)" for z
    by (rule Cons.IH [OF that]) (rule Cons.prems(2); auto split: if_splits)
  show ?case
  proof (cases "y \<in> set xs")
    case True
    then show ?thesis using * by simp
  next
    case False
    then have "y = b \<or> y = x" using Cons.prems(1) by auto
    with le * [of ?b] show ?thesis by (auto intro: order_trans)
  qed
qed simp

lemma max_element_key:
  assumes "max_element cmp xs = Some m" and "y \<in> set xs"
    and "\<And>x y. x \<in> set xs \<Longrightarrow> y \<in> set xs \<Longrightarrow> cmp x y \<longleftrightarrow> f x < (f y :: 'k::linorder)"
  shows "f y \<le> f m"
proof -
  obtain b ys where xs: "xs = b # ys" "m = max_from cmp b ys" using assms(1) by (auto simp: max_element_def split: list.splits)
  show ?thesis unfolding xs(2) by (rule max_from_key) (use assms xs in auto)
qed

text \<open>Every entry of the task map is filed under its own id.\<close>

definition ws_ok :: "WorkerState \<Rightarrow> bool" where
  "ws_ok w \<longleftrightarrow> smap_ok (ws_work w) \<and> (\<forall>(i, t) \<in> set (ws_work w). ts_id t = i) \<and> sorted (ws_shards w) \<and> distinct (ws_shards w)"

lemma ws_ok_lookup: "ws_ok w \<Longrightarrow> map_of (ws_work w) i = Some t \<Longrightarrow> ts_id t = i"
  by (auto simp: ws_ok_def dest: map_of_SomeD)

lemma ws_ok_new [simp]: "ws_ok (worker_new now i)" "ws_ok (ws_clear_tasks w) = (sorted (ws_shards w) \<and> distinct (ws_shards w))"
  by (simp_all add: ws_ok_def worker_new_def ws_clear_tasks_def)

lemma ws_ok_put:
  "ws_ok w \<Longrightarrow> ts_id t = i \<Longrightarrow> ws_ok (w\<lparr>ws_work := smap_put i t (ws_work w)\<rparr>)"
  by (auto simp: ws_ok_def smap_simps dest!: set_smap_put_sub)

lemma ws_ok_assign_task: "ws_ok w \<Longrightarrow> ws_ok (ws_assign_task t w)"
  by (simp add: ws_assign_task_def ws_ok_put)

lemma shard_insert_set [simp]: "set (shard_insert t xs) = insert t (set xs)"
  by (auto simp: shard_insert_def set_insort_key)

lemma shard_insert_ok: "sorted xs \<Longrightarrow> distinct xs \<Longrightarrow> sorted (shard_insert t xs) \<and> distinct (shard_insert t xs)"
  by (simp add: shard_insert_def sorted_insort distinct_insort)

lemma shard_erase_Inr:
  "shard_erase t xs = Inr ys \<longleftrightarrow> t \<in> set xs \<and> ys = remove1 t xs"
  by (auto simp: shard_erase_def)

text \<open>The effect of \<^verbatim>\<open>assign_shard\<close>: all tables that have the shard.\<close>

definition tids :: "(int \<times> nat) list \<Rightarrow> int \<Rightarrow> Taskid set" where
  "tids tabs shard = {Taskid i shard | i k. (i, k) \<in> set tabs \<and> shard < int k}"

lemma tids_simps [simp]: "tids [] shard = {}"
  "tids ((i, k) # tabs) shard = (if shard < int k then insert (Taskid i shard) (tids tabs shard) else tids tabs shard)"
  by (auto simp: tids_def)

lemma ws_assign_shard_on:
  "\<exists>s. ws_assign_shard tabs shard True w = Inr (w\<lparr>ws_shards := s\<rparr>) \<and> set s = set (ws_shards w) \<union> tids tabs shard \<and>
     (sorted (ws_shards w) \<and> distinct (ws_shards w) \<longrightarrow> sorted s \<and> distinct s)"
proof (induction tabs arbitrary: w)
  case Nil
  show ?case by (intro exI [of _ "ws_shards w"]) (simp add: ws_assign_shard_def)
next
  case (Cons p tabs)
  obtain i k where p: "p = (i, k)" by (cases p)
  define s where "s = (if shard < int k then shard_insert (Taskid i shard) (ws_shards w) else ws_shards w)"
  have "ws_assign_shard (p # tabs) shard True w = ws_assign_shard tabs shard True (w\<lparr>ws_shards := s\<rparr>)"
    by (simp add: ws_assign_shard_def p s_def)
  moreover obtain s' where "ws_assign_shard tabs shard True (w\<lparr>ws_shards := s\<rparr>) = Inr (w\<lparr>ws_shards := s\<rparr>\<lparr>ws_shards := s'\<rparr>)"
      "set s' = set s \<union> tids tabs shard" "sorted s \<and> distinct s \<longrightarrow> sorted s' \<and> distinct s'"
    using Cons.IH [of "w\<lparr>ws_shards := s\<rparr>"] by auto
  ultimately show ?case using shard_insert_ok [of "ws_shards w" "Taskid i shard"]
    by (intro exI [of _ s']) (auto simp: s_def p)
qed

lemma ws_assign_shard_off:
  assumes "distinct (map fst tabs)" and "tids tabs shard \<subseteq> set (ws_shards w)" and "sorted (ws_shards w)" "distinct (ws_shards w)"
  shows "\<exists>s. ws_assign_shard tabs shard False w = Inr (w\<lparr>ws_shards := s\<rparr>) \<and> set s = set (ws_shards w) - tids tabs shard \<and>
     sorted s \<and> distinct s"
  using assms
proof (induction tabs arbitrary: w)
  case Nil
  then show ?case by (intro exI [of _ "ws_shards w"]) (simp add: ws_assign_shard_def)
next
  case (Cons p tabs)
  obtain i k where p: "p = (i, k)" by (cases p)
  define s where "s = (if shard < int k then remove1 (Taskid i shard) (ws_shards w) else ws_shards w)"
  have "ws_assign_shard (p # tabs) shard False w = ws_assign_shard tabs shard False (w\<lparr>ws_shards := s\<rparr>)"
    using Cons.prems(2) by (auto simp: ws_assign_shard_def p s_def shard_erase_def)
  moreover have "Taskid i shard \<notin> tids tabs shard" using Cons.prems(1) by (force simp: tids_def p)
  then obtain s' where "ws_assign_shard tabs shard False (w\<lparr>ws_shards := s\<rparr>) = Inr (w\<lparr>ws_shards := s\<rparr>\<lparr>ws_shards := s'\<rparr>)"
      "set s' = set s - tids tabs shard" "sorted s'" "distinct s'"
    using Cons.IH [of "w\<lparr>ws_shards := s\<rparr>"] Cons.prems by (auto simp: s_def p sorted_remove1 split: if_splits)
  ultimately show ?case using Cons.prems(4)
    by (intro exI [of _ s']) (auto simp: s_def p set_remove1_eq split: if_splits)
qed

end
