(* ===== verification/Master.thy ===== *)
theory Master
  imports Tasks
begin

text \<open>
  \<^verbatim>\<open>src/master/master.h\<close> and \<^verbatim>\<open>master.cc\<close>: the master process. It assigns shards to workers, turns a run
  descriptor into tasks, dispatches them, reaps the finished ones, steals work, checks for
  termination, and drives checkpoints and barriers. The clock is a field that the barrier's input
  sets once per round (\<open>tick\<close>); messages come from the inbox of the network thread, one batch per
  round. Files written with \<^verbatim>\<open>RecordFile\<close> are appended to \<open>m_files\<close>. The profiler dump, the log files and
  the timers that only feed them are left out.
\<close>

section \<open>State\<close>

record 'p RunDescriptor =
  rd_kernel :: string
  rd_method :: string
  rd_table :: "int option"
  rd_barrier :: bool
  rd_checkpoint_type :: CheckpointType
  rd_checkpoint_interval :: rat
  rd_checkpoint_tables :: "int list"
  rd_shards :: "int list"
  rd_params :: "'p MarshalledMap"

definition rd_Init :: "string \<Rightarrow> string \<Rightarrow> int option \<Rightarrow> int list \<Rightarrow> 'p RunDescriptor" where
  "rd_Init kname method table cp_tables =
     \<lparr>rd_kernel = kname, rd_method = method, rd_table = table, rd_barrier = True,
      rd_checkpoint_type = (if cp_tables \<noteq> [] then CP_MASTER_CONTROLLED else CP_NONE),
      rd_checkpoint_interval = -1, rd_checkpoint_tables = cp_tables, rd_shards = [], rd_params = mm_new\<rparr>"

record MethodStats =
  ms_total_time :: rat
  ms_shard_time :: rat
  ms_calls :: int
  ms_shard_calls :: int

definition ms_zero :: MethodStats where
  "ms_zero = \<lparr>ms_total_time = 0, ms_shard_time = 0, ms_calls = 0, ms_shard_calls = 0\<rparr>"

text \<open>The file \<^verbatim>\<open>checkpoint.finished\<close> of an epoch.\<close>

record CheckpointFile =
  cf_epoch :: int
  cf_checkpoint_epoch :: int
  cf_kernel_epoch :: int
  cf_params :: "(string \<times> string) list"
  cf_vars :: "(string \<times> string) list"

record ('k, 'v, 'd, 'p) Master =
  m_num_workers :: nat
  m_checkpoint_epoch :: int
  m_kernel_epoch :: int
  m_cp_vars :: "'p MarshalledMap"
  m_current_run :: "'p RunDescriptor"
  m_current_run_start :: rat
  m_dispatched :: int
  m_finished :: int
  m_shards_assigned :: bool
  m_checkpointing :: bool
  m_terminated :: bool
  m_last_checkpoint :: rat
  m_last_termcheck :: rat
  m_iter :: int
  m_workers :: "WorkerState list"
  m_method_stats :: "string \<rightharpoonup> MethodStats"
  m_tables :: "('k, 'v, 'd) tables"
  m_kernels :: kernels
  m_termchecker :: Diff
  m_net :: "msg NetworkThread"
  m_now :: rat
  m_files :: "CheckpointFile list"

text \<open>Flags of the command line, the marshaller of parameters and the threshold of the checker.\<close>

record 'p menv =
  me_dead_workers :: "int set"
  me_work_stealing :: bool
  me_checkpoint :: bool
  me_restore :: bool
  me_termcheck_interval :: rat
  me_threshold :: rat
  me_marshal :: "'p \<Rightarrow> string"

definition ms_key :: "'p RunDescriptor \<Rightarrow> string" where
  "ms_key r = rd_kernel r @ '':'' @ rd_method r"

definition ms_get :: "('k, 'v, 'd, 'p) Master \<Rightarrow> string \<Rightarrow> MethodStats" where
  "ms_get m k = (case m_method_stats m k of None \<Rightarrow> ms_zero | Some s \<Rightarrow> s)"

definition m_upd_worker :: "nat \<Rightarrow> (WorkerState \<Rightarrow> WorkerState) \<Rightarrow> ('k, 'v, 'd, 'p) Master \<Rightarrow> ('k, 'v, 'd, 'p) Master" where
  "m_upd_worker i f m = m\<lparr>m_workers := (m_workers m)[i := f (m_workers m ! i)]\<rparr>"

definition m_send :: "int \<Rightarrow> int \<Rightarrow> msg \<Rightarrow> ('k, 'v, 'd, 'p) Master \<Rightarrow> ('k, 'v, 'd, 'p) Master" where
  "m_send dst method x m = m\<lparr>m_net := nt_Send dst method x (m_net m)\<rparr>"

definition m_SyncBroadcast :: "int \<Rightarrow> msg \<Rightarrow> ('k, 'v, 'd, 'p) Master \<Rightarrow> ('k, 'v, 'd, 'p) Master result" where
  "m_SyncBroadcast method x m = rbind (nt_SyncBroadcast method x (m_net m)) (\<lambda>n. Inr (m\<lparr>m_net := n\<rparr>))"

text \<open>The registered tables with their numbers of shards, and the size of a shard.\<close>

definition m_tabs :: "('k, 'v, 'd, 'p) Master \<Rightarrow> (int \<times> nat) list" where
  "m_tabs m = map (\<lambda>(i, e, g). (i, ge_num_shards e)) (m_tables m)"

definition m_shard_size :: "int \<Rightarrow> int \<Rightarrow> ('k, 'v, 'd, 'p) Master \<Rightarrow> int result" where
  "m_shard_size table shard m = rbind (tr_index table (m_tables m)) (\<lambda>(e, g). gt_shard_size e shard g)"

section \<open>Construction\<close>

text \<open>The constructor waits for a registration of every worker.\<close>

fun m_await_workers :: "nat \<Rightarrow> msg NetworkThread \<Rightarrow> msg NetworkThread result" where
  "m_await_workers 0 n = Inr n"
| "m_await_workers (Suc k) n = rbind (nt_Read None MTYPE_REGISTER_WORKER n) (\<lambda>(_, n). m_await_workers k n)"

definition master_new :: "nat \<Rightarrow> rat \<Rightarrow> ('k, 'v, 'd) tables \<Rightarrow> kernels \<Rightarrow> msg NetworkThread \<Rightarrow> ('k, 'v, 'd, 'p) Master result" where
  "master_new num_workers now tmap kreg net =
     rbind (check (nt_world_size net > 1)) (\<lambda>_.
     rbind (m_await_workers num_workers net) (\<lambda>net.
       Inr \<lparr>m_num_workers = num_workers, m_checkpoint_epoch = 0, m_kernel_epoch = 0, m_cp_vars = mm_new,
            m_current_run = rd_Init ''bogus'' ''bogus'' None [], m_current_run_start = 0,
            m_dispatched = 0, m_finished = 0, m_shards_assigned = False, m_checkpointing = False,
            m_terminated = False, m_last_checkpoint = now, m_last_termcheck = now, m_iter = 0,
            m_workers = map (\<lambda>i. worker_new now (int i)) [0..<num_workers],
            m_method_stats = Map.empty, m_tables = tmap, m_kernels = kreg, m_termchecker = diff_new,
            m_net = net, m_now = now, m_files = []\<rparr>))"

text \<open>The destructor tells the other ranks to shut down.\<close>

definition master_delete :: "('k, 'v, 'd, 'p) Master \<Rightarrow> ('k, 'v, 'd, 'p) Master" where
  "master_delete m = fold (\<lambda>i. m_send (int i) MTYPE_WORKER_SHUTDOWN EmptyMessage) [1..<nt_world_size (m_net m)] m"

section \<open>Checkpoints\<close>

text \<open>
  \<^verbatim>\<open>start_worker_checkpoint\<close> after its call of \<^verbatim>\<open>start_checkpoint\<close>. Inside \<^verbatim>\<open>start_checkpoint\<close> that call
  returns at once, because the flag is set by then.
\<close>

definition worker_checkpoint :: "nat \<Rightarrow> 'p RunDescriptor \<Rightarrow> ('k, 'v, 'd, 'p) Master \<Rightarrow> ('k, 'v, 'd, 'p) Master" where
  "worker_checkpoint i r m = (if ws_checkpointing (m_workers m ! i) then m
     else m_send (1 + int i) MTYPE_START_CHECKPOINT
            (CheckpointRequest (m_checkpoint_epoch m) (rd_checkpoint_type r) (rd_checkpoint_tables r))
            (m_upd_worker i (ws_checkpointing_update (\<lambda>_. True)) m))"

definition start_checkpoint :: "('k, 'v, 'd, 'p) Master \<Rightarrow> ('k, 'v, 'd, 'p) Master" where
  "start_checkpoint m = (if m_checkpointing m then m else
     let m = m\<lparr>m_checkpoint_epoch := m_checkpoint_epoch m + 1, m_checkpointing := True\<rparr>;
         r = m_current_run m;
         m = (if rd_checkpoint_type r = CP_NONE
              then m\<lparr>m_current_run := r\<lparr>rd_checkpoint_type := CP_MASTER_CONTROLLED\<rparr>\<rparr> else m)
     in fold (\<lambda>i m. worker_checkpoint i (m_current_run m) m) [0..<length (m_workers m)] m)"

text \<open>The descriptor argument is the master's own \<^verbatim>\<open>current_run_\<close> in every call, passed by reference.\<close>

definition start_worker_checkpoint :: "nat \<Rightarrow> ('k, 'v, 'd, 'p) Master \<Rightarrow> ('k, 'v, 'd, 'p) Master" where
  "start_worker_checkpoint i m = (let m = start_checkpoint m in worker_checkpoint i (m_current_run m) m)"

definition finish_worker_checkpoint :: "nat \<Rightarrow> 'p RunDescriptor \<Rightarrow> ('k, 'v, 'd, 'p) Master \<Rightarrow> ('k, 'v, 'd, 'p) Master result" where
  "finish_worker_checkpoint i r m = rbind (check (ws_checkpointing (m_workers m ! i))) (\<lambda>_.
     let m = (if rd_checkpoint_type r = CP_MASTER_CONTROLLED
              then m_send (1 + int i) MTYPE_FINISH_CHECKPOINT EmptyMessage m else m)
     in rbind (nt_Read (Some (1 + int i)) MTYPE_CHECKPOINT_DONE (m_net m)) (\<lambda>(_, n).
          Inr (m_upd_worker i (ws_checkpointing_update (\<lambda>_. False)) (m\<lparr>m_net := n\<rparr>))))"

definition finish_checkpoint :: "'p menv \<Rightarrow> ('k, 'v, 'd, 'p) Master \<Rightarrow> ('k, 'v, 'd, 'p) Master result" where
  "finish_checkpoint e m =
     rbind (rfold (\<lambda>i m. rbind (finish_worker_checkpoint i (m_current_run m) m) (\<lambda>m.
         rbind (check (\<not> ws_checkpointing (m_workers m ! i))) (\<lambda>_. Inr m))) [0..<length (m_workers m)] m) (\<lambda>m.
     Inr (m\<lparr>m_files := m_files m @ [\<lparr>cf_epoch = m_checkpoint_epoch m, cf_checkpoint_epoch = m_checkpoint_epoch m,
               cf_kernel_epoch = m_kernel_epoch m,
               cf_params = mm_ToMessage (me_marshal e) (rd_params (m_current_run m)),
               cf_vars = mm_ToMessage (me_marshal e) (m_cp_vars m)\<rparr>],
            m_checkpointing := False, m_last_checkpoint := m_now m\<rparr>))"

definition checkpoint :: "'p menv \<Rightarrow> ('k, 'v, 'd, 'p) Master \<Rightarrow> ('k, 'v, 'd, 'p) Master result" where
  "checkpoint e m = finish_checkpoint e (start_checkpoint m)"

section \<open>Termination\<close>

definition terminate_iteration :: "('k, 'v, 'd, 'p) Master \<Rightarrow> ('k, 'v, 'd, 'p) Master" where
  "terminate_iteration m =
     fold (\<lambda>i. m_send (1 + int i) MTYPE_TERMINATION (TerminationNotification 0)) [0..<length (m_workers m)] m"

text \<open>A report of a worker is stored; with several in the queue the last one stays.\<close>

definition ws_report :: "msg \<Rightarrow> WorkerState \<Rightarrow> WorkerState result" where
  "ws_report x w = (case x of
       TermcheckDelta _ delta upd \<Rightarrow> Inr (w\<lparr>ws_current := delta, ws_updates := upd, ws_termchecking := True\<rparr>)
     | _ \<Rightarrow> Inl Uninitialised)"

definition collect_report :: "nat \<Rightarrow> ('k, 'v, 'd, 'p) Master \<Rightarrow> ('k, 'v, 'd, 'p) Master result" where
  "collect_report i m = rbind (nt_read_all (1 + int i) MTYPE_TERMCHECK_DONE (m_net m)) (\<lambda>(ms, n).
     rbind (rfold ws_report ms (m_workers m ! i)) (\<lambda>w.
       Inr (m\<lparr>m_net := n, m_workers := (m_workers m)[i := w]\<rparr>)))"

definition reset_report :: "nat \<Rightarrow> ('k, 'v, 'd, 'p) Master \<Rightarrow> ('k, 'v, 'd, 'p) Master result" where
  "reset_report i m = (let m = m_upd_worker i (ws_termchecking_update (\<lambda>_. False)) m in
     rbind (nt_read_all (1 + int i) MTYPE_TERMCHECK_DONE (m_net m)) (\<lambda>(_, n). Inr (m\<lparr>m_net := n\<rparr>)))"

definition termcheck :: "'p menv \<Rightarrow> ('k, 'v, 'd, 'p) Master \<Rightarrow> (bool \<times> ('k, 'v, 'd, 'p) Master) result" where
  "termcheck e m = rbind (rfold collect_report [0..<length (m_workers m)] m) (\<lambda>m.
     let partials = map ws_current (m_workers m);
         received_num = length (filter ws_termchecking (m_workers m))
     in if received_num < length (m_workers m) then Inr (False, m)
        else rbind (tr_index 0 (m_tables m)) (\<lambda>_.
          let (bterm, d) = diff_terminate (me_threshold e) partials (m_termchecker m);
              m = m\<lparr>m_termchecker := d\<rparr>
          in if bterm then Inr (True, m)
             else rbind (rfold reset_report [0..<length (m_workers m)] m) (\<lambda>m. Inr (False, m))))"

section \<open>Assignment\<close>

definition worker_for_shard :: "int \<Rightarrow> int \<Rightarrow> ('k, 'v, 'd, 'p) Master \<Rightarrow> nat option" where
  "worker_for_shard table shard m = List.find (\<lambda>i. ws_serves (Taskid table shard) (m_workers m ! i)) [0..<length (m_workers m)]"

text \<open>The loop that looks for the live worker with the fewest shards.\<close>

fun best_worker :: "int set \<Rightarrow> WorkerState list \<Rightarrow> nat \<Rightarrow> (nat \<times> WorkerState) option \<Rightarrow> nat option" where
  "best_worker dead [] i best = map_option fst best"
| "best_worker dead (w # ws) i best = best_worker dead ws (Suc i)
     (if ws_alive dead w \<and> (case best of None \<Rightarrow> True | Some (_, b) \<Rightarrow> length (ws_shards w) < length (ws_shards b))
      then Some (i, w) else best)"

definition assign_worker :: "'p menv \<Rightarrow> int \<Rightarrow> int \<Rightarrow> ('k, 'v, 'd, 'p) Master \<Rightarrow> ('k, 'v, 'd, 'p) Master result" where
  "assign_worker e table shard m =
     rbind (m_shard_size table shard m) (\<lambda>work_size.
       let task = task_new (Taskid table shard) work_size in
       case worker_for_shard table shard m of
         Some i \<Rightarrow> Inr (m_upd_worker i (ws_assign_task task) m)
       | None \<Rightarrow> (case best_worker (me_dead_workers e) (m_workers m) 0 None of
           None \<Rightarrow> Inl CheckFailed
         | Some b \<Rightarrow> rbind (ws_assign_shard (m_tabs m) shard True (m_workers m ! b)) (\<lambda>w.
             Inr (m\<lparr>m_workers := (m_workers m)[b := ws_assign_task task w]\<rparr>))))"

definition table_assignments :: "WorkerState list \<Rightarrow> ShardAssignment list" where
  "table_assignments ws = concat (map (\<lambda>i. map (\<lambda>t. \<lparr>sa_table = tid_table t, sa_shard = tid_shard t, sa_new_worker = int i\<rparr>)
     (ws_shards (ws ! i))) [0..<length ws])"

definition send_table_assignments :: "('k, 'v, 'd, 'p) Master \<Rightarrow> ('k, 'v, 'd, 'p) Master result" where
  "send_table_assignments m =
     m_SyncBroadcast MTYPE_SHARD_ASSIGNMENT (ShardAssignmentRequest (table_assignments (m_workers m))) m"

definition assign_tables :: "'p menv \<Rightarrow> ('k, 'v, 'd, 'p) Master \<Rightarrow> ('k, 'v, 'd, 'p) Master result" where
  "assign_tables e m =
     rfold (\<lambda>(i, k). rfold (\<lambda>j. assign_worker e i (int j)) [0..<k]) (m_tabs m) (m\<lparr>m_shards_assigned := True\<rparr>)"

text \<open>The table of a descriptor; a null pointer is dereferenced.\<close>

definition rd_table_id :: "'p RunDescriptor \<Rightarrow> int result" where
  "rd_table_id r = (case rd_table r of None \<Rightarrow> Inl NullDeref | Some t \<Rightarrow> Inr t)"

definition assign_tasks :: "'p menv \<Rightarrow> 'p RunDescriptor \<Rightarrow> int list \<Rightarrow> ('k, 'v, 'd, 'p) Master \<Rightarrow> ('k, 'v, 'd, 'p) Master result" where
  "assign_tasks e r shards m =
     rfold (\<lambda>s m. rbind (rd_table_id r) (\<lambda>t. assign_worker e t s m)) shards
       (m\<lparr>m_workers := map ws_clear_tasks (m_workers m)\<rparr>)"

section \<open>Dispatch and collection\<close>

definition dispatch_one :: "'p menv \<Rightarrow> 'p RunDescriptor \<Rightarrow> nat \<Rightarrow> int \<times> ('k, 'v, 'd, 'p) Master \<Rightarrow>
    (int \<times> ('k, 'v, 'd, 'p) Master) result" where
  "dispatch_one e r i = (\<lambda>(num, m). let w = m_workers m ! i in
     if 0 < ws_num PENDING w \<and> ws_num ACTIVE w = 0 then
       rbind (rd_table_id r) (\<lambda>t.
         case ws_get_next (m_now m) (rd_kernel r) (rd_method r) t (mm_ToMessage (me_marshal e) (rd_params r)) w of
           (None, _) \<Rightarrow> Inl Uninitialised
         | (Some req, w') \<Rightarrow>
             Inr (num + 1, m_send (ws_id w + 1) MTYPE_RUN_KERNEL (RunKernel req) (m\<lparr>m_workers := (m_workers m)[i := w']\<rparr>)))
     else Inr (num, m))"

definition dispatch_work :: "'p menv \<Rightarrow> 'p RunDescriptor \<Rightarrow> ('k, 'v, 'd, 'p) Master \<Rightarrow> (int \<times> ('k, 'v, 'd, 'p) Master) result" where
  "dispatch_work e r m = rfold (dispatch_one e r) [0..<length (m_workers m)] (0, m)"

definition m_UpdatePartitions :: "ShardInfo \<Rightarrow> ('k, 'v, 'd) tables \<Rightarrow> ('k, 'v, 'd) tables result" where
  "m_UpdatePartitions si tmap = rbind (tr_index (si_table si) tmap) (\<lambda>(e, g).
     rbind (gt_UpdatePartitions (si_shard si) (si_owner si) (si_entries si) g) (\<lambda>g'.
       Inr (tr_update (si_table si) (e, g') tmap)))"

text \<open>The result is the index of the worker; \<open>None\<close> stands for \<open>-1\<close>.\<close>

definition reap_one_task :: "('k, 'v, 'd, 'p) Master \<Rightarrow> (nat option \<times> ('k, 'v, 'd, 'p) Master) result" where
  "reap_one_task m = rbind (nt_TryRead None MTYPE_KERNEL_DONE (m_net m)) (\<lambda>(r, n).
     let m = m\<lparr>m_net := n\<rparr> in
     case r of None \<Rightarrow> Inr (None, m)
     | Some (KernelDone req infos, src) \<Rightarrow>
         rbind (vec_at (m_workers m) (src - 1)) (\<lambda>_. let i = nat (src - 1) in
         rbind (rfold m_UpdatePartitions infos (m_tables m)) (\<lambda>tmap.
         rbind (ws_set_finished (Taskid (kr_table req) (kr_shard req)) (m_workers m ! i)) (\<lambda>w.
           let k = ms_key (m_current_run m); s = ms_get m k; spent = m_now m - ws_last_task_start w;
               w' = ws_ping (m_now m) (w\<lparr>ws_total_runtime := ws_total_runtime w + spent\<rparr>)
           in Inr (Some i, m\<lparr>m_tables := tmap, m_workers := (m_workers m)[i := w'],
                m_method_stats := (m_method_stats m)(k \<mapsto> s\<lparr>ms_shard_time := ms_shard_time s + spent,
                   ms_shard_calls := ms_shard_calls s + 1\<rparr>)\<rparr>))))
     | Some (_, src) \<Rightarrow> Inl Uninitialised)"

section \<open>Work stealing\<close>

text \<open>
  \<^verbatim>\<open>max(1.0, x / average_size)\<close> on doubles: with an average of zero the quotient is not a number or an
  infinity; \<open>None\<close> is plus infinity.
\<close>

definition steal_cost :: "rat \<Rightarrow> rat \<Rightarrow> rat option" where
  "steal_cost x average_size = (if average_size = 0 then if 0 < x then None else Some 1
     else Some (max 1 (x / average_size)))"

fun steal_eta :: "rat option list \<Rightarrow> rat option" where
  "steal_eta [] = Some 0"
| "steal_eta (c # cs) = (case (c, steal_eta cs) of (Some a, Some b) \<Rightarrow> Some (a + b) | _ \<Rightarrow> None)"

definition cost_le :: "rat option \<Rightarrow> rat option \<Rightarrow> bool" where
  "cost_le a b = (case (a, b) of (_, None) \<Rightarrow> True | (None, Some _) \<Rightarrow> False | (Some x, Some y) \<Rightarrow> x \<le> y)"

definition average_shard_size :: "int \<Rightarrow> ('k, 'v, 'd, 'p) Master \<Rightarrow> rat result" where
  "average_shard_size table m = rbind (tr_index table (m_tables m)) (\<lambda>(e, g).
     rbind (rfold (\<lambda>i s. rbind (gt_shard_size e (int i) g) (\<lambda>k. Inr (s + of_int k))) [0..<ge_num_shards e] 0) (\<lambda>s.
       Inr (if ge_num_shards e = 0 then 0 else s / of_nat (ge_num_shards e))))"

text \<open>The index of the worker with the most pending tasks, the first of several.\<close>

definition busiest :: "WorkerState list \<Rightarrow> nat option" where
  "busiest ws = max_element (\<lambda>i j. PendingCompare (ws ! i) (ws ! j)) [0..<length ws]"

definition move_task :: "nat \<Rightarrow> nat \<Rightarrow> TaskState \<Rightarrow> ('k, 'v, 'd, 'p) Master \<Rightarrow> ('k, 'v, 'd, 'p) Master result" where
  "move_task src dst task m = (let task' = task\<lparr>ts_stolen := True\<rparr>; shard = tid_shard (ts_id task) in
     rbind (ws_assign_shard (m_tabs m) shard True (m_workers m ! dst)) (\<lambda>d. let ws = (m_workers m)[dst := d] in
     rbind (ws_assign_shard (m_tabs m) shard False (ws ! src)) (\<lambda>s. let ws = ws[src := s] in
     rbind (ws_remove_task task' (ws ! src)) (\<lambda>s. let ws = ws[src := s] in
       Inr (m\<lparr>m_workers := ws[dst := ws_assign_task task' (ws ! dst)]\<rparr>)))))"

definition steal_work :: "'p menv \<Rightarrow> 'p RunDescriptor \<Rightarrow> nat \<Rightarrow> rat \<Rightarrow> ('k, 'v, 'd, 'p) Master \<Rightarrow>
    (bool \<times> ('k, 'v, 'd, 'p) Master) result" where
  "steal_work e r idle_worker avg_completion_time m =
     (if \<not> me_work_stealing e then Inr (False, m)
      else if \<not> ws_alive (me_dead_workers e) (m_workers m ! idle_worker) then Inr (False, m)
      else case busiest (m_workers m) of None \<Rightarrow> Inl OutOfBounds
      | Some src \<Rightarrow>
        if ws_num PENDING (m_workers m ! src) = 0 then Inr (False, m)
        else let pending = ws_tasks PENDING (m_workers m ! src) in
          (case max_element WeightCompare pending of None \<Rightarrow> Inl OutOfBounds
           | Some task \<Rightarrow>
             if ts_stolen task then Inr (False, m)
             else rbind (rd_table_id r) (\<lambda>t. rbind (average_shard_size t m) (\<lambda>average_size.
               let move_cost = steal_cost (2 * of_int (ts_size task) * avg_completion_time) average_size;
                   eta = steal_eta (map (\<lambda>p. steal_cost (of_int (ts_size p) * avg_completion_time) average_size) pending)
               in if cost_le eta move_cost then Inr (False, m)
                  else rbind (move_task src idle_worker task m) (\<lambda>m. Inr (True, m))))))"

section \<open>Barrier and run\<close>

text \<open>One round of the loop of \<^verbatim>\<open>barrier\<close>: the time, and whether the \<^verbatim>\<open>PERIODIC(0.1)\<close> block is due.\<close>

record tick =
  tk_now :: rat
  tk_periodic :: bool

definition maybe_checkpoint :: "'p menv \<Rightarrow> ('k, 'v, 'd, 'p) Master \<Rightarrow> ('k, 'v, 'd, 'p) Master result" where
  "maybe_checkpoint e m =
     (if rd_checkpoint_type (m_current_run m) = CP_ROLLING \<and>
         rd_checkpoint_interval (m_current_run m) < m_now m - m_last_checkpoint m
      then checkpoint e m else Inr m)"

definition maybe_termcheck :: "'p menv \<Rightarrow> ('k, 'v, 'd, 'p) Master \<Rightarrow> ('k, 'v, 'd, 'p) Master result" where
  "maybe_termcheck e m =
     (if \<not> m_terminated m \<and> me_termcheck_interval e < m_now m - m_last_termcheck m
      then rbind (termcheck e m) (\<lambda>(bterm, m). let m = m\<lparr>m_last_termcheck := m_now m\<rparr> in
        Inr (if bterm then (terminate_iteration m)\<lparr>m_terminated := True\<rparr> else m))
      else Inr m)"

definition periodic_worker :: "'p menv \<Rightarrow> rat \<Rightarrow> int \<Rightarrow> nat \<Rightarrow> bool \<times> ('k, 'v, 'd, 'p) Master \<Rightarrow>
    (bool \<times> ('k, 'v, 'd, 'p) Master) result" where
  "periodic_worker e avg calls i = (\<lambda>(need_update, m).
     rbind (if calls > 10 \<and> avg > 1 / 5 \<and> \<not> m_checkpointing m \<and> ws_idle_time (m_now m) (m_workers m ! i) > 1 / 2
       then rbind (vec_at (m_workers m) (ws_id (m_workers m ! i))) (\<lambda>_.
              rbind (steal_work e (m_current_run m) (nat (ws_id (m_workers m ! i))) avg m) (\<lambda>(b, m). Inr (need_update \<or> b, m)))
       else Inr (need_update, m)) (\<lambda>(need_update, m).
     let w = m_workers m ! i in
     if rd_checkpoint_type (m_current_run m) = CP_MASTER_CONTROLLED \<and>
        7 / 10 * of_nat (length (rd_shards (m_current_run m))) < (of_int (m_finished m) :: rat) \<and>
        ws_idle_time (m_now m) w > 0 \<and> \<not> ws_checkpointing w
     then rbind (vec_at (m_workers m) (ws_id w)) (\<lambda>_. Inr (need_update, start_worker_checkpoint (nat (ws_id w)) m))
     else Inr (need_update, m)))"

definition barrier_periodic :: "'p menv \<Rightarrow> ('k, 'v, 'd, 'p) Master \<Rightarrow> ('k, 'v, 'd, 'p) Master result" where
  "barrier_periodic e m = (let s = ms_get m (ms_key (m_current_run m));
       avg = ms_shard_time s / of_int (ms_shard_calls s) in
     rbind (rfold (periodic_worker e avg (ms_shard_calls s)) [0..<length (m_workers m)] (False, m))
       (\<lambda>(need_update, m). if need_update then send_table_assignments m else Inr m))"

definition barrier_round :: "'p menv \<Rightarrow> tick \<Rightarrow> ('k, 'v, 'd, 'p) Master \<Rightarrow> ('k, 'v, 'd, 'p) Master result" where
  "barrier_round e t m =
     rbind (nt_poll (m_net m)) (\<lambda>n.
     rbind (maybe_checkpoint e (m\<lparr>m_net := n, m_now := tk_now t\<rparr>)) (\<lambda>m.
     rbind (maybe_termcheck e m) (\<lambda>m.
     rbind (reap_one_task m) (\<lambda>(w, m).
       case w of None \<Rightarrow> Inr m
       | Some _ \<Rightarrow>
         let m = m\<lparr>m_finished := m_finished m + 1\<rparr> in
         rbind (if tk_periodic t then barrier_periodic e m else Inr m) (\<lambda>m.
         if m_dispatched m < int (length (rd_shards (m_current_run m)))
         then rbind (dispatch_work e (m_current_run m) m) (\<lambda>(k, m). Inr (m\<lparr>m_dispatched := m_dispatched m + k\<rparr>))
         else Inr m)))))"

fun barrier_loop :: "'p menv \<Rightarrow> tick list \<Rightarrow> ('k, 'v, 'd, 'p) Master \<Rightarrow> (tick list \<times> ('k, 'v, 'd, 'p) Master) result" where
  "barrier_loop e ts m = (if m_finished m < int (length (rd_shards (m_current_run m)))
     then (case ts of [] \<Rightarrow> Inl Diverges | t # ts' \<Rightarrow> rbind (barrier_round e t m) (barrier_loop e ts'))
     else Inr (ts, m))"

definition barrier :: "'p menv \<Rightarrow> tick list \<Rightarrow> ('k, 'v, 'd, 'p) Master \<Rightarrow> (tick list \<times> ('k, 'v, 'd, 'p) Master) result" where
  "barrier e ts m =
     rbind (barrier_loop e ts (m\<lparr>m_iter := m_iter m + 1\<rparr>)) (\<lambda>(ts, m).
     rbind (m_SyncBroadcast MTYPE_WORKER_FLUSH EmptyMessage m) (\<lambda>m.
     rbind (m_SyncBroadcast MTYPE_WORKER_APPLY EmptyMessage m) (\<lambda>m.
     rbind (if rd_checkpoint_type (m_current_run m) = CP_MASTER_CONTROLLED
       then finish_checkpoint e (if m_checkpointing m then m else start_checkpoint m) else Inr m) (\<lambda>m.
       let k = ms_key (m_current_run m); s = ms_get m k in
       Inr (ts, m\<lparr>m_method_stats := (m_method_stats m)(k \<mapsto>
         s\<lparr>ms_total_time := ms_total_time s + (m_now m - m_current_run_start m)\<rparr>)\<rparr>)))))"

definition cp_barrier :: "'p menv \<Rightarrow> tick list \<Rightarrow> ('k, 'v, 'd, 'p) Master \<Rightarrow> (tick list \<times> ('k, 'v, 'd, 'p) Master) result" where
  "cp_barrier e ts m = barrier e ts (m\<lparr>m_current_run := (m_current_run m)\<lparr>rd_checkpoint_type := CP_MASTER_CONTROLLED\<rparr>\<rparr>)"

definition m_enable_trigger :: "int \<Rightarrow> int \<Rightarrow> bool \<Rightarrow> ('k, 'v, 'd, 'p) Master \<Rightarrow> ('k, 'v, 'd, 'p) Master" where
  "m_enable_trigger triggerid table enable m =
     fold (\<lambda>i m. m_send (ws_id (m_workers m ! i) + 1) MTYPE_ENABLE_TRIGGER (EnableTrigger triggerid table enable) m)
       [0..<length (m_workers m)] m"

text \<open>\<^verbatim>\<open>set_helper(this)\<close> on every table: the master's id is \<open>-1\<close>.\<close>

definition m_set_helpers :: "('k, 'v, 'd, 'p) Master \<Rightarrow> ('k, 'v, 'd, 'p) Master" where
  "m_set_helpers m = m\<lparr>m_tables := map (\<lambda>(i, e, g). (i, e\<lparr>ge_helper_id := Some (-1)\<rparr>, g)) (m_tables m)\<rparr>"

definition run_prepare :: "'p menv \<Rightarrow> 'p RunDescriptor \<Rightarrow> ('k, 'v, 'd, 'p) Master \<Rightarrow> ('k, 'v, 'd, 'p) Master result" where
  "run_prepare e r m =
     (let r = (if \<not> me_checkpoint e \<and> rd_checkpoint_type r \<noteq> CP_NONE then r\<lparr>rd_checkpoint_type := CP_NONE\<rparr> else r);
          m = m_set_helpers m in
     rbind (check (int (length (rd_shards (m_current_run m))) = m_finished m)) (\<lambda>_.
     let m = m\<lparr>m_finished := 0, m_dispatched := 0\<rparr>;
         (k, kreg) = kr_kernel (rd_kernel r) (m_kernels m);
         m = m\<lparr>m_kernels := kreg\<rparr> in
     rbind (check (rd_table r \<noteq> None)) (\<lambda>_.
     rbind (check (k \<noteq> None)) (\<lambda>_.
     rbind (check (ki_has_method (rd_method r) (the k))) (\<lambda>_.
     let s = ms_get m (ms_key r);
         r = (if rd_checkpoint_tables r = [] then r\<lparr>rd_checkpoint_tables := map fst (m_tables m)\<rparr> else r) in
     Inr (m\<lparr>m_method_stats := (m_method_stats m)(ms_key r \<mapsto> s\<lparr>ms_calls := ms_calls s + 1\<rparr>),
            m_current_run := r, m_current_run_start := m_now m\<rparr>))))))"

definition run :: "'p menv \<Rightarrow> tick list \<Rightarrow> 'p RunDescriptor \<Rightarrow> ('k, 'v, 'd, 'p) Master \<Rightarrow>
    (tick list \<times> ('k, 'v, 'd, 'p) Master) result" where
  "run e ts r m =
     rbind (run_prepare e r m) (\<lambda>m.
     rbind (if m_shards_assigned m then Inr m
       else rbind (assign_tables e m) send_table_assignments) (\<lambda>m.
     rbind (assign_tasks e (m_current_run m) (rd_shards r) (m\<lparr>m_kernel_epoch := m_kernel_epoch m + 1\<rparr>)) (\<lambda>m.
     rbind (dispatch_work e (m_current_run m) m) (\<lambda>(k, m).
       barrier e ts (m\<lparr>m_dispatched := k\<rparr>)))))"

definition run_range :: "'p menv \<Rightarrow> tick list \<Rightarrow> 'p RunDescriptor \<Rightarrow> int list \<Rightarrow> ('k, 'v, 'd, 'p) Master \<Rightarrow>
    (tick list \<times> ('k, 'v, 'd, 'p) Master) result" where
  "run_range e ts r shards m = run e ts (r\<lparr>rd_shards := shards\<rparr>) m"

definition range_to :: "int \<Rightarrow> int list" where
  "range_to n = [0..n - 1]"

definition run_all :: "'p menv \<Rightarrow> tick list \<Rightarrow> 'p RunDescriptor \<Rightarrow> ('k, 'v, 'd, 'p) Master \<Rightarrow>
    (tick list \<times> ('k, 'v, 'd, 'p) Master) result" where
  "run_all e ts r m = rbind (rd_table_id r) (\<lambda>t. rbind (tr_index t (m_tables m)) (\<lambda>(te, _).
     run_range e ts r (range_to (int (ge_num_shards te))) m))"

definition run_one :: "'p menv \<Rightarrow> tick list \<Rightarrow> 'p RunDescriptor \<Rightarrow> ('k, 'v, 'd, 'p) Master \<Rightarrow>
    (tick list \<times> ('k, 'v, 'd, 'p) Master) result" where
  "run_one e ts r m = run_range e ts r (range_to 1) m"

text \<open>A job: three phases, the last two depending on what the job has.\<close>

definition run_maiter :: "'p menv \<Rightarrow> tick list \<Rightarrow> MaiterKernel \<Rightarrow> ('k, 'v, 'd, 'p) Master \<Rightarrow>
    (tick list \<times> ('k, 'v, 'd, 'p) Master) result" where
  "run_maiter e ts job m =
     rbind (run_all e ts (rd_Init phase1 ''run'' (Some 0) []) m) (\<lambda>(ts, m).
     rbind (if mk_iterkernel job then run_all e ts (rd_Init phase2 ''map'' (Some 0) []) m else Inr (ts, m)) (\<lambda>(ts, m).
       if mk_termchecker job then run_all e ts (rd_Init phase3 ''run'' (Some 0) []) m else Inr (ts, m)))"

text \<open>
  \<^verbatim>\<open>restore\<close>: \<open>found\<close> are the finished checkpoints that the file system has, in the order of their names.
\<close>

definition restore :: "'p menv \<Rightarrow> CheckpointFile list \<Rightarrow> ('k, 'v, 'd, 'p) Master \<Rightarrow> (bool \<times> ('k, 'v, 'd, 'p) Master) result" where
  "restore e found m = (if \<not> me_restore e then Inr (False, m)
     else rbind (if m_shards_assigned m then Inr m
                 else rbind (assign_tables e m) send_table_assignments) (\<lambda>m.
       if found = [] then Inr (False, m)
       else let f = last found;
                r = m_current_run m;
                m = m\<lparr>m_current_run := r\<lparr>rd_params := mm_FromMessage (cf_params f) (rd_params r)\<rparr>,
                      m_cp_vars := mm_FromMessage (cf_vars f) (m_cp_vars m),
                      m_kernel_epoch := cf_kernel_epoch f, m_checkpoint_epoch := cf_checkpoint_epoch f\<rparr>
            in rbind (m_SyncBroadcast MTYPE_RESTORE (StartRestore (cf_epoch f)) m) (\<lambda>m. Inr (True, m))))"

end
