(* ===== verification/TaskPool.thy ===== *)
theory TaskPool
  imports Tasks "HOL-Library.Multiset"
begin

text \<open>
  The abstract specification of the master's task handling: a pool that knows for every shard of a
  run the worker it is with and its status. Three steps are allowed: a worker without an active task
  gets one of its pending ones, an active task finishes, a pending task moves to another worker.
\<close>

section \<open>The pool\<close>

type_synonym pool = "int \<rightharpoonup> nat \<times> Status"

datatype pool_event = Dispatch nat int | Finish nat int | Steal nat nat int

inductive pool_step :: "pool \<Rightarrow> pool_event \<Rightarrow> pool \<Rightarrow> bool" where
  dispatch: "p s = Some (i, PENDING) \<Longrightarrow> (\<And>s'. p s' \<noteq> Some (i, ACTIVE)) \<Longrightarrow>
     pool_step p (Dispatch i s) (p(s \<mapsto> (i, ACTIVE)))"
| finish: "p s = Some (i, ACTIVE) \<Longrightarrow> pool_step p (Finish i s) (p(s \<mapsto> (i, FINISHED)))"
| steal: "p s = Some (i, PENDING) \<Longrightarrow> pool_step p (Steal i j s) (p(s \<mapsto> (j, PENDING)))"

inductive_cases pool_step_cases [elim!]: "pool_step p e p'"

inductive pool_run :: "pool \<Rightarrow> pool_event list \<Rightarrow> pool \<Rightarrow> bool" where
  pool_none: "pool_run p [] p"
| pool_some: "pool_run p es p' \<Longrightarrow> pool_step p' e p'' \<Longrightarrow> pool_run p (es @ [e]) p''"

lemma pool_run_one: "pool_step p e p' \<Longrightarrow> pool_run p [e] p'"
  using pool_some [OF pool_none, of p e p'] by simp

lemma pool_run_trans:
  assumes "pool_run p' fs p''" and "pool_run p es p'"
  shows "pool_run p (es @ fs) p''"
  using assms
proof (induction rule: pool_run.induct)
  case (pool_some q fs q' f q'')
  then show ?case using pool_run.pool_some [of p "es @ fs" q' f q''] by simp
qed simp

section \<open>What a run of the pool guarantees\<close>

definition dispatched :: "pool_event list \<Rightarrow> int list" where
  "dispatched es = concat (map (\<lambda>e. case e of Dispatch i s \<Rightarrow> [s] | _ \<Rightarrow> []) es)"

definition finished :: "pool_event list \<Rightarrow> int list" where
  "finished es = concat (map (\<lambda>e. case e of Finish i s \<Rightarrow> [s] | _ \<Rightarrow> []) es)"

lemma trace_simps [simp]:
  "dispatched [] = []" "finished [] = []"
  "dispatched (es @ fs) = dispatched es @ dispatched fs" "finished (es @ fs) = finished es @ finished fs"
  "dispatched [Dispatch i s] = [s]" "dispatched [Finish i s] = []" "dispatched [Steal i j s] = []"
  "finished [Dispatch i s] = []" "finished [Finish i s] = [s]" "finished [Steal i j s] = []"
  by (simp_all add: dispatched_def finished_def)

definition fresh :: "pool \<Rightarrow> bool" where
  "fresh p \<longleftrightarrow> (\<forall>s i st. p s = Some (i, st) \<longrightarrow> st = PENDING)"

definition one_active :: "pool \<Rightarrow> bool" where
  "one_active p \<longleftrightarrow> (\<forall>s s' i. p s = Some (i, ACTIVE) \<longrightarrow> p s' = Some (i, ACTIVE) \<longrightarrow> s = s')"

lemma pool_step_dom: "pool_step p e p' \<Longrightarrow> dom p' = dom p"
  by (auto split: if_splits)

lemma pool_run_dom: "pool_run p es p' \<Longrightarrow> dom p' = dom p"
  by (induction rule: pool_run.induct) (auto simp: pool_step_dom simp del: not_None_eq)

lemma pool_run_one_active: "pool_run p es p' \<Longrightarrow> one_active p \<Longrightarrow> one_active p'"
  by (induction rule: pool_run.induct) (auto simp: one_active_def split: if_splits)

text \<open>A task is dispatched when it leaves the pending state, and finishes once.\<close>

lemma pool_run_counts:
  assumes "pool_run p es p'" and "fresh p"
  shows "count (mset (dispatched es)) s = (case p' s of None \<Rightarrow> 0 | Some (_, st) \<Rightarrow> if st = PENDING then 0 else 1) \<and>
    count (mset (finished es)) s = (case p' s of None \<Rightarrow> 0 | Some (_, st) \<Rightarrow> if st = FINISHED then 1 else 0)"
  using assms
proof (induction rule: pool_run.induct)
  case (pool_none p)
  then show ?case by (auto simp: fresh_def split: option.splits)
next
  case (pool_some p es p' e p'')
  then show ?case by (auto split: option.splits if_splits)
qed

lemma pool_done_once:
  assumes "pool_run p es p'" and "fresh p" and "\<And>s i st. p' s = Some (i, st) \<Longrightarrow> st = FINISHED"
  shows "distinct (dispatched es) \<and> set (dispatched es) = dom p \<and> distinct (finished es) \<and> set (finished es) = dom p"
proof -
  have "dom p' = dom p" by (rule pool_run_dom [OF assms(1)])
  then have d: "s \<in> dom p \<longleftrightarrow> p' s \<noteq> None" for s by (metis domIff)
  have c: "count (mset (dispatched es)) s = (if s \<in> dom p then 1 else 0)" "count (mset (finished es)) s = (if s \<in> dom p then 1 else 0)" for s
    using pool_run_counts [OF assms(1,2), of s] assms(3) by (auto simp: d simp del: not_None_eq split: option.splits)
  have "set xs = dom p \<and> distinct xs" if "\<And>s. count (mset xs) s = (if s \<in> dom p then 1 else 0)" for xs :: "int list"
  proof -
    have "x \<in> set xs \<longleftrightarrow> x \<in> dom p" for x
      using that [of x] by (metis count_greater_zero_iff not_gr_zero set_mset_mset zero_less_one)
    then show ?thesis using that by (auto simp: distinct_count_atmost_1)
  qed
  with c show ?thesis by blast
qed

end
