(* ===== verification/Scheduling.thy ===== *)
theory Scheduling
  imports Master TaskPool
begin

text \<open>
  The master's task handling refines the pool of \<open>TaskPool\<close>: \<open>pool_of\<close> reads the pool off the task
  maps of the workers, every operation of the barrier's loop is a sequence of pool steps, and the
  requests it puts on the network are the dispatches of that sequence.
\<close>

named_theorems frame \<open>what an operation leaves as it was\<close>

section \<open>Messages that were sent\<close>

text \<open>The kernel requests among the messages of a network thread: the rank, the kernel with its method, and the shard of each.\<close>

type_synonym run_request = "int \<times> (string \<times> string) \<times> int"

definition runs_of :: "msg RPCRequest list \<Rightarrow> run_request list" where
  "runs_of rs = concat (map (\<lambda>r. case snd (payload r) of RunKernel q \<Rightarrow> [(target r, (kr_kname q, kr_method q), kr_shard q)] | _ \<Rightarrow> []) rs)"

definition runs_sent :: "msg NetworkThread \<Rightarrow> run_request list" where
  "runs_sent n = runs_of (nt_pending_sends n)"

lemma runs_of_simps [simp]:
  "runs_of [] = []" "runs_of (rs @ qs) = runs_of rs @ runs_of qs"
  "runs_of (rpc_new d t (RunKernel q) h # rs) = (d, (kr_kname q, kr_method q), kr_shard q) # runs_of rs"
  by (simp_all add: runs_of_def rpc_new_def)

lemma runs_of_other: "(\<And>q. x \<noteq> RunKernel q) \<Longrightarrow> runs_of (rpc_new d t x h # rs) = runs_of rs"
  by (auto simp: runs_of_def rpc_new_def split: msg.splits)

lemma nt_Send_pending [simp]: "nt_pending_sends (nt_Send d t x n) = nt_pending_sends n @ [rpc_new d t x header_new]"
  by (simp add: nt_Send_def nt_Send_req_def)

lemma nt_arrive_pending: "nt_arrive p n = Inr (c, n') \<Longrightarrow> nt_pending_sends n' = nt_pending_sends n"
  by (auto simp: nt_arrive_def result_simps split: if_splits option.splits)

lemma nt_poll_pending: "nt_poll n = Inr n' \<Longrightarrow> nt_pending_sends n' = nt_pending_sends n"
proof (cases "nt_inbox n")
  case (Cons b bs)
  assume "nt_poll n = Inr n'"
  then have "rfold (\<lambda>p n. rbind (nt_arrive p n) (\<lambda>(_, n). Inr n)) b (n\<lparr>nt_inbox := bs\<rparr>) = Inr n'"
    by (simp add: nt_poll_def Cons)
  then show ?thesis
    by (rule rfold_invariant [where I = "\<lambda>x. nt_pending_sends x = nt_pending_sends n"])
       (auto simp: result_simps dest: nt_arrive_pending)
qed (simp add: nt_poll_def)

lemma nt_check_pending:
  "nt_check_request_queue s t n = Inr (r, n') \<Longrightarrow> nt_pending_sends n' = nt_pending_sends n"
  "nt_check_reply_queue s t n = Inr (r', n') \<Longrightarrow> nt_pending_sends n' = nt_pending_sends n"
  by (auto simp: nt_check_request_queue_def nt_check_reply_queue_def result_simps split: if_splits list.splits)

lemma nt_TryRead_pending: "nt_TryRead src t n = Inr (r, n') \<Longrightarrow> nt_pending_sends n' = nt_pending_sends n"
proof -
  have "nt_try_ranks is t n = Inr (r, n') \<Longrightarrow> nt_pending_sends n' = nt_pending_sends n" for "is" n r
    by (induction "is" t n rule: nt_try_ranks.induct)
       (auto simp: result_simps dest: nt_check_pending split: option.splits)
  then show "nt_TryRead src t n = Inr (r, n') \<Longrightarrow> nt_pending_sends n' = nt_pending_sends n"
    by (auto simp: nt_TryRead_def result_simps dest: nt_check_pending split: option.splits)
qed

lemma nt_Read_pending: "nt_Read src t n = Inr (x, n') \<Longrightarrow> nt_pending_sends n' = nt_pending_sends n"
proof -
  have "nt_await (nt_TryRead src t) bs n = Inr (x, n') \<Longrightarrow> nt_pending_sends n' = nt_pending_sends n" for bs n
    by (induction bs arbitrary: n)
       (auto simp: result_simps dest!: nt_TryRead_pending nt_poll_pending split: option.splits)
  then show "nt_Read src t n = Inr (x, n') \<Longrightarrow> nt_pending_sends n' = nt_pending_sends n"
    by (simp add: nt_Read_def)
qed

lemma nt_read_all_pending: "nt_read_all src t n = Inr (ms, n') \<Longrightarrow> nt_pending_sends n' = nt_pending_sends n"
proof -
  have "nt_read_loop f src t n = Inr (ms, n') \<Longrightarrow> nt_pending_sends n' = nt_pending_sends n" for f n ms
  proof (induction f arbitrary: n ms)
    case 0
    then show ?case by (subst (asm) nt_read_loop.simps) (auto simp: result_simps dest: nt_TryRead_pending split: option.splits)
  next
    case (Suc f)
    from Suc.prems show ?case
      by (subst (asm) nt_read_loop.simps)
         (auto simp: result_simps dest!: nt_TryRead_pending Suc.IH split: option.splits simp del: nt_read_loop.simps)
  qed
  then show "nt_read_all src t n = Inr (ms, n') \<Longrightarrow> nt_pending_sends n' = nt_pending_sends n"
    by (simp add: nt_read_all_def del: nt_read_loop.simps)
qed

lemma nt_wait_pending: "nt_wait meth c bs n = Inr n' \<Longrightarrow> nt_pending_sends n' = nt_pending_sends n"
proof -
  have sweep: "nt_sweep is meth c n = Inr (c', n') \<Longrightarrow> nt_pending_sends n' = nt_pending_sends n" for "is" c c' n n'
    by (induction "is" meth c n rule: nt_sweep.induct) (auto simp: result_simps dest: nt_check_pending)
  show "nt_wait meth c bs n = Inr n' \<Longrightarrow> nt_pending_sends n' = nt_pending_sends n"
  proof (induction bs arbitrary: c n)
    case (Cons b bs)
    show ?case
    proof (cases "c \<le> 0")
      case False
      from Cons.prems False obtain c1 n1 n2 where "nt_sweep [0..<nt_world_size n] meth c n = Inr (c1, n1)"
          "nt_poll n1 = Inr n2" "nt_wait meth c1 bs n2 = Inr n'"
        by (subst (asm) nt_wait.simps) (auto simp: result_simps simp del: nt_wait.simps)
      with Cons.IH [of c1 n2] sweep nt_poll_pending show ?thesis by metis
    qed (use Cons.prems in simp)
  next
    case Nil
    then show ?case by (subst (asm) nt_wait.simps) (auto simp: result_simps dest: sweep simp del: nt_wait.simps split: if_splits)
  qed
qed

lemma nt_SyncBroadcast_runs:
  assumes "nt_SyncBroadcast meth x n = Inr n'" and "\<And>q. x \<noteq> RunKernel q"
  shows "runs_sent n' = runs_sent n"
proof -
  have "nt_pending_sends n' = nt_pending_sends (nt_Broadcast meth x n)"
    using assms(1) by (auto simp: nt_SyncBroadcast_def nt_WaitForSync_def simp del: nt_wait.simps dest: nt_wait_pending)
  moreover have "runs_of (map (\<lambda>i. rpc_new (int i) meth x header_new) is) = []" for "is"
    by (induction "is") (simp_all add: runs_of_other assms(2))
  ultimately show ?thesis by (simp add: runs_sent_def nt_Broadcast_effect)
qed

section \<open>The pool of the task maps\<close>

definition task_at :: "WorkerState list \<Rightarrow> nat \<Rightarrow> Taskid \<rightharpoonup> TaskState" where
  "task_at ws i = (if i < length ws then map_of (ws_work (ws ! i)) else Map.empty)"

definition pool_of :: "int \<Rightarrow> WorkerState list \<Rightarrow> pool" where
  "pool_of tbl ws s = (case List.find (\<lambda>i. task_at ws i (Taskid tbl s) \<noteq> None) [0..<length ws] of
       None \<Rightarrow> None
     | Some i \<Rightarrow> map_option (\<lambda>t. (i, ts_status t)) (task_at ws i (Taskid tbl s)))"

text \<open>
  The workers carry their own index; every task is one of table \<open>tbl\<close>, filed under its id, and with
  one worker only.
\<close>

definition sched_ok :: "int \<Rightarrow> WorkerState list \<Rightarrow> bool" where
  "sched_ok tbl ws \<longleftrightarrow> (\<forall>w \<in> set ws. ws_ok w) \<and> (\<forall>i < length ws. ws_id (ws ! i) = int i) \<and>
     (\<forall>i x t. task_at ws i x = Some t \<longrightarrow> tid_table x = tbl) \<and>
     (\<forall>i j x. task_at ws i x \<noteq> None \<longrightarrow> task_at ws j x \<noteq> None \<longrightarrow> i = j)"

lemma sched_okD:
  assumes "sched_ok tbl ws"
  shows "i < length ws \<Longrightarrow> ws_ok (ws ! i)" "i < length ws \<Longrightarrow> ws_id (ws ! i) = int i"
    "task_at ws i x = Some t \<Longrightarrow> tid_table x = tbl" "task_at ws i x = Some t \<Longrightarrow> task_at ws j x = Some u \<Longrightarrow> i = j"
    "task_at ws i x = Some t \<Longrightarrow> ts_id t = x" "task_at ws i x = Some t \<Longrightarrow> i < length ws"
proof -
  show in_range: "task_at ws i x = Some t \<Longrightarrow> i < length ws" for i x t by (simp add: task_at_def split: if_splits)
  show ok: "i < length ws \<Longrightarrow> ws_ok (ws ! i)" for i using assms by (simp add: sched_ok_def)
  show "i < length ws \<Longrightarrow> ws_id (ws ! i) = int i" using assms by (simp add: sched_ok_def)
  show "task_at ws i x = Some t \<Longrightarrow> tid_table x = tbl" using assms unfolding sched_ok_def by blast
  show "task_at ws i x = Some t \<Longrightarrow> task_at ws j x = Some u \<Longrightarrow> i = j"
    using assms unfolding sched_ok_def by (metis option.distinct(1))
  show "task_at ws i x = Some t \<Longrightarrow> ts_id t = x"
    by (rule ws_ok_lookup [of "ws ! i"]) (auto simp: task_at_def ok split: if_splits)
qed

lemma pool_of_iff:
  assumes "sched_ok tbl ws"
  shows "pool_of tbl ws s = Some (i, st) \<longleftrightarrow> (\<exists>t. task_at ws i (Taskid tbl s) = Some t \<and> ts_status t = st)"
proof (cases "List.find (\<lambda>i. task_at ws i (Taskid tbl s) \<noteq> None) [0..<length ws]")
  case None
  then have "task_at ws j (Taskid tbl s) = None" for j
    by (cases "j < length ws") (auto simp: find_None_iff task_at_def)
  then show ?thesis using None by (simp add: pool_of_def)
next
  case (Some j)
  then obtain u where u: "task_at ws j (Taskid tbl s) = Some u" by (auto simp: find_Some_iff)
  then have "task_at ws i (Taskid tbl s) = Some t \<Longrightarrow> i = j" for t using sched_okD(4) [OF assms] by blast
  with u Some show ?thesis by (auto simp: pool_of_def)
qed

lemma pool_eqI: "(\<And>s i st. p s = Some (i, st) \<longleftrightarrow> q s = Some (i, st)) \<Longrightarrow> p = (q :: pool)"
proof
  fix s assume "\<And>s i st. p s = Some (i, st) \<longleftrightarrow> q s = Some (i, st)"
  then show "p s = q s" by (metis not_None_eq surj_pair)
qed

text \<open>A change of one worker's task map.\<close>

lemma task_at_update:
  "i < length ws \<Longrightarrow> task_at (ws[i := w]) j = (if j = i then map_of (ws_work w) else task_at ws j)"
  by (auto simp: task_at_def)

lemma sched_ok_put:
  assumes ok: "sched_ok tbl ws" and i: "i < length ws" and w: "ws_ok w" "ws_id w = int i"
    and work: "map_of (ws_work w) = (task_at ws i)(Taskid tbl s \<mapsto> t)"
    and only: "\<And>j. j \<noteq> i \<Longrightarrow> task_at ws j (Taskid tbl s) = None"
  shows "sched_ok tbl (ws[i := w])" and "pool_of tbl (ws[i := w]) = (pool_of tbl ws)(s \<mapsto> (i, ts_status t))"
proof -
  have at_eq: "task_at (ws[i := w]) j x = (if j = i \<and> x = Taskid tbl s then Some t else task_at ws j x)" for j x
    using i work by (auto simp: task_at_update)
  show ok': "sched_ok tbl (ws[i := w])"
    unfolding sched_ok_def
  proof (intro conjI allI impI ballI)
    fix v assume "v \<in> set (ws[i := w])"
    then show "ws_ok v" using ok w(1) by (auto simp: sched_ok_def dest!: set_update_subset_insert [THEN subsetD])
  next
    fix j assume "j < length (ws[i := w])"
    then show "ws_id (ws[i := w] ! j) = int j" using sched_okD(2) [OF ok] w(2) by (cases "j = i") auto
  next
    fix j x u assume "task_at (ws[i := w]) j x = Some u"
    then show "tid_table x = tbl" using sched_okD(3) [OF ok] by (auto simp: at_eq split: if_splits)
  next
    fix j k x assume "task_at (ws[i := w]) j x \<noteq> None" "task_at (ws[i := w]) k x \<noteq> None"
    then show "j = k" using sched_okD(4) [OF ok] only by (auto simp: at_eq split: if_splits)
  qed
  show "pool_of tbl (ws[i := w]) = (pool_of tbl ws)(s \<mapsto> (i, ts_status t))"
  proof (rule pool_eqI)
    fix s' j st
    have "task_at (ws[i := w]) j (Taskid tbl s) = (if j = i then Some t else None)" for j
      using only by (auto simp: at_eq)
    then show "pool_of tbl (ws[i := w]) s' = Some (j, st) \<longleftrightarrow> ((pool_of tbl ws)(s \<mapsto> (i, ts_status t))) s' = Some (j, st)"
      by (cases "s' = s") (auto simp: pool_of_iff [OF ok'] pool_of_iff [OF ok] at_eq split: if_splits)
  qed
qed

text \<open>Changes that leave the task maps alone.\<close>

lemma pool_of_cong:
  assumes "length ws' = length ws" and "\<And>i. i < length ws \<Longrightarrow> ws_work (ws' ! i) = ws_work (ws ! i)"
  shows "pool_of tbl ws' = pool_of tbl ws"
proof -
  have "task_at ws' = task_at ws" using assms by (auto simp: task_at_def fun_eq_iff)
  then show ?thesis by (intro ext) (simp only: pool_of_def assms(1))
qed

lemma sched_ok_cong:
  assumes "length ws' = length ws"
    and "\<And>i. i < length ws \<Longrightarrow> ws_work (ws' ! i) = ws_work (ws ! i) \<and> ws_id (ws' ! i) = ws_id (ws ! i) \<and> ws_ok (ws' ! i) = ws_ok (ws ! i)"
  shows "sched_ok tbl ws' = sched_ok tbl ws"
proof -
  have "task_at ws' = task_at ws" using assms by (auto simp: task_at_def fun_eq_iff)
  moreover have "(\<forall>w \<in> set ws'. ws_ok w) = (\<forall>w \<in> set ws. ws_ok w)"
    using assms by (auto simp: all_set_conv_all_nth)
  ultimately show ?thesis using assms by (simp add: sched_ok_def)
qed

section \<open>Dispatch\<close>

lemma ws_tasks_lookup:
  assumes "ws_ok w" and "t \<in> set (ws_tasks st w)"
  shows "map_of (ws_work w) (ts_id t) = Some t" and "ts_status t = st"
proof -
  from assms(2) obtain i where "(i, t) \<in> set (ws_work w)" and "ts_status t = st" by (auto simp: ws_tasks_def)
  moreover from this(1) have "i = ts_id t" using assms(1) by (auto simp: ws_ok_def)
  ultimately show "map_of (ws_work w) (ts_id t) = Some t" "ts_status t = st"
    using smap_ok_distinct assms(1) by (auto simp: ws_ok_def intro!: map_of_is_SomeI)
qed

lemma ws_num_zero: "ws_num st w = 0 \<longleftrightarrow> (\<forall>x \<in> set (ws_work w). ts_status (snd x) \<noteq> st)"
  by (force simp: ws_num_def filter_empty_conv)

lemma ws_num_tasks: "ws_num st w = int (length (ws_tasks st w))"
  by (simp add: ws_num_def ws_tasks_def)

lemma no_active_pool:
  assumes "sched_ok tbl ws" and "ws_num ACTIVE (ws ! i) = 0"
  shows "pool_of tbl ws s \<noteq> Some (i, ACTIVE)"
  using assms(2) by (auto simp: pool_of_iff [OF assms(1)] task_at_def ws_num_zero split: if_splits dest!: map_of_SomeD)

text \<open>What the rest of the master's state keeps while tasks are handled.\<close>

abbreviation run_name :: "('k, 'v, 'd, 'p) Master \<Rightarrow> string \<times> string" where
  "run_name m \<equiv> (rd_kernel (m_current_run m), rd_method (m_current_run m))"

definition same_run :: "('k, 'v, 'd, 'p) Master \<Rightarrow> ('k, 'v, 'd, 'p) Master \<Rightarrow> bool" where
  "same_run m m' \<longleftrightarrow> length (m_workers m') = length (m_workers m) \<and>
     rd_shards (m_current_run m') = rd_shards (m_current_run m) \<and> rd_table (m_current_run m') = rd_table (m_current_run m) \<and>
     run_name m' = run_name m"

lemma same_run_refl [simp]: "same_run m m" by (simp add: same_run_def)

lemma same_run_trans: "same_run m m' \<Longrightarrow> same_run m' m'' \<Longrightarrow> same_run m m''" by (simp add: same_run_def)

definition dispatch_msgs :: "string \<times> string \<Rightarrow> pool_event list \<Rightarrow> run_request list" where
  "dispatch_msgs nm es = concat (map (\<lambda>e. case e of Dispatch i s \<Rightarrow> [(int i + 1, nm, s)] | _ \<Rightarrow> []) es)"

lemma dispatch_msgs_simps [simp]:
  "dispatch_msgs nm [] = []" "dispatch_msgs nm (es @ fs) = dispatch_msgs nm es @ dispatch_msgs nm fs"
  "dispatch_msgs nm [Dispatch i s] = [(int i + 1, nm, s)]" "dispatch_msgs nm [Finish i s] = []" "dispatch_msgs nm [Steal i j s] = []"
  by (simp_all add: dispatch_msgs_def)

lemma dispatch_msgs_shards: "map (\<lambda>(_, _, s). s) (dispatch_msgs nm es) = dispatched es"
  by (induction es) (auto simp: dispatch_msgs_def dispatched_def split: pool_event.splits)

text \<open>
  The simulation relation of one operation: from \<open>m\<close> to \<open>m'\<close> the pool makes the steps \<open>es\<close>, and the
  kernel requests that were sent are the dispatches among them.
\<close>

definition sim :: "int \<Rightarrow> ('k, 'v, 'd, 'p) Master \<Rightarrow> pool_event list \<Rightarrow> ('k, 'v, 'd, 'p) Master \<Rightarrow> bool" where
  "sim tbl m es m' \<longleftrightarrow> sched_ok tbl (m_workers m') \<and>
     pool_run (pool_of tbl (m_workers m)) es (pool_of tbl (m_workers m')) \<and>
     runs_sent (m_net m') = runs_sent (m_net m) @ dispatch_msgs (run_name m) es \<and> same_run m m'"

lemma sim_refl: "sched_ok tbl (m_workers m) \<Longrightarrow> sim tbl m [] m"
  by (simp add: sim_def pool_none)

lemma sim_trans: "sim tbl m es m' \<Longrightarrow> sim tbl m' fs m'' \<Longrightarrow> sim tbl m (es @ fs) m''"
  by (auto simp: sim_def same_run_def intro: pool_run_trans)

lemma sim_step:
  "sched_ok tbl (m_workers m') \<Longrightarrow> pool_step (pool_of tbl (m_workers m)) e (pool_of tbl (m_workers m')) \<Longrightarrow>
   runs_sent (m_net m') = runs_sent (m_net m) @ dispatch_msgs (run_name m) [e] \<Longrightarrow> same_run m m' \<Longrightarrow> sim tbl m [e] m'"
  by (simp add: sim_def pool_run_one)

lemma dispatch_one_sim:
  assumes ok: "sched_ok tbl (m_workers m)" and i: "i < length (m_workers m)" and r: "rd_table r = Some tbl"
    and nm: "run_name m = (rd_kernel r, rd_method r)"
  shows "\<exists>num' m' es. dispatch_one e r i (num, m) = Inr (num', m') \<and> sim tbl m es m' \<and> finished es = [] \<and>
    num' = num + int (length (dispatched es)) \<and> m_finished m' = m_finished m \<and> m_dispatched m' = m_dispatched m \<and>
    m_current_run m' = m_current_run m \<and>
    (\<forall>j. ws_num PENDING (m_workers m' ! j) > 0 \<longrightarrow> ws_num PENDING (m_workers m ! j) > 0) \<and>
    (\<forall>j \<noteq> i. m_workers m' ! j = m_workers m ! j) \<and>
    (ws_num PENDING (m_workers m' ! i) > 0 \<longrightarrow> ws_num ACTIVE (m_workers m' ! i) > 0)"
proof (cases "0 < ws_num PENDING (m_workers m ! i) \<and> ws_num ACTIVE (m_workers m ! i) = 0")
  case False
  then show ?thesis using ok by (intro exI [of _ num] exI [of _ m] exI [of _ "[]"])
      (auto simp: dispatch_one_def sim_refl ws_num_def)
next
  case True
  let ?w = "m_workers m ! i"
  from True obtain best where best: "max_element WeightCompare (ws_tasks PENDING ?w) = Some best"
    by (cases "max_element WeightCompare (ws_tasks PENDING ?w)") (simp_all add: ws_num_tasks)
  have w: "ws_ok ?w" "ws_id ?w = int i" using sched_okD(1,2) [OF ok i] by auto
  have b: "map_of (ws_work ?w) (ts_id best) = Some best" "ts_status best = PENDING"
    using ws_tasks_lookup [OF w(1) max_element_in [OF best]] by auto
  define s where "s = tid_shard (ts_id best)"
  have at_b: "task_at (m_workers m) i (ts_id best) = Some best" using b(1) i by (simp add: task_at_def)
  then have tid: "ts_id best = Taskid tbl s" using sched_okD(3) [OF ok] by (simp add: s_def Taskid.expand)
  define w' where "w' = ?w\<lparr>ws_work := smap_put (ts_id best) (best\<lparr>ts_status := ACTIVE\<rparr>) (ws_work ?w), ws_last_task_start := m_now m\<rparr>"
  define req where "req = \<lparr>kr_kname = rd_kernel r, kr_method = rd_method r, kr_table = tbl, kr_shard = s, kr_args = mm_ToMessage (me_marshal e) (rd_params r)\<rparr>"
  define m' where "m' = m_send (ws_id ?w + 1) MTYPE_RUN_KERNEL (RunKernel req) (m\<lparr>m_workers := (m_workers m)[i := w']\<rparr>)"
  have eq: "dispatch_one e r i (num, m) = Inr (num + 1, m')"
    using True r by (simp add: dispatch_one_def rd_table_id_def ws_get_next_def best Let_def w'_def m'_def req_def s_def)
  have w'_ok: "ws_ok w'" "ws_id w' = int i"
    using ws_ok_put [OF w(1), of "best\<lparr>ts_status := ACTIVE\<rparr>"] w(2) by (simp_all add: w'_def ws_ok_def)
  have smap: "smap_ok (ws_work ?w)" using w(1) by (simp add: ws_ok_def)
  have work: "map_of (ws_work w') = (task_at (m_workers m) i)(Taskid tbl s \<mapsto> best\<lparr>ts_status := ACTIVE\<rparr>)"
    using i by (simp add: w'_def map_of_smap_put [OF smap] tid [symmetric] task_at_def)
  have only: "task_at (m_workers m) j (Taskid tbl s) = None" if "j \<noteq> i" for j
    using sched_okD(4) [OF ok at_b] that tid by (metis not_None_eq)
  have put: "sched_ok tbl ((m_workers m)[i := w'])"
      "pool_of tbl ((m_workers m)[i := w']) = (pool_of tbl (m_workers m))(s \<mapsto> (i, ACTIVE))"
    using sched_ok_put [OF ok i w'_ok work] only by auto
  have ws': "m_workers m' = (m_workers m)[i := w']" by (simp add: m'_def m_send_def)
  have "pool_of tbl (m_workers m) s = Some (i, PENDING)"
    using at_b b(2) tid by (simp add: pool_of_iff [OF ok])
  then have step: "pool_step (pool_of tbl (m_workers m)) (Dispatch i s) (pool_of tbl (m_workers m'))"
    unfolding ws' put(2) using no_active_pool [OF ok] True by (auto intro: pool_step.dispatch)
  have "sim tbl m [Dispatch i s] m'"
    by (rule sim_step) (use put(1) step in \<open>simp_all add: ws' same_run_def\<close>,
        use nm in \<open>simp_all add: m'_def m_send_def runs_sent_def w(2) req_def\<close>)
  moreover have "(ts_id best, best\<lparr>ts_status := ACTIVE\<rparr>) \<in> set (ws_work w')"
    using work tid by (intro map_of_SomeD) simp
  then have "ws_num ACTIVE w' \<noteq> 0" by (force simp: ws_num_zero)
  then have "ws_num ACTIVE w' > 0" by (simp add: ws_num_def)
  ultimately show ?thesis
    using eq True i by (intro exI [of _ "num + 1"] exI [of _ m'] exI [of _ "[Dispatch i s]"])
      (auto simp: m'_def m_send_def nth_list_update)
qed

text \<open>No worker waits with pending tasks.\<close>

definition busy :: "WorkerState list \<Rightarrow> bool" where
  "busy ws \<longleftrightarrow> (\<forall>i < length ws. ws_num PENDING (ws ! i) > 0 \<longrightarrow> ws_num ACTIVE (ws ! i) > 0)"

lemma dispatch_list_sim:
  assumes "sched_ok tbl (m_workers m)" and "distinct is" and "\<forall>i \<in> set is. i < length (m_workers m)" and "rd_table r = Some tbl"
    and "run_name m = (rd_kernel r, rd_method r)"
  shows "\<exists>num' m' es. rfold (dispatch_one e r) is (num, m) = Inr (num', m') \<and> sim tbl m es m' \<and> finished es = [] \<and>
    num' = num + int (length (dispatched es)) \<and> m_finished m' = m_finished m \<and> m_dispatched m' = m_dispatched m \<and>
    m_current_run m' = m_current_run m \<and> (\<forall>j. j \<notin> set is \<longrightarrow> m_workers m' ! j = m_workers m ! j) \<and>
    (\<forall>i \<in> set is. ws_num PENDING (m_workers m' ! i) > 0 \<longrightarrow> ws_num ACTIVE (m_workers m' ! i) > 0)"
  using assms
proof (induction "is" arbitrary: num m)
  case Nil
  then show ?case by (intro exI [of _ num] exI [of _ m] exI [of _ "[]"]) (simp add: sim_refl)
next
  case (Cons i "is")
  obtain num1 m1 es1 where 1: "dispatch_one e r i (num, m) = Inr (num1, m1)" "sim tbl m es1 m1" "finished es1 = []"
      "num1 = num + int (length (dispatched es1))" "m_finished m1 = m_finished m" "m_dispatched m1 = m_dispatched m"
      "m_current_run m1 = m_current_run m" "\<forall>j \<noteq> i. m_workers m1 ! j = m_workers m ! j"
      "ws_num PENDING (m_workers m1 ! i) > 0 \<longrightarrow> ws_num ACTIVE (m_workers m1 ! i) > 0"
    using dispatch_one_sim [of tbl m i r e num] Cons.prems by auto
  have "sched_ok tbl (m_workers m1)" "length (m_workers m1) = length (m_workers m)" "run_name m1 = run_name m"
    using 1(2) by (simp_all add: sim_def same_run_def)
  then obtain num2 m2 es2 where 2: "rfold (dispatch_one e r) is (num1, m1) = Inr (num2, m2)" "sim tbl m1 es2 m2" "finished es2 = []"
      "num2 = num1 + int (length (dispatched es2))" "m_finished m2 = m_finished m1" "m_dispatched m2 = m_dispatched m1"
      "m_current_run m2 = m_current_run m1" "\<forall>j. j \<notin> set is \<longrightarrow> m_workers m2 ! j = m_workers m1 ! j"
      "\<forall>i \<in> set is. ws_num PENDING (m_workers m2 ! i) > 0 \<longrightarrow> ws_num ACTIVE (m_workers m2 ! i) > 0"
    using Cons.IH [of m1 num1] Cons.prems by auto
  have "i \<notin> set is" using Cons.prems(2) by simp
  then show ?case using 1 2 sim_trans [OF 1(2) 2(2)]
    by (intro exI [of _ num2] exI [of _ m2] exI [of _ "es1 @ es2"]) auto
qed

lemma dispatch_work_sim:
  assumes "sched_ok tbl (m_workers m)" and "rd_table r = Some tbl" and "run_name m = (rd_kernel r, rd_method r)"
  shows "\<exists>num m' es. dispatch_work e r m = Inr (num, m') \<and> sim tbl m es m' \<and> finished es = [] \<and>
    num = int (length (dispatched es)) \<and> m_finished m' = m_finished m \<and> m_dispatched m' = m_dispatched m \<and>
    m_current_run m' = m_current_run m \<and> busy (m_workers m')"
  using dispatch_list_sim [OF assms(1) _ _ assms(2,3), of "[0..<length (m_workers m)]" e 0]
  by (fastforce simp: dispatch_work_def busy_def sim_def same_run_def)

section \<open>Collection\<close>

lemma reap_effect:
  assumes reap: "reap_one_task m = Inr (w, m')"
  obtains (none) n where "runs_sent n = runs_sent (m_net m)" "w = None" "m' = m\<lparr>m_net := n\<rparr>"
  | (reaped) n i and req :: KernelRequest and infos tmap v st where "runs_sent n = runs_sent (m_net m)" "w = Some i" "i < length (m_workers m)"
      "rfold m_UpdatePartitions infos (m_tables m) = Inr tmap"
      "ws_set_finished (Taskid (kr_table req) (kr_shard req)) (m_workers m ! i) = Inr v"
      "m' = m\<lparr>m_net := n, m_tables := tmap,
         m_workers := (m_workers m)[i := ws_ping (m_now m) (v\<lparr>ws_total_runtime := ws_total_runtime v + (m_now m - ws_last_task_start v)\<rparr>)],
         m_method_stats := st\<rparr>"
proof -
  obtain r n where n: "nt_TryRead None MTYPE_KERNEL_DONE (m_net m) = Inr (r, n)"
    using reap by (auto simp: reap_one_task_def result_simps)
  have sent: "runs_sent n = runs_sent (m_net m)" by (simp add: runs_sent_def nt_TryRead_pending [OF n])
  show thesis
  proof (cases r)
    case None
    then show ?thesis using reap n sent none by (simp add: reap_one_task_def)
  next
    case (Some x)
    then obtain req infos src where x: "x = (KernelDone req infos, src)"
      using reap n by (cases x; cases "fst x") (simp_all add: reap_one_task_def)
    define i where "i = nat (src - 1)"
    define fin where "fin v = ws_ping (m_now m) (v\<lparr>ws_total_runtime := ws_total_runtime v + (m_now m - ws_last_task_start v)\<rparr>)" for v
    define st where "st v = (let k = ms_key (m_current_run m); s = ms_get m k; spent = m_now m - ws_last_task_start v in
      (m_method_stats m)(k \<mapsto> s\<lparr>ms_shard_time := ms_shard_time s + spent, ms_shard_calls := ms_shard_calls s + 1\<rparr>))" for v :: WorkerState
    have key: "ms_get (m\<lparr>m_net := n\<rparr>) k = ms_get m k" for k by (simp add: ms_get_def)
    have "reap_one_task m = rbind (vec_at (m_workers m) (src - 1)) (\<lambda>_. rbind (rfold m_UpdatePartitions infos (m_tables m)) (\<lambda>tmap.
        rbind (ws_set_finished (Taskid (kr_table req) (kr_shard req)) (m_workers m ! i)) (\<lambda>v.
          Inr (Some i, m\<lparr>m_net := n, m_tables := tmap, m_workers := (m_workers m)[i := fin v], m_method_stats := st v\<rparr>))))"
      by (simp add: reap_one_task_def n Some x Let_def i_def fin_def st_def key)
    from this [unfolded reap, symmetric] obtain tmap v where src: "0 \<le> src - 1" "src - 1 < int (length (m_workers m))"
        and v: "rfold m_UpdatePartitions infos (m_tables m) = Inr tmap"
          "ws_set_finished (Taskid (kr_table req) (kr_shard req)) (m_workers m ! i) = Inr v"
        and w: "w = Some i"
        and m': "m' = m\<lparr>m_net := n, m_tables := tmap, m_workers := (m_workers m)[i := fin v], m_method_stats := st v\<rparr>"
      by (auto simp: rbind_Inr_iff vec_at_Inr)
    have len: "i < length (m_workers m)" using src by (simp add: i_def)
    show thesis by (rule reaped [OF sent w len v m' [unfolded fin_def]])
  qed
qed

lemma reap_sim:
  assumes ok: "sched_ok tbl (m_workers m)" and reap: "reap_one_task m = Inr (w, m')"
  shows "\<exists>es. sim tbl m es m' \<and> dispatched es = [] \<and> length (finished es) = (if w = None then 0 else 1) \<and>
    m_finished m' = m_finished m \<and> m_dispatched m' = m_dispatched m \<and> (w = None \<longrightarrow> m_workers m' = m_workers m)"
  using reap
proof (cases rule: reap_effect)
  case (none n)
  then show ?thesis using ok by (intro exI [of _ "[]"]) (simp add: sim_def pool_none same_run_def)
next
  case (reaped n i req infos tmap v st)
  define fin where "fin v = ws_ping (m_now m) (v\<lparr>ws_total_runtime := ws_total_runtime v + (m_now m - ws_last_task_start v)\<rparr>)" for v
  have src: "i < length (m_workers m)" and v: "ws_set_finished (Taskid (kr_table req) (kr_shard req)) (m_workers m ! i) = Inr v"
      and w: "w = Some i" and sent: "runs_sent n = runs_sent (m_net m)"
      and m': "m' = m\<lparr>m_net := n, m_tables := tmap, m_workers := (m_workers m)[i := fin v], m_method_stats := st\<rparr>"
    using reaped by (simp_all add: fin_def)
  from v obtain t where t: "map_of (ws_work (m_workers m ! i)) (Taskid (kr_table req) (kr_shard req)) = Some t" "ts_status t = ACTIVE"
      "v = (m_workers m ! i)\<lparr>ws_work := smap_put (Taskid (kr_table req) (kr_shard req)) (t\<lparr>ts_status := FINISHED\<rparr>) (ws_work (m_workers m ! i))\<rparr>"
    by (auto simp: ws_set_finished_def result_simps split: option.splits)
  have at_t: "task_at (m_workers m) i (Taskid (kr_table req) (kr_shard req)) = Some t" using t(1) src by (simp add: task_at_def)
  then have tbl: "kr_table req = tbl" using sched_okD(3) [OF ok at_t] by simp
  let ?s = "kr_shard req"
  define w' where "w' = fin v"
  have wi: "ws_ok (m_workers m ! i)" "ws_id (m_workers m ! i) = int i" using sched_okD(1,2) [OF ok src] by auto
  have w'_ok: "ws_ok w'" "ws_id w' = int i"
    using ws_ok_put [OF wi(1), of "t\<lparr>ts_status := FINISHED\<rparr>"] ws_ok_lookup [OF wi(1) t(1)] wi(2)
    by (simp_all add: w'_def fin_def ws_ping_def t(3) ws_ok_def)
  have smap: "smap_ok (ws_work (m_workers m ! i))" using wi(1) by (simp add: ws_ok_def)
  have work: "map_of (ws_work w') = (task_at (m_workers m) i)(Taskid tbl ?s \<mapsto> t\<lparr>ts_status := FINISHED\<rparr>)"
    using src by (simp add: w'_def fin_def ws_ping_def t(3) map_of_smap_put [OF smap] task_at_def tbl)
  have only: "task_at (m_workers m) j (Taskid tbl ?s) = None" if "j \<noteq> i" for j
    using sched_okD(4) [OF ok at_t] that tbl by (metis not_None_eq)
  have put: "sched_ok tbl ((m_workers m)[i := w'])"
      "pool_of tbl ((m_workers m)[i := w']) = (pool_of tbl (m_workers m))(?s \<mapsto> (i, FINISHED))"
    using sched_ok_put [OF ok src w'_ok work] only by auto
  have ws': "m_workers m' = (m_workers m)[i := w']" by (simp add: m' w'_def)
  have net': "m_net m' = n" "m_current_run m' = m_current_run m" "m_finished m' = m_finished m" "m_dispatched m' = m_dispatched m"
    by (simp_all add: m')
  have "pool_of tbl (m_workers m) ?s = Some (i, ACTIVE)"
    using at_t t(2) tbl by (simp add: pool_of_iff [OF ok])
  then have step: "pool_step (pool_of tbl (m_workers m)) (Finish i ?s) (pool_of tbl (m_workers m'))"
    unfolding ws' put(2) by (rule pool_step.finish)
  have "sim tbl m [Finish i ?s] m'"
    by (rule sim_step) (use put(1) step in \<open>simp_all add: ws' net' sent same_run_def\<close>)
  then show ?thesis using w net' by (intro exI [of _ "[Finish i ?s]"]) simp
qed

section \<open>Stealing\<close>

lemma sched_ok_same:
  assumes ok: "sched_ok tbl ws" and i: "i < length ws" and w: "ws_ok w" "ws_id w = ws_id (ws ! i)" "ws_work w = ws_work (ws ! i)"
  shows "sched_ok tbl (ws[i := w])" and "pool_of tbl (ws[i := w]) = pool_of tbl ws"
proof -
  have wi: "ws_ok (ws ! i)" by (rule sched_okD(1) [OF ok i])
  have "sched_ok tbl (ws[i := w]) = sched_ok tbl ws"
    by (rule sched_ok_cong) (use i w wi in \<open>auto simp: nth_list_update\<close>)
  then show "sched_ok tbl (ws[i := w])" using ok by simp
  show "pool_of tbl (ws[i := w]) = pool_of tbl ws"
    by (rule pool_of_cong) (use i w in \<open>auto simp: nth_list_update\<close>)
qed

lemma sched_ok_erase:
  assumes ok: "sched_ok tbl ws" and i: "i < length ws" and w: "ws_ok w" "ws_id w = int i"
    and work: "map_of (ws_work w) = (task_at ws i)(Taskid tbl s := None)"
    and only: "\<And>j. j \<noteq> i \<Longrightarrow> task_at ws j (Taskid tbl s) = None"
  shows "sched_ok tbl (ws[i := w])" and "pool_of tbl (ws[i := w]) = (pool_of tbl ws)(s := None)"
    and "task_at (ws[i := w]) j (Taskid tbl s) = None"
proof -
  have at_eq: "task_at (ws[i := w]) j x = (if x = Taskid tbl s then None else task_at ws j x)" for j x
    using i work only by (auto simp: task_at_update)
  show "task_at (ws[i := w]) j (Taskid tbl s) = None" by (simp add: at_eq)
  show ok': "sched_ok tbl (ws[i := w])"
    unfolding sched_ok_def
  proof (intro conjI allI impI ballI)
    fix v assume "v \<in> set (ws[i := w])"
    then show "ws_ok v" using ok w(1) by (auto simp: sched_ok_def dest!: set_update_subset_insert [THEN subsetD])
  next
    fix j assume "j < length (ws[i := w])"
    then show "ws_id (ws[i := w] ! j) = int j" using sched_okD(2) [OF ok] w(2) by (cases "j = i") auto
  next
    fix j x u assume "task_at (ws[i := w]) j x = Some u"
    then show "tid_table x = tbl" using sched_okD(3) [OF ok] by (auto simp: at_eq split: if_splits)
  next
    fix j k x assume "task_at (ws[i := w]) j x \<noteq> None" "task_at (ws[i := w]) k x \<noteq> None"
    then show "j = k" using sched_okD(4) [OF ok] by (auto simp: at_eq split: if_splits)
  qed
  show "pool_of tbl (ws[i := w]) = (pool_of tbl ws)(s := None)"
    by (rule pool_eqI) (auto simp: pool_of_iff [OF ok'] pool_of_iff [OF ok] at_eq)
qed

lemma ws_assign_shard_frame:
  assumes "ws_assign_shard tabs shard b w = Inr w'"
  shows "ws_work w' = ws_work w \<and> ws_id w' = ws_id w \<and> (ws_ok w \<longrightarrow> ws_ok w')"
proof -
  let ?I = "\<lambda>v. ws_work v = ws_work w \<and> ws_id v = ws_id w \<and> (ws_ok w \<longrightarrow> ws_ok v)"
  show ?thesis using assms unfolding ws_assign_shard_def
  proof (rule rfold_invariant [where I = ?I])
    fix x v v' assume v: "?I v" and step: "(\<lambda>(i, num_shards) w. if shard < int num_shards then let t = Taskid i shard in
       if b then Inr (w\<lparr>ws_shards := shard_insert t (ws_shards w)\<rparr>)
       else rbind (shard_erase t (ws_shards w)) (\<lambda>s. Inr (w\<lparr>ws_shards := s\<rparr>)) else Inr w) x v = Inr v'"
    show "?I v'" using v step
      by (cases x) (auto simp: Let_def result_simps shard_erase_Inr ws_ok_def shard_insert_ok sorted_remove1 split: if_splits)
  qed simp
qed

lemma move_task_sim:
  assumes ok: "sched_ok tbl (m_workers m)" and src: "src < length (m_workers m)" and dst: "dst < length (m_workers m)"
    and task: "task_at (m_workers m) src (ts_id task) = Some task" "ts_status task = PENDING"
    and move: "move_task src dst task m = Inr m'"
  shows "sim tbl m [Steal src dst (tid_shard (ts_id task))] m'" and "\<exists>ws. m' = m\<lparr>m_workers := ws\<rparr>"
proof -
  define task' where "task' = task\<lparr>ts_stolen := True\<rparr>"
  define s where "s = tid_shard (ts_id task)"
  have tid: "ts_id task = Taskid tbl s" using sched_okD(3) [OF ok task(1)] by (simp add: s_def Taskid.expand)
  let ?ws = "m_workers m"
  from move obtain d s1 s2 where d: "ws_assign_shard (m_tabs m) s True (?ws ! dst) = Inr d"
      and s1: "ws_assign_shard (m_tabs m) s False (?ws[dst := d] ! src) = Inr s1"
      and s2: "ws_remove_task task' (?ws[dst := d, src := s1] ! src) = Inr s2"
      and m': "m' = m\<lparr>m_workers := ?ws[dst := d, src := s1, src := s2, dst := ws_assign_task task' (?ws[dst := d, src := s1, src := s2] ! dst)]\<rparr>"
    by (auto simp: move_task_def Let_def result_simps task'_def s_def)
  define ws2 where "ws2 = ?ws[dst := d, src := s1]"
  have len: "length ws2 = length ?ws" by (simp add: ws2_def)
  have d_ok: "ws_ok d" "ws_id d = ws_id (?ws ! dst)" "ws_work d = ws_work (?ws ! dst)"
    using ws_assign_shard_frame [OF d] sched_okD(1) [OF ok dst] by auto
  note one = sched_ok_same [OF ok dst d_ok]
  have src1: "src < length (?ws[dst := d])" using src by simp
  have s1_ok: "ws_ok s1" "ws_id s1 = ws_id (?ws[dst := d] ! src)" "ws_work s1 = ws_work (?ws[dst := d] ! src)"
    using ws_assign_shard_frame [OF s1] sched_okD(1) [OF one(1) src1] by auto
  note two = sched_ok_same [OF one(1) src1 s1_ok, folded ws2_def]
  have at2: "task_at ws2 = task_at ?ws"
    using d_ok(3) s1_ok(3) src dst by (auto simp: ws2_def task_at_def fun_eq_iff nth_list_update split: if_splits)
  have src2: "src < length ws2" using src len by simp
  have lookup: "map_of (ws_work (ws2 ! src)) (Taskid tbl s) = Some task"
    using task(1) tid src2 by (simp add: at2 [symmetric] task_at_def)
  have s2_eq: "s2 = (ws2 ! src)\<lparr>ws_work := smap_erase (Taskid tbl s) (ws_work (ws2 ! src))\<rparr>"
    using s2 lookup by (simp add: ws_remove_task_def task'_def tid flip: ws2_def)
  have wsrc: "ws_ok (ws2 ! src)" "ws_id (ws2 ! src) = int src" using sched_okD(1,2) [OF two(1) src2] by auto
  have s2_ok: "ws_ok s2" "ws_id s2 = int src"
    using wsrc by (auto simp: s2_eq ws_ok_def smap_ok_erase) (auto simp: smap_erase_def)
  have work2: "map_of (ws_work s2) = (task_at ws2 src)(Taskid tbl s := None)"
    using src2 by (simp add: s2_eq map_of_smap_erase task_at_def)
  have only2: "task_at ws2 j (Taskid tbl s) = None" if "j \<noteq> src" for j
    using sched_okD(4) [OF ok task(1)] that tid by (metis at2 not_None_eq)
  have er: "sched_ok tbl (ws2[src := s2])" "pool_of tbl (ws2[src := s2]) = (pool_of tbl ws2)(s := None)"
      "task_at (ws2[src := s2]) j (Taskid tbl s) = None" for j
    using sched_ok_erase [OF two(1) src2 s2_ok work2] only2 by auto
  let ?ws3 = "ws2[src := s2]" and ?w = "ws_assign_task task' (ws2[src := s2] ! dst)"
  have dst3: "dst < length ?ws3" using dst len by simp
  have w3: "ws_ok (?ws3 ! dst)" "ws_id (?ws3 ! dst) = int dst" using sched_okD(1,2) [OF er(1) dst3] by auto
  have w_ok: "ws_ok ?w" "ws_id ?w = int dst" using ws_ok_assign_task [OF w3(1)] w3(2) by (simp_all add: ws_assign_task_def)
  have smap: "smap_ok (ws_work (?ws3 ! dst))" using w3(1) by (simp add: ws_ok_def)
  have work3: "map_of (ws_work ?w) = (task_at ?ws3 dst)(Taskid tbl s \<mapsto> task')"
    using dst3 by (simp add: ws_assign_task_def map_of_smap_put [OF smap] task_at_def task'_def tid)
  have put: "sched_ok tbl (?ws3[dst := ?w])" "pool_of tbl (?ws3[dst := ?w]) = (pool_of tbl ?ws3)(s \<mapsto> (dst, PENDING))"
    using sched_ok_put [OF er(1) dst3 w_ok work3] er(3) task(2) by (auto simp: task'_def)
  have ws': "m_workers m' = ?ws3[dst := ?w]" "m_net m' = m_net m" "same_run m m'"
    using len by (simp_all add: m' ws2_def same_run_def)
  have pool: "pool_of tbl (m_workers m') = (pool_of tbl ?ws)(s \<mapsto> (dst, PENDING))"
    unfolding ws'(1) put(2) er(2) two(2) one(2) by simp
  have "pool_of tbl ?ws s = Some (src, PENDING)" using task tid by (simp add: pool_of_iff [OF ok])
  then have step: "pool_step (pool_of tbl ?ws) (Steal src dst s) (pool_of tbl (m_workers m'))"
    unfolding pool by (rule pool_step.steal)
  show "sim tbl m [Steal src dst (tid_shard (ts_id task))] m'"
    unfolding s_def [symmetric] by (rule sim_step) (use put(1) step ws' in simp_all)
  show "\<exists>ws. m' = m\<lparr>m_workers := ws\<rparr>" using m' by blast
qed

lemma steal_sim:
  assumes ok: "sched_ok tbl (m_workers m)" and dst: "dst < length (m_workers m)"
    and steal: "steal_work e r dst avg m = Inr (b, m')"
  shows "\<exists>es ws. sim tbl m es m' \<and> dispatched es = [] \<and> finished es = [] \<and> m' = m\<lparr>m_workers := ws\<rparr>"
proof (cases "m' = m")
  case True
  then show ?thesis using sim_refl [OF ok] by (intro exI [of _ "[]"] exI [of _ "m_workers m"]) simp
next
  case False
  from steal obtain src task where b: "busiest (m_workers m) = Some src"
      "max_element WeightCompare (ws_tasks PENDING (m_workers m ! src)) = Some task" "move_task src dst task m = Inr m'"
    using False by (auto simp: steal_work_def Let_def result_simps split: if_splits option.splits)
  have src: "src < length (m_workers m)" using max_element_in [OF b(1) [unfolded busiest_def]] by simp
  have "ws_ok (m_workers m ! src)" by (rule sched_okD(1) [OF ok src])
  note t = ws_tasks_lookup [OF this max_element_in [OF b(2)]]
  have "task_at (m_workers m) src (ts_id task) = Some task" using t(1) src by (simp add: task_at_def)
  from move_task_sim [OF ok src dst this t(2) b(3)] show ?thesis
    by (intro exI [of _ "[Steal src dst (tid_shard (ts_id task))]"]) auto
qed

section \<open>Operations that do not touch tasks\<close>

definition ws_core :: "WorkerState \<Rightarrow> (Taskid \<times> TaskState) list \<times> int \<times> Taskid list" where
  "ws_core w = (ws_work w, ws_id w, ws_shards w)"

definition quiet :: "('k, 'v, 'd, 'p) Master \<Rightarrow> ('k, 'v, 'd, 'p) Master \<Rightarrow> bool" where
  "quiet m m' \<longleftrightarrow> map ws_core (m_workers m') = map ws_core (m_workers m) \<and> runs_sent (m_net m') = runs_sent (m_net m) \<and>
     m_finished m' = m_finished m \<and> m_dispatched m' = m_dispatched m \<and> m_tables m' = m_tables m \<and> run_name m' = run_name m \<and>
     rd_shards (m_current_run m') = rd_shards (m_current_run m) \<and> rd_table (m_current_run m') = rd_table (m_current_run m)"

lemma quiet_refl [simp]: "quiet m m" by (simp add: quiet_def)

lemma quiet_trans: "quiet m m' \<Longrightarrow> quiet m' m'' \<Longrightarrow> quiet m m''" by (simp add: quiet_def)

lemma quiet_workers:
  assumes "map ws_core ws' = map ws_core ws"
  shows "pool_of tbl ws' = pool_of tbl ws" "sched_ok tbl ws' = sched_ok tbl ws" "length ws' = length ws" "busy ws' = busy ws"
proof -
  show len: "length ws' = length ws" by (rule map_eq_imp_length_eq [OF assms])
  have core: "ws_work (ws' ! i) = ws_work (ws ! i)" "ws_id (ws' ! i) = ws_id (ws ! i)" "ws_shards (ws' ! i) = ws_shards (ws ! i)"
    if "i < length ws" for i
    using arg_cong [OF assms, of "\<lambda>xs. xs ! i"] that len by (simp_all add: ws_core_def)
  show "pool_of tbl ws' = pool_of tbl ws" by (rule pool_of_cong [OF len core(1)])
  show "sched_ok tbl ws' = sched_ok tbl ws" by (rule sched_ok_cong [OF len]) (simp add: core ws_ok_def)
  show "busy ws' = busy ws" using core(1) len by (simp add: busy_def ws_num_def)
qed

lemma quiet_sim: "quiet m m' \<Longrightarrow> sched_ok tbl (m_workers m) \<Longrightarrow> sim tbl m [] m'"
  by (simp add: sim_def quiet_def quiet_workers [of "m_workers m'" "m_workers m"] pool_none same_run_def)

lemma rfold_quiet: "(\<And>x m m'. x \<in> set xs \<Longrightarrow> f x m = Inr m' \<Longrightarrow> quiet m m') \<Longrightarrow> rfold f xs m = Inr m' \<Longrightarrow> quiet m m'"
  by (rule rfold_invariant [where I = "quiet m"]) (auto intro: quiet_trans)

lemma fold_quiet: "(\<And>x m. quiet m (f x m)) \<Longrightarrow> quiet m (fold f xs m)"
  by (induction xs arbitrary: m) (auto intro: quiet_trans)

lemma m_send_quiet [frame]: "(\<And>q. x \<noteq> RunKernel q) \<Longrightarrow> quiet m (m_send d t x m)"
  by (simp add: quiet_def m_send_def runs_sent_def runs_of_other)

lemma m_upd_worker_quiet [frame]: "(\<And>w. ws_core (f w) = ws_core w) \<Longrightarrow> quiet m (m_upd_worker i f m)"
  by (cases "i < length (m_workers m)")
     (auto simp: quiet_def m_upd_worker_def map_update list_update_beyond, metis length_map list_update_id nth_map)

lemma net_quiet: "nt_pending_sends n = nt_pending_sends (m_net m) \<Longrightarrow> quiet m (m\<lparr>m_net := n\<rparr>)"
  by (simp add: quiet_def runs_sent_def)

lemma m_SyncBroadcast_quiet:
  assumes "m_SyncBroadcast meth x m = Inr m'" and "\<And>q. x \<noteq> RunKernel q"
  shows "quiet m m'"
proof -
  from assms(1) obtain n where "nt_SyncBroadcast meth x (m_net m) = Inr n" and m': "m' = m\<lparr>m_net := n\<rparr>"
    by (auto simp: m_SyncBroadcast_def result_simps)
  then have "runs_sent n = runs_sent (m_net m)" using nt_SyncBroadcast_runs assms(2) by blast
  then show ?thesis by (simp add: quiet_def m')
qed

lemma worker_checkpoint_quiet [frame]: "quiet m (worker_checkpoint i r m)"
proof -
  have "quiet m (m_upd_worker i (ws_checkpointing_update (\<lambda>_. True)) m)"
    by (rule m_upd_worker_quiet) (simp add: ws_core_def)
  then show ?thesis unfolding worker_checkpoint_def by (auto intro: quiet_trans m_send_quiet)
qed

lemma start_checkpoint_quiet [frame]: "quiet m (start_checkpoint m)"
proof (cases "m_checkpointing m")
  case False
  define m1 where "m1 = m\<lparr>m_checkpoint_epoch := m_checkpoint_epoch m + 1, m_checkpointing := True\<rparr>"
  define m2 where "m2 = (if rd_checkpoint_type (m_current_run m1) = CP_NONE
    then m1\<lparr>m_current_run := (m_current_run m1)\<lparr>rd_checkpoint_type := CP_MASTER_CONTROLLED\<rparr>\<rparr> else m1)"
  have "start_checkpoint m = fold (\<lambda>i m. worker_checkpoint i (m_current_run m) m) [0..<length (m_workers m2)] m2"
    using False by (simp add: start_checkpoint_def m1_def m2_def Let_def)
  moreover have "quiet m m2" by (simp add: quiet_def m1_def m2_def)
  moreover have "quiet m2 (fold (\<lambda>i m. worker_checkpoint i (m_current_run m) m) is m2)" for "is"
    by (rule fold_quiet) (rule worker_checkpoint_quiet)
  ultimately show ?thesis by (simp add: quiet_trans)
qed (simp add: start_checkpoint_def)

lemma start_worker_checkpoint_quiet [frame]: "quiet m (start_worker_checkpoint i m)"
  by (simp add: start_worker_checkpoint_def Let_def) (metis quiet_trans start_checkpoint_quiet worker_checkpoint_quiet)

lemma finish_worker_checkpoint_quiet:
  assumes "finish_worker_checkpoint i r m = Inr m'"
  shows "quiet m m'"
proof -
  define m1 where "m1 = (if rd_checkpoint_type r = CP_MASTER_CONTROLLED
    then m_send (1 + int i) MTYPE_FINISH_CHECKPOINT EmptyMessage m else m)"
  from assms obtain x n where n: "nt_Read (Some (1 + int i)) MTYPE_CHECKPOINT_DONE (m_net m1) = Inr (x, n)"
      and m': "m' = m_upd_worker i (ws_checkpointing_update (\<lambda>_. False)) (m1\<lparr>m_net := n\<rparr>)"
    by (auto simp: finish_worker_checkpoint_def result_simps Let_def m1_def)
  have "quiet m m1" by (simp add: m1_def m_send_quiet)
  moreover have "quiet m1 (m1\<lparr>m_net := n\<rparr>)" by (rule net_quiet) (rule nt_Read_pending [OF n])
  moreover have "quiet (m1\<lparr>m_net := n\<rparr>) m'" unfolding m' by (rule m_upd_worker_quiet) (simp add: ws_core_def)
  ultimately show ?thesis by (blast intro: quiet_trans)
qed

lemma finish_checkpoint_quiet: "finish_checkpoint e m = Inr m' \<Longrightarrow> quiet m m'"
proof -
  assume "finish_checkpoint e m = Inr m'"
  then obtain m1 where 1: "rfold (\<lambda>i m. rbind (finish_worker_checkpoint i (m_current_run m) m) (\<lambda>m.
         rbind (check (\<not> ws_checkpointing (m_workers m ! i))) (\<lambda>_. Inr m))) [0..<length (m_workers m)] m = Inr m1"
      and 2: "quiet m1 m'"
    by (auto simp: finish_checkpoint_def result_simps quiet_def)
  have "quiet m m1" by (rule rfold_quiet [OF _ 1]) (auto simp: result_simps dest: finish_worker_checkpoint_quiet)
  from this 2 show ?thesis by (rule quiet_trans)
qed

lemma maybe_checkpoint_quiet: "maybe_checkpoint e m = Inr m' \<Longrightarrow> quiet m m'"
  by (auto simp: maybe_checkpoint_def checkpoint_def split: if_splits
      intro: quiet_trans [OF start_checkpoint_quiet finish_checkpoint_quiet])

lemma terminate_iteration_quiet [frame]: "quiet m (terminate_iteration m)"
  unfolding terminate_iteration_def by (rule fold_quiet) (simp add: m_send_quiet)

lemma collect_report_quiet: "collect_report i m = Inr m' \<Longrightarrow> quiet m m'"
proof -
  assume "collect_report i m = Inr m'"
  then obtain ms n w where n: "nt_read_all (1 + int i) MTYPE_TERMCHECK_DONE (m_net m) = Inr (ms, n)"
      and w: "rfold ws_report ms (m_workers m ! i) = Inr w" and m': "m' = m\<lparr>m_net := n, m_workers := (m_workers m)[i := w]\<rparr>"
    by (auto simp: collect_report_def result_simps)
  have "ws_core w = ws_core (m_workers m ! i)"
    by (rule rfold_invariant [OF w, where I = "\<lambda>v. ws_core v = ws_core (m_workers m ! i)"])
       (auto simp: ws_report_def ws_core_def split: msg.splits)
  then have "map ws_core ((m_workers m)[i := w]) = map ws_core (m_workers m)"
    by (cases "i < length (m_workers m)") (simp_all add: map_update list_update_beyond list_update_same_conv)
  then show ?thesis using nt_read_all_pending [OF n] by (simp add: m' quiet_def runs_sent_def)
qed

lemma reset_report_quiet: "reset_report i m = Inr m' \<Longrightarrow> quiet m m'"
proof -
  assume "reset_report i m = Inr m'"
  moreover define m1 where "m1 = m_upd_worker i (ws_termchecking_update (\<lambda>_. False)) m"
  ultimately obtain ms n where n: "nt_read_all (1 + int i) MTYPE_TERMCHECK_DONE (m_net m1) = Inr (ms, n)" and m': "m' = m1\<lparr>m_net := n\<rparr>"
    by (auto simp: reset_report_def result_simps Let_def)
  have "quiet m m1" unfolding m1_def by (rule m_upd_worker_quiet) (simp add: ws_core_def)
  moreover have "quiet m1 m'" unfolding m' by (rule net_quiet) (rule nt_read_all_pending [OF n])
  ultimately show ?thesis by (rule quiet_trans)
qed

lemma termcheck_quiet: "termcheck e m = Inr (b, m') \<Longrightarrow> quiet m m'"
proof -
  assume t: "termcheck e m = Inr (b, m')"
  then obtain m1 where 1: "rfold collect_report [0..<length (m_workers m)] m = Inr m1"
    by (auto simp: termcheck_def result_simps)
  have q1: "quiet m m1" by (rule rfold_quiet [OF _ 1]) (rule collect_report_quiet)
  have "quiet (m1\<lparr>m_termchecker := d\<rparr>) x" if "rfold reset_report is (m1\<lparr>m_termchecker := d\<rparr>) = Inr x" for d "is" x
    by (rule rfold_quiet [OF _ that]) (rule reset_report_quiet)
  moreover have "quiet m1 (m1\<lparr>m_termchecker := d\<rparr>)" for d by (simp add: quiet_def)
  ultimately have *: "quiet m1 x" if "rfold reset_report is (m1\<lparr>m_termchecker := d\<rparr>) = Inr x" for d "is" x
    using that quiet_trans by blast
  have "quiet m1 (m1\<lparr>m_termchecker := d\<rparr>)" for d by (simp add: quiet_def)
  with t 1 * have "quiet m1 m'"
    by (auto simp: termcheck_def result_simps Let_def case_prod_beta split: if_splits)
  with q1 show ?thesis by (rule quiet_trans)
qed

lemma maybe_termcheck_quiet: "maybe_termcheck e m = Inr m' \<Longrightarrow> quiet m m'"
proof -
  assume t: "maybe_termcheck e m = Inr m'"
  have "quiet x (x\<lparr>m_last_termcheck := a\<rparr>)" "quiet x (x\<lparr>m_terminated := c\<rparr>)" for x :: "('a, 'b, 'c, 'd) Master" and a c
    by (simp_all add: quiet_def)
  then show ?thesis using t
    by (auto simp: maybe_termcheck_def Let_def result_simps split: if_splits dest!: termcheck_quiet)
       (metis quiet_trans terminate_iteration_quiet)+
qed

section \<open>A round of the barrier\<close>

lemma send_table_assignments_quiet: "send_table_assignments m = Inr m' \<Longrightarrow> quiet m m'"
  unfolding send_table_assignments_def by (erule m_SyncBroadcast_quiet) simp

text \<open>Sequences of operations that neither dispatch nor finish tasks.\<close>

definition shuffles :: "int \<Rightarrow> ('k, 'v, 'd, 'p) Master \<Rightarrow> ('k, 'v, 'd, 'p) Master \<Rightarrow> bool" where
  "shuffles tbl m m' \<longleftrightarrow> (\<exists>es. sim tbl m es m' \<and> dispatched es = [] \<and> finished es = []) \<and>
     m_finished m' = m_finished m \<and> m_dispatched m' = m_dispatched m"

lemma shuffles_ok: "shuffles tbl m m' \<Longrightarrow> sched_ok tbl (m_workers m') \<and> length (m_workers m') = length (m_workers m)"
  by (auto simp: shuffles_def sim_def same_run_def)

lemma shuffles_trans: "shuffles tbl m m' \<Longrightarrow> shuffles tbl m' m'' \<Longrightarrow> shuffles tbl m m''"
  unfolding shuffles_def by (metis sim_trans trace_simps(3) trace_simps(4) append_Nil)

lemma shuffles_quiet: "quiet m m' \<Longrightarrow> sched_ok tbl (m_workers m) \<Longrightarrow> shuffles tbl m m'"
  unfolding shuffles_def using quiet_sim [of m m' tbl] by (auto simp: quiet_def intro!: exI [of _ "[]"])

lemma shuffles_steal:
  assumes "sched_ok tbl (m_workers m)" and "dst < length (m_workers m)" and "steal_work e r dst avg m = Inr (b, m')"
  shows "shuffles tbl m m'"
  using steal_sim [OF assms] by (auto simp: shuffles_def)

lemma periodic_worker_shuffles:
  assumes ok: "sched_ok tbl (m_workers m)" and p: "periodic_worker e avg calls i (u, m) = Inr (u', m')"
  shows "shuffles tbl m m'"
proof -
  let ?steal = "calls > 10 \<and> avg > 1 / 5 \<and> \<not> m_checkpointing m \<and> ws_idle_time (m_now m) (m_workers m ! i) > 1 / 2"
  from p obtain u1 m1 where 1: "(if ?steal then rbind (vec_at (m_workers m) (ws_id (m_workers m ! i))) (\<lambda>_.
      rbind (steal_work e (m_current_run m) (nat (ws_id (m_workers m ! i))) avg m) (\<lambda>(b, m). Inr (u \<or> b, m)))
      else Inr (u, m)) = Inr (u1, m1)" and 2: "m' = m1 \<or> (\<exists>k. m' = start_worker_checkpoint k m1)"
    unfolding periodic_worker_def by (auto simp: rbind_Inr_iff Let_def split: if_splits)
  have s1: "shuffles tbl m m1"
  proof (cases ?steal)
    case True
    with 1 have "\<exists>b. steal_work e (m_current_run m) (nat (ws_id (m_workers m ! i))) avg m = Inr (b, m1)"
      and "nat (ws_id (m_workers m ! i)) < length (m_workers m)"
      by (auto simp: rbind_Inr_iff vec_at_Inr)
    then show ?thesis using shuffles_steal [OF ok] by blast
  next
    case False
    with 1 have "m1 = m" by auto
    then show ?thesis using shuffles_quiet [OF quiet_refl ok] by simp
  qed
  moreover have "quiet m1 m'" using 2 start_worker_checkpoint_quiet quiet_refl by blast
  then have "shuffles tbl m1 m'" using shuffles_quiet shuffles_ok [OF s1] by blast
  ultimately show ?thesis by (rule shuffles_trans)
qed

lemma barrier_periodic_shuffles:
  assumes ok: "sched_ok tbl (m_workers m)" and p: "barrier_periodic e m = Inr m'"
  shows "shuffles tbl m m'"
proof -
  from p obtain s avg u m1 where 1: "rfold (periodic_worker e avg s) [0..<length (m_workers m)] (False, m) = Inr (u, m1)"
      and 2: "m' = m1 \<or> send_table_assignments m1 = Inr m'"
    by (auto simp: barrier_periodic_def Let_def rbind_Inr_iff split: if_splits)
  have "(\<lambda>(_, x). shuffles tbl m x) (u, m1)"
  proof (rule rfold_invariant [OF 1])
    show "case (False, m) of (_, x) \<Rightarrow> shuffles tbl m x" using shuffles_quiet [OF quiet_refl ok] by simp
  next
    fix i and st st' :: "bool \<times> ('a, 'b, 'c, 'd) Master"
    assume "case st of (_, x) \<Rightarrow> shuffles tbl m x" "periodic_worker e avg s i st = Inr st'"
    then show "case st' of (_, x) \<Rightarrow> shuffles tbl m x"
      by (cases st; cases st') (auto intro: shuffles_trans periodic_worker_shuffles dest: shuffles_ok)
  qed
  then have s1: "shuffles tbl m m1" by simp
  have "quiet m1 m'" using 2 send_table_assignments_quiet by auto
  then show ?thesis using shuffles_quiet shuffles_ok [OF s1] shuffles_trans [OF s1] by blast
qed

text \<open>
  The invariant of the loop against the pool at its start: counters and messages are those of the
  steps so far, and no worker idles over pending tasks unless every task has been dispatched.
\<close>

definition loop_inv :: "int \<Rightarrow> ('k, 'v, 'd, 'p) Master \<Rightarrow> pool_event list \<Rightarrow> ('k, 'v, 'd, 'p) Master \<Rightarrow> bool" where
  "loop_inv tbl m es m' \<longleftrightarrow> sim tbl m es m' \<and> m_finished m' = m_finished m + int (length (finished es)) \<and>
     m_dispatched m' = m_dispatched m + int (length (dispatched es))"

lemma loop_inv_refl: "sched_ok tbl (m_workers m) \<Longrightarrow> loop_inv tbl m [] m"
  by (simp add: loop_inv_def sim_refl)

lemma loop_inv_trans: "loop_inv tbl m es m' \<Longrightarrow> loop_inv tbl m' fs m'' \<Longrightarrow> loop_inv tbl m (es @ fs) m''"
  by (auto simp: loop_inv_def intro: sim_trans)

lemma shuffles_inv: "shuffles tbl m m' \<Longrightarrow> \<exists>es. loop_inv tbl m es m'"
  by (auto simp: shuffles_def loop_inv_def)

lemma loop_inv_ok:
  "loop_inv tbl m es m' \<Longrightarrow> sched_ok tbl (m_workers m') \<and> rd_table (m_current_run m') = rd_table (m_current_run m) \<and>
     rd_shards (m_current_run m') = rd_shards (m_current_run m) \<and> length (m_workers m') = length (m_workers m)"
  by (auto simp: loop_inv_def sim_def same_run_def)

lemma dispatch_round_inv:
  assumes ok: "sched_ok tbl (m_workers m)" and tbl: "rd_table (m_current_run m) = Some tbl"
    and d: "dispatch_work e (m_current_run m) m = Inr (k, m')"
  shows "\<exists>es. loop_inv tbl m es (m'\<lparr>m_dispatched := m_dispatched m' + k\<rparr>)"
proof -
  from dispatch_work_sim [OF ok tbl refl, of e] d obtain es where "sim tbl m es m'" "finished es = []"
      "k = int (length (dispatched es))" "m_finished m' = m_finished m" "m_dispatched m' = m_dispatched m"
    by auto
  then show ?thesis by (intro exI [of _ es]) (auto simp: loop_inv_def sim_def same_run_def)
qed

lemma barrier_round_inv:
  assumes ok: "sched_ok tbl (m_workers m)" and tbl: "rd_table (m_current_run m) = Some tbl" and round: "barrier_round e t m = Inr m'"
  shows "\<exists>es. loop_inv tbl m es m'"
proof -
  from round obtain n m1 m2 w m3 where n: "nt_poll (m_net m) = Inr n"
      and m1: "maybe_checkpoint e (m\<lparr>m_net := n, m_now := tk_now t\<rparr>) = Inr m1" and m2: "maybe_termcheck e m1 = Inr m2"
      and m3: "reap_one_task m2 = Inr (w, m3)"
      and more: "(case w of None \<Rightarrow> Inr m3 | Some _ \<Rightarrow> let m = m3\<lparr>m_finished := m_finished m3 + 1\<rparr> in
         rbind (if tk_periodic t then barrier_periodic e m else Inr m) (\<lambda>m.
         if m_dispatched m < int (length (rd_shards (m_current_run m)))
         then rbind (dispatch_work e (m_current_run m) m) (\<lambda>(k, m). Inr (m\<lparr>m_dispatched := m_dispatched m + k\<rparr>))
         else Inr m)) = Inr m'"
    by (auto simp: barrier_round_def rbind_Inr_iff)
  have "quiet m (m\<lparr>m_net := n, m_now := tk_now t\<rparr>)" using nt_poll_pending [OF n] by (simp add: quiet_def runs_sent_def)
  then have "quiet m m2" using maybe_checkpoint_quiet [OF m1] maybe_termcheck_quiet [OF m2] quiet_trans by blast
  then obtain e1 where i1: "loop_inv tbl m e1 m2" using shuffles_quiet shuffles_inv ok by blast
  from reap_sim [OF _ m3, of tbl] loop_inv_ok [OF i1] obtain es where es: "sim tbl m2 es m3" "dispatched es = []"
      "length (finished es) = (if w = None then 0 else 1)" "m_finished m3 = m_finished m2" "m_dispatched m3 = m_dispatched m2"
    by auto
  show ?thesis
  proof (cases w)
    case None
    then have "loop_inv tbl m2 es m'" using es more by (simp add: loop_inv_def)
    then show ?thesis using loop_inv_trans [OF i1] by blast
  next
    case (Some i)
    define m4 where "m4 = m3\<lparr>m_finished := m_finished m3 + 1\<rparr>"
    have i2: "loop_inv tbl m2 es m4" using es Some by (auto simp: loop_inv_def m4_def sim_def same_run_def)
    from more Some obtain m5 where m5: "(if tk_periodic t then barrier_periodic e m4 else Inr m4) = Inr m5"
        and m': "(if m_dispatched m5 < int (length (rd_shards (m_current_run m5)))
         then rbind (dispatch_work e (m_current_run m5) m5) (\<lambda>(k, m). Inr (m\<lparr>m_dispatched := m_dispatched m + k\<rparr>))
         else Inr m5) = Inr m'"
      unfolding m4_def by (auto simp: Let_def rbind_Inr_iff)
    have ok4: "sched_ok tbl (m_workers m4)" using loop_inv_ok [OF i2] by simp
    obtain e3 where i3: "loop_inv tbl m4 e3 m5"
    proof (cases "tk_periodic t")
      case True
      then show ?thesis using m5 barrier_periodic_shuffles [OF ok4] shuffles_inv that by (metis (full_types))
    next
      case False
      then show ?thesis using m5 loop_inv_refl [OF ok4] that by auto
    qed
    have ok5: "sched_ok tbl (m_workers m5)" "rd_table (m_current_run m5) = Some tbl"
      using loop_inv_ok [OF i1] loop_inv_ok [OF i2] loop_inv_ok [OF i3] tbl by simp_all
    have "\<exists>e4. loop_inv tbl m5 e4 m'"
    proof (cases "m_dispatched m5 < int (length (rd_shards (m_current_run m5)))")
      case True
      with m' obtain k m6 where "dispatch_work e (m_current_run m5) m5 = Inr (k, m6)" "m' = m6\<lparr>m_dispatched := m_dispatched m6 + k\<rparr>"
        by (auto simp: rbind_Inr_iff)
      then show ?thesis using dispatch_round_inv [OF ok5] by blast
    next
      case False
      then show ?thesis using m' loop_inv_refl [OF ok5(1)] by auto
    qed
    then obtain e4 where i4: "loop_inv tbl m5 e4 m'" by blast
    show ?thesis using loop_inv_trans [OF loop_inv_trans [OF loop_inv_trans [OF i1 i2] i3] i4] by blast
  qed
qed

section \<open>The whole loop\<close>

lemma barrier_loop_inv:
  assumes "sched_ok tbl (m_workers m)" and "rd_table (m_current_run m) = Some tbl" and "barrier_loop e ts m = Inr (ts', m')"
  shows "\<exists>es. loop_inv tbl m es m' \<and> int (length (rd_shards (m_current_run m))) \<le> m_finished m'"
  using assms
proof (induction ts arbitrary: m)
  case Nil
  from Nil.prems(3) have "\<not> m_finished m < int (length (rd_shards (m_current_run m))) \<and> m' = m"
    by (subst (asm) barrier_loop.simps) (simp split: if_splits)
  then show ?case using loop_inv_refl [OF Nil.prems(1)] by (intro exI [of _ "[]"]) simp
next
  case (Cons t ts)
  show ?case
  proof (cases "m_finished m < int (length (rd_shards (m_current_run m)))")
    case False
    then have "m' = m" using Cons.prems(3) by (subst (asm) barrier_loop.simps) simp
    then show ?thesis using False loop_inv_refl [OF Cons.prems(1)] by (intro exI [of _ "[]"]) simp
  next
    case True
    with Cons.prems(3) obtain m1 where m1: "barrier_round e t m = Inr m1" and loop: "barrier_loop e ts m1 = Inr (ts', m')"
      by (subst (asm) barrier_loop.simps) (auto simp: rbind_Inr_iff simp del: barrier_loop.simps)
    obtain es where es: "loop_inv tbl m es m1" using barrier_round_inv [OF Cons.prems(1,2) m1] by blast
    have "sched_ok tbl (m_workers m1)" "rd_table (m_current_run m1) = Some tbl" using loop_inv_ok [OF es] Cons.prems(2) by simp_all
    from Cons.IH [OF this loop] obtain fs where "loop_inv tbl m1 fs m'" "int (length (rd_shards (m_current_run m1))) \<le> m_finished m'"
      by blast
    then show ?thesis using loop_inv_trans [OF es] loop_inv_ok [OF es] by auto
  qed
qed

text \<open>When the number of finished tasks reaches the number of tasks, all of them are finished.\<close>

lemma pool_all_finished:
  assumes run: "pool_run p es p'" and "fresh p" and fin: "finite (dom p)" and "card (dom p) \<le> length (finished es)"
  shows "length (finished es) = card (dom p)" and "\<And>s i st. p' s = Some (i, st) \<Longrightarrow> st = FINISHED"
proof -
  have dom: "dom p' = dom p" by (rule pool_run_dom [OF run])
  have c: "count (mset (finished es)) s = (case p' s of None \<Rightarrow> 0 | Some (_, st) \<Rightarrow> if st = FINISHED then 1 else 0)" for s
    using pool_run_counts [OF run assms(2), of s] by simp
  have le: "count (mset (finished es)) s \<le> 1" for s by (simp add: c split: option.splits)
  have d: "distinct (finished es)"
    unfolding distinct_count_atmost_1
  proof
    fix s
    show "count (mset (finished es)) s = (if s \<in> set (finished es) then 1 else 0)"
      using le [of s] by (cases "s \<in># mset (finished es)") (auto simp: not_in_iff le_Suc_eq simp flip: count_greater_zero_iff)
  qed
  have mem: "s \<in> set (finished es) \<longleftrightarrow> (\<exists>i. p' s = Some (i, FINISHED))" for s
  proof -
    have "s \<in> set (finished es) \<longleftrightarrow> count (mset (finished es)) s > 0" by (metis count_greater_zero_iff set_mset_mset)
    then show ?thesis by (auto simp only: c split: option.splits if_splits)
  qed
  have sub: "set (finished es) \<subseteq> dom p" using mem dom by blast
  have "card (set (finished es)) = length (finished es)" by (rule distinct_card [OF d])
  then have all: "set (finished es) = dom p" using card_seteq [OF fin sub] assms(4) by simp
  then show "length (finished es) = card (dom p)" using distinct_card [OF d] by simp
  show "st = FINISHED" if "p' s = Some (i, st)" for s i st
    using mem [of s] that all dom by force
qed

text \<open>
  The core of a run: from a state where the tasks of the run have been assigned and none has been
  dispatched, a barrier that returns has sent one request per shard and seen all of them finish.
\<close>

lemma barrier_loop_complete:
  assumes ok: "sched_ok tbl (m_workers m)" and tbl: "rd_table (m_current_run m) = Some tbl"
    and fresh: "fresh p0" and pool: "pool_run p0 es0 (pool_of tbl (m_workers m))" "m_finished m = int (length (finished es0))"
    and dom: "finite (dom p0)" "card (dom p0) = length (rd_shards (m_current_run m))"
    and loop: "barrier_loop e ts m = Inr (ts', m')"
  shows "\<exists>es. loop_inv tbl m es m' \<and> m_finished m' = int (card (dom p0)) \<and>
    distinct (dispatched (es0 @ es)) \<and> set (dispatched (es0 @ es)) = dom p0"
proof -
  obtain es where es: "loop_inv tbl m es m'" "int (length (rd_shards (m_current_run m))) \<le> m_finished m'"
    using barrier_loop_inv [OF ok tbl loop] by blast
  let ?p = "pool_of tbl (m_workers m')"
  have run: "pool_run p0 (es0 @ es) ?p" using es(1) pool(1) pool_run_trans by (auto simp: loop_inv_def sim_def)
  have fin: "m_finished m' = int (length (finished (es0 @ es)))" using es(1) pool(2) by (simp add: loop_inv_def)
  note all = pool_all_finished [OF run fresh dom(1)]
  have le: "card (dom p0) \<le> length (finished (es0 @ es))" using es(2) fin dom(2) by simp
  have "distinct (dispatched (es0 @ es)) \<and> set (dispatched (es0 @ es)) = dom p0"
    using pool_done_once [OF run fresh] all(2) [OF le] by blast
  then show ?thesis using es(1) fin all(1) [OF le] by auto
qed

end
