(* ===== verification/Ownership.thy ===== *)
theory Ownership
  imports Scheduling
begin

text \<open>
  Who serves a shard: after \<^verbatim>\<open>assign_tables\<close> every shard of every table has exactly one owner, the
  shards with one number are together on one worker, and assigning tasks or stealing work keeps it
  that way. On top of this, a run that returns has executed its kernel exactly once on every shard.
\<close>

section \<open>The invariant\<close>

definition owners_ok :: "(int \<times> nat) list \<Rightarrow> WorkerState list \<Rightarrow> bool" where
  "owners_ok tabs ws \<longleftrightarrow> distinct (map fst tabs) \<and> (\<forall>i < length ws. ws_id (ws ! i) = int i \<and> ws_ok (ws ! i)) \<and>
     (\<forall>i < length ws. \<forall>j < length ws. i \<noteq> j \<longrightarrow> set (ws_shards (ws ! i)) \<inter> set (ws_shards (ws ! j)) = {}) \<and>
     (\<forall>i < length ws. \<forall>x \<in> set (ws_shards (ws ! i)). x \<in> tids tabs (tid_shard x) \<and> tids tabs (tid_shard x) \<subseteq> set (ws_shards (ws ! i)))"

definition covered :: "(int \<times> nat) list \<Rightarrow> WorkerState list \<Rightarrow> bool" where
  "covered tabs ws \<longleftrightarrow> (\<forall>(t, k) \<in> set tabs. \<forall>j < k. \<exists>i < length ws. Taskid t (int j) \<in> set (ws_shards (ws ! i)))"

text \<open>Every task is with the worker that serves its shard.\<close>

definition tasks_served :: "WorkerState list \<Rightarrow> bool" where
  "tasks_served ws \<longleftrightarrow> (\<forall>i x t. task_at ws i x = Some t \<longrightarrow> x \<in> set (ws_shards (ws ! i)))"

lemma owners_okD:
  assumes "owners_ok tabs ws" and "i < length ws"
  shows "ws_id (ws ! i) = int i" "ws_ok (ws ! i)"
    "j < length ws \<Longrightarrow> x \<in> set (ws_shards (ws ! i)) \<Longrightarrow> x \<in> set (ws_shards (ws ! j)) \<Longrightarrow> i = j"
    "x \<in> set (ws_shards (ws ! i)) \<Longrightarrow> x \<in> tids tabs (tid_shard x)"
    "x \<in> set (ws_shards (ws ! i)) \<Longrightarrow> y \<in> tids tabs (tid_shard x) \<Longrightarrow> y \<in> set (ws_shards (ws ! i))"
  using assms unfolding owners_ok_def by blast+

lemma tids_shard: "x \<in> tids tabs s \<Longrightarrow> tid_shard x = s"
  by (auto simp: tids_def)

lemma owners_ok_cong:
  assumes "owners_ok tabs ws" and "length ws' = length ws"
    and "\<And>i. i < length ws \<Longrightarrow> ws_id (ws' ! i) = int i \<and> ws_ok (ws' ! i) \<and> set (ws_shards (ws' ! i)) = set (ws_shards (ws ! i))"
  shows "owners_ok tabs ws'"
  using assms unfolding owners_ok_def by (simp cong: conj_cong)

text \<open>Giving a shard number that nobody has to a worker.\<close>

lemma owners_ok_give:
  assumes ok: "owners_ok tabs ws" and b: "b < length ws" and w: "ws_ok w" "ws_id w = int b"
    and sh: "set (ws_shards w) = set (ws_shards (ws ! b)) \<union> tids tabs s"
    and free: "\<And>i. i < length ws \<Longrightarrow> i \<noteq> b \<Longrightarrow> set (ws_shards (ws ! i)) \<inter> tids tabs s = {}"
  shows "owners_ok tabs (ws[b := w])"
proof -
  have sets: "set (ws_shards (ws[b := w] ! i)) = (if i = b then set (ws_shards (ws ! b)) \<union> tids tabs s else set (ws_shards (ws ! i)))"
    if "i < length ws" for i using that b sh by (simp add: nth_list_update)
  show ?thesis
    unfolding owners_ok_def
  proof (intro conjI allI impI ballI)
    show "distinct (map fst tabs)" using ok by (simp add: owners_ok_def)
  next
    fix i assume "i < length (ws[b := w])"
    then show "ws_id (ws[b := w] ! i) = int i" "ws_ok (ws[b := w] ! i)"
      using owners_okD(1,2) [OF ok] w b by (auto simp: nth_list_update)
  next
    fix i j assume "i < length (ws[b := w])" "j < length (ws[b := w])" "i \<noteq> j"
    then show "set (ws_shards (ws[b := w] ! i)) \<inter> set (ws_shards (ws[b := w] ! j)) = {}"
      using owners_okD(3) [OF ok, of i j] owners_okD(3) [OF ok, of j i] free b
      by (simp add: sets) blast
  next
    fix i x assume i: "i < length (ws[b := w])" and x: "x \<in> set (ws_shards (ws[b := w] ! i))"
    show "x \<in> tids tabs (tid_shard x)"
      using i x owners_okD(4) [OF ok, of i x] tids_shard [of x tabs s] b by (auto simp: sets split: if_splits)
    show "tids tabs (tid_shard x) \<subseteq> set (ws_shards (ws[b := w] ! i))"
      using i x owners_okD(5) [OF ok, of i x] tids_shard [of x tabs s] b by (auto simp: sets split: if_splits)
  qed
qed

section \<open>Assigning a worker\<close>

lemma best_worker_Some:
  "best_worker dead ws i best = Some b \<Longrightarrow>
     (\<exists>w. best = Some (b, w)) \<or> (i \<le> b \<and> b < i + length ws \<and> ws_alive dead (ws ! (b - i)))"
proof (induction dead ws i best rule: best_worker.induct)
  case (2 dead w ws i best)
  from 2(1) [OF 2(2) [simplified]] show ?case
    by (auto split: if_splits simp: nth_Cons')
qed auto

lemma best_worker_None:
  "best_worker dead ws i best = None \<Longrightarrow> best = None \<and> (\<forall>w \<in> set ws. \<not> ws_alive dead w)"
proof (induction dead ws i best rule: best_worker.induct)
  case (2 dead w ws i best)
  from 2(1) [OF 2(2) [simplified]] show ?case by (cases best) (simp_all split: if_splits)
qed simp

lemma worker_for_shard_Some:
  "worker_for_shard t s m = Some i \<Longrightarrow> i < length (m_workers m) \<and> Taskid t s \<in> set (ws_shards (m_workers m ! i))"
  by (auto simp: worker_for_shard_def find_Some_iff ws_serves_def)

lemma worker_for_shard_None:
  "worker_for_shard t s m = None \<Longrightarrow> i < length (m_workers m) \<Longrightarrow> Taskid t s \<notin> set (ws_shards (m_workers m ! i))"
  by (auto simp: worker_for_shard_def find_None_iff ws_serves_def)

lemma assign_worker_effect:
  assumes ok: "owners_ok (m_tabs m) (m_workers m)" and t: "(t, k) \<in> set (m_tabs m)" "s < int k"
    and a: "assign_worker e t s m = Inr m'"
  shows "\<exists>i w task. m' = m\<lparr>m_workers := (m_workers m)[i := w]\<rparr> \<and> i < length (m_workers m) \<and>
    owners_ok (m_tabs m) (m_workers m') \<and> Taskid t s \<in> set (ws_shards w) \<and>
    set (ws_shards (m_workers m ! i)) \<subseteq> set (ws_shards w) \<and>
    ts_id task = Taskid t s \<and> ts_status task = PENDING \<and>
    map_of (ws_work w) = (task_at (m_workers m) i)(Taskid t s \<mapsto> task)"
proof -
  from a obtain sz where sz: "m_shard_size t s m = Inr sz" by (auto simp: assign_worker_def rbind_Inr_iff)
  define task where "task = task_new (Taskid t s) sz"
  have task: "ts_id task = Taskid t s" "ts_status task = PENDING" by (simp_all add: task_def task_new_def)
  have tid: "Taskid t s \<in> tids (m_tabs m) s" using t by (auto simp: tids_def)
  let ?ws = "m_workers m"
  show ?thesis
  proof (cases "worker_for_shard t s m")
    case (Some i)
    let ?w = "ws_assign_task task (?ws ! i)"
    have m': "m' = m\<lparr>m_workers := ?ws[i := ?w]\<rparr>"
      using a Some sz by (simp add: assign_worker_def m_upd_worker_def task_def)
    have i: "i < length ?ws" "Taskid t s \<in> set (ws_shards (?ws ! i))" using worker_for_shard_Some [OF Some] by auto
    have w: "ws_ok (?ws ! i)" "ws_id (?ws ! i) = int i" using owners_okD(1,2) [OF ok i(1)] by auto
    have smap: "smap_ok (ws_work (?ws ! i))" using w(1) by (simp add: ws_ok_def)
    have w': "ws_ok ?w" "ws_id ?w = int i" "ws_shards ?w = ws_shards (?ws ! i)"
        "map_of (ws_work ?w) = (task_at ?ws i)(Taskid t s \<mapsto> task)"
      using w(2) i by (simp_all add: ws_ok_assign_task [OF w(1)], simp_all add: ws_assign_task_def map_of_smap_put [OF smap] task task_at_def)
    have "owners_ok (m_tabs m) (?ws[i := ?w])"
      by (rule owners_ok_cong [OF ok]) (use w' i owners_okD(1,2) [OF ok] in \<open>auto simp: nth_list_update\<close>)
    then show ?thesis using m' i w' task by (intro exI [of _ i] exI [of _ ?w] exI [of _ task]) simp
  next
    case None
    with a sz obtain b where b: "best_worker (me_dead_workers e) ?ws 0 None = Some b"
      by (auto simp: assign_worker_def Let_def split: option.splits)
    have b': "b < length ?ws" using best_worker_Some [OF b] by auto
    obtain sh where sh: "ws_assign_shard (m_tabs m) s True (?ws ! b) = Inr ((?ws ! b)\<lparr>ws_shards := sh\<rparr>)"
        "set sh = set (ws_shards (?ws ! b)) \<union> tids (m_tabs m) s"
        "sorted (ws_shards (?ws ! b)) \<and> distinct (ws_shards (?ws ! b)) \<longrightarrow> sorted sh \<and> distinct sh"
      using ws_assign_shard_on [of "m_tabs m" s "?ws ! b"] by blast
    let ?v = "(?ws ! b)\<lparr>ws_shards := sh\<rparr>"
    let ?w = "ws_assign_task task ?v"
    have m': "m' = m\<lparr>m_workers := ?ws[b := ?w]\<rparr>"
      using a None sz b sh(1) by (simp add: assign_worker_def task_def)
    have w: "ws_ok (?ws ! b)" "ws_id (?ws ! b) = int b" using owners_okD(1,2) [OF ok b'] by auto
    have v: "ws_ok ?v" using w(1) sh(3) by (simp add: ws_ok_def)
    have smap: "smap_ok (ws_work ?v)" using v by (simp add: ws_ok_def)
    have w': "ws_ok ?w" "ws_id ?w = int b" "set (ws_shards ?w) = set (ws_shards (?ws ! b)) \<union> tids (m_tabs m) s"
        "map_of (ws_work ?w) = (task_at ?ws b)(Taskid t s \<mapsto> task)"
      using w(2) b' sh(2) smap by (simp_all add: ws_ok_assign_task [OF v], simp_all add: ws_assign_task_def map_of_smap_put task task_at_def)
    have free: "set (ws_shards (?ws ! i)) \<inter> tids (m_tabs m) s = {}" if "i < length ?ws" for i
      using worker_for_shard_None [OF None that] owners_okD(5) [OF ok that] tid tids_shard by (metis disjoint_iff)
    have "owners_ok (m_tabs m) (?ws[b := ?w])"
      by (rule owners_ok_give [OF ok b' w'(1-3)]) (rule free)
    then show ?thesis using m' b' w' task tid by (intro exI [of _ b] exI [of _ ?w] exI [of _ task]) simp
  qed
qed

text \<open>The tables the master knows have a partition and a record of it for every shard.\<close>

definition tables_ok :: "('k, 'v, 'd, 'p) Master \<Rightarrow> bool" where
  "tables_ok m \<longleftrightarrow> distinct (map fst (m_tables m)) \<and>
     (\<forall>(i, te, g) \<in> set (m_tables m). length (gt_partinfo g) = ge_num_shards te \<and> length (gt_partitions g) = ge_num_shards te)"

definition some_alive :: "'p menv \<Rightarrow> WorkerState list \<Rightarrow> bool" where
  "some_alive e ws \<longleftrightarrow> (\<exists>w \<in> set ws. ws_alive (me_dead_workers e) w)"

lemma m_shard_size_total:
  assumes "tables_ok m" and "(t, k) \<in> set (m_tabs m)" and "0 \<le> s" "s < int k"
  shows "\<exists>sz. m_shard_size t s m = Inr sz"
proof -
  from assms(2) obtain te g where g: "(t, te, g) \<in> set (m_tables m)" "ge_num_shards te = k" by (auto simp: m_tabs_def)
  then have "map_of (m_tables m) t = Some (te, g)" using assms(1) by (simp add: tables_ok_def)
  moreover have "length (gt_partinfo g) = k" "length (gt_partitions g) = k" using assms(1) g by (auto simp: tables_ok_def)
  ultimately show ?thesis using assms(3,4)
    by (auto simp: m_shard_size_def tr_index_def gt_shard_size_def gt_is_local_shard_def gt_owner_def vec_at_def split: option.splits)
qed

lemma assign_worker_total:
  assumes "tables_ok m" "some_alive e (m_workers m)" "(t, k) \<in> set (m_tabs m)" "0 \<le> s" "s < int k"
  shows "\<exists>m'. assign_worker e t s m = Inr m'"
proof -
  obtain sz where sz: "m_shard_size t s m = Inr sz" using m_shard_size_total [OF assms(1,3,4,5)] by blast
  have "best_worker (me_dead_workers e) (m_workers m) 0 None \<noteq> None"
    using best_worker_None [of "me_dead_workers e" "m_workers m" 0 None] assms(2) by (auto simp: some_alive_def)
  then obtain b where b: "best_worker (me_dead_workers e) (m_workers m) 0 None = Some b" by blast
  obtain w where "ws_assign_shard (m_tabs m) s True (m_workers m ! b) = Inr w"
    using ws_assign_shard_on [of "m_tabs m" s "m_workers m ! b"] by blast
  with sz b show ?thesis by (cases "worker_for_shard t s m") (simp_all add: assign_worker_def)
qed

lemma m_workers_frame [simp]: "m_tabs (m\<lparr>m_workers := ws\<rparr>) = m_tabs m" "tables_ok (m\<lparr>m_workers := ws\<rparr>) = tables_ok m"
  by (simp_all add: m_tabs_def tables_ok_def)

lemma bex_nth: "(\<exists>x \<in> set xs. P x) \<longleftrightarrow> (\<exists>i < length xs. P (xs ! i))"
  by (metis in_set_conv_nth)

lemma some_alive_ids:
  assumes "owners_ok tabs ws" "owners_ok tabs ws'" "length ws' = length ws"
  shows "some_alive e ws' = some_alive e ws"
proof -
  have "ws_alive d (ws' ! i) = ws_alive d (ws ! i)" if "i < length ws" for i d
    using owners_okD(1) [OF assms(1) that] owners_okD(1) [OF assms(2)] that assms(3) by (simp add: ws_alive_def)
  then show ?thesis by (simp add: some_alive_def bex_nth assms(3) cong: conj_cong)
qed

text \<open>Assigning a list of tasks, of one or several tables.\<close>

definition served_in :: "WorkerState list \<Rightarrow> Taskid \<Rightarrow> bool" where
  "served_in ws x \<longleftrightarrow> (\<exists>i < length ws. x \<in> set (ws_shards (ws ! i)))"

lemma assign_list_effect:
  assumes "owners_ok (m_tabs m) (m_workers m)" "tables_ok m" "some_alive e (m_workers m)"
    and "\<forall>(t, s) \<in> set xs. 0 \<le> s \<and> (\<exists>k. (t, k) \<in> set (m_tabs m) \<and> s < int k)"
  shows "\<exists>ws. rfold (\<lambda>(t, s). assign_worker e t s) xs m = Inr (m\<lparr>m_workers := ws\<rparr>) \<and> owners_ok (m_tabs m) ws \<and>
    length ws = length (m_workers m) \<and> (\<forall>x. served_in (m_workers m) x \<longrightarrow> served_in ws x) \<and>
    (\<forall>(t, s) \<in> set xs. served_in ws (Taskid t s))"
  using assms
proof (induction xs arbitrary: m)
  case Nil
  then show ?case by (intro exI [of _ "m_workers m"]) simp
next
  case (Cons p xs)
  obtain t s where p: "p = (t, s)" by (cases p)
  then obtain k where k: "(t, k) \<in> set (m_tabs m)" "0 \<le> s" "s < int k" using Cons.prems(4) by auto
  obtain m1 where m1: "assign_worker e t s m = Inr m1" using assign_worker_total [OF Cons.prems(2,3) k] by blast
  obtain i w where m1_eq: "m1 = m\<lparr>m_workers := (m_workers m)[i := w]\<rparr>" and i: "i < length (m_workers m)"
      and ok1: "owners_ok (m_tabs m) (m_workers m1)" and w: "Taskid t s \<in> set (ws_shards w)" "set (ws_shards (m_workers m ! i)) \<subseteq> set (ws_shards w)"
    using assign_worker_effect [OF Cons.prems(1) k(1,3) m1] by blast
  let ?ws = "(m_workers m)[i := w]"
  have mono: "served_in (m_workers m) x \<Longrightarrow> served_in ?ws x" for x
    using i w(2) by (auto simp: served_in_def nth_list_update)
  have "served_in ?ws (Taskid t s)" using i w(1) by (auto simp: served_in_def intro!: exI [of _ i])
  moreover have "some_alive e ?ws"
    using some_alive_ids [OF Cons.prems(1), of ?ws e] ok1 m1_eq Cons.prems(3) by simp
  then obtain ws where ws: "rfold (\<lambda>(t, s). assign_worker e t s) xs m1 = Inr (m1\<lparr>m_workers := ws\<rparr>)" "owners_ok (m_tabs m1) ws"
      "length ws = length (m_workers m1)" "\<forall>x. served_in (m_workers m1) x \<longrightarrow> served_in ws x" "\<forall>(t, s) \<in> set xs. served_in ws (Taskid t s)"
    using Cons.IH [of m1] Cons.prems(2,4) ok1 m1_eq by auto
  ultimately show ?case using m1 mono by (intro exI [of _ ws]) (auto simp: p m1_eq)
qed

section \<open>All shards have an owner\<close>

definition all_pairs :: "(int \<times> nat) list \<Rightarrow> (int \<times> int) list" where
  "all_pairs tabs = concat (map (\<lambda>(i, k). map (\<lambda>j. (i, int j)) [0..<k]) tabs)"

lemma assign_tables_list:
  fixes m :: "('k, 'v, 'd, 'p) Master"
  shows "assign_tables e m = rfold (\<lambda>(t, s). assign_worker e t s) (all_pairs (m_tabs m)) (m\<lparr>m_shards_assigned := True\<rparr>)"
proof -
  have "(\<lambda>(i, k). rfold (\<lambda>j. assign_worker e i (int j) :: ('k, 'v, 'd, 'p) Master \<Rightarrow> _) [0..<k]) =
      (\<lambda>x. rfold (\<lambda>(t, s). assign_worker e t s) ((\<lambda>(i, k). map (\<lambda>j. (i, int j)) [0..<k]) x))"
    by (simp add: fun_eq_iff rfold_map)
  then show ?thesis unfolding assign_tables_def all_pairs_def by (simp only: rfold_concat)
qed

text \<open>
  C20: every shard gets exactly one owner. On a master whose workers serve nothing yet, with a live worker
  and well-formed tables, \<^verbatim>\<open>assign_tables\<close> succeeds; afterwards every shard of every registered table is
  served by one and only one worker, and all shards with the same number, of whatever table, are on
  the same worker.
\<close>

theorem assign_tables_partition:
  assumes "tables_ok m" and "some_alive e (m_workers m)"
    and "\<And>i. i < length (m_workers m) \<Longrightarrow> ws_id (m_workers m ! i) = int i \<and> ws_ok (m_workers m ! i) \<and> ws_shards (m_workers m ! i) = []"
  shows "\<exists>m'. assign_tables e m = Inr m' \<and> m_shards_assigned m' \<and>
    (\<forall>(t, k) \<in> set (m_tabs m). \<forall>j < k. \<exists>!i. i < length (m_workers m') \<and> ws_serves (Taskid t (int j)) (m_workers m' ! i)) \<and>
    (\<forall>i t t' s. i < length (m_workers m') \<longrightarrow> ws_serves (Taskid t s) (m_workers m' ! i) \<longrightarrow>
       Taskid t' s \<in> tids (m_tabs m) s \<longrightarrow> ws_serves (Taskid t' s) (m_workers m' ! i))"
proof -
  let ?m = "m\<lparr>m_shards_assigned := True\<rparr>"
  have tabs: "m_tabs ?m = m_tabs m" "tables_ok ?m = tables_ok m" by (simp_all add: m_tabs_def tables_ok_def)
  have "map fst (m_tabs m) = map fst (m_tables m)" by (simp add: m_tabs_def case_prod_beta comp_def)
  then have d: "distinct (map fst (m_tabs m))" using assms(1) by (simp add: tables_ok_def)
  have ok: "owners_ok (m_tabs m) (m_workers m)" using assms(3) d by (simp add: owners_ok_def)
  have xs: "\<forall>(t, s) \<in> set (all_pairs (m_tabs m)). 0 \<le> s \<and> (\<exists>k. (t, k) \<in> set (m_tabs m) \<and> s < int k)"
    by (auto simp: all_pairs_def)
  from assign_list_effect [of ?m e, OF _ _ _ xs [folded tabs(1)]] ok assms(1,2)
  obtain ws where ws: "assign_tables e m = Inr (?m\<lparr>m_workers := ws\<rparr>)" "owners_ok (m_tabs m) ws"
      "\<forall>(t, s) \<in> set (all_pairs (m_tabs m)). served_in ws (Taskid t s)"
    by (auto simp: tabs assign_tables_list)
  have "\<exists>!i. i < length ws \<and> ws_serves (Taskid t (int j)) (ws ! i)" if "(t, k) \<in> set (m_tabs m)" "j < k" for t k j
  proof -
    have "(t, int j) \<in> set (all_pairs (m_tabs m))" using that by (force simp: all_pairs_def)
    then have "served_in ws (Taskid t (int j))" using ws(3) by auto
    then show ?thesis using owners_okD(3) [OF ws(2)] by (auto simp: served_in_def ws_serves_def)
  qed
  moreover have "ws_serves (Taskid t' s) (ws ! i)" if "i < length ws" "ws_serves (Taskid t s) (ws ! i)" "Taskid t' s \<in> tids (m_tabs m) s" for i t t' s
    using owners_okD(5) [OF ws(2) that(1)] that(2,3) by (auto simp: ws_serves_def)
  ultimately have "(\<forall>(t, k) \<in> set (m_tabs m). \<forall>j < k. \<exists>!i. i < length ws \<and> ws_serves (Taskid t (int j)) (ws ! i)) \<and>
      (\<forall>i t t' s. i < length ws \<longrightarrow> ws_serves (Taskid t s) (ws ! i) \<longrightarrow> Taskid t' s \<in> tids (m_tabs m) s \<longrightarrow> ws_serves (Taskid t' s) (ws ! i))"
    by blast
  then show ?thesis using ws(1) by (intro exI [of _ "?m\<lparr>m_workers := ws\<rparr>"]) simp
qed

section \<open>Stealing keeps the owners\<close>

lemma owners_ok_move:
  assumes ok: "owners_ok tabs ws" and ij: "src < length ws" "dst < length ws" "src \<noteq> dst" and len: "length ws' = length ws"
    and own: "tids tabs s \<subseteq> set (ws_shards (ws ! src))"
    and base: "\<And>i. i < length ws \<Longrightarrow> ws_id (ws' ! i) = int i \<and> ws_ok (ws' ! i)"
    and sets: "\<And>i. i < length ws \<Longrightarrow> set (ws_shards (ws' ! i)) = (if i = dst then set (ws_shards (ws ! dst)) \<union> tids tabs s
      else if i = src then set (ws_shards (ws ! src)) - tids tabs s else set (ws_shards (ws ! i)))"
  shows "owners_ok tabs ws'" and "served_in ws' x = served_in ws x"
proof -
  have dj: "i = j" if "i < length ws" "j < length ws" "y \<in> set (ws_shards (ws ! i))" "y \<in> set (ws_shards (ws ! j))" for i j y
    using owners_okD(3) [OF ok] that by blast
  have only: "y \<in> tids tabs s \<Longrightarrow> i < length ws \<Longrightarrow> y \<in> set (ws_shards (ws ! i)) \<Longrightarrow> i = src" for y i
    using dj [of i src y] ij(1) own by blast
  show "owners_ok tabs ws'"
    unfolding owners_ok_def len
  proof (intro conjI allI impI ballI)
    show "distinct (map fst tabs)" using ok by (simp add: owners_ok_def)
  next
    fix i assume "i < length ws"
    then show "ws_id (ws' ! i) = int i" "ws_ok (ws' ! i)" using base by blast+
  next
    fix i j assume "i < length ws" "j < length ws" "i \<noteq> j"
    then show "set (ws_shards (ws' ! i)) \<inter> set (ws_shards (ws' ! j)) = {}"
      using dj [of i j] only [of _ i] only [of _ j] ij dj [of j i] by (auto simp: sets split: if_splits)
  next
    fix i y assume i: "i < length ws" and y: "y \<in> set (ws_shards (ws' ! i))"
    have cases: "y \<in> tids tabs s \<or> (y \<in> set (ws_shards (ws ! i)) \<and> y \<notin> tids tabs s)"
      using y i by (auto simp: sets split: if_splits)
    show "y \<in> tids tabs (tid_shard y)" using cases tids_shard [of y tabs s] owners_okD(4) [OF ok i, of y] by auto
    show "tids tabs (tid_shard y) \<subseteq> set (ws_shards (ws' ! i))"
    proof (cases "y \<in> tids tabs s")
      case True
      then have "i = dst" using y i only [OF True i] by (auto simp: sets split: if_splits)
      then show ?thesis using True tids_shard [OF True] i by (simp add: sets)
    next
      case False
      then have yi: "y \<in> set (ws_shards (ws ! i))" using cases by blast
      have "tid_shard y \<noteq> s" using False owners_okD(4) [OF ok i yi] by auto
      then have "z \<notin> tids tabs s" if "z \<in> tids tabs (tid_shard y)" for z using tids_shard that by metis
      then show ?thesis using owners_okD(5) [OF ok i yi] i by (auto simp: sets)
    qed
  qed
  show "served_in ws' x = served_in ws x"
  proof
    assume "served_in ws' x"
    then obtain i where "i < length ws" "x \<in> set (ws_shards (ws' ! i))" by (auto simp: served_in_def len)
    then show "served_in ws x" using own ij by (auto simp: served_in_def sets split: if_splits)
  next
    assume "served_in ws x"
    then obtain i where i: "i < length ws" "x \<in> set (ws_shards (ws ! i))" by (auto simp: served_in_def)
    show "served_in ws' x"
    proof (cases "x \<in> tids tabs s")
      case True
      then show ?thesis using ij(2) by (auto simp: served_in_def len sets intro!: exI [of _ dst])
    next
      case False
      then show ?thesis using i by (auto simp: served_in_def len sets intro!: exI [of _ i])
    qed
  qed
qed

lemma move_task_owners:
  assumes ok: "owners_ok (m_tabs m) (m_workers m)" and ij: "src < length (m_workers m)" "dst < length (m_workers m)" "src \<noteq> dst"
    and task: "task_at (m_workers m) src (ts_id task) = Some task" and served: "ts_id task \<in> set (ws_shards (m_workers m ! src))"
  shows "\<exists>ws. move_task src dst task m = Inr (m\<lparr>m_workers := ws\<rparr>) \<and> owners_ok (m_tabs m) ws \<and> length ws = length (m_workers m) \<and>
    (\<forall>x. served_in ws x = served_in (m_workers m) x) \<and>
    (\<forall>i < length ws. set (ws_shards (ws ! i)) = (if i = dst then set (ws_shards (m_workers m ! dst)) \<union> tids (m_tabs m) (tid_shard (ts_id task))
      else if i = src then set (ws_shards (m_workers m ! src)) - tids (m_tabs m) (tid_shard (ts_id task)) else set (ws_shards (m_workers m ! i)))) \<and>
    (\<forall>i x. task_at ws i x = (if x = ts_id task \<and> i = dst then Some (task\<lparr>ts_stolen := True\<rparr>)
       else if x = ts_id task \<and> i = src then None else task_at (m_workers m) i x))"
proof -
  let ?ws = "m_workers m" and ?s = "tid_shard (ts_id task)"
  define X where "X = tids (m_tabs m) ?s"
  define task' where "task' = task\<lparr>ts_stolen := True\<rparr>"
  have X: "X \<subseteq> set (ws_shards (?ws ! src))" using owners_okD(5) [OF ok ij(1) served] by (auto simp: X_def)
  have wok: "ws_ok (?ws ! src)" "ws_ok (?ws ! dst)" "ws_id (?ws ! src) = int src" "ws_id (?ws ! dst) = int dst"
    using owners_okD(1,2) [OF ok ij(1)] owners_okD(1,2) [OF ok ij(2)] by auto
  obtain d where d: "ws_assign_shard (m_tabs m) ?s True (?ws ! dst) = Inr ((?ws ! dst)\<lparr>ws_shards := d\<rparr>)"
      "set d = set (ws_shards (?ws ! dst)) \<union> X" "sorted d" "distinct d"
    using ws_assign_shard_on [of "m_tabs m" ?s "?ws ! dst"] wok(2) by (auto simp: X_def ws_ok_def)
  obtain s' where s': "ws_assign_shard (m_tabs m) ?s False (?ws ! src) = Inr ((?ws ! src)\<lparr>ws_shards := s'\<rparr>)"
      "set s' = set (ws_shards (?ws ! src)) - X" "sorted s'" "distinct s'"
    using ws_assign_shard_off [of "m_tabs m" ?s "?ws ! src"] ok X wok(1) by (auto simp: X_def ws_ok_def owners_ok_def)
  have look: "map_of (ws_work (?ws ! src)) (ts_id task) = Some task" using task ij(1) by (simp add: task_at_def)
  define S where "S = (?ws ! src)\<lparr>ws_shards := s', ws_work := smap_erase (ts_id task) (ws_work (?ws ! src))\<rparr>"
  define D where "D = ws_assign_task task' ((?ws ! dst)\<lparr>ws_shards := d\<rparr>)"
  define ws where "ws = ?ws[dst := D, src := S]"
  have move: "move_task src dst task m = Inr (m\<lparr>m_workers := ws\<rparr>)"
    using ij d(1) s'(1) look
    by (simp add: move_task_def Let_def ws_remove_task_def task'_def S_def D_def ws_def nth_list_update list_update_swap)
  have Dv: "ws_ok ((?ws ! dst)\<lparr>ws_shards := d\<rparr>)" using wok(2) d(3,4) by (simp add: ws_ok_def)
  have SD: "ws_ok S" "ws_ok D" "ws_id S = int src" "ws_id D = int dst" "ws_shards S = s'" "ws_shards D = d"
    using wok s'(3,4) by (simp_all add: S_def D_def ws_ok_assign_task [OF Dv], simp_all add: ws_assign_task_def ws_ok_def smap_ok_erase)
       (auto simp: smap_erase_def)
  have nth: "ws ! i = (if i = src then S else if i = dst then D else ?ws ! i)" if "i < length ?ws" for i
    using that ij by (simp add: ws_def nth_list_update)
  have len: "length ws = length ?ws" by (simp add: ws_def)
  have base: "ws_id (ws ! i) = int i \<and> ws_ok (ws ! i)" if "i < length ?ws" for i
    using owners_okD(1,2) [OF ok that] SD by (simp add: nth [OF that])
  have sets: "set (ws_shards (ws ! i)) = (if i = dst then set (ws_shards (?ws ! dst)) \<union> tids (m_tabs m) ?s
      else if i = src then set (ws_shards (?ws ! src)) - tids (m_tabs m) ?s else set (ws_shards (?ws ! i)))" if "i < length ?ws" for i
    using SD(5,6) d(2) s'(2) ij(3) by (simp add: nth [OF that] X_def)
  have smap: "smap_ok (ws_work (?ws ! src))" "smap_ok (ws_work (?ws ! dst))" using wok by (simp_all add: ws_ok_def)
  have at_S: "map_of (ws_work S) x = (if x = ts_id task then None else map_of (ws_work (?ws ! src)) x)" for x
    by (simp add: S_def map_of_smap_erase)
  have at_D: "map_of (ws_work D) x = (if x = ts_id task then Some task' else map_of (ws_work (?ws ! dst)) x)" for x
    by (simp add: D_def ws_assign_task_def map_of_smap_put [OF smap(2)] task'_def)
  have at': "task_at ws i x = (if x = ts_id task \<and> i = dst then Some task' else if x = ts_id task \<and> i = src then None else task_at ?ws i x)" for i x
    using ij by (simp add: task_at_def len nth at_S at_D)
  note res = owners_ok_move [OF ok ij len X [unfolded X_def] base sets]
  show ?thesis using move res len sets at' by (intro exI [of _ ws]) (simp add: task'_def)
qed

lemma average_shard_size_total:
  assumes "tables_ok m" and "map_of (m_tables m) t \<noteq> None"
  shows "\<exists>a. average_shard_size t m = Inr a"
proof -
  from assms(2) obtain te g where g: "map_of (m_tables m) t = Some (te, g)" by auto
  then have "length (gt_partinfo g) = ge_num_shards te" "length (gt_partitions g) = ge_num_shards te"
    using assms(1) map_of_SomeD [OF g] by (auto simp: tables_ok_def)
  then have sz: "\<exists>k. gt_shard_size te (int i) g = Inr k" if "i < ge_num_shards te" for i
    using that by (auto simp: gt_shard_size_def gt_is_local_shard_def gt_owner_def vec_at_def split: option.splits)
  have "\<exists>a. rfold (\<lambda>i s. rbind (gt_shard_size te (int i) g) (\<lambda>k. Inr (s + of_int k))) is x = Inr a"
    if "\<forall>i \<in> set is. i < ge_num_shards te" for "is" and x :: rat
    using that
  proof (induction "is" arbitrary: x)
    case (Cons i "is")
    then have "i < ge_num_shards te" by simp
    from sz [OF this] obtain k where "gt_shard_size te (int i) g = Inr k" by blast
    with Cons show ?case by simp
  qed simp
  then obtain a where "rfold (\<lambda>i s. rbind (gt_shard_size te (int i) g) (\<lambda>k. Inr (s + of_int k))) [0..<ge_num_shards te] (0::rat) = Inr a"
    by (metis atLeastLessThan_iff set_upt)
  then show ?thesis by (simp add: average_shard_size_def tr_index_def g)
qed

lemma steal_work_owners:
  assumes ok: "owners_ok (m_tabs m) (m_workers m)" and sched: "sched_ok tbl (m_workers m)" and srv: "tasks_served (m_workers m)"
    and tab: "tables_ok m" "rd_table r = Some t" "map_of (m_tables m) t \<noteq> None"
    and dst: "dst < length (m_workers m)" "ws_num PENDING (m_workers m ! dst) = 0"
  shows "\<exists>b ws. steal_work e r dst avg m = Inr (b, m\<lparr>m_workers := ws\<rparr>) \<and> owners_ok (m_tabs m) ws \<and>
    length ws = length (m_workers m) \<and> tasks_served ws \<and> (\<forall>x. served_in ws x = served_in (m_workers m) x)"
proof -
  let ?ws = "m_workers m"
  have keep: "\<exists>ws. m = m\<lparr>m_workers := ws\<rparr> \<and> owners_ok (m_tabs m) ws \<and> length ws = length ?ws \<and> tasks_served ws \<and> (\<forall>x. served_in ws x = served_in ?ws x)"
    using ok srv by (intro exI [of _ ?ws]) simp
  obtain src where src: "busiest ?ws = Some src" using dst(1) by (cases "busiest ?ws") (auto simp: busiest_def)
  have src': "src < length ?ws" using max_element_in [OF src [unfolded busiest_def]] by simp
  obtain a where a: "average_shard_size t m = Inr a" using average_shard_size_total [OF tab(1,3)] by blast
  show ?thesis
  proof (cases "ws_num PENDING (?ws ! src) = 0")
    case True
    then show ?thesis using keep src by (auto simp: steal_work_def)
  next
    case False
    then obtain task where task: "max_element WeightCompare (ws_tasks PENDING (?ws ! src)) = Some task"
      by (cases "max_element WeightCompare (ws_tasks PENDING (?ws ! src))") (simp_all add: ws_num_tasks)
    note tk = ws_tasks_lookup [OF owners_okD(2) [OF ok src'] max_element_in [OF task]]
    have at_t: "task_at ?ws src (ts_id task) = Some task" using tk(1) src' by (simp add: task_at_def)
    have "src \<noteq> dst" using False dst(2) by auto
    moreover have "ts_id task \<in> set (ws_shards (?ws ! src))" using srv at_t by (auto simp: tasks_served_def)
    ultimately obtain ws where ws: "move_task src dst task m = Inr (m\<lparr>m_workers := ws\<rparr>)" "owners_ok (m_tabs m) ws" "length ws = length ?ws"
        "\<forall>x. served_in ws x = served_in ?ws x"
        "\<forall>i < length ws. set (ws_shards (ws ! i)) = (if i = dst then set (ws_shards (?ws ! dst)) \<union> tids (m_tabs m) (tid_shard (ts_id task))
          else if i = src then set (ws_shards (?ws ! src)) - tids (m_tabs m) (tid_shard (ts_id task)) else set (ws_shards (?ws ! i)))"
        "\<forall>i x. task_at ws i x = (if x = ts_id task \<and> i = dst then Some (task\<lparr>ts_stolen := True\<rparr>)
           else if x = ts_id task \<and> i = src then None else task_at ?ws i x)"
      using move_task_owners [OF ok src' dst(1) _ at_t] by blast
    have "tasks_served ws"
      unfolding tasks_served_def
    proof (intro allI impI)
      fix i x u assume u: "task_at ws i x = Some u"
      then have i: "i < length ws" by (simp add: task_at_def split: if_splits)
      have own: "ts_id task \<in> tids (m_tabs m) (tid_shard (ts_id task))"
        using owners_okD(4) [OF ok src'] srv at_t by (auto simp: tasks_served_def)
      show "x \<in> set (ws_shards (ws ! i))"
      proof (cases "x = ts_id task")
        case True
        then have "i = dst" using u ws(6) sched_okD(4) [OF sched at_t] by (auto split: if_splits)
        then show ?thesis using True own i ws(5) by simp
      next
        case False
        then have at_x: "task_at ?ws i x = Some u" using u ws(6) by simp
        then have "x \<in> set (ws_shards (?ws ! i))" using srv by (auto simp: tasks_served_def)
        moreover have "x \<notin> tids (m_tabs m) (tid_shard (ts_id task))"
          using False tids_shard sched_okD(3) [OF sched at_x] sched_okD(3) [OF sched at_t] by (metis Taskid.expand)
        ultimately show ?thesis using ws(5) i by auto
      qed
    qed
    with ws have moved: "\<exists>ws. move_task src dst task m = Inr (m\<lparr>m_workers := ws\<rparr>) \<and> owners_ok (m_tabs m) ws \<and> length ws = length ?ws \<and>
      tasks_served ws \<and> (\<forall>x. served_in ws x = served_in ?ws x)" by blast
    show ?thesis
      using keep moved False src task a tab(2)
      by (auto simp: steal_work_def Let_def rd_table_id_def)
  qed
qed

text \<open>
  C21: stealing work moves a shard, it never loses or doubles one. For an idle worker (no pending task) on a
  master whose shards each have at most one owner and whose tasks are with their owners, \<^verbatim>\<open>steal_work\<close>
  returns without undefined behaviour, the same shards are served as before, each still by one worker,
  and every task is again with the worker that serves its shard.
\<close>

theorem steal_work_keeps_owners:
  assumes ok: "owners_ok (m_tabs m) (m_workers m)" and sched: "sched_ok tbl (m_workers m)" and srv: "tasks_served (m_workers m)"
    and tab: "tables_ok m" "rd_table r = Some t" "map_of (m_tables m) t \<noteq> None"
    and dst: "dst < length (m_workers m)" "ws_num PENDING (m_workers m ! dst) = 0"
  shows "\<exists>b ws. steal_work e r dst avg m = Inr (b, m\<lparr>m_workers := ws\<rparr>) \<and> owners_ok (m_tabs m) ws \<and>
    length ws = length (m_workers m) \<and> tasks_served ws \<and> (\<forall>x. served_in ws x = served_in (m_workers m) x)"
  using assms by (rule steal_work_owners)

section \<open>Assigning the tasks of a run\<close>

text \<open>The tasks of a run on table \<open>tbl\<close> that have been assigned so far, for the shards in \<open>S\<close>.\<close>

definition tasks_for :: "int \<Rightarrow> int set \<Rightarrow> WorkerState list \<Rightarrow> bool" where
  "tasks_for tbl S ws \<longleftrightarrow> (\<forall>i x t. task_at ws i x = Some t \<longrightarrow> tid_table x = tbl \<and> ts_status t = PENDING \<and> x \<in> set (ws_shards (ws ! i))) \<and>
     (\<forall>s. (\<exists>i t. task_at ws i (Taskid tbl s) = Some t) \<longleftrightarrow> s \<in> S)"

lemma tasks_for_sched:
  assumes ok: "owners_ok tabs ws" and tf: "tasks_for tbl S ws"
  shows "sched_ok tbl ws" "tasks_served ws" "fresh (pool_of tbl ws)" "dom (pool_of tbl ws) = S"
proof -
  have range: "task_at ws i x = Some t \<Longrightarrow> i < length ws" for i x t by (simp add: task_at_def split: if_splits)
  have served: "task_at ws i x = Some t \<Longrightarrow> x \<in> set (ws_shards (ws ! i))" for i x t using tf unfolding tasks_for_def by blast
  have uniq: "i = j" if "task_at ws i x = Some t" "task_at ws j x = Some u" for i j x t u
    using owners_okD(3) [OF ok range [OF that(1)] range [OF that(2)]] served [OF that(1)] served [OF that(2)] by blast
  show sched: "sched_ok tbl ws"
    unfolding sched_ok_def
  proof (intro conjI allI impI ballI)
    fix w assume "w \<in> set ws"
    then show "ws_ok w" using owners_okD(2) [OF ok] by (metis in_set_conv_nth)
  next
    fix i assume "i < length ws"
    then show "ws_id (ws ! i) = int i" using owners_okD(1) [OF ok] by blast
  next
    fix i x t assume "task_at ws i x = Some t"
    then show "tid_table x = tbl" using tf unfolding tasks_for_def by blast
  next
    fix i j x assume "task_at ws i x \<noteq> None" "task_at ws j x \<noteq> None"
    then show "i = j" using uniq by blast
  qed
  show "tasks_served ws" using served by (simp add: tasks_served_def)
  show "fresh (pool_of tbl ws)" using tf by (auto simp: fresh_def pool_of_iff [OF sched] tasks_for_def)
  show "dom (pool_of tbl ws) = S"
    using tf by (auto simp: dom_def pool_of_iff [OF sched] tasks_for_def)
qed

lemma assign_tasks_list:
  assumes "owners_ok (m_tabs m) (m_workers m)" and "tasks_for tbl S (m_workers m)" and "rd_table r = Some tbl"
    and "(tbl, k) \<in> set (m_tabs m)" and "\<forall>s \<in> set ss. s < int k"
    and "rfold (\<lambda>s m. rbind (rd_table_id r) (\<lambda>t. assign_worker e t s m)) ss m = Inr m'"
  shows "\<exists>ws. m' = m\<lparr>m_workers := ws\<rparr> \<and> owners_ok (m_tabs m) ws \<and> length ws = length (m_workers m) \<and> tasks_for tbl (S \<union> set ss) ws"
  using assms
proof (induction ss arbitrary: m S)
  case Nil
  then show ?case by (intro exI [of _ "m_workers m"]) simp
next
  case (Cons s ss)
  from Cons.prems(3,6) obtain m1 where m1: "assign_worker e tbl s m = Inr m1"
      and rest: "rfold (\<lambda>s m. rbind (rd_table_id r) (\<lambda>t. assign_worker e t s m)) ss m1 = Inr m'"
    by (auto simp: rbind_Inr_iff rd_table_id_def)
  obtain i w task where m1_eq: "m1 = m\<lparr>m_workers := (m_workers m)[i := w]\<rparr>" and i: "i < length (m_workers m)"
      and ok1: "owners_ok (m_tabs m) (m_workers m1)" and w: "Taskid tbl s \<in> set (ws_shards w)" "set (ws_shards (m_workers m ! i)) \<subseteq> set (ws_shards w)"
      and task: "ts_status task = PENDING" and work: "map_of (ws_work w) = (task_at (m_workers m) i)(Taskid tbl s \<mapsto> task)"
    using assign_worker_effect [OF Cons.prems(1,4) _ m1] Cons.prems(5) by auto
  let ?ws = "(m_workers m)[i := w]"
  have at': "task_at ?ws j x = (if j = i \<and> x = Taskid tbl s then Some task else task_at (m_workers m) j x)" for j x
    using i work by (auto simp: task_at_update)
  have sh: "set (ws_shards (m_workers m ! j)) \<subseteq> set (ws_shards (?ws ! j))" "Taskid tbl s \<in> set (ws_shards (?ws ! i))" for j
    using i w by (cases "j = i"; simp)+
  have "tasks_for tbl (insert s S) ?ws"
    unfolding tasks_for_def
  proof (intro conjI allI impI)
    fix j x t assume "task_at ?ws j x = Some t"
    then show "tid_table x = tbl" "ts_status t = PENDING" "x \<in> set (ws_shards (?ws ! j))"
      using Cons.prems(2) task sh unfolding tasks_for_def by (auto simp: at' split: if_splits) blast+
  next
    fix s'
    show "(\<exists>j t. task_at ?ws j (Taskid tbl s') = Some t) = (s' \<in> insert s S)"
      using Cons.prems(2) unfolding tasks_for_def by (cases "s' = s") (auto simp: at')
  qed
  then show ?case using Cons.IH [of m1 "insert s S"] ok1 rest Cons.prems(3-5) m1_eq by auto
qed

lemma assign_tasks_effect:
  assumes ok: "owners_ok (m_tabs m) (m_workers m)" and "rd_table r = Some tbl"
    and "(tbl, k) \<in> set (m_tabs m)" and "\<forall>s \<in> set ss. s < int k" and a: "assign_tasks e r ss m = Inr m'"
  shows "\<exists>ws. m' = m\<lparr>m_workers := ws\<rparr> \<and> owners_ok (m_tabs m) ws \<and> length ws = length (m_workers m) \<and> tasks_for tbl (set ss) ws"
proof -
  let ?m = "m\<lparr>m_workers := map ws_clear_tasks (m_workers m)\<rparr>"
  have "ws_shards (ws_clear_tasks w) = ws_shards w" "ws_id (ws_clear_tasks w) = ws_id w" for w by (simp_all add: ws_clear_tasks_def)
  moreover have "ws_ok (m_workers m ! i)" "ws_id (m_workers m ! i) = int i" if "i < length (m_workers m)" for i
    using owners_okD(1,2) [OF ok that] by auto
  then have "ws_ok (ws_clear_tasks (m_workers m ! i))" if "i < length (m_workers m)" for i
    using that by (simp add: ws_ok_def ws_clear_tasks_def)
  ultimately have ok': "owners_ok (m_tabs ?m) (m_workers ?m)"
    using owners_okD(1) [OF ok] by (simp, intro owners_ok_cong [OF ok]) simp_all
  have "tasks_for tbl {} (m_workers ?m)" by (simp add: tasks_for_def task_at_def ws_clear_tasks_def)
  from assign_tasks_list [OF ok' this assms(2) _ assms(4), of e m'] assms(3) a show ?thesis
    by (auto simp: assign_tasks_def)
qed

section \<open>A run executes every shard once\<close>

lemma run_prepare_effect:
  assumes "run_prepare e r m = Inr m1"
  shows "m_workers m1 = m_workers m" "m_tabs m1 = m_tabs m" "tables_ok m1 = tables_ok m" "m_net m1 = m_net m"
    "m_finished m1 = 0" "m_dispatched m1 = 0" "m_shards_assigned m1 = m_shards_assigned m"
    "rd_shards (m_current_run m1) = rd_shards r" "rd_table (m_current_run m1) = rd_table r" "run_name m1 = (rd_kernel r, rd_method r)"
proof -
  have keys: "map fst (map (\<lambda>(i, te, g). (i, te\<lparr>ge_helper_id := Some (-1)\<rparr>, g)) T) = map fst T" for T :: "('a, 'b, 'c) tables"
    by (simp add: case_prod_beta comp_def)
  from assms obtain r' st kr where m1: "m1 = (m_set_helpers m)\<lparr>m_finished := 0, m_dispatched := 0, m_kernels := kr,
      m_method_stats := st, m_current_run := r', m_current_run_start := m_now m\<rparr>"
      and r': "rd_shards r' = rd_shards r" "rd_table r' = rd_table r" "rd_kernel r' = rd_kernel r" "rd_method r' = rd_method r"
    by (auto simp: run_prepare_def Let_def rbind_Inr_iff case_prod_beta m_set_helpers_def split: if_splits)
  show "m_workers m1 = m_workers m" "m_net m1 = m_net m" "m_finished m1 = 0" "m_dispatched m1 = 0"
      "m_shards_assigned m1 = m_shards_assigned m" "rd_shards (m_current_run m1) = rd_shards r" "rd_table (m_current_run m1) = rd_table r" "run_name m1 = (rd_kernel r, rd_method r)"
    by (simp_all add: m1 r' m_set_helpers_def)
  show "m_tabs m1 = m_tabs m" by (simp add: m1 m_tabs_def m_set_helpers_def comp_def case_prod_beta)
  show "tables_ok m1 = tables_ok m"
    by (auto simp: m1 tables_ok_def m_set_helpers_def keys comp_def case_prod_beta)
qed

lemma assign_phase:
  assumes ok: "owners_ok (m_tabs m) (m_workers m)" "tables_ok m" "some_alive e (m_workers m)"
    and m': "(if m_shards_assigned m then Inr m else rbind (assign_tables e m) send_table_assignments) = Inr m'"
  shows "\<exists>ws n. m' = m\<lparr>m_shards_assigned := True, m_workers := ws, m_net := n\<rparr> \<and> owners_ok (m_tabs m) ws \<and>
    length ws = length (m_workers m) \<and> runs_sent n = runs_sent (m_net m)"
proof (cases "m_shards_assigned m")
  case True
  then show ?thesis using m' ok(1) by (intro exI [of _ "m_workers m"] exI [of _ "m_net m"]) simp
next
  case False
  let ?m = "m\<lparr>m_shards_assigned := True\<rparr>"
  have tabs: "m_tabs ?m = m_tabs m" "tables_ok ?m = tables_ok m" by (simp_all add: m_tabs_def tables_ok_def)
  have xs: "\<forall>(t, s) \<in> set (all_pairs (m_tabs ?m)). 0 \<le> s \<and> (\<exists>k. (t, k) \<in> set (m_tabs ?m) \<and> s < int k)"
    by (auto simp: all_pairs_def)
  from assign_list_effect [of ?m e, OF _ _ _ xs] ok
  obtain ws where ws: "assign_tables e m = Inr (?m\<lparr>m_workers := ws\<rparr>)" "owners_ok (m_tabs m) ws" "length ws = length (m_workers m)"
    by (auto simp: tabs assign_tables_list)
  from m' False ws(1) obtain n where n: "nt_SyncBroadcast MTYPE_SHARD_ASSIGNMENT (ShardAssignmentRequest (table_assignments ws)) (m_net m) = Inr n"
      and eq: "m' = ?m\<lparr>m_workers := ws, m_net := n\<rparr>"
    by (auto simp: send_table_assignments_def m_SyncBroadcast_def rbind_Inr_iff)
  have "runs_sent n = runs_sent (m_net m)" by (rule nt_SyncBroadcast_runs [OF n]) simp
  with eq ws show ?thesis by (intro exI [of _ ws] exI [of _ n]) simp
qed

text \<open>What a barrier does after its loop.\<close>

lemma barrier_after_loop:
  assumes "barrier e ts m = Inr (ts', m')"
  shows "\<exists>m1. barrier_loop e ts (m\<lparr>m_iter := m_iter m + 1\<rparr>) = Inr (ts', m1) \<and> quiet m1 m'"
proof -
  from assms obtain ts1 m1 m2 m3 m4 st where loop: "barrier_loop e ts (m\<lparr>m_iter := m_iter m + 1\<rparr>) = Inr (ts1, m1)"
      and m2: "m_SyncBroadcast MTYPE_WORKER_FLUSH EmptyMessage m1 = Inr m2"
      and m3: "m_SyncBroadcast MTYPE_WORKER_APPLY EmptyMessage m2 = Inr m3"
      and m4: "(if rd_checkpoint_type (m_current_run m3) = CP_MASTER_CONTROLLED
       then finish_checkpoint e (if m_checkpointing m3 then m3 else start_checkpoint m3) else Inr m3) = Inr m4"
      and m': "m' = m4\<lparr>m_method_stats := st\<rparr>" "ts' = ts1"
    unfolding barrier_def by (auto simp: rbind_Inr_iff Let_def simp del: barrier_loop.simps)
  have "quiet m1 m2" by (rule m_SyncBroadcast_quiet [OF m2]) simp
  moreover have "quiet m2 m3" by (rule m_SyncBroadcast_quiet [OF m3]) simp
  moreover have "quiet m3 m4"
    using m4 finish_checkpoint_quiet [of e m3 m4] finish_checkpoint_quiet [of e "start_checkpoint m3" m4]
      quiet_trans [OF start_checkpoint_quiet [of m3]] by (auto split: if_splits)
  moreover have "quiet m4 m'" by (simp add: m' quiet_def)
  ultimately show ?thesis using loop m' by (blast intro: quiet_trans)
qed

text \<open>A dispatched task stays where it was sent.\<close>

lemma dispatch_stays: "pool_run p es p' \<Longrightarrow> Dispatch i s \<in> set es \<Longrightarrow> \<exists>st. p' s = Some (i, st) \<and> st \<noteq> PENDING"
  by (induction rule: pool_run.induct) (auto split: if_splits)

lemma dispatch_msgs_iff: "(rank, k, s) \<in> set (dispatch_msgs nm es) \<longleftrightarrow> k = nm \<and> (\<exists>i. rank = int i + 1 \<and> Dispatch i s \<in> set es)"
  by (force simp: dispatch_msgs_def split: pool_event.splits)

lemma run_requests:
  assumes run: "run e ts r m = Inr (ts', m')"
    and ok: "owners_ok (m_tabs m) (m_workers m)" "tables_ok m" "some_alive e (m_workers m)"
    and r: "rd_table r = Some tbl" "(tbl, k) \<in> set (m_tabs m)" "\<forall>s \<in> set (rd_shards r). s < int k" "distinct (rd_shards r)"
  shows "\<exists>reqs. runs_sent (m_net m') = runs_sent (m_net m) @ reqs \<and>
    distinct (map (\<lambda>(_, _, s). s) reqs) \<and> set (map (\<lambda>(_, _, s). s) reqs) = set (rd_shards r) \<and>
    (\<forall>(rank, kernel, s) \<in> set reqs. kernel = (rd_kernel r, rd_method r) \<and> 1 \<le> rank \<and> rank \<le> int (length (m_workers m))) \<and>
    m_finished m' = int (length (rd_shards r))"
proof -
  from run obtain m1 m2 m3 n m4 where m1: "run_prepare e r m = Inr m1"
      and m2: "(if m_shards_assigned m1 then Inr m1 else rbind (assign_tables e m1) send_table_assignments) = Inr m2"
      and m3: "assign_tasks e (m_current_run m2) (rd_shards r) (m2\<lparr>m_kernel_epoch := m_kernel_epoch m2 + 1\<rparr>) = Inr m3"
      and m4: "dispatch_work e (m_current_run m3) m3 = Inr (n, m4)"
      and b: "barrier e ts (m4\<lparr>m_dispatched := n\<rparr>) = Inr (ts', m')"
    by (auto simp: run_def rbind_Inr_iff)
  note p = run_prepare_effect [OF m1]
  have ok1: "owners_ok (m_tabs m1) (m_workers m1)" "tables_ok m1" "some_alive e (m_workers m1)" using ok p by simp_all
  obtain ws2 n2 where m2_eq: "m2 = m1\<lparr>m_shards_assigned := True, m_workers := ws2, m_net := n2\<rparr>" "owners_ok (m_tabs m) ws2"
      "length ws2 = length (m_workers m)" "runs_sent n2 = runs_sent (m_net m)"
    using assign_phase [OF ok1 m2] p by auto
  define m2' where "m2' = m2\<lparr>m_kernel_epoch := m_kernel_epoch m2 + 1\<rparr>"
  have m2': "m_tabs m2' = m_tabs m" "m_workers m2' = ws2" "m_current_run m2' = m_current_run m1" "m_finished m2' = 0" "m_dispatched m2' = 0" "m_net m2' = n2"
      "run_name m2' = (rd_kernel r, rd_method r)"
    using p by (simp_all add: m2'_def m2_eq(1) m_tabs_def)
  have tbl2: "rd_table (m_current_run m2) = Some tbl" using p r(1) by (simp add: m2_eq)
  obtain ws3 where m3_eq: "m3 = m2'\<lparr>m_workers := ws3\<rparr>" "owners_ok (m_tabs m) ws3" "length ws3 = length (m_workers m)"
      "tasks_for tbl (set (rd_shards r)) ws3"
    using assign_tasks_effect [OF _ tbl2 _ r(3) m3 [folded m2'_def], unfolded m2'] m2_eq(2,3) r(2) by auto
  note t3 = tasks_for_sched [OF m3_eq(2,4)]
  have cr3: "rd_table (m_current_run m3) = Some tbl" "rd_shards (m_current_run m3) = rd_shards r"
    using p r(1) by (simp_all add: m3_eq(1) m2')
  have ok3: "sched_ok tbl (m_workers m3)" using t3(1) by (simp add: m3_eq)
  obtain es0 where d: "sim tbl m3 es0 m4" "finished es0 = []" "n = int (length (dispatched es0))" "m_finished m4 = m_finished m3"
    using dispatch_work_sim [OF ok3 cr3(1) refl, of e] m4 by auto
  define m5 where "m5 = m4\<lparr>m_dispatched := n\<rparr>\<lparr>m_iter := m_iter (m4\<lparr>m_dispatched := n\<rparr>) + 1\<rparr>"
  obtain m6 where loop: "barrier_loop e ts m5 = Inr (ts', m6)" and q: "quiet m6 m'"
    using barrier_after_loop [OF b] by (auto simp: m5_def simp del: barrier_loop.simps)
  have sim5: "sim tbl m3 es0 m5" using d(1) by (simp add: sim_def m5_def same_run_def)
  let ?nm = "(rd_kernel r, rd_method r)"
  have nm: "run_name m3 = ?nm" "run_name m5 = ?nm" using m2'(7) sim5 by (simp_all add: m3_eq(1) sim_def same_run_def)
  have s5: "sched_ok tbl (m_workers m5)" "rd_table (m_current_run m5) = Some tbl" "rd_shards (m_current_run m5) = rd_shards r"
      "length (m_workers m5) = length (m_workers m)"
    using sim5 cr3 m3_eq(3) by (auto simp: sim_def same_run_def m3_eq(1))
  have pool: "pool_run (pool_of tbl (m_workers m3)) es0 (pool_of tbl (m_workers m5))" "m_finished m5 = int (length (finished es0))"
    using sim5 d(2,4) m2'(4) by (simp_all add: sim_def m5_def m3_eq(1))
  have dom: "dom (pool_of tbl (m_workers m3)) = set (rd_shards r)" using t3(4) by (simp add: m3_eq(1))
  have card: "card (set (rd_shards r)) = length (rd_shards r)" by (rule distinct_card [OF r(4)])
  obtain es where es: "loop_inv tbl m5 es m6" "m_finished m6 = int (length (rd_shards r))" "distinct (dispatched (es0 @ es))"
      "set (dispatched (es0 @ es)) = set (rd_shards r)"
    using barrier_loop_complete [OF s5(1,2) _ pool _ _ loop] t3(3) dom card s5(3) by (auto simp: m3_eq(1))
  have "runs_sent (m_net m') = runs_sent (m_net m) @ dispatch_msgs ?nm (es0 @ es)"
    using q es(1) sim5 m2_eq(4) nm by (simp add: quiet_def loop_inv_def sim_def m3_eq(1) m2')
  moreover have "map (\<lambda>(_, _, s). s) (dispatch_msgs ?nm (es0 @ es)) = dispatched (es0 @ es)" by (rule dispatch_msgs_shards)
  moreover have "m_finished m' = int (length (rd_shards r))" using q es(2) by (simp add: quiet_def)
  moreover have "kernel = ?nm \<and> 1 \<le> rank \<and> rank \<le> int (length (m_workers m))"
    if "(rank, kernel, s) \<in> set (dispatch_msgs ?nm (es0 @ es))" for rank kernel s
  proof -
    from that obtain i where i: "rank = int i + 1" "Dispatch i s \<in> set (es0 @ es)" "kernel = ?nm" unfolding dispatch_msgs_iff by blast
    have "pool_run (pool_of tbl (m_workers m3)) (es0 @ es) (pool_of tbl (m_workers m6))"
      using pool(1) es(1) pool_run_trans by (auto simp: loop_inv_def sim_def)
    from dispatch_stays [OF this i(2)] obtain st where st: "pool_of tbl (m_workers m6) s = Some (i, st)" by blast
    have ok6: "sched_ok tbl (m_workers m6)" "length (m_workers m6) = length (m_workers m)" using loop_inv_ok [OF es(1)] s5(4) by auto
    then have "i < length (m_workers m6)" using st sched_okD(6) [OF ok6(1)] by (auto simp: pool_of_iff [OF ok6(1)])
    then show ?thesis using i(1,3) ok6(2) by simp
  qed
  ultimately show ?thesis using es(3,4)
    by (intro exI [of _ "dispatch_msgs ?nm (es0 @ es)"]) (auto simp del: dispatch_msgs_simps(2) trace_simps(3))
qed

text \<open>
  C8: a run executes its kernel exactly once on every shard. If \<^verbatim>\<open>Master::run\<close> returns on a descriptor with
  distinct shards of an existing table, then the kernel requests it has sent are for the kernel and method of the descriptor and for pairwise different
  shards, together all its shards, each to the rank of some worker, and as many tasks
  have been reported finished as there are shards. Work stealing, checkpoints and termination checks
  during the run do not change this.
\<close>

theorem run_executes_each_shard_once:
  assumes run: "run e ts r m = Inr (ts', m')"
    and ok: "owners_ok (m_tabs m) (m_workers m)" "tables_ok m" "some_alive e (m_workers m)"
    and r: "rd_table r = Some tbl" "(tbl, k) \<in> set (m_tabs m)" "\<forall>s \<in> set (rd_shards r). s < int k" "distinct (rd_shards r)"
  shows "\<exists>reqs. runs_sent (m_net m') = runs_sent (m_net m) @ reqs \<and>
    distinct (map (\<lambda>(_, _, s). s) reqs) \<and> set (map (\<lambda>(_, _, s). s) reqs) = set (rd_shards r) \<and>
    (\<forall>(rank, kernel, s) \<in> set reqs. kernel = (rd_kernel r, rd_method r) \<and> 1 \<le> rank \<and> rank \<le> int (length (m_workers m))) \<and>
    m_finished m' = int (length (rd_shards r))"
  using assms by (rule run_requests)

section \<open>An example\<close>

text \<open>One worker, one table with one shard, and the messages the worker sends.\<close>

definition ex_table :: "(nat, nat, unit) GlobalTable" where
  "ex_table = \<lparr>gt_partitions = [Delta ex_buffer],
     gt_partinfo = [\<lparr>pi_dirty = False, pi_tainted = False, pi_owner = -1, pi_entries = 0\<rparr>],
     gt_pending_writes = 0, gt_snapshot_index = 0, gt_binit = False, gt_update_queue = [], gt_sent = [], gt_termchecks = []\<rparr>"

definition from_worker :: "int \<Rightarrow> bool \<Rightarrow> msg \<Rightarrow> msg packet" where
  "from_worker tag rep x = \<lparr>pkt_source = 1, pkt_tag = tag, pkt_header = \<lparr>is_reply = rep\<rparr>, pkt_body = x\<rparr>"

definition ex_done :: msg where
  "ex_done = KernelDone \<lparr>kr_kname = phase1, kr_method = ''run'', kr_table = 0, kr_shard = 0, kr_args = []\<rparr>
     [\<lparr>si_table = 0, si_shard = 0, si_entries = 3, si_owner = 0\<rparr>]"

definition ex_inbox :: "msg packet list list" where
  "ex_inbox = [[from_worker 9 False (RegisterWorkerRequest 0)], [from_worker 17 True EmptyMessage], [],
     [from_worker 2 False ex_done], [from_worker 15 True EmptyMessage], [], [from_worker 33 True EmptyMessage]]"

definition ex_menv :: "string menv" where
  "ex_menv = \<lparr>me_dead_workers = {}, me_work_stealing = True, me_checkpoint = False, me_restore = False,
     me_termcheck_interval = 1, me_threshold = 1, me_marshal = id\<rparr>"

definition ex_master :: "(nat, nat, unit, string) Master result" where
  "ex_master = master_new 1 0 [(0, ex_env\<lparr>ge_num_shards := 1, ge_helper_id := None\<rparr>, ex_table)]
     [(phase1, Some \<lparr>ki_name = phase1, ki_methods = [''run'']\<rparr>)] (nt_new 0 2 ex_inbox)"

definition ex_run :: "string RunDescriptor" where
  "ex_run = (rd_Init phase1 ''run'' (Some 0) [])\<lparr>rd_shards := [0]\<rparr>"

definition ex_ticks :: "tick list" where
  "ex_ticks = [\<lparr>tk_now = 0, tk_periodic = True\<rparr>]"

lemma ex_master_runs:
  "case ex_master of Inl _ \<Rightarrow> False | Inr m \<Rightarrow> isl (run ex_menv ex_ticks ex_run m) = False"
  by code_simp

lemma ex_master_fields:
  assumes "ex_master = Inr m"
  shows "m_workers m = [worker_new 0 0]" "m_tables m = [(0, ex_env\<lparr>ge_num_shards := 1, ge_helper_id := None\<rparr>, ex_table)]"
    "m_tabs m = [(0, 1)]" "tables_ok m" "some_alive ex_menv (m_workers m)" "owners_ok (m_tabs m) (m_workers m)"
proof -
  show ws: "m_workers m = [worker_new 0 0]" and ts: "m_tables m = [(0, ex_env\<lparr>ge_num_shards := 1, ge_helper_id := None\<rparr>, ex_table)]"
    using assms by (auto simp: ex_master_def master_new_def rbind_Inr_iff)
  show tabs: "m_tabs m = [(0, 1)]" by (simp add: m_tabs_def ts)
  show "tables_ok m" by (simp add: tables_ok_def ts ex_table_def)
  show "some_alive ex_menv (m_workers m)" by (simp add: some_alive_def ws ex_menv_def ws_alive_def)
  show "owners_ok (m_tabs m) (m_workers m)" by (simp add: owners_ok_def tabs ws) (simp add: worker_new_def)
qed

lemma ex_master_run: "\<exists>m ts' m'. ex_master = Inr m \<and> run ex_menv ex_ticks ex_run m = Inr (ts', m')"
  using ex_master_runs by (auto split: sum.splits) (metis isl_def sum.exhaust surj_pair)

theorem run_executes_each_shard_once_witness:
  "\<exists>m ts' m' reqs. ex_master = Inr m \<and> run ex_menv ex_ticks ex_run m = Inr (ts', m') \<and>
     runs_sent (m_net m') = runs_sent (m_net m) @ reqs \<and> map (\<lambda>(_, _, s). s) reqs = [0] \<and> m_finished m' = 1"
proof -
  obtain m ts' m' where m: "ex_master = Inr m" and run: "run ex_menv ex_ticks ex_run m = Inr (ts', m')" using ex_master_run by blast
  note f = ex_master_fields [OF m]
  have r: "rd_table ex_run = Some 0" "rd_shards ex_run = [0]" by (simp_all add: ex_run_def rd_Init_def)
  from run_executes_each_shard_once [OF run f(6,4,5) r(1), of 1] obtain reqs where
      reqs: "runs_sent (m_net m') = runs_sent (m_net m) @ reqs" "distinct (map (\<lambda>(_, _, s). s) reqs)"
        "set (map (\<lambda>(_, _, s). s) reqs) = {0}" "m_finished m' = 1"
    by (auto simp: f(3) r(2))
  have "length (map (\<lambda>(_, _, s). s) reqs) = 1" using distinct_card [OF reqs(2)] reqs(3) by simp
  then have "map (\<lambda>(_, _, s). s) reqs = [0]" using reqs(3) by (cases "map (\<lambda>(_, _, s). s) reqs") auto
  then show ?thesis using m run reqs(1,4) by (intro exI [of _ m] exI [of _ ts'] exI [of _ m'] exI [of _ reqs]) simp
qed

theorem assign_tables_partition_witness:
  "\<exists>m m'. ex_master = Inr m \<and> assign_tables ex_menv m = Inr m' \<and> (\<exists>!i. i < length (m_workers m') \<and> ws_serves (Taskid 0 0) (m_workers m' ! i))"
proof -
  obtain m where m: "ex_master = Inr m" using ex_master_run by blast
  note f = ex_master_fields [OF m]
  have "ws_id (m_workers m ! i) = int i \<and> ws_ok (m_workers m ! i) \<and> ws_shards (m_workers m ! i) = []" if "i < length (m_workers m)" for i
    using that by (simp add: f(1)) (simp add: worker_new_def)
  from assign_tables_partition [OF f(4,5) this] obtain m' where a: "assign_tables ex_menv m = Inr m'"
      "\<forall>(t, k) \<in> set (m_tabs m). \<forall>j < k. \<exists>!i. i < length (m_workers m') \<and> ws_serves (Taskid t (int j)) (m_workers m' ! i)"
    by blast
  from a(2) have "\<exists>!i. i < length (m_workers m') \<and> ws_serves (Taskid 0 0) (m_workers m' ! i)" by (simp add: f(3))
  with m a(1) show ?thesis by blast
qed

text \<open>Two workers, the second one idle.\<close>

definition ex_two :: "(nat, nat, unit, string) Master \<Rightarrow> (nat, nat, unit, string) Master" where
  "ex_two m = m\<lparr>m_workers := [(worker_new 0 0)\<lparr>ws_shards := [Taskid 0 0], ws_work := [(Taskid 0 0, task_new (Taskid 0 0) 5)]\<rparr>, worker_new 0 1]\<rparr>"

lemma ex_two_ok:
  assumes "ex_master = Inr m"
  shows "owners_ok (m_tabs (ex_two m)) (m_workers (ex_two m))" "sched_ok 0 (m_workers (ex_two m))" "tasks_served (m_workers (ex_two m))"
    "tables_ok (ex_two m)" "map_of (m_tables (ex_two m)) 0 \<noteq> None"
proof -
  note f = ex_master_fields [OF assms]
  have at2: "task_at (m_workers (ex_two m)) i x = (if i = 0 \<and> x = Taskid 0 0 then Some (task_new (Taskid 0 0) 5) else None)" for i x
    by (simp add: task_at_def ex_two_def worker_new_def nth_Cons')
  show "owners_ok (m_tabs (ex_two m)) (m_workers (ex_two m))"
    by (auto simp: owners_ok_def ex_two_def f(3) nth_Cons' ws_ok_def worker_new_def task_new_def less_Suc_eq numeral_2_eq_2)
  show "sched_ok 0 (m_workers (ex_two m))"
    by (auto simp: sched_ok_def at2 split: if_splits) (auto simp: ex_two_def ws_ok_def worker_new_def task_new_def less_Suc_eq)
  show "tasks_served (m_workers (ex_two m))" by (simp add: tasks_served_def at2) (simp add: ex_two_def)
  show "tables_ok (ex_two m)" "map_of (m_tables (ex_two m)) 0 \<noteq> None" using f(4) by (simp_all add: ex_two_def f(2))
qed

theorem steal_work_keeps_owners_witness:
  "\<exists>m b ws. ex_master = Inr m \<and> steal_work ex_menv ex_run 1 1 (ex_two m) = Inr (b, (ex_two m)\<lparr>m_workers := ws\<rparr>) \<and>
     owners_ok [(0, 1)] ws \<and> tasks_served ws \<and> served_in ws (Taskid 0 0)"
proof -
  obtain m where m: "ex_master = Inr m" using ex_master_run by blast
  note o = ex_two_ok [OF m] and f = ex_master_fields [OF m]
  have r: "rd_table ex_run = Some 0" by (simp add: ex_run_def rd_Init_def)
  have d: "1 < length (m_workers (ex_two m))" "ws_num PENDING (m_workers (ex_two m) ! 1) = 0"
    by (simp_all add: ex_two_def ws_num_def worker_new_def)
  have "served_in (m_workers (ex_two m)) (Taskid 0 0)" by (auto simp: served_in_def ex_two_def intro!: exI [of _ 0])
  moreover have "m_tabs (ex_two m) = [(0, 1)]" using f(3) by (simp add: ex_two_def)
  ultimately show ?thesis using steal_work_keeps_owners [OF o(1-4) r o(5) d, of ex_menv 1] m by auto
qed

end
