(* ===== verification/Cluster.thy ===== *)
theory Cluster
  imports Rolling Ownership
begin

text \<open>
  The master and its workers together: what the workers know of the owners of the shards after the
  master has sent its assignment, and what happens to a worker that loses a shard.
\<close>

section \<open>What a worker knows of a shard\<close>

definition w_partinfo :: "('k, 'd, 'p) Worker \<Rightarrow> int \<Rightarrow> int \<Rightarrow> PartitionInfo option" where
  "w_partinfo w t s = (case map_of (w_tables w) t of None \<Rightarrow> None
     | Some u \<Rightarrow> if 0 \<le> s \<and> s < int (length (gt_partinfo (wt_gt u))) then Some (gt_partinfo (wt_gt u) ! nat s) else None)"

lemma w_partinfo_SomeE:
  assumes "w_partinfo w t s = Some p"
  obtains u where "map_of (w_tables w) t = Some u" "0 \<le> s" "s < int (length (gt_partinfo (wt_gt u)))" "p = gt_partinfo (wt_gt u) ! nat s"
  using assms by (auto simp: w_partinfo_def split: option.splits if_splits)

lemma w_peer_for_shard_eq: "w_partinfo w t s = Some p \<Longrightarrow> w_peer_for_shard t s w = Inr (pi_owner p)"
  by (erule w_partinfo_SomeE) (simp add: w_peer_for_shard_def tr_index_def gt_owner_def vec_at_def)

definition loses :: "('k, 'd, 'p) Worker \<Rightarrow> ShardAssignment \<Rightarrow> bool" where
  "loses w a \<longleftrightarrow> (\<exists>p. w_partinfo w (sa_table a) (sa_shard a) = Some p \<and> pi_owner p = w_id w \<and> sa_new_worker a \<noteq> w_id w)"

lemma w_assign_shard_spec:
  assumes "w_partinfo w (sa_table a) (sa_shard a) = Some p"
  shows "\<exists>w'. w_assign_shard a w = Inr w' \<and> w_id w' = w_id w \<and> w_net w' = w_net w \<and>
    w_partinfo w' = (\<lambda>t s. if t = sa_table a \<and> s = sa_shard a then Some (assign_partition (w_id w) (sa_new_worker a) p) else w_partinfo w t s) \<and>
    set (w_dirty_tables w') = set (w_dirty_tables w) \<union> (if loses w a then {sa_table a} else {})"
proof -
  obtain u where u: "map_of (w_tables w) (sa_table a) = Some u" "0 \<le> sa_shard a" "sa_shard a < int (length (gt_partinfo (wt_gt u)))"
      "p = gt_partinfo (wt_gt u) ! nat (sa_shard a)"
    using w_partinfo_SomeE [OF assms] .
  let ?g = "(wt_gt u)\<lparr>gt_partinfo := (gt_partinfo (wt_gt u))[nat (sa_shard a) := assign_partition (w_id w) (sa_new_worker a) p]\<rparr>"
  let ?w = "w\<lparr>w_tables := tr_update (sa_table a) (u\<lparr>wt_gt := ?g\<rparr>) (w_tables w), w_dirty_tables := (if pi_owner p = w_id w \<and> sa_new_worker a \<noteq> w_id w
                   then List.insert (sa_table a) (w_dirty_tables w) else w_dirty_tables w)\<rparr>"
  have e: "w_assign_shard a w = Inr ?w"
    using u by (simp add: w_assign_shard_def tr_table_def check_def vec_at_def Let_def)
  have "w_partinfo ?w t s = (if t = sa_table a \<and> s = sa_shard a then Some (assign_partition (w_id w) (sa_new_worker a) p) else w_partinfo w t s)" for t s
  proof (cases "t = sa_table a")
    case True
    then show ?thesis using u(1-3) by (auto simp: w_partinfo_def map_of_tr_update nth_list_update nat_eq_iff2 split: option.splits)
  next
    case False
    then show ?thesis using u(1) by (simp add: w_partinfo_def map_of_tr_update)
  qed
  then show ?thesis unfolding e using assms
    by (intro exI [of _ ?w] conjI) (simp_all add: fun_eq_iff loses_def)
qed

abbreviation "sa_key a \<equiv> (sa_table a, sa_shard a)"

definition assigned :: "ShardAssignment list \<Rightarrow> int \<times> int \<rightharpoonup> int" where
  "assigned as = map_of (map (\<lambda>a. (sa_key a, sa_new_worker a)) as)"

lemma assigned_simps [simp]: "assigned [] = Map.empty" "assigned (a # as) = (assigned as)(sa_key a \<mapsto> sa_new_worker a)"
  by (simp_all add: assigned_def)

lemma assigned_None: "sa_key a \<notin> sa_key ` set as \<Longrightarrow> assigned as (sa_key a) = None"
  by (force simp: assigned_def map_of_eq_None_iff)

text \<open>A request that names every shard at most once, and only shards that the worker has.\<close>

lemma w_HandleShardAssignment_spec:
  assumes "distinct (map sa_key as)" and "\<And>a. a \<in> set as \<Longrightarrow> w_partinfo w (sa_table a) (sa_shard a) \<noteq> None"
  shows "\<exists>w'. w_HandleShardAssignment as w = Inr w' \<and> w_id w' = w_id w \<and> w_net w' = w_net w \<and>
    (\<forall>t s. w_partinfo w' t s = (case assigned as (t, s) of None \<Rightarrow> w_partinfo w t s
       | Some n \<Rightarrow> map_option (assign_partition (w_id w) n) (w_partinfo w t s))) \<and>
    set (w_dirty_tables w') = set (w_dirty_tables w) \<union> sa_table ` {a \<in> set as. loses w a}"
  using assms
proof (induction as arbitrary: w)
  case Nil
  then show ?case by (simp add: w_HandleShardAssignment_def)
next
  case (Cons a as)
  obtain p where p: "w_partinfo w (sa_table a) (sa_shard a) = Some p" using Cons.prems(2) [of a] by auto
  obtain w1 where w1: "w_assign_shard a w = Inr w1" "w_id w1 = w_id w" "w_net w1 = w_net w"
      "w_partinfo w1 = (\<lambda>t s. if t = sa_table a \<and> s = sa_shard a then Some (assign_partition (w_id w) (sa_new_worker a) p) else w_partinfo w t s)"
      "set (w_dirty_tables w1) = set (w_dirty_tables w) \<union> (if loses w a then {sa_table a} else {})"
    using w_assign_shard_spec [OF p] by blast
  have fresh: "sa_key a \<notin> sa_key ` set as" using Cons.prems(1) by simp
  have other: "w_partinfo w1 (sa_table b) (sa_shard b) = w_partinfo w (sa_table b) (sa_shard b)" if "b \<in> set as" for b
    using fresh that by (auto simp: w1(4) image_iff)
  have "w_partinfo w1 (sa_table b) (sa_shard b) \<noteq> None" if "b \<in> set as" for b
    using other [OF that] Cons.prems(2) that by simp
  then obtain w2 where w2: "w_HandleShardAssignment as w1 = Inr w2" "w_id w2 = w_id w1" "w_net w2 = w_net w1"
      "\<And>t s. w_partinfo w2 t s = (case assigned as (t, s) of None \<Rightarrow> w_partinfo w1 t s
         | Some n \<Rightarrow> map_option (assign_partition (w_id w1) n) (w_partinfo w1 t s))"
      "set (w_dirty_tables w2) = set (w_dirty_tables w1) \<union> sa_table ` {a \<in> set as. loses w1 a}"
    using Cons.IH [of w1] Cons.prems(1) by auto
  have same: "{b \<in> set as. loses w1 b} = {b \<in> set as. loses w b}" using other w1(2) by (auto simp: loses_def)
  show ?case
  proof (intro exI conjI allI)
    show "w_HandleShardAssignment (a # as) w = Inr w2" using w1(1) w2(1) by (simp add: w_HandleShardAssignment_def)
    show "w_id w2 = w_id w" "w_net w2 = w_net w" using w1(2,3) w2(2,3) by simp_all
    show "w_partinfo w2 t s = (case assigned (a # as) (t, s) of None \<Rightarrow> w_partinfo w t s
       | Some n \<Rightarrow> map_option (assign_partition (w_id w) n) (w_partinfo w t s))" for t s
      using assigned_None [OF fresh] p by (auto simp: w2(4) w1(2,4) split: option.splits)
    show "set (w_dirty_tables w2) = set (w_dirty_tables w) \<union> sa_table ` {x \<in> set (a # as). loses w x}"
      unfolding w2(5) same w1(5) by auto
  qed
qed

section \<open>The assignment that the master sends\<close>

lemma worker_for_shard_iff:
  assumes "owners_ok tabs (m_workers m)"
  shows "worker_for_shard t s m = Some i \<longleftrightarrow> i < length (m_workers m) \<and> Taskid t s \<in> set (ws_shards (m_workers m ! i))"
proof
  assume "i < length (m_workers m) \<and> Taskid t s \<in> set (ws_shards (m_workers m ! i))"
  moreover from this obtain j where j: "worker_for_shard t s m = Some j"
    using worker_for_shard_None [of t s m i] by (cases "worker_for_shard t s m") auto
  ultimately show "worker_for_shard t s m = Some i"
    using owners_okD(3) [OF assms, of i j] worker_for_shard_Some [OF j] by auto
qed (rule worker_for_shard_Some)

lemma table_assignments_iff:
  "a \<in> set (table_assignments ws) \<longleftrightarrow>
     (\<exists>i < length ws. Taskid (sa_table a) (sa_shard a) \<in> set (ws_shards (ws ! i)) \<and> sa_new_worker a = int i)"
  by (force simp: table_assignments_def intro: ShardAssignment.equality)

lemma table_assignments_keys:
  assumes "owners_ok tabs ws"
  shows "distinct (map sa_key (table_assignments ws))"
proof -
  let ?ks = "\<lambda>i. map (\<lambda>x. (tid_table x, tid_shard x)) (ws_shards (ws ! i))"
  have keys: "distinct (?ks i)" if "i < length ws" for i
    using owners_okD(2) [OF assms that] by (auto simp: ws_ok_def distinct_map inj_on_def Taskid.expand)
  have apart: "set (?ks i) \<inter> set (?ks j) = {}" if "i < length ws" "j < length ws" "i \<noteq> j" for i j
    using owners_okD(3) [OF assms that(1,2)] that(3) by (auto simp: Taskid.expand) (metis Taskid.expand)
  have "distinct (concat (map ?ks [0..<n]))" if "n \<le> length ws" for n
    using that
  proof (induction n)
    case (Suc n)
    have disj: "\<forall>i < n. set (f i) \<inter> S = {} \<Longrightarrow> set (concat (map f [0..<n])) \<inter> S = {}" for f :: "nat \<Rightarrow> (int \<times> int) list" and S
      by auto
    have "set (concat (map ?ks [0..<n])) \<inter> set (?ks n) = {}" using apart [of _ n] Suc.prems by (intro disj) simp
    with Suc keys [of n] show ?case by simp
  qed simp
  moreover have "map sa_key (table_assignments ws) = concat (map ?ks [0..<length ws])"
    by (simp add: table_assignments_def map_concat comp_def)
  ultimately show ?thesis by simp
qed

lemma assigned_table_assignments:
  assumes "owners_ok tabs (m_workers m)"
  shows "assigned (table_assignments (m_workers m)) (t, s) = map_option int (worker_for_shard t s m)"
proof -
  have "distinct (map fst (map (\<lambda>a. (sa_key a, sa_new_worker a)) (table_assignments (m_workers m))))"
    using table_assignments_keys [OF assms] by (simp add: comp_def)
  then have "assigned (table_assignments (m_workers m)) (t, s) = Some n \<longleftrightarrow>
      (\<exists>a \<in> set (table_assignments (m_workers m)). sa_key a = (t, s) \<and> sa_new_worker a = n)" for n
    unfolding assigned_def by (subst map_of_eq_Some_iff) auto
  also have "\<dots> n \<longleftrightarrow> (\<exists>i. worker_for_shard t s m = Some i \<and> n = int i)" for n
  proof
    assume "\<exists>i. worker_for_shard t s m = Some i \<and> n = int i"
    then show "\<exists>a \<in> set (table_assignments (m_workers m)). sa_key a = (t, s) \<and> sa_new_worker a = n"
      by (intro bexI [of _ "\<lparr>sa_table = t, sa_shard = s, sa_new_worker = n\<rparr>"])
        (auto simp: table_assignments_iff worker_for_shard_iff [OF assms])
  qed (auto simp: table_assignments_iff worker_for_shard_iff [OF assms])
  finally show ?thesis by (cases "worker_for_shard t s m"; cases "assigned (table_assignments (m_workers m)) (t, s)") auto
qed

text \<open>
  C13: after the master has sent its table assignment, a worker agrees with it on the owner of every shard. The
  handler of \<^verbatim>\<open>MTYPE_SHARD_ASSIGNMENT\<close> succeeds on the request of a master whose owners are consistent;
  then \<^verbatim>\<open>peer_for_shard\<close> of the worker is \<^verbatim>\<open>worker_for_shard\<close> of the master, a partition that the worker takes over from
  another one is tainted, one that it gives up is dirty, and the tables marked dirty are those of which it
  lost a shard; shards that nobody serves are left as they were.
\<close>

theorem workers_agree_with_master:
  assumes ok: "owners_ok (m_tabs m) (m_workers m)"
    and known: "\<forall>t s i. worker_for_shard t s m = Some i \<longrightarrow> w_partinfo w t s \<noteq> None"
  shows "\<exists>w'. w_HandleShardAssignment (table_assignments (m_workers m)) w = Inr w' \<and>
    (\<forall>t s i. worker_for_shard t s m = Some i \<longrightarrow> w_peer_for_shard t s w' = Inr (int i)) \<and>
    (\<forall>t s i p. worker_for_shard t s m = Some i \<longrightarrow> w_partinfo w t s = Some p \<longrightarrow>
       w_partinfo w' t s = Some (p\<lparr>pi_owner := int i,
         pi_tainted := (pi_tainted p \<or> int i = w_id w \<and> pi_owner p \<notin> {-1, w_id w}),
         pi_dirty := (pi_dirty p \<or> int i \<noteq> w_id w \<and> pi_owner p = w_id w)\<rparr>)) \<and>
    (\<forall>t s. worker_for_shard t s m = None \<longrightarrow> w_partinfo w' t s = w_partinfo w t s) \<and>
    set (w_dirty_tables w') = set (w_dirty_tables w) \<union>
      {t. \<exists>s i p. worker_for_shard t s m = Some i \<and> w_partinfo w t s = Some p \<and> pi_owner p = w_id w \<and> int i \<noteq> w_id w}"
proof -
  let ?as = "table_assignments (m_workers m)"
  have "w_partinfo w (sa_table a) (sa_shard a) \<noteq> None" if "a \<in> set ?as" for a
    using that known worker_for_shard_iff [OF ok] by (auto simp: table_assignments_iff)
  then obtain w' where w': "w_HandleShardAssignment ?as w = Inr w'"
      "\<And>t s. w_partinfo w' t s = (case worker_for_shard t s m of None \<Rightarrow> w_partinfo w t s
         | Some i \<Rightarrow> map_option (assign_partition (w_id w) (int i)) (w_partinfo w t s))"
      "set (w_dirty_tables w') = set (w_dirty_tables w) \<union> sa_table ` {a \<in> set ?as. loses w a}"
    using w_HandleShardAssignment_spec [OF table_assignments_keys [OF ok], of w]
    by (auto simp: assigned_table_assignments [OF ok] option.case_eq_if option.map_sel)
  have part: "assign_partition (w_id w) n p = p\<lparr>pi_owner := n, pi_tainted := (pi_tainted p \<or> n = w_id w \<and> pi_owner p \<notin> {-1, w_id w}),
      pi_dirty := (pi_dirty p \<or> n \<noteq> w_id w \<and> pi_owner p = w_id w)\<rparr>" for n p
    by (auto simp: assign_partition_def Let_def)
  have lost: "sa_table ` {a \<in> set ?as. loses w a} =
      {t. \<exists>s i p. worker_for_shard t s m = Some i \<and> w_partinfo w t s = Some p \<and> pi_owner p = w_id w \<and> int i \<noteq> w_id w}" (is "?l = ?r")
  proof
    show "?l \<subseteq> ?r" by (fastforce simp: table_assignments_iff worker_for_shard_iff [OF ok] loses_def)
    show "?r \<subseteq> ?l"
    proof
      fix t assume "t \<in> ?r"
      then obtain s i p where "worker_for_shard t s m = Some i" "w_partinfo w t s = Some p" "pi_owner p = w_id w" "int i \<noteq> w_id w" by auto
      then show "t \<in> ?l"
        by (intro image_eqI [of _ _ "\<lparr>sa_table = t, sa_shard = s, sa_new_worker = int i\<rparr>"])
          (auto simp: table_assignments_iff worker_for_shard_iff [OF ok] loses_def)
    qed
  qed
  have "w_peer_for_shard t s w' = Inr (int i)" if i: "worker_for_shard t s m = Some i" for t s i
  proof -
    obtain p where "w_partinfo w t s = Some p" using known i by auto
    then show ?thesis using i by (intro w_peer_for_shard_eq [of w' t s "assign_partition (w_id w) (int i) p", THEN trans]) (simp_all add: w'(2) part)
  qed
  then show ?thesis using w' lost by (intro exI [of _ w']) (auto simp: part)
qed

text \<open>Worker 1 still owns the only shard of the table; the master has given it to worker 0.\<close>

definition ex_lost_table :: "(nat, unit) wtable" where
  "ex_lost_table = \<lparr>wt_env = ex_cp_env,
     wt_gt = ex_state_shard\<lparr>gt_partinfo := [\<lparr>pi_dirty = False, pi_tainted = False, pi_owner = 1, pi_entries = 0\<rparr>]\<rparr>,
     wt_delta = [None], wt_triggers = [], wt_codec = ex_codec\<rparr>"

definition ex_loser :: "(nat, unit, unit) Worker" where
  "ex_loser = ex_rolling\<lparr>w_tables := [(0, ex_lost_table)]\<rparr>"

theorem workers_agree_with_master_witness:
  "\<exists>m w'. ex_master = Inr m \<and> w_HandleShardAssignment (table_assignments (m_workers (ex_two m))) ex_loser = Inr w' \<and>
     w_peer_for_shard 0 0 w' = Inr 0 \<and> set (w_dirty_tables w') = {0}"
proof -
  obtain m where m: "ex_master = Inr m" using ex_master_run by blast
  note ok = ex_two_ok(1) [OF m]
  have own: "worker_for_shard t s (ex_two m) = Some i \<longleftrightarrow> t = 0 \<and> s = 0 \<and> i = 0" for t s i
    unfolding worker_for_shard_iff [OF ok] by (auto simp: ex_two_def nth_Cons' worker_new_def)
  have known: "w_partinfo ex_loser 0 0 = Some \<lparr>pi_dirty = False, pi_tainted = False, pi_owner = 1, pi_entries = 0\<rparr>" "w_id ex_loser = 1"
      "w_dirty_tables ex_loser = []"
    by (simp_all add: w_partinfo_def ex_loser_def ex_lost_table_def ex_rolling_def)
  have "\<forall>t s i. worker_for_shard t s (ex_two m) = Some i \<longrightarrow> w_partinfo ex_loser t s \<noteq> None" using own known by auto
  from workers_agree_with_master [OF ok this] obtain w' where
      "w_HandleShardAssignment (table_assignments (m_workers (ex_two m))) ex_loser = Inr w'"
      "\<forall>t s i. worker_for_shard t s (ex_two m) = Some i \<longrightarrow> w_peer_for_shard t s w' = Inr (int i)"
      "set (w_dirty_tables w') = {t. t = 0}"
    by (auto simp: own known cong: conj_cong)
  then show ?thesis using m own [of 0 0 0] by auto
qed

section \<open>Losing a shard\<close>

definition no_requests :: "'m NetworkThread \<Rightarrow> bool" where
  "no_requests n \<longleftrightarrow> (\<forall>tag i. nt_requests n tag i = []) \<and> int (nt_world_size n) \<le> kMaxHosts"

lemma no_requests_TryRead:
  assumes "no_requests n" and "case src of None \<Rightarrow> True | Some s \<Rightarrow> 0 \<le> s \<and> s < kMaxHosts" and "0 \<le> tag" "tag < kMaxMethods"
  shows "nt_TryRead src tag n = Inr (None, n)"
proof -
  have one: "nt_check_request_queue s tag n = Inr (None, n)" if "0 \<le> s" "s < kMaxHosts" for s
    using assms(1,3,4) that by (simp add: no_requests_def nt_check_request_queue_def check_def)
  have "nt_try_ranks is tag n = Inr (None, n)" if "\<forall>i \<in> set is. int i < kMaxHosts" for "is"
    using that by (induction "is") (simp_all add: one)
  then show ?thesis using assms(1,2) one by (auto simp: nt_TryRead_def no_requests_def split: option.splits)
qed

lemma no_requests_drain:
  assumes "no_requests (w_net w)" and "case src of None \<Rightarrow> True | Some s \<Rightarrow> 0 \<le> s \<and> s < kMaxHosts" and "0 \<le> tag" "tag < kMaxMethods"
  shows "w_drain src tag h w = Inr w"
  unfolding w_drain_def by (subst w_drain_loop.simps) (simp add: no_requests_TryRead [OF assms] Let_def)

lemma w_CheckNetwork_quiet:
  assumes "no_requests (w_net w)" and "0 \<le> we_master c" "we_master c < kMaxHosts"
  shows "w_CheckNetwork c w = rbind (rfold (\<lambda>i. w_on_table c i gt_SendUpdates) (w_dirty_tables w) w) (\<lambda>w. Inr (w\<lparr>w_dirty_tables := []\<rparr>))"
  using assms
  by (simp add: w_CheckNetwork_def w_CheckForMasterUpdates_def w_HandlePutRequest_def no_requests_TryRead no_requests_drain Let_def
      mtype_defs kMaxMethods_def)

lemma SendUpdates_lost:
  assumes "s < length (gt_partitions g)" and "length (gt_partinfo g) = length (gt_partitions g)" and "ge_helper_id e = Some me"
    and "gt_partitions g ! s = State st" and "pi_dirty (gt_partinfo g ! s)" and "pi_owner (gt_partinfo g ! s) \<noteq> me"
    and "\<And>j. j < s \<Longrightarrow> pi_owner (gt_partinfo g ! j) = me \<or> \<not> pi_dirty (gt_partinfo g ! j) \<and> lt_empty (gt_partitions g ! j)"
  shows "gt_SendUpdates e g = Inl NullDeref"
proof -
  have "gt_send_step e j g = Inr g" if "j < s" for j
    using assms(1,2,3) assms(7) [OF that] that by (auto simp: gt_send_step_def gt_is_local_shard_def gt_owner_def vec_at_def)
  then have before: "rfold (gt_send_step e) [0..<k] g = Inr g" if "k \<le> s" for k
    using that by (induction k) (simp_all add: rfold_append)
  have here: "gt_send_step e s g = Inl NullDeref"
    using assms(1-6) by (simp add: gt_send_step_def gt_is_local_shard_def gt_owner_def vec_at_def gt_deltaT_def)
  have "[0..<length (gt_partitions g)] = [0..<s] @ s # [Suc s..<length (gt_partitions g)]"
    using assms(1) upt_add_eq_append [of 0 s "length (gt_partitions g) - s"] upt_conv_Cons [of s] by simp
  then show ?thesis using before [of s] here by (simp add: gt_SendUpdates_def rfold_append)
qed



section \<open>Restoring a checkpoint\<close>

text \<open>
  A new worker has callbacks for the messages of \<open>worker_callbacks\<close> only; any other request is put in its queue
  and nothing is sent back when it arrives.
\<close>

lemma register_callbacks:
  assumes "rfold (\<lambda>tag. nt_RegisterCallback tag x y) tags n = Inr n'" and "tag \<notin> set tags" and "nt_callbacks n tag = None"
  shows "nt_callbacks n' tag = None"
  using assms
proof (induction tags arbitrary: n)
  case (Cons t tags)
  then show ?case by (auto simp: rbind_Inr_iff nt_RegisterCallback_def check_def split: if_splits)
qed simp

lemma w_new_callbacks:
  assumes "w_new k tmap kreg fs net = Inr w" and "tag \<notin> set worker_callbacks" and "nt_callbacks net tag = None"
  shows "nt_callbacks (w_net w) tag = None"
  using assms register_callbacks [of EmptyMessage EmptyMessage worker_callbacks net _ tag]
  by (auto simp: w_new_def rbind_Inr_iff nt_SpawnThreadFor_def worker_callbacks_def split: option.splits)

lemma unregistered_is_queued:
  assumes "nt_callbacks (w_net w) (pkt_tag p) = None" and "\<not> is_reply (pkt_header p)" and "pkt_ok (nat kMaxHosts) p"
  shows "w_arrive c eff rs p w = Inr (w\<lparr>w_net := (w_net w)\<lparr>nt_requests :=
    queue_add (pkt_tag p) (pkt_source p) (pkt_body p) (nt_requests (w_net w))\<rparr>\<rparr>)"
  using assms by (simp add: w_arrive_def nt_arrive_def pkt_ok_def check_def kMaxHosts_def Let_def)

lemma sync_broadcast_unanswered:
  assumes "net_ok n" and "1 < nt_world_size n" and "0 \<le> meth" "meth < kMaxMethods" and "\<And>i. nt_replies n meth i = []"
    and "answers meth (concat (nt_inbox n)) = []"
  shows "nt_SyncBroadcast meth x n = Inl Diverges"
proof -
  let ?n = "nt_Broadcast meth x n"
  have ok: "net_ok ?n" "nt_inbox ?n = nt_inbox n" "queued meth ?n = 0" "nt_replies ?n = nt_replies n" "nt_world_size ?n = nt_world_size n"
    using assms(1,5) nt_Broadcast_effect [of meth x n] by (simp_all add: net_ok_def queued_def)
  show ?thesis
    using nt_wait_counts [OF ok(1,2) assms(3,4), of "int (nt_world_size n) - 1"] ok(2-5) assms(2,5,6)
    by (simp add: nt_SyncBroadcast_def nt_WaitForSync_def del: nt_wait.simps)
qed


definition ex_restore_done :: "msg packet" where
  "ex_restore_done = from_worker MTYPE_RESTORE_DONE False EmptyMessage"


end
