(* ===== verification/Typing.thy ===== *)
theory Typing
  imports Cluster
begin

text \<open>
  The tag of a message says which message it is: the receiver parses the bytes into the class that belongs to the tag.
  This theory states that discipline as a type of messages and shows that a worker keeps it: in all it sends, in requests and in replies,
  the constructor is the one that the receiver expects.
\<close>

section \<open>Types of messages\<close>

definition request_type :: "int \<Rightarrow> msg \<Rightarrow> bool" where
  "request_type tag x = (case x of
       EmptyMessage \<Rightarrow> tag \<in> {MTYPE_WORKER_SHUTDOWN, MTYPE_FINISH_CHECKPOINT, MTYPE_CHECKPOINT_DONE, MTYPE_RESTORE_DONE,
         MTYPE_WORKER_FLUSH, MTYPE_WORKER_APPLY}
     | RegisterWorkerRequest _ \<Rightarrow> tag = MTYPE_REGISTER_WORKER
     | RunKernel _ \<Rightarrow> tag = MTYPE_RUN_KERNEL
     | KernelDone _ _ \<Rightarrow> tag = MTYPE_KERNEL_DONE
     | PutRequest _ \<Rightarrow> tag = MTYPE_PUT_REQUEST
     | EpochMarker _ _ \<Rightarrow> tag = MTYPE_PUT_REQUEST
     | ShardAssignmentRequest _ \<Rightarrow> tag = MTYPE_SHARD_ASSIGNMENT
     | CheckpointRequest _ _ _ \<Rightarrow> tag = MTYPE_START_CHECKPOINT
     | StartRestore _ \<Rightarrow> tag = MTYPE_RESTORE
     | TermcheckDelta _ _ _ \<Rightarrow> tag = MTYPE_TERMCHECK_DONE
     | TerminationNotification _ \<Rightarrow> tag = MTYPE_TERMINATION
     | SwapTable _ _ \<Rightarrow> tag = MTYPE_SWAP_TABLE
     | ClearTable _ \<Rightarrow> tag = MTYPE_CLEAR_TABLE
     | EnableTrigger _ _ _ \<Rightarrow> tag = MTYPE_ENABLE_TRIGGER
     | IteratorRequest _ _ _ _ \<Rightarrow> tag = MTYPE_ITERATOR
     | IteratorReply _ \<Rightarrow> False)"

definition reply_type :: "int \<Rightarrow> msg \<Rightarrow> bool" where
  "reply_type tag x = (case x of IteratorReply _ \<Rightarrow> tag = MTYPE_ITERATOR
     | EmptyMessage \<Rightarrow> tag \<in> set worker_callbacks - {MTYPE_ITERATOR} | _ \<Rightarrow> False)"

definition msg_type :: "Header \<Rightarrow> int \<Rightarrow> msg \<Rightarrow> bool" where
  "msg_type h tag x = (if is_reply h then reply_type tag x else request_type tag x)"

definition send_typed :: "msg RPCRequest \<Rightarrow> bool" where
  "send_typed r = msg_type (fst (payload r)) (rpc_type r) (snd (payload r))"

definition net_typed :: "msg NetworkThread \<Rightarrow> bool" where
  "net_typed n \<longleftrightarrow> (\<forall>r \<in> set (nt_pending_sends n) \<union> set (nt_active_sends n) \<union> set (nt_isent n). send_typed r) \<and>
     (\<forall>tag src. \<forall>x \<in> set (nt_requests n tag src). request_type tag x) \<and>
     (\<forall>tag. nt_callbacks n tag \<noteq> None \<longrightarrow> tag \<in> set worker_callbacks)"

abbreviation "w_typed w \<equiv> net_typed (w_net w)"

section \<open>The network thread\<close>

lemma nt_Send_typed: "request_type meth x \<Longrightarrow> net_typed n \<Longrightarrow> net_typed (nt_Send dst meth x n)"
  by (auto simp: net_typed_def nt_Send_def nt_Send_req_def rpc_new_def send_typed_def msg_type_def header_new_def)

lemma nt_reply_typed:
  "reply_type meth x \<Longrightarrow> net_typed n \<Longrightarrow> net_typed (nt_Send_req (rpc_new dst meth x \<lparr>is_reply = True\<rparr>) n)"
  by (auto simp: net_typed_def nt_Send_req_def rpc_new_def send_typed_def msg_type_def)

lemma nt_check_request_queue_typed:
  assumes "nt_check_request_queue src tag n = Inr (r, n')" and "net_typed n"
  shows "net_typed n'"
  using assms
  by (auto simp: nt_check_request_queue_def rbind_Inr_iff net_typed_def split: if_splits list.splits) (metis list.set_intros(2))

lemma nt_try_ranks_typed: "nt_try_ranks is tag n = Inr (r, n') \<Longrightarrow> net_typed n \<Longrightarrow> net_typed n'"
proof (induction "is" arbitrary: n)
  case (Cons i "is")
  then show ?case by (auto simp: rbind_Inr_iff split: option.splits dest: nt_check_request_queue_typed)
qed simp

lemma nt_TryRead_typed: "nt_TryRead src tag n = Inr (r, n') \<Longrightarrow> net_typed n \<Longrightarrow> net_typed n'"
  by (auto simp: nt_TryRead_def rbind_Inr_iff split: option.splits dest: nt_try_ranks_typed nt_check_request_queue_typed)

lemma nt_push_sends_typed: "net_typed n \<Longrightarrow> net_typed (nt_push_sends n)"
proof (induction n rule: nt_push_sends.induct)
  case (1 n)
  show ?case
  proof (cases "nt_pending_sends n = []")
    case False
    then have "net_typed (nt_Isend (last (nt_pending_sends n)) (n\<lparr>nt_pending_sends := butlast (nt_pending_sends n)\<rparr>))"
      using 1(2) by (auto simp: net_typed_def nt_Isend_def dest: in_set_butlastD)
    with 1(1) False show ?thesis by (subst nt_push_sends.simps) simp
  qed (use 1(2) in \<open>simp add: nt_push_sends.simps\<close>)
qed

lemma nt_Flush_typed: "nt_Flush fins n = Inr n' \<Longrightarrow> net_typed n \<Longrightarrow> net_typed n'"
proof (induction fins n rule: nt_Flush.induct)
  case (2 fin fins n)
  have "net_typed (nt_CollectActive fin (nt_push_sends n))"
    using nt_push_sends_typed [OF 2(3)] by (auto simp: net_typed_def nt_CollectActive_def)
  with 2 show ?case by (auto split: if_splits)
qed (auto split: if_splits)

lemma nt_arrive_typed:
  assumes "nt_arrive p n = Inr (info, n')" and "net_typed n" and "msg_type (pkt_header p) (pkt_tag p) (pkt_body p)"
  shows "net_typed n' \<and> (case info of None \<Rightarrow> True | Some i \<Rightarrow> rpc_tag i = pkt_tag p \<and> pkt_tag p \<in> set worker_callbacks \<and> \<not> is_reply (pkt_header p))"
  using assms by (auto simp: nt_arrive_def rbind_Inr_iff net_typed_def msg_type_def split: if_splits option.splits)

section \<open>Operations of a worker\<close>

lemma w_send_typed: "request_type meth x \<Longrightarrow> w_typed w \<Longrightarrow> w_typed (w_send dst meth x w)"
  by (simp add: w_send_def nt_Send_typed)

lemma fold_typed: "(\<And>x w. x \<in> set xs \<Longrightarrow> w_typed w \<Longrightarrow> w_typed (f x w)) \<Longrightarrow> w_typed w \<Longrightarrow> w_typed (fold f xs w)"
  by (induction xs arbitrary: w) auto

lemma w_put_table_typed: "w_typed w \<Longrightarrow> w_typed (w_put_table c i t w)"
  unfolding w_put_table_def Let_def
  by (auto intro!: fold_typed w_send_typed simp: request_type_def w_SendTermcheck_def split: prod.splits)

lemma w_on_table_typed: "w_on_table c i f w = Inr w' \<Longrightarrow> w_typed w \<Longrightarrow> w_typed w'"
  by (auto simp: w_on_table_def rbind_Inr_iff w_put_table_typed)

lemma w_on_checkpoint_typed: "w_on_checkpoint c i f w = Inr w' \<Longrightarrow> w_typed w \<Longrightarrow> w_typed w'"
  by (auto simp: w_on_checkpoint_def rbind_Inr_iff w_put_table_typed)

lemmas table_typed = w_on_table_typed w_on_checkpoint_typed

lemma rfold_typed:
  "rfold f xs w = Inr w' \<Longrightarrow> w_typed w \<Longrightarrow> (\<And>x w w'. x \<in> set xs \<Longrightarrow> f x w = Inr w' \<Longrightarrow> w_typed w \<Longrightarrow> w_typed w') \<Longrightarrow> w_typed w'"
  by (rule rfold_invariant [where I = w_typed])

lemma w_StartCheckpoint_typed:
  assumes "w_StartCheckpoint c ep ty w = Inr w'" and "w_typed w"
  shows "w_typed w'"
proof (cases "ep \<le> w_epoch w")
  case False
  then obtain u where u: "rfold (\<lambda>i w. if i \<in> set (w_checkpoint_tables w)
        then w_on_checkpoint c i (\<lambda>cd e. gt_start_checkpoint (we_lzo c) cd e (checkpoint_file (we_write_dir c) ep i)) w
        else Inr w) (w_table_ids w) (w\<lparr>w_epoch := ep\<rparr>) = Inr u"
      "w' = (let w = u\<lparr>w_active_checkpoint := ty\<rparr> in if ty = CP_ROLLING
         then fold (\<lambda>i. w_send (int i + 1) MTYPE_PUT_REQUEST (EpochMarker (w_id w) ep)) [0..<length (w_peers w)] w else w)"
    using assms(1) by (auto simp: w_StartCheckpoint_def Let_def rbind_Inr_iff)
  have "w_typed u" by (rule rfold_typed [OF u(1)]) (use assms(2) in \<open>auto split: if_splits dest: table_typed\<close>)
  then show ?thesis unfolding u(2) Let_def by (auto intro!: fold_typed w_send_typed simp: request_type_def)
qed (use assms in \<open>simp add: w_StartCheckpoint_def\<close>)

lemma w_FinishCheckpoint_typed:
  assumes "w_FinishCheckpoint c w = Inr w'" and "w_typed w"
  shows "w_typed w'"
proof -
  obtain u where u: "rfold (\<lambda>i. w_on_checkpoint c i (\<lambda>cd e. gt_finish_checkpoint (we_lzo c) e)) (w_table_ids w)
        (w\<lparr>w_active_checkpoint := CP_NONE, w_peers := map (\<lambda>_. w_epoch w) (w_peers w)\<rparr>) = Inr u"
      "w' = w_send (we_master c) MTYPE_CHECKPOINT_DONE EmptyMessage u"
    using assms(1) by (auto simp: w_FinishCheckpoint_def Let_def rbind_Inr_iff)
  have "w_typed u" by (rule rfold_typed [OF u(1)]) (use assms(2) in \<open>auto dest: table_typed\<close>)
  then show ?thesis unfolding u(2) by (intro w_send_typed) (simp_all add: request_type_def)
qed

lemma w_UpdateEpoch_typed:
  assumes "w_UpdateEpoch c p ep w = Inr w'" and "w_typed w"
  shows "w_typed w'"
proof -
  obtain u where u: "(if w_epoch w < ep then w_StartCheckpoint c ep CP_ROLLING (w\<lparr>w_checkpoint_tables := w_table_ids w\<rparr>) else Inr w) = Inr u"
      "(let v = u\<lparr>w_peers := (w_peers u)[nat p := ep]\<rparr> in if list_all (\<lambda>x. x = w_epoch v) (w_peers v) then w_FinishCheckpoint c v else Inr v) = Inr w'"
    using assms(1) by (auto simp: w_UpdateEpoch_def rbind_Inr_iff)
  have "w_typed u" using u(1) assms(2) w_StartCheckpoint_typed [of c ep CP_ROLLING _ u] by (auto split: if_splits)
  with u(2) show ?thesis using w_FinishCheckpoint_typed [of c _ w'] by (auto simp: Let_def split: if_splits)
qed

lemma w_Restore_typed:
  assumes "w_Restore c ep w = Inr w'" and "w_typed w"
  shows "w_typed w'"
proof -
  obtain u where u: "rfold (\<lambda>i. w_on_checkpoint c i (\<lambda>cd e. gt_restore (we_lzo c) cd e (checkpoint_file (we_read_dir c) ep i)))
       (w_table_ids w) (w\<lparr>w_epoch := ep\<rparr>) = Inr u" "w' = w_send (we_master c) MTYPE_RESTORE_DONE EmptyMessage u"
    using assms(1) by (auto simp: w_Restore_def rbind_Inr_iff)
  have "w_typed u" by (rule rfold_typed [OF u(1)]) (use assms(2) in \<open>auto dest: table_typed\<close>)
  then show ?thesis unfolding u(2) by (intro w_send_typed) (simp_all add: request_type_def)
qed

section \<open>Reading and handling\<close>

lemma w_drain_loop_typed:
  assumes "w_drain_loop fuel src tag h w = Inr w'" and "w_typed w" and "\<And>x w w'. h x w = Inr w' \<Longrightarrow> w_typed w \<Longrightarrow> w_typed w'"
  shows "w_typed w'"
  using assms(1,2)
proof (induction fuel arbitrary: w)
  case 0
  then show ?case
    by (subst (asm) w_drain_loop.simps) (auto simp: rbind_Inr_iff Let_def split: option.splits dest: nt_TryRead_typed)
next
  case (Suc fuel)
  from Suc.prems(1) obtain r n where r: "nt_TryRead src tag (w_net w) = Inr (r, n)"
      and rest: "(case r of None \<Rightarrow> Inr (w\<lparr>w_net := n\<rparr>) | Some (x, _) \<Rightarrow> rbind (h x (w\<lparr>w_net := n\<rparr>)) (w_drain_loop fuel src tag h)) = Inr w'"
    by (subst (asm) w_drain_loop.simps) (fastforce simp: rbind_Inr_iff Let_def split: option.splits)
  have "w_typed (w\<lparr>w_net := n\<rparr>)" using nt_TryRead_typed [OF r Suc.prems(2)] by simp
  with rest Suc.IH assms(3) show ?case by (auto simp: rbind_Inr_iff split: option.splits)
qed

lemma w_drain_typed:
  "w_drain src tag h w = Inr w' \<Longrightarrow> w_typed w \<Longrightarrow> (\<And>x w w'. h x w = Inr w' \<Longrightarrow> w_typed w \<Longrightarrow> w_typed w') \<Longrightarrow> w_typed w'"
  unfolding w_drain_def by (rule w_drain_loop_typed)

lemma w_apply_put_typed: "w_apply_put c put w = Inr w' \<Longrightarrow> w_typed w \<Longrightarrow> w_typed w'"
  by (auto simp: w_apply_put_def rbind_Inr_iff split: if_splits dest!: table_typed)

lemma w_handle_put_typed: "w_handle_put c x w = Inr w' \<Longrightarrow> w_typed w \<Longrightarrow> w_typed w'"
  by (auto simp: w_handle_put_def split: msg.splits if_splits dest: w_apply_put_typed w_UpdateEpoch_typed)

lemma w_HandlePutRequest_typed: "w_HandlePutRequest c w = Inr w' \<Longrightarrow> w_typed w \<Longrightarrow> w_typed w'"
  unfolding w_HandlePutRequest_def by (erule w_drain_typed) (auto dest: w_handle_put_typed)

lemma w_CheckForMasterUpdates_typed:
  assumes "w_CheckForMasterUpdates c w = Inr w'" and "w_typed w"
  shows "w_typed w'"
proof -
  obtain r n where r: "nt_TryRead (Some (we_master c)) MTYPE_WORKER_SHUTDOWN (w_net w) = Inr (r, n)" using assms(1)
    by (auto simp: w_CheckForMasterUpdates_def rbind_Inr_iff)
  have n: "net_typed n" using nt_TryRead_typed [OF r assms(2)] .
  show ?thesis
  proof (cases "r = None")
    case True
    then obtain u v where u: "w_drain (Some (we_master c)) MTYPE_START_CHECKPOINT (w_start_request c) (w\<lparr>w_net := n\<rparr>) = Inr u"
        "w_drain (Some (we_master c)) MTYPE_FINISH_CHECKPOINT (\<lambda>_. w_FinishCheckpoint c) u = Inr v"
        "w_drain (Some (we_master c)) MTYPE_RESTORE (w_restore_request c) v = Inr w'"
      using assms(1) r by (auto simp: w_CheckForMasterUpdates_def rbind_Inr_iff Let_def)
    have "w_typed u" by (rule w_drain_typed [OF u(1)])
      (use n in \<open>auto simp: w_start_request_def split: msg.splits dest!: w_StartCheckpoint_typed\<close>)
    then have "w_typed v" by (rule w_drain_typed [OF u(2)]) (rule w_FinishCheckpoint_typed)
    then show ?thesis by (rule w_drain_typed [OF u(3)]) (auto simp: w_restore_request_def split: msg.splits dest: w_Restore_typed)
  next
    case False
    then have "w' = w\<lparr>w_net := n, w_running := False\<rparr>" using assms(1) r by (auto simp: w_CheckForMasterUpdates_def Let_def)
    with n show ?thesis by simp
  qed
qed

lemma send_updates_typed: "rfold (\<lambda>i. w_on_table c i gt_SendUpdates) is w = Inr w' \<Longrightarrow> w_typed w \<Longrightarrow> w_typed w'"
  by (erule rfold_typed) (auto dest: table_typed)

lemma w_CheckNetwork_typed: "w_CheckNetwork c w = Inr w' \<Longrightarrow> w_typed w \<Longrightarrow> w_typed w'"
  by (auto simp: w_CheckNetwork_def rbind_Inr_iff dest!: w_CheckForMasterUpdates_typed w_HandlePutRequest_typed send_updates_typed)

section \<open>Callbacks\<close>

lemma assign_typed: "w_HandleShardAssignment as w = Inr w' \<Longrightarrow> w_typed w \<Longrightarrow> w_typed w'"
  unfolding w_HandleShardAssignment_def by (erule rfold_typed) (auto simp: w_assign_shard_def rbind_Inr_iff Let_def)

lemma w_HandleFlush_typed: "w_HandleFlush c w = Inr w' \<Longrightarrow> w_typed w \<Longrightarrow> w_typed w'"
  by (auto simp: w_HandleFlush_def rbind_Inr_iff dest!: send_updates_typed dest: nt_Flush_typed)

lemma w_open_iterator_typed:
  assumes "w_open_iterator c eff rs t s w = Inr (i, it, w')" and "w_typed w"
  shows "w_typed w'"
proof -
  obtain tb itr g where g: "tr_table t (w_tables w) = Inr tb"
      "gt_get_iterator (w_env w tb) s False (Some eff) rs (wt_gt tb) = Inr (itr, g)"
    using assms(1) unfolding w_open_iterator_def rbind_Inr_iff by fast
  have "w_net w' = w_net (w_put_table c t (tb\<lparr>wt_gt := g\<rparr>) w)"
    using assms(1) g by (cases itr) (auto simp: w_open_iterator_def Let_def)
  then show ?thesis using assms(2) w_put_table_typed by simp
qed

lemma w_HandleIteratorRequest_typed:
  assumes "w_HandleIteratorRequest c eff rs t s i n w = Inr (resp, w')" and "w_typed w"
  shows "w_typed w'"
proof -
  let ?q = "if i = -1 then w_open_iterator c eff rs t s w
            else (case w_iterators w (nat (i mod 2 ^ 32)) of None \<Rightarrow> Inl CheckFailed
              | Some (tb, sh, it) \<Rightarrow> rbind (tr_table tb (w_tables w)) (\<lambda>t. rbind (gt_partition sh (wt_gt t)) (\<lambda>st.
                  rbind (ti_Next st it) (\<lambda>(it', _). Inr (nat (i mod 2 ^ 32), it', w)))))"
  obtain j it u where u: "?q = Inr (j, it, u)"
    using assms(1) unfolding w_HandleIteratorRequest_def by (cases ?q) auto
  have "w_typed u" using u assms(2) w_open_iterator_typed [of c eff rs t s w j it u]
    by (auto simp: rbind_Inr_iff split: if_splits option.splits)
  moreover have "w_net w' = w_net u"
    using assms(1) unfolding w_HandleIteratorRequest_def u by (auto simp: rbind_Inr_iff split: option.splits)
  ultimately show ?thesis by simp
qed

lemma w_HandleSwapRequest_typed: "w_HandleSwapRequest a b w = Inr w' \<Longrightarrow> w_typed w \<Longrightarrow> w_typed w'"
  by (auto simp: w_HandleSwapRequest_def rbind_Inr_iff case_prod_unfold)

lemma w_callback_typed:
  assumes "w_callback c eff rs x w = Inr (resp, w')" and "w_typed w" and "request_type tag x" and "tag \<in> set worker_callbacks"
  shows "w_typed w' \<and> reply_type tag resp"
  using assms(1,3,4)
  by (cases x)
    (use assms(2) in \<open>auto simp: w_callback_def Let_def rbind_Inr_iff request_type_def reply_type_def worker_callbacks_def mtype_defs
       w_HandleClearRequest_def w_HandleTermNotification_def w_HandleEnableTrigger_def
       dest: assign_typed w_HandleIteratorRequest_typed w_HandleSwapRequest_typed table_typed\<close>)

lemma w_arrive_typed:
  assumes "w_arrive c eff rs p w = Inr w'" and "w_typed w" and "msg_type (pkt_header p) (pkt_tag p) (pkt_body p)"
  shows "w_typed w'"
proof -
  obtain info n where a: "nt_arrive p (w_net w) = Inr (info, n)" using assms(1) by (auto simp: w_arrive_def rbind_Inr_iff)
  note ty = nt_arrive_typed [OF a assms(2,3)]
  show ?thesis
  proof (cases info)
    case None
    then show ?thesis using assms(1) a ty by (auto simp: w_arrive_def Let_def)
  next
    case (Some i)
    let ?w = "w\<lparr>w_net := n\<rparr>"
    obtain resp u where u: "(if rpc_tag i = MTYPE_WORKER_FLUSH then rbind (w_HandleFlush c ?w) (\<lambda>w. Inr (EmptyMessage, w))
          else if rpc_tag i = MTYPE_WORKER_APPLY then rbind (w_HandleApply c ?w) (\<lambda>w. Inr (EmptyMessage, w))
          else w_callback c eff rs (pkt_body p) ?w) = Inr (resp, u)"
        "w' = u\<lparr>w_net := nt_Send_req (rpc_new (rpc_source i) (rpc_tag i) resp \<lparr>is_reply = True\<rparr>) (w_net u)\<rparr>"
      using assms(1) a Some by (auto simp: w_arrive_def rbind_Inr_iff Let_def)
    have i: "rpc_tag i = pkt_tag p" "pkt_tag p \<in> set worker_callbacks" "request_type (pkt_tag p) (pkt_body p)" "w_typed ?w"
      using ty Some assms(3) by (simp_all add: msg_type_def)
    have "w_typed u \<and> reply_type (rpc_tag i) resp"
    proof (cases "rpc_tag i \<in> {MTYPE_WORKER_FLUSH, MTYPE_WORKER_APPLY}")
      case True
      then have "reply_type (rpc_tag i) EmptyMessage" by (auto simp: reply_type_def worker_callbacks_def mtype_defs)
      moreover have "resp = EmptyMessage \<and> (w_HandleFlush c ?w = Inr u \<or> w_HandlePutRequest c ?w = Inr u)"
        using True u(1) by (auto simp: rbind_Inr_iff w_HandleApply_def split: if_splits)
      ultimately show ?thesis using w_HandleFlush_typed [OF _ i(4)] w_HandlePutRequest_typed [OF _ i(4)] by blast
    next
      case False
      with u(1) show ?thesis using w_callback_typed [OF _ i(4,3,2)] i(1) by simp
    qed
    then show ?thesis by (simp add: u(2) nt_reply_typed)
  qed
qed

section \<open>Kernels and the main loop\<close>

lemma w_kernel_object_typed: "w_kernel_object kreq w = Inr (d, w') \<Longrightarrow> w_typed w \<Longrightarrow> w_typed w'"
  by (auto simp: w_kernel_object_def Let_def split: option.splits prod.splits)

lemma w_report_tables_typed:
  assumes "w_report_tables c w = Inr (infos, w')" and "w_typed w"
  shows "w_typed w'"
  using rfold_invariant [where I = "\<lambda>(_, w). w_typed w", OF assms(1) [unfolded w_report_tables_def]] assms(2)
  by (fastforce simp: rbind_Inr_iff dest: w_HandlePutRequest_typed)

definition keeps_types :: "(string \<Rightarrow> string \<Rightarrow> 'p DSMKernel \<Rightarrow> ('k, 'd, 'p) Worker \<Rightarrow> ('p DSMKernel \<times> ('k, 'd, 'p) Worker) result) \<Rightarrow> bool" where
  "keeps_types user \<longleftrightarrow> (\<forall>kernel meth d w d' w'. user kernel meth d w = Inr (d', w') \<longrightarrow> w_typed w \<longrightarrow> w_typed w')"

lemma w_run_kernel_typed:
  assumes "w_run_kernel c user kreq w = Inr w'" and "w_typed w" and "keeps_types user"
  shows "w_typed w'"
proof -
  obtain d u where u: "w_kernel_object kreq w = Inr (d, u)" using assms(1) by (auto simp: w_run_kernel_def rbind_Inr_iff split: if_splits)
  obtain d1 d2 v infos x where v: "user (kr_kname kreq) (kr_method kreq) d1 u = Inr (d2, v)"
      "w_report_tables c (v\<lparr>w_kernels := AList.update (kr_kname kreq, kr_table kreq, kr_shard kreq) d2 (w_kernels v)\<rparr>) = Inr (infos, x)"
      "w' = w_send (we_master c) MTYPE_KERNEL_DONE (KernelDone kreq infos) x"
    using assms(1) u by (auto simp: w_run_kernel_def rbind_Inr_iff Let_def split: if_splits option.splits prod.splits)
  have "w_typed v" using assms(3) v(1) w_kernel_object_typed [OF u assms(2)] by (auto simp: keeps_types_def)
  then have "w_typed x" using w_report_tables_typed [OF v(2)] by simp
  then show ?thesis unfolding v(3) by (intro w_send_typed) (simp_all add: request_type_def)
qed

lemma w_round_typed:
  assumes "w_round c user w = Inr w'" and "w_typed w" and "keeps_types user"
  shows "w_typed w'"
proof -
  obtain r n where r: "nt_TryRead (Some (we_master c)) MTYPE_RUN_KERNEL (w_net w) = Inr (r, n)"
      "(case r of Some (RunKernel kreq, _) \<Rightarrow> w_run_kernel c user kreq (w\<lparr>w_net := n\<rparr>) | Some _ \<Rightarrow> Inl Uninitialised
        | None \<Rightarrow> w_CheckNetwork c (w\<lparr>w_net := n\<rparr>)) = Inr w'"
    using assms(1) by (auto simp: w_round_def rbind_Inr_iff Let_def)
  have n: "w_typed (w\<lparr>w_net := n\<rparr>)" using nt_TryRead_typed [OF r(1) assms(2)] by simp
  with r(2) show ?thesis
    by (auto split: option.splits msg.splits intro: w_run_kernel_typed [OF _ n assms(3)] w_CheckNetwork_typed [OF _ n])
qed

lemma w_rounds_typed:
  assumes "w_rounds c user eff rs bs w = Inr w'" and "w_typed w" and "keeps_types user"
    and "\<forall>b \<in> set bs. \<forall>p \<in> set b. msg_type (pkt_header p) (pkt_tag p) (pkt_body p)"
  shows "w_typed w'"
  using assms(1,2,4)
proof (induction bs arbitrary: w)
  case (Cons b bs)
  show ?case
  proof (cases "w_running w")
    case True
    with Cons.prems(1) obtain u v where u: "w_round c user w = Inr u" "rfold (w_arrive c eff rs) b u = Inr v" "w_rounds c user eff rs bs v = Inr w'"
      by (auto simp: rbind_Inr_iff)
    have "w_typed u" by (rule w_round_typed [OF u(1) Cons.prems(2) assms(3)])
    then have "w_typed v" by (rule rfold_typed [OF u(2)]) (use Cons.prems(3) in \<open>auto dest: w_arrive_typed\<close>)
    then show ?thesis using Cons.IH [OF u(3)] Cons.prems(3) by simp
  qed (use Cons.prems in simp)
qed simp

lemma w_new_typed:
  assumes "w_new k tables kreg fs (nt_new rank n inbox) = Inr w"
  shows "w_typed w"
proof -
  obtain n1 n2 where n1: "rfold (\<lambda>tag. nt_RegisterCallback tag EmptyMessage EmptyMessage) worker_callbacks (nt_new rank n inbox) = Inr n1"
      "nt_SpawnThreadFor MTYPE_WORKER_FLUSH n1 = Inr n2" "w_net w = n2"
    using assms by (auto simp: w_new_def rbind_Inr_iff)
  have "net_typed n1"
    by (rule rfold_invariant [OF n1(1)])
      (auto simp: net_typed_def nt_new_def nt_RegisterCallback_def rbind_Inr_iff check_def split: if_splits)
  then have "net_typed n2" using n1(2)
    by (auto simp: net_typed_def nt_SpawnThreadFor_def split: option.splits if_splits)
  then show ?thesis by (simp add: n1(3))
qed

text \<open>
  C14: a worker speaks the protocol. It is built on a fresh network thread, registers with the master and goes round its main loop;
  whatever well-typed messages arrive, in whatever batches, and whatever kernels it is told to run, as long as the user's code itself
  keeps to the types, each message it has handed to its network thread (to the master, to other workers, and as the reply of a callback) is the one
  its tag stands for. Each request still queued there is the one that the handler for its tag will parse.
\<close>

theorem worker_messages_typed:
  assumes "w_new k tables kreg fs (nt_new rank n inbox) = Inr w" and "w_KernelLoop c user eff rs bs w = Inr w'"
    and "\<forall>b \<in> set bs. \<forall>p \<in> set b. msg_type (pkt_header p) (pkt_tag p) (pkt_body p)" and "keeps_types user"
  shows "(\<forall>r \<in> set (nt_pending_sends (w_net w')) \<union> set (nt_active_sends (w_net w')) \<union> set (nt_isent (w_net w')). send_typed r) \<and>
    (\<forall>tag src. \<forall>x \<in> set (nt_requests (w_net w') tag src). request_type tag x)"
proof -
  have "w_typed (w_send 0 MTYPE_REGISTER_WORKER (RegisterWorkerRequest (w_id w)) w)"
    by (intro w_send_typed w_new_typed [OF assms(1)]) (simp add: request_type_def)
  from w_rounds_typed [OF assms(2) [unfolded w_KernelLoop_def] this assms(4,3)] show ?thesis by (simp add: net_typed_def)
qed

text \<open>
  A worker without tables is told to restore epoch 3 and, through the callback, to apply the updates it has; it asks to be registered, acknowledges the apply and
  reports the restore.
\<close>

definition ex_typed_packets :: "msg packet list list" where
  "ex_typed_packets =
     [[\<lparr>pkt_source = 0, pkt_tag = MTYPE_WORKER_APPLY, pkt_header = header_new, pkt_body = EmptyMessage\<rparr>,
       \<lparr>pkt_source = 0, pkt_tag = MTYPE_RESTORE, pkt_header = header_new, pkt_body = StartRestore 3\<rparr>], []]"

definition ex_typed_worker :: "(nat, unit, unit) Worker result" where
  "ex_typed_worker = w_new 1 [] [] (fs_new (\<lambda>_. True)) (nt_new 1 2 [])"

definition ex_typed_run :: "(nat, unit, unit) Worker \<Rightarrow> (nat, unit, unit) Worker result" where
  "ex_typed_run = w_KernelLoop ex_wenv (\<lambda>_ _ d w. Inr (d, w)) (\<lambda>_ s. s) (\<lambda>_. []) ex_typed_packets"

lemma ex_typed_run_sends:
  "(case rbind ex_typed_worker ex_typed_run of Inl _ \<Rightarrow> None
     | Inr w \<Rightarrow> Some (map (\<lambda>r. (rpc_type r, is_reply (fst (payload r)))) (nt_pending_sends (w_net w)))) =
   Some [(MTYPE_REGISTER_WORKER, False), (MTYPE_WORKER_APPLY, True), (MTYPE_RESTORE_DONE, False)]"
  by code_simp

theorem worker_messages_typed_witness:
  "\<exists>w. rbind ex_typed_worker ex_typed_run = Inr w \<and> length (nt_pending_sends (w_net w)) = 3 \<and> list_all send_typed (nt_pending_sends (w_net w))"
proof -
  obtain w0 w where w: "ex_typed_worker = Inr w0" "ex_typed_run w0 = Inr w"
      "map (\<lambda>r. (rpc_type r, is_reply (fst (payload r)))) (nt_pending_sends (w_net w)) =
        [(MTYPE_REGISTER_WORKER, False), (MTYPE_WORKER_APPLY, True), (MTYPE_RESTORE_DONE, False)]"
    using ex_typed_run_sends by (cases "rbind ex_typed_worker ex_typed_run") (auto simp: rbind_Inr_iff simp del: map_eq_Cons_conv)
  have "length (nt_pending_sends (w_net w)) = 3" using arg_cong [OF w(3), of length] by simp
  moreover have "list_all send_typed (nt_pending_sends (w_net w))"
    using worker_messages_typed [OF w(1) [unfolded ex_typed_worker_def] w(2) [unfolded ex_typed_run_def]]
    by (auto simp: ex_typed_packets_def keeps_types_def msg_type_def header_new_def request_type_def list_all_iff)
  ultimately show ?thesis using w(1,2) unfolding rbind_Inr_iff by blast
qed

end
