(* ===== verification/Job.thy ===== *)
theory Job
  imports Ownership
begin

text \<open>
  A whole job on the master, \<^verbatim>\<open>Master::run_maiter\<close>: the phases run one after the other. What a run needs at its start (one owner for every
  shard, tables with their partitions) it also leaves behind, through task collection, work stealing,
  checkpoints and termination checks; so the theorem on one run applies to each phase.
\<close>

section \<open>The invariant of a barrier\<close>

definition job_ok :: "int \<Rightarrow> ('k, 'v, 'd, 'p) Master \<Rightarrow> bool" where
  "job_ok tbl m \<longleftrightarrow> owners_ok (m_tabs m) (m_workers m) \<and> tasks_served (m_workers m) \<and> sched_ok tbl (m_workers m) \<and> tables_ok m \<and>
     rd_table (m_current_run m) = Some tbl \<and> tbl \<in> fst ` set (m_tabs m)"

lemma job_ok_counters [simp]:
  "m_tabs (m\<lparr>m_finished := k\<rparr>) = m_tabs m" "m_tabs (m\<lparr>m_dispatched := k\<rparr>) = m_tabs m" "m_tabs (m\<lparr>m_iter := i\<rparr>) = m_tabs m"
  "job_ok tbl (m\<lparr>m_finished := k\<rparr>) = job_ok tbl m" "job_ok tbl (m\<lparr>m_dispatched := k\<rparr>) = job_ok tbl m"
  "job_ok tbl (m\<lparr>m_iter := i\<rparr>) = job_ok tbl m"
  by (simp_all add: job_ok_def m_tabs_def tables_ok_def)

text \<open>\<open>kept tbl m m'\<close>: if the invariant held in \<open>m\<close> it holds in \<open>m'\<close>, on as many workers and the same tables.\<close>

definition kept :: "int \<Rightarrow> ('k, 'v, 'd, 'p) Master \<Rightarrow> ('k, 'v, 'd, 'p) Master \<Rightarrow> bool" where
  "kept tbl m m' \<longleftrightarrow> (job_ok tbl m \<longrightarrow> job_ok tbl m' \<and> m_tabs m' = m_tabs m \<and> length (m_workers m') = length (m_workers m))"

lemma kept_refl [simp]: "kept tbl m m" by (simp add: kept_def)

lemma kept_trans: "kept tbl m m' \<Longrightarrow> kept tbl m' m'' \<Longrightarrow> kept tbl m m''"
  by (auto simp: kept_def)

lemma job_workers:
  assumes ok: "owners_ok tabs ws" "tasks_served ws" and len: "length ws' = length ws" and sched: "sched_ok tbl ws'"
    and same: "\<And>i. i < length ws \<Longrightarrow> ws_shards (ws' ! i) = ws_shards (ws ! i) \<and> dom (map_of (ws_work (ws' ! i))) = dom (map_of (ws_work (ws ! i)))"
  shows "owners_ok tabs ws' \<and> tasks_served ws'"
proof
  show "owners_ok tabs ws'"
    by (rule owners_ok_cong [OF ok(1) len]) (use sched_okD(1,2) [OF sched] len same in auto)
  show "tasks_served ws'" unfolding tasks_served_def
  proof (intro allI impI)
    fix i x t assume t: "task_at ws' i x = Some t"
    then have i: "i < length ws" "x \<in> dom (map_of (ws_work (ws' ! i)))" using len by (auto simp: task_at_def split: if_splits)
    then obtain u where "task_at ws i x = Some u" using same [OF i(1)] by (auto simp: task_at_def)
    then have "x \<in> set (ws_shards (ws ! i))" using ok(2) by (auto simp: tasks_served_def)
    then show "x \<in> set (ws_shards (ws' ! i))" using same [OF i(1)] by simp
  qed
qed

lemma kept_workers:
  assumes "length (m_workers m') = length (m_workers m)" and "sched_ok tbl (m_workers m')"
    and "\<And>i. i < length (m_workers m) \<Longrightarrow> ws_shards (m_workers m' ! i) = ws_shards (m_workers m ! i) \<and>
      dom (map_of (ws_work (m_workers m' ! i))) = dom (map_of (ws_work (m_workers m ! i)))"
    and "m_tabs m' = m_tabs m" "tables_ok m' = tables_ok m" "rd_table (m_current_run m') = rd_table (m_current_run m)"
  shows "kept tbl m m'"
  using job_workers [OF _ _ assms(1,2,3), of "m_tabs m"] assms(1,2,4,5,6) by (auto simp: kept_def job_ok_def)

lemma quiet_kept:
  assumes "quiet m m'"
  shows "kept tbl m m'"
proof (cases "job_ok tbl m")
  case True
  have core: "map ws_core (m_workers m') = map ws_core (m_workers m)" using assms by (simp add: quiet_def)
  have len: "length (m_workers m') = length (m_workers m)" by (rule map_eq_imp_length_eq [OF core])
  have "ws_core (m_workers m' ! i) = ws_core (m_workers m ! i)" if "i < length (m_workers m)" for i
    using arg_cong [OF core, of "\<lambda>xs. xs ! i"] that len by simp
  then show ?thesis
    using assms True len quiet_workers(2) [OF core, of tbl]
    by (intro kept_workers) (simp_all add: ws_core_def quiet_def m_tabs_def tables_ok_def job_ok_def)
qed (simp add: kept_def)

section \<open>Dispatch and collection\<close>

lemma ws_get_next_frame:
  assumes "ws_get_next now k meth t args w = (r, w')" and "ws_ok w"
  shows "ws_shards w' = ws_shards w \<and> dom (map_of (ws_work w')) = dom (map_of (ws_work w))"
proof (cases "max_element WeightCompare (ws_tasks PENDING w)")
  case (Some best)
  have smap: "smap_ok (ws_work w)" using assms(2) by (simp add: ws_ok_def)
  have "map_of (ws_work w) (ts_id best) = Some best" using ws_tasks_lookup [OF assms(2) max_element_in [OF Some]] by simp
  then show ?thesis using assms(1) Some by (auto simp: ws_get_next_def map_of_smap_put [OF smap] split: if_splits)
next
  case None
  then have "ws_get_next now k meth t args w = (None, w)" by (simp only: ws_get_next_def option.case)
  then show ?thesis using assms(1) by simp
qed

lemma dispatch_one_kept:
  assumes "dispatch_one e r i (num, m) = Inr (num', m')" and "i < length (m_workers m)" and "rd_table r = Some tbl"
    and nm: "run_name m = (rd_kernel r, rd_method r)" and ok: "job_ok tbl m"
  shows "kept tbl m m' \<and> m_current_run m' = m_current_run m"
proof -
  have sched: "sched_ok tbl (m_workers m)" using ok by (simp add: job_ok_def)
  obtain es where sim: "sim tbl m es m'" and cur: "m_current_run m' = m_current_run m" using dispatch_one_sim [OF sched assms(2,3) nm, of e num] assms(1) by auto
  have m': "m' = m \<or> (\<exists>q w'. ws_get_next (m_now m) (rd_kernel r) (rd_method r) tbl (mm_ToMessage (me_marshal e) (rd_params r)) (m_workers m ! i) = (Some q, w') \<and>
      m' = m_send (ws_id (m_workers m ! i) + 1) MTYPE_RUN_KERNEL (RunKernel q) (m\<lparr>m_workers := (m_workers m)[i := w']\<rparr>))"
    using assms(1,3) by (auto simp: dispatch_one_def Let_def rd_table_id_def split: if_splits option.splits prod.splits)
  then show ?thesis
  proof
    assume "\<exists>q w'. ws_get_next (m_now m) (rd_kernel r) (rd_method r) tbl (mm_ToMessage (me_marshal e) (rd_params r)) (m_workers m ! i) = (Some q, w') \<and>
      m' = m_send (ws_id (m_workers m ! i) + 1) MTYPE_RUN_KERNEL (RunKernel q) (m\<lparr>m_workers := (m_workers m)[i := w']\<rparr>)"
    then obtain q w' where w': "ws_get_next (m_now m) (rd_kernel r) (rd_method r) tbl (mm_ToMessage (me_marshal e) (rd_params r)) (m_workers m ! i) = (Some q, w')"
      "m' = m_send (ws_id (m_workers m ! i) + 1) MTYPE_RUN_KERNEL (RunKernel q) (m\<lparr>m_workers := (m_workers m)[i := w']\<rparr>)" by blast
    have f: "ws_shards w' = ws_shards (m_workers m ! i) \<and> dom (map_of (ws_work w')) = dom (map_of (ws_work (m_workers m ! i)))"
      by (rule ws_get_next_frame [OF w'(1) sched_okD(1) [OF sched assms(2)]])
    have "kept tbl m m'"
    proof (rule kept_workers)
      fix j assume "j < length (m_workers m)"
      then show "ws_shards (m_workers m' ! j) = ws_shards (m_workers m ! j) \<and>
          dom (map_of (ws_work (m_workers m' ! j))) = dom (map_of (ws_work (m_workers m ! j)))"
        using f by (cases "j = i") (simp_all add: w'(2) m_send_def)
    qed (use sim in \<open>simp_all add: w'(2) m_send_def sim_def m_tabs_def tables_ok_def\<close>)
    then show ?thesis using cur by simp
  qed simp
qed

lemma dispatch_work_kept:
  assumes "dispatch_work e r m = Inr (num, m')" and "rd_table r = Some tbl" and "run_name m = (rd_kernel r, rd_method r)"
  shows "kept tbl m m'"
proof (cases "job_ok tbl m")
  case True
  let ?I = "\<lambda>(_, x). job_ok tbl x \<and> kept tbl m x \<and> run_name x = run_name m"
  have "?I (num, m')"
  proof (rule rfold_invariant [OF assms(1) [unfolded dispatch_work_def]])
    show "?I (0, m)" using True by simp
  next
    fix i and st st' :: "int \<times> ('a, 'b, 'c, 'd) Master"
    assume i: "i \<in> set [0..<length (m_workers m)]" and st: "?I st" and step: "dispatch_one e r i st = Inr st'"
    obtain n1 x n2 y where eq: "st = (n1, x)" "st' = (n2, y)" by (cases st; cases st')
    have x: "job_ok tbl x" "kept tbl m x" "run_name x = (rd_kernel r, rd_method r)" using st assms(3) by (simp_all add: eq)
    have "i < length (m_workers x)" using x(2) True i by (simp add: kept_def)
    note k = dispatch_one_kept [OF step [unfolded eq] this assms(2) x(3,1)]
    then show "?I st'" using x assms(3) kept_trans [OF x(2)] by (simp add: eq) (simp add: kept_def)
  qed
  then show ?thesis by simp
qed (simp add: kept_def)

lemma m_UpdatePartitions_frame:
  assumes "m_UpdatePartitions si tmap = Inr tmap'" and "distinct (map fst tmap)"
    and "\<forall>(i, te, g) \<in> set tmap. length (gt_partinfo g) = ge_num_shards te \<and> length (gt_partitions g) = ge_num_shards te"
  shows "map (\<lambda>(i, te, g). (i, ge_num_shards te)) tmap' = map (\<lambda>(i, te, g). (i, ge_num_shards te)) tmap \<and> map fst tmap' = map fst tmap \<and>
    (\<forall>(i, te, g) \<in> set tmap'. length (gt_partinfo g) = ge_num_shards te \<and> length (gt_partitions g) = ge_num_shards te)"
proof -
  obtain te g g' where g: "map_of tmap (si_table si) = Some (te, g)" "gt_UpdatePartitions (si_shard si) (si_owner si) (si_entries si) g = Inr g'"
      "tmap' = tr_update (si_table si) (te, g') tmap"
    using assms(1) by (auto simp: m_UpdatePartitions_def rbind_Inr_iff tr_index_def split: option.splits)
  have mem: "(si_table si, te, g) \<in> set tmap" using g(1) by (rule map_of_SomeD)
  have g': "length (gt_partinfo g') = length (gt_partinfo g)" "gt_partitions g' = gt_partitions g"
    using g(2) by (auto simp: gt_UpdatePartitions_def rbind_Inr_iff)
  have uniq: "u = (te, g)" if "(si_table si, u) \<in> set tmap" for u using that mem assms(2) by (metis eq_key_imp_eq_value)
  have "map (\<lambda>(i, te, g). (i, ge_num_shards te)) tmap' = map (\<lambda>(i, te, g). (i, ge_num_shards te)) tmap"
    unfolding g(3) tr_update_def map_map by (rule map_cong [OF refl]) (auto dest!: uniq)
  moreover have "map fst tmap' = map fst tmap" by (simp add: g(3) tr_update_def comp_def case_prod_beta if_distrib cong: if_cong)
  moreover have "\<forall>(i, te, g) \<in> set tmap'. length (gt_partinfo g) = ge_num_shards te \<and> length (gt_partitions g) = ge_num_shards te"
    using assms(3) mem g' by (fastforce simp: g(3) tr_update_def split: if_splits)
  ultimately show ?thesis by blast
qed

lemma UpdatePartitions_kept:
  assumes "rfold m_UpdatePartitions infos (m_tables m) = Inr tmap" and "tables_ok m"
  shows "m_tabs (m\<lparr>m_tables := tmap\<rparr>) = m_tabs m \<and> tables_ok (m\<lparr>m_tables := tmap\<rparr>)"
proof -
  let ?I = "\<lambda>x. map (\<lambda>(i, te, g). (i, ge_num_shards te)) x = m_tabs m \<and> map fst x = map fst (m_tables m) \<and>
    (\<forall>(i, te, g) \<in> set x. length (gt_partinfo g) = ge_num_shards te \<and> length (gt_partitions g) = ge_num_shards te)"
  have d: "distinct (map fst (m_tables m))" using assms(2) by (simp add: tables_ok_def)
  have "?I tmap"
  proof (rule rfold_invariant [OF assms(1)])
    show "?I (m_tables m)" using assms(2) by (simp add: m_tabs_def tables_ok_def)
  next
    fix si x x' assume "?I x" and "m_UpdatePartitions si x = Inr x'"
    then show "?I x'" using m_UpdatePartitions_frame [of si x x'] d by simp
  qed
  then show ?thesis using d by (simp add: m_tabs_def tables_ok_def)
qed

lemma ws_set_finished_frame:
  assumes "ws_set_finished t w = Inr w'" and "ws_ok w"
  shows "ws_shards w' = ws_shards w \<and> dom (map_of (ws_work w')) = dom (map_of (ws_work w))"
proof -
  have smap: "smap_ok (ws_work w)" using assms(2) by (simp add: ws_ok_def)
  obtain u where u: "map_of (ws_work w) t = Some u" "w' = w\<lparr>ws_work := smap_put t (u\<lparr>ts_status := FINISHED\<rparr>) (ws_work w)\<rparr>"
    using assms(1) by (auto simp: ws_set_finished_def result_simps split: option.splits)
  then show ?thesis by (auto simp: map_of_smap_put [OF smap] split: if_splits)
qed

lemma reap_kept:
  assumes reap: "reap_one_task m = Inr (w, m')"
  shows "kept tbl m m'"
proof (cases "job_ok tbl m")
  case True
  then have sched: "sched_ok tbl (m_workers m)" and tabs: "tables_ok m" by (simp_all add: job_ok_def)
  obtain es where sim: "sim tbl m es m'" using reap_sim [OF sched reap] by blast
  from reap show ?thesis
  proof (cases rule: reap_effect)
    case (none n)
    then show ?thesis by (intro kept_workers) (use sched in \<open>simp_all add: m_tabs_def tables_ok_def\<close>)
  next
    case (reaped n i req infos tmap v st)
    note f = ws_set_finished_frame [OF reaped(5) sched_okD(1) [OF sched reaped(3)]]
    note p = UpdatePartitions_kept [OF reaped(4) tabs]
    show ?thesis
    proof (rule kept_workers)
      fix j assume "j < length (m_workers m)"
      then show "ws_shards (m_workers m' ! j) = ws_shards (m_workers m ! j) \<and>
          dom (map_of (ws_work (m_workers m' ! j))) = dom (map_of (ws_work (m_workers m ! j)))"
        using f by (cases "j = i") (simp_all add: reaped(6) ws_ping_def)
    qed (use sim p tabs in \<open>simp_all add: reaped(6) sim_def m_tabs_def tables_ok_def\<close>)
  qed
qed (simp add: kept_def)

section \<open>Stealing and the loop\<close>

lemma filter_full: "length (filter P xs) = length xs \<Longrightarrow> x \<in> set xs \<Longrightarrow> P x"
proof (rule ccontr)
  assume "length (filter P xs) = length xs" "x \<in> set xs" "\<not> P x"
  then show False using length_filter_less [of x xs P] by simp
qed

lemma idle_not_pending:
  assumes "0 < ws_idle_time now w"
  shows "ws_num PENDING w = 0"
proof -
  have "ws_num FINISHED w = int (length (ws_work w))" using assms unfolding ws_idle_time_def
    by (cases "ws_num FINISHED w = int (length (ws_work w))") (simp_all only: if_True if_False not_False_eq_True not_True_eq_False less_irrefl)
  then have "length (filter (\<lambda>t. ts_status t = FINISHED) (map snd (ws_work w))) = length (map snd (ws_work w))"
    unfolding ws_num_def by (simp only: of_nat_eq_iff length_map)
  then have "ts_status t = FINISHED" if "t \<in> set (map snd (ws_work w))" for t by (rule filter_full) (rule that)
  then have "\<forall>x \<in> set (ws_work w). ts_status (snd x) \<noteq> PENDING" by force
  then show ?thesis unfolding ws_num_zero .
qed

lemma steal_kept:
  assumes ok: "job_ok tbl m" and i: "i < length (m_workers m)" "0 < ws_idle_time now (m_workers m ! i)"
    and steal: "steal_work e (m_current_run m) i avg m = Inr (b, m')"
  shows "kept tbl m m'"
proof -
  have o: "owners_ok (m_tabs m) (m_workers m)" "sched_ok tbl (m_workers m)" "tasks_served (m_workers m)" "tables_ok m"
      "rd_table (m_current_run m) = Some tbl" using ok by (simp_all add: job_ok_def)
  have "fst ` set (m_tabs m) = fst ` set (m_tables m)" by (simp add: m_tabs_def image_image case_prod_beta)
  then have t: "map_of (m_tables m) tbl \<noteq> None" using ok by (simp add: job_ok_def map_of_eq_None_iff)
  obtain b' ws where ws: "steal_work e (m_current_run m) i avg m = Inr (b', m\<lparr>m_workers := ws\<rparr>)" "owners_ok (m_tabs m) ws"
      "length ws = length (m_workers m)" "tasks_served ws"
    using steal_work_owners [OF o t i(1) idle_not_pending [OF i(2)], of e avg] by blast
  have "sched_ok tbl (m_workers m')" using shuffles_ok [OF shuffles_steal [OF o(2) i(1) steal]] by simp
  moreover have "m' = m\<lparr>m_workers := ws\<rparr>" using steal ws(1) by simp
  ultimately show ?thesis using ok ws by (simp add: kept_def job_ok_def)
qed

lemma periodic_worker_kept:
  assumes p: "periodic_worker e avg calls i (u, m) = Inr (u', m')" and i: "i < length (m_workers m)" and ok: "job_ok tbl m"
  shows "kept tbl m m'"
proof -
  let ?steal = "calls > 10 \<and> avg > 1 / 5 \<and> \<not> m_checkpointing m \<and> ws_idle_time (m_now m) (m_workers m ! i) > 1 / 2"
  from p obtain u1 m1 where 1: "(if ?steal then rbind (vec_at (m_workers m) (ws_id (m_workers m ! i))) (\<lambda>_.
      rbind (steal_work e (m_current_run m) (nat (ws_id (m_workers m ! i))) avg m) (\<lambda>(b, m). Inr (u \<or> b, m)))
      else Inr (u, m)) = Inr (u1, m1)" and 2: "m' = m1 \<or> (\<exists>k. m' = start_worker_checkpoint k m1)"
    unfolding periodic_worker_def by (auto simp: rbind_Inr_iff Let_def split: if_splits)
  have id: "ws_id (m_workers m ! i) = int i" using ok i sched_okD(2) by (auto simp: job_ok_def)
  have "kept tbl m m1"
  proof (cases ?steal)
    case True
    with 1 obtain b where "steal_work e (m_current_run m) i avg m = Inr (b, m1)" by (auto simp: rbind_Inr_iff id)
    moreover have "0 < ws_idle_time (m_now m) (m_workers m ! i)" using True by linarith
    ultimately show ?thesis using steal_kept [OF ok i] by blast
  next
    case False
    with 1 show ?thesis by auto
  qed
  moreover have "quiet m1 m'" using 2 start_worker_checkpoint_quiet quiet_refl by blast
  ultimately show ?thesis using quiet_kept kept_trans by blast
qed

lemma barrier_periodic_kept:
  assumes p: "barrier_periodic e m = Inr m'" and ok: "job_ok tbl m"
  shows "kept tbl m m'"
proof -
  from p obtain s avg u m1 where 1: "rfold (periodic_worker e avg s) [0..<length (m_workers m)] (False, m) = Inr (u, m1)"
      and 2: "m' = m1 \<or> send_table_assignments m1 = Inr m'"
    by (auto simp: barrier_periodic_def Let_def rbind_Inr_iff split: if_splits)
  have "(\<lambda>(_, x). kept tbl m x) (u, m1)"
  proof (rule rfold_invariant [OF 1])
    fix i and st st' :: "bool \<times> ('a, 'b, 'c, 'd) Master"
    assume i: "i \<in> set [0..<length (m_workers m)]" and st: "case st of (_, x) \<Rightarrow> kept tbl m x" and step: "periodic_worker e avg s i st = Inr st'"
    obtain b x b' y where eq: "st = (b, x)" "st' = (b', y)" by (cases st; cases st')
    have k: "kept tbl m x" using st by (simp add: eq)
    then have "i < length (m_workers x)" "job_ok tbl x" using i ok by (simp_all add: kept_def)
    then have "kept tbl x y" by (rule periodic_worker_kept [OF step [unfolded eq]])
    then show "case st' of (_, x) \<Rightarrow> kept tbl m x" using kept_trans [OF k] by (simp add: eq)
  qed simp
  then have "kept tbl m m1" by simp
  moreover have "quiet m1 m'" using 2 send_table_assignments_quiet by auto
  ultimately show ?thesis using quiet_kept kept_trans by blast
qed

lemma barrier_round_kept:
  assumes round: "barrier_round e t m = Inr m'" and ok: "job_ok tbl m"
  shows "kept tbl m m'"
proof -
  from round obtain n m1 m2 w m3 where n: "nt_poll (m_net m) = Inr n"
      and m1: "maybe_checkpoint e (m\<lparr>m_net := n, m_now := tk_now t\<rparr>) = Inr m1" and m2: "maybe_termcheck e m1 = Inr m2"
      and m3: "reap_one_task m2 = Inr (w, m3)"
      and more: "(case w of None \<Rightarrow> Inr m3 | Some _ \<Rightarrow> let m = m3\<lparr>m_finished := m_finished m3 + 1\<rparr> in
         rbind (if tk_periodic t then barrier_periodic e m else Inr m) (\<lambda>m.
         if m_dispatched m < int (length (rd_shards (m_current_run m)))
         then rbind (dispatch_work e (m_current_run m) m) (\<lambda>(k, m). Inr (m\<lparr>m_dispatched := m_dispatched m + k\<rparr>))
         else Inr m)) = Inr m'"
    by (auto simp: barrier_round_def rbind_Inr_iff)
  have "quiet m (m\<lparr>m_net := n, m_now := tk_now t\<rparr>)" using nt_poll_pending [OF n] by (simp add: quiet_def runs_sent_def)
  then have "quiet m m2" using maybe_checkpoint_quiet [OF m1] maybe_termcheck_quiet [OF m2] quiet_trans by blast
  then have k3: "kept tbl m m3" using kept_trans quiet_kept reap_kept [OF m3] by blast
  show ?thesis
  proof (cases w)
    case None
    then show ?thesis using more k3 by simp
  next
    case (Some i)
    define m4 where "m4 = m3\<lparr>m_finished := m_finished m3 + 1\<rparr>"
    have k4: "kept tbl m m4" using k3 by (simp add: kept_def m4_def)
    from more Some obtain m5 where m5: "(if tk_periodic t then barrier_periodic e m4 else Inr m4) = Inr m5"
        and m': "(if m_dispatched m5 < int (length (rd_shards (m_current_run m5)))
         then rbind (dispatch_work e (m_current_run m5) m5) (\<lambda>(k, m). Inr (m\<lparr>m_dispatched := m_dispatched m + k\<rparr>))
         else Inr m5) = Inr m'"
      unfolding m4_def by (auto simp: Let_def rbind_Inr_iff)
    have ok4: "job_ok tbl m4" using k4 ok by (simp add: kept_def)
    have "kept tbl m4 m5" using m5 barrier_periodic_kept [OF _ ok4] by (cases "tk_periodic t") auto
    then have k5: "kept tbl m m5" "job_ok tbl m5" using kept_trans [OF k4] ok4 by (simp_all add: kept_def)
    show ?thesis
    proof (cases "m_dispatched m5 < int (length (rd_shards (m_current_run m5)))")
      case True
      with m' obtain k m6 where m6: "dispatch_work e (m_current_run m5) m5 = Inr (k, m6)" "m' = m6\<lparr>m_dispatched := m_dispatched m6 + k\<rparr>"
        by (auto simp: rbind_Inr_iff)
      have "rd_table (m_current_run m5) = Some tbl" using k5(2) by (simp add: job_ok_def)
      then have "kept tbl m5 m6" using dispatch_work_kept [OF m6(1) _ refl] by blast
      then have "kept tbl m5 m'" by (simp add: kept_def m6(2))
      with k5(1) show ?thesis by (rule kept_trans)
    qed (use m' k5 in simp)
  qed
qed

lemma barrier_loop_kept:
  assumes "barrier_loop e ts m = Inr (ts', m')" and "job_ok tbl m"
  shows "kept tbl m m'"
  using assms
proof (induction ts arbitrary: m)
  case Nil
  then show ?case by (subst (asm) barrier_loop.simps) (simp split: if_splits)
next
  case (Cons t ts)
  show ?case
  proof (cases "m_finished m < int (length (rd_shards (m_current_run m)))")
    case False
    then have "m' = m" using Cons.prems(1) by (subst (asm) barrier_loop.simps) simp
    then show ?thesis by simp
  next
    case True
    with Cons.prems(1) obtain m1 where m1: "barrier_round e t m = Inr m1" and loop: "barrier_loop e ts m1 = Inr (ts', m')"
      by (subst (asm) barrier_loop.simps) (auto simp: rbind_Inr_iff simp del: barrier_loop.simps)
    have k: "kept tbl m m1" by (rule barrier_round_kept [OF m1 Cons.prems(2)])
    then have "job_ok tbl m1" using Cons.prems(2) by (simp add: kept_def)
    from Cons.IH [OF loop this] show ?thesis using kept_trans [OF k] by blast
  qed
qed

section \<open>Runs\<close>

text \<open>A run leaves the master as the next one needs it.\<close>

lemma run_keeps_owners:
  assumes run: "run e ts r m = Inr (ts', m')"
    and ok: "owners_ok (m_tabs m) (m_workers m)" "tables_ok m" "some_alive e (m_workers m)"
    and r: "rd_table r = Some tbl" "(tbl, k) \<in> set (m_tabs m)" "\<forall>s \<in> set (rd_shards r). s < int k"
  shows "owners_ok (m_tabs m') (m_workers m') \<and> tables_ok m' \<and> some_alive e (m_workers m') \<and> m_tabs m' = m_tabs m \<and>
    length (m_workers m') = length (m_workers m)"
proof -
  from run obtain m1 m2 m3 n m4 where m1: "run_prepare e r m = Inr m1"
      and m2: "(if m_shards_assigned m1 then Inr m1 else rbind (assign_tables e m1) send_table_assignments) = Inr m2"
      and m3: "assign_tasks e (m_current_run m2) (rd_shards r) (m2\<lparr>m_kernel_epoch := m_kernel_epoch m2 + 1\<rparr>) = Inr m3"
      and m4: "dispatch_work e (m_current_run m3) m3 = Inr (n, m4)"
      and b: "barrier e ts (m4\<lparr>m_dispatched := n\<rparr>) = Inr (ts', m')"
    by (auto simp: run_def rbind_Inr_iff)
  note p = run_prepare_effect [OF m1]
  have ok1: "owners_ok (m_tabs m1) (m_workers m1)" "tables_ok m1" "some_alive e (m_workers m1)" using ok p by simp_all
  obtain ws2 n2 where m2_eq: "m2 = m1\<lparr>m_shards_assigned := True, m_workers := ws2, m_net := n2\<rparr>" "owners_ok (m_tabs m) ws2"
      "length ws2 = length (m_workers m)"
    using assign_phase [OF ok1 m2] p by auto
  define m2' where "m2' = m2\<lparr>m_kernel_epoch := m_kernel_epoch m2 + 1\<rparr>"
  have m2': "m_tabs m2' = m_tabs m" "m_workers m2' = ws2" "tables_ok m2'" "rd_table (m_current_run m2') = Some tbl"
    using p ok(2) r(1) by (simp_all add: m2'_def m2_eq(1) m_tabs_def tables_ok_def)
  have tbl2: "rd_table (m_current_run m2) = Some tbl" using p r(1) by (simp add: m2_eq)
  obtain ws3 where m3_eq: "m3 = m2'\<lparr>m_workers := ws3\<rparr>" "owners_ok (m_tabs m) ws3" "length ws3 = length (m_workers m)"
      "tasks_for tbl (set (rd_shards r)) ws3"
    using assign_tasks_effect [OF _ tbl2 _ r(3) m3 [folded m2'_def], unfolded m2'] m2_eq(2,3) r(2) by auto
  note t3 = tasks_for_sched [OF m3_eq(2,4)]
  have ok3: "job_ok tbl m3" using t3 m3_eq m2' r(2) by (auto simp: job_ok_def intro: rev_image_eqI)
  have "kept tbl m3 m4" using dispatch_work_kept [OF m4 _ refl] ok3 by (simp add: job_ok_def)
  then have k4: "kept tbl m3 (m4\<lparr>m_dispatched := n, m_iter := m_iter m4 + 1\<rparr>)"
    by (simp add: kept_def)
  obtain m6 where loop: "barrier_loop e ts (m4\<lparr>m_dispatched := n, m_iter := m_iter m4 + 1\<rparr>) = Inr (ts', m6)" and q: "quiet m6 m'"
    using barrier_after_loop [OF b] by (auto simp del: barrier_loop.simps)
  have "kept tbl m3 m6"
    using kept_trans [OF k4 barrier_loop_kept [OF loop]] k4 ok3 by (simp add: kept_def)
  then have "kept tbl m3 m'" using quiet_kept [OF q] kept_trans by blast
  then have m': "job_ok tbl m'" "m_tabs m' = m_tabs m" "length (m_workers m') = length (m_workers m)"
    using ok3 m3_eq m2' by (simp_all add: kept_def)
  then have o: "owners_ok (m_tabs m) (m_workers m')" "tables_ok m'" by (simp_all add: job_ok_def)
  then show ?thesis using m' some_alive_ids [OF ok(1) o(1) m'(3), of e] ok(3) by simp
qed

text \<open>A phase: the kernel on every shard of the job's table.\<close>

definition phase_requests :: "string \<times> string \<Rightarrow> nat \<Rightarrow> nat \<Rightarrow> run_request list \<Rightarrow> bool" where
  "phase_requests nm shards workers reqs \<longleftrightarrow> distinct (map (\<lambda>(_, _, s). s) reqs) \<and> set (map (\<lambda>(_, _, s). s) reqs) = {0..<int shards} \<and>
     (\<forall>(rank, k, s) \<in> set reqs. k = nm \<and> 1 \<le> rank \<and> rank \<le> int workers)"

lemma run_all_phase:
  assumes run: "run_all e ts (rd_Init kn meth (Some 0) cps) m = Inr (ts', m')"
    and ok: "owners_ok (m_tabs m) (m_workers m)" "tables_ok m" "some_alive e (m_workers m)" and k: "(0, k) \<in> set (m_tabs m)"
  shows "\<exists>reqs. runs_sent (m_net m') = runs_sent (m_net m) @ reqs \<and> phase_requests (kn, meth) k (length (m_workers m)) reqs \<and>
    m_finished m' = int k \<and> owners_ok (m_tabs m') (m_workers m') \<and> tables_ok m' \<and> some_alive e (m_workers m') \<and> m_tabs m' = m_tabs m \<and>
    length (m_workers m') = length (m_workers m)"
proof -
  let ?r = "rd_Init kn meth (Some 0) cps\<lparr>rd_shards := range_to (int k)\<rparr>"
  have "map_of (m_tabs m) 0 = Some k" using k ok(1) by (simp add: owners_ok_def)
  moreover have "(0, ge_num_shards te) \<in> set (m_tabs m)" if "map_of (m_tables m) 0 = Some (te, g)" for te g
    using map_of_SomeD [OF that] by (force simp: m_tabs_def)
  ultimately have "ge_num_shards te = k" if "map_of (m_tables m) 0 = Some (te, g)" for te g
    using that ok(1) by (auto simp: owners_ok_def)
  then have r: "run e ts ?r m = Inr (ts', m')"
    using run by (auto simp: run_all_def run_range_def rd_Init_def rd_table_id_def tr_index_def rbind_Inr_iff split: option.splits)
  have d: "rd_table ?r = Some 0" "\<forall>s \<in> set (rd_shards ?r). s < int k" "distinct (rd_shards ?r)" "set (rd_shards ?r) = {0..<int k}"
      "length (rd_shards ?r) = k" "rd_kernel ?r = kn" "rd_method ?r = meth"
    by (auto simp: rd_Init_def range_to_def)
  show ?thesis
    using run_requests [OF r ok d(1) k d(2,3)] run_keeps_owners [OF r ok d(1) k d(2)] unfolding d phase_requests_def by auto
qed

text \<open>
  A job runs its phases one after the other, each on every shard exactly once. If \<^verbatim>\<open>run_maiter\<close> returns on a master whose table 0 has \<open>k\<close> shards,
  then the kernel requests it has sent are those of \<^verbatim>\<open>MaiterKernel1::run\<close>, followed by those of \<^verbatim>\<open>MaiterKernel2::map\<close> when the job has
  an iterate kernel and by those of \<^verbatim>\<open>MaiterKernel3::run\<close> when it has a termination checker; each group has one request for each
  shard, to some worker. Work stolen, checkpoints taken and termination checks in one phase leave the owners of the shards fit for the next.
\<close>

lemma run_maiter_phases:
  assumes run: "run_maiter e ts job m = Inr (ts', m')"
    and ok: "owners_ok (m_tabs m) (m_workers m)" "tables_ok m" "some_alive e (m_workers m)" and k: "(0, k) \<in> set (m_tabs m)"
  shows "\<exists>q1 q2 q3. runs_sent (m_net m') = runs_sent (m_net m) @ q1 @ q2 @ q3 \<and>
    phase_requests (phase1, ''run'') k (length (m_workers m)) q1 \<and>
    (if mk_iterkernel job then phase_requests (phase2, ''map'') k (length (m_workers m)) q2 else q2 = []) \<and>
    (if mk_termchecker job then phase_requests (phase3, ''run'') k (length (m_workers m)) q3 else q3 = []) \<and>
    m_finished m' = int k \<and> owners_ok (m_tabs m) (m_workers m')"
proof -
  from run obtain ts1 m1 ts2 m2 where m1: "run_all e ts (rd_Init phase1 ''run'' (Some 0) []) m = Inr (ts1, m1)"
      and m2: "(if mk_iterkernel job then run_all e ts1 (rd_Init phase2 ''map'' (Some 0) []) m1 else Inr (ts1, m1)) = Inr (ts2, m2)"
      and m3: "(if mk_termchecker job then run_all e ts2 (rd_Init phase3 ''run'' (Some 0) []) m2 else Inr (ts2, m2)) = Inr (ts', m')"
    by (auto simp: run_maiter_def rbind_Inr_iff)
  let ?ok = "\<lambda>x. m_finished x = int k \<and> owners_ok (m_tabs m) (m_workers x) \<and> tables_ok x \<and> some_alive e (m_workers x) \<and> m_tabs x = m_tabs m \<and>
    length (m_workers x) = length (m_workers m)"
  obtain q1 where q1: "runs_sent (m_net m1) = runs_sent (m_net m) @ q1" "phase_requests (phase1, ''run'') k (length (m_workers m)) q1" "?ok m1"
    using run_all_phase [OF m1 ok k] by auto
  obtain q2 where q2: "runs_sent (m_net m2) = runs_sent (m_net m1) @ q2"
      "if mk_iterkernel job then phase_requests (phase2, ''map'') k (length (m_workers m)) q2 else q2 = []" "?ok m2"
    using run_all_phase [of e ts1 phase2 "''map''" "[]" m1 ts2 m2 k] m2 q1(3) k by (auto split: if_splits)
  obtain q3 where q3: "runs_sent (m_net m') = runs_sent (m_net m2) @ q3"
      "if mk_termchecker job then phase_requests (phase3, ''run'') k (length (m_workers m)) q3 else q3 = []" "?ok m'"
    using run_all_phase [of e ts2 phase3 "''run''" "[]" m2 ts' m' k] m3 q2(3) k by (auto split: if_splits)
  show ?thesis using q1(1,2) q2(1,2) q3 by (intro exI [of _ q1] exI [of _ q2] exI [of _ q3]) simp
qed

end
