(* ===== verification/Launch.thy ===== *)
theory Launch
  imports Job Rolling
begin

text \<open>
  How a process starts: \<^verbatim>\<open>src/examples/main.cc\<close> looks up the runner that the command line names, the runner (\<^verbatim>\<open>Pagerank\<close>, \<^verbatim>\<open>Katz\<close>,
  \<^verbatim>\<open>Shortestpath\<close> and \<^verbatim>\<open>Adsorption\<close> of \<^verbatim>\<open>src/examples\<close>) builds a \<^verbatim>\<open>MaiterKernel\<close> and registers it, and then the process of rank 0 becomes the
  master while the others become workers (\<^verbatim>\<open>StartWorker\<close> of \<^verbatim>\<open>src/worker/worker.cc\<close>). All processes execute the same program, so the registries
  of a worker hold what the master relies on: the requests of a whole job name kernels and methods that every worker has.
\<close>

section \<open>A process\<close>

text \<open>The registries and the network thread of a process, and what it gets from outside: the user's kernel code, the clock, what arrives.\<close>

record ('k, 'd, 'p) process =
  p_tables :: "('k, rat, 'd) tables"
  p_kernels :: kernels
  p_net :: "msg NetworkThread"
  p_fs :: filesys
  p_now :: rat
  p_menv :: "'p menv"
  p_ticks :: "tick list"
  p_wenv :: wenv
  p_codec :: "('k, rat, 'd) codec"
  p_run :: "string \<Rightarrow> string \<Rightarrow> 'p DSMKernel \<Rightarrow> ('k, 'd, 'p) Worker \<Rightarrow> ('p DSMKernel \<times> ('k, 'd, 'p) Worker) result"
  p_schedule :: "nat \<Rightarrow> ('k, rat, 'd) StateTable \<Rightarrow> ('k, rat, 'd) StateTable"
  p_random :: "nat \<Rightarrow> int list"
  p_arrivals :: "msg packet list list"

datatype ('k, 'd, 'p) finished = MasterDone "('k, rat, 'd, 'p) Master" | WorkerExit "('k, 'd, 'p) Worker"

text \<open>\<^verbatim>\<open>ConfigData\<close>, as \<^verbatim>\<open>main\<close> fills it.\<close>

definition conf_num_workers :: "('k, 'd, 'p) process \<Rightarrow> nat" where
  "conf_num_workers p = nt_world_size (p_net p) - 1"

definition wtable_new :: "('k, rat, 'd) codec \<Rightarrow> ('k, rat, 'd) genv \<times> ('k, rat, 'd) GlobalTable \<Rightarrow> ('k, 'd) wtable" where
  "wtable_new cd t = \<lparr>wt_env = fst t, wt_gt = snd t, wt_delta = replicate (ge_num_shards (fst t)) None, wt_triggers = [], wt_codec = cd\<rparr>"

definition StartWorker :: "('k, 'd, 'p) process \<Rightarrow> ('k, 'd, 'p) Worker option result" where
  "StartWorker p = (if nt_id (p_net p) = 0 then Inr None
     else rbind (w_new (conf_num_workers p) (map (apsnd (wtable_new (p_codec p))) (p_tables p)) (p_kernels p) (p_fs p) (p_net p)) (\<lambda>w.
          rbind (w_KernelLoop (p_wenv p) (p_run p) (p_schedule p) (p_random p) (p_arrivals p) w) (\<lambda>w. Inr (Some w))))"

section \<open>The runners\<close>

definition maiter_new :: "nat \<Rightarrow> int \<Rightarrow> rat \<Rightarrow> string \<Rightarrow> bool \<Rightarrow> bool \<Rightarrow> bool \<Rightarrow> MaiterKernel" where
  "maiter_new num_workers nodes portion outdir insharder initerkernel intermchecker =
     (maiter_Reset \<lparr>mk_num_nodes = 0, mk_schedule_portion = 0, mk_num_workers = 0, mk_output = [], mk_sharder = False,
        mk_iterkernel = False, mk_termchecker = False\<rparr>)
     \<lparr>mk_num_workers := int num_workers, mk_num_nodes := nodes, mk_schedule_portion := portion, mk_output := outdir,
        mk_sharder := insharder, mk_iterkernel := initerkernel, mk_termchecker := intermchecker\<rparr>"

text \<open>What every runner does with its job; the destructor of the master ends the workers.\<close>

definition run_job :: "MaiterKernel \<Rightarrow> ('k, rat, 'd) genv \<Rightarrow> ('k, 'd, 'p) process \<Rightarrow> ('k, 'd, 'p) finished result" where
  "run_job job info p =
     rbind (registerMaiter job info (p_tables p) (p_kernels p)) (\<lambda>(tmap, kreg).
     let p = p\<lparr>p_tables := tmap, p_kernels := kreg\<rparr> in
     rbind (StartWorker p) (\<lambda>started. case started of
       Some w \<Rightarrow> Inr (WorkerExit w)
     | None \<Rightarrow> rbind (master_new (conf_num_workers p) (p_now p) (p_tables p) (p_kernels p) (p_net p)) (\<lambda>m.
         rbind (run_maiter (p_menv p) (p_ticks p) job m) (\<lambda>(_, m). Inr (MasterDone (master_delete m))))))"

record run_flags =
  rf_num_nodes :: int
  rf_portion :: rat
  rf_result_dir :: string
  rf_source :: int
  rf_beta :: rat
  rf_starts :: int
  rf_damping :: rat

definition example_job :: "run_flags \<Rightarrow> ('k, 'd, 'p) process \<Rightarrow> MaiterKernel" where
  "example_job fl p = maiter_new (conf_num_workers p) (rf_num_nodes fl) (rf_portion fl) (rf_result_dir fl) True True True"

definition Pagerank :: "run_flags \<Rightarrow> (int, rat, int list) genv \<Rightarrow> (int, int list, 'p) process \<Rightarrow> (int, int list, 'p) finished result" where
  "Pagerank fl info p = run_job (example_job fl p) (info\<lparr>ge_sharder := shard_Mod, ge_kernel := pagerank_kernel\<rparr>) p"

definition Katz :: "run_flags \<Rightarrow> (int, rat, int list) genv \<Rightarrow> (int, int list, 'p) process \<Rightarrow> (int, int list, 'p) finished result" where
  "Katz fl info p = run_job (example_job fl p) (info\<lparr>ge_sharder := shard_Mod, ge_kernel := katz_kernel (rf_source fl) (rf_beta fl)\<rparr>) p"

definition Shortestpath :: "run_flags \<Rightarrow> (int, rat, Link list) genv \<Rightarrow> (int, Link list, 'p) process \<Rightarrow> (int, Link list, 'p) finished result" where
  "Shortestpath fl info p = run_job (example_job fl p) (info\<lparr>ge_sharder := shard_Mod, ge_kernel := shortestpath_kernel (rf_source fl)\<rparr>) p"

definition Adsorption :: "run_flags \<Rightarrow> (int, rat, Link list) genv \<Rightarrow> (int, Link list, 'p) process \<Rightarrow> (int, Link list, 'p) finished result" where
  "Adsorption fl info p = run_job (example_job fl p) (info\<lparr>ge_sharder := shard_Mod, ge_kernel := adsorption_kernel (rf_starts fl) (rf_damping fl)\<rparr>) p"

text \<open>\<^verbatim>\<open>main\<close> after the flags are parsed; \<open>rr\<close> is the registry of runners.\<close>

definition maiter_main :: "string \<Rightarrow> (string \<times> (('k, 'd, 'p) process \<Rightarrow> ('k, 'd, 'p) finished result)) list \<Rightarrow> ('k, 'd, 'p) process \<Rightarrow>
    ('k, 'd, 'p) finished result" where
  "maiter_main runner rr conf = rbind (check (runner \<noteq> [])) (\<lambda>_.
     case rr_runner runner rr of None \<Rightarrow> Inl CheckFailed | Some k \<Rightarrow> k conf)"

section \<open>A new master\<close>

lemma m_await_workers_pending: "m_await_workers k n = Inr n' \<Longrightarrow> nt_pending_sends n' = nt_pending_sends n"
  by (induction k arbitrary: n) (auto simp: rbind_Inr_iff dest!: nt_Read_pending)

lemma master_new_ok:
  assumes "master_new n now tmap kreg net = Inr m" and "distinct (map fst tmap)"
    and "\<forall>(i, te, g) \<in> set tmap. length (gt_partinfo g) = ge_num_shards te \<and> length (gt_partitions g) = ge_num_shards te"
  shows "owners_ok (m_tabs m) (m_workers m)" "tables_ok m" "length (m_workers m) = n" "m_tables m = tmap"
    "runs_sent (m_net m) = runs_sent net" "(\<exists>i < n. int i \<notin> me_dead_workers e) \<Longrightarrow> some_alive e (m_workers m)"
proof -
  from assms(1) obtain net' where net': "m_await_workers n net = Inr net'" and m: "m_workers m = map (\<lambda>i. worker_new now (int i)) [0..<n]"
      "m_tables m = tmap" "m_net m = net'"
    by (auto simp: master_new_def rbind_Inr_iff)
  show "length (m_workers m) = n" "m_tables m = tmap" by (simp_all add: m)
  have "distinct (map fst (m_tabs m))" using assms(2) by (simp add: m_tabs_def m comp_def case_prod_beta)
  then show "owners_ok (m_tabs m) (m_workers m)" by (simp add: owners_ok_def m) (simp add: worker_new_def)
  show "tables_ok m" using assms(2,3) by (simp add: tables_ok_def m)
  show "runs_sent (m_net m) = runs_sent net" using m_await_workers_pending [OF net'] by (simp add: m runs_sent_def)
  show "some_alive e (m_workers m)" if "\<exists>i < n. int i \<notin> me_dead_workers e"
    using that by (auto simp: some_alive_def m ws_alive_def worker_new_def)
qed

lemma master_delete_runs: "runs_sent (m_net (master_delete m)) = runs_sent (m_net m)"
proof -
  have "runs_sent (m_net (fold (\<lambda>i. m_send (int i) MTYPE_WORKER_SHUTDOWN EmptyMessage) is m)) = runs_sent (m_net m)" for "is" m
    by (induction "is" arbitrary: m) (simp_all add: m_send_def runs_sent_def nt_Send_def nt_Send_req_def runs_of_other)
  then show ?thesis by (simp add: master_delete_def)
qed

section \<open>A whole job\<close>

lemma registerMaiter_tables:
  assumes "registerMaiter job info [] kreg = Inr (tmap, kreg')"
  shows "\<exists>te g. tmap = [(0, te, g)] \<and> ge_num_shards te = nat (mk_num_workers job) \<and>
    length (gt_partinfo g) = nat (mk_num_workers job) \<and> length (gt_partitions g) = nat (mk_num_workers job)"
proof -
  from assms have "\<exists>t. CreateTable (info\<lparr>ge_table_id := 0, ge_num_shards := nat (mk_num_workers job),
      ge_schedule_portion := mk_schedule_portion job, ge_helper_id := None\<rparr>) [] = Inr (t, tmap)"
    by (auto simp: registerMaiter_def rbind_Inr_iff)
  then show ?thesis by (auto simp: CreateTable_def gt_Init_def rbind_Inr_iff)
qed

lemma phase_requests_each:
  assumes "phase_requests nm n n qs" and "kr_runnable (fst nm) (snd nm) kreg" and "n < world"
  shows "\<forall>(rank, (kname, meth), shard) \<in> set qs. kr_runnable kname meth kreg \<and> 1 \<le> rank \<and> rank < int world \<and> 0 \<le> shard \<and> shard < int n"
proof (intro ballI, clarify)
  fix rank kname meth shard assume x: "(rank, (kname, meth), shard) \<in> set qs"
  have "shard \<in> {0..<int n}" using x assms(1) unfolding phase_requests_def by (metis (mono_tags, lifting) case_prod_conv image_eqI list.set_map)
  moreover have "(kname, meth) = nm \<and> 1 \<le> rank \<and> rank \<le> int n" using x assms(1) unfolding phase_requests_def by blast
  ultimately show "kr_runnable kname meth kreg \<and> 1 \<le> rank \<and> rank < int world \<and> 0 \<le> shard \<and> shard < int n" using assms(2,3) by auto
qed

text \<open>
  C9: the master of a job asks its workers only for what they have, and for all of it. Take a process of rank 0 with fresh registries, in a world of
  \<open>n + 1\<close> ranks of which at least one worker is not declared dead. If the runner of a job for \<open>n\<close> workers returns, then what it has sent are the kernel requests of the first phase, of the
  second if the job has an iterate kernel, and of the third if it has a termination checker, in this order, each phase with exactly one request for each of the \<open>n\<close>
  shards. Every other rank executes the same registration, which succeeds and gives table \<open>0\<close> with \<open>n\<close> shards and a registry of kernels in which each of the
  requests finds its kernel and its method; every request goes to such a rank.
\<close>

theorem job_requests_runnable:
  assumes run: "run_job job info p = Inr (MasterDone m)" and fresh: "p_tables p = []" "p_kernels p = []" "nt_pending_sends (p_net p) = []"
    and n: "mk_num_workers job = int (conf_num_workers p)" and alive: "\<exists>i < conf_num_workers p. int i \<notin> me_dead_workers (p_menv p)"
  shows "\<exists>q1 q2 q3 te g kreg. runs_sent (m_net m) = q1 @ q2 @ q3 \<and>
    phase_requests (phase1, ''run'') (conf_num_workers p) (conf_num_workers p) q1 \<and>
    (if mk_iterkernel job then phase_requests (phase2, ''map'') (conf_num_workers p) (conf_num_workers p) q2 else q2 = []) \<and>
    (if mk_termchecker job then phase_requests (phase3, ''run'') (conf_num_workers p) (conf_num_workers p) q3 else q3 = []) \<and>
    registerMaiter job info [] [] = Inr ([(0, te, g)], kreg) \<and> length (gt_partitions g) = conf_num_workers p \<and>
    (\<forall>(rank, (kname, meth), shard) \<in> set (q1 @ q2 @ q3). kr_runnable kname meth kreg \<and>
       1 \<le> rank \<and> rank < int (nt_world_size (p_net p)) \<and> 0 \<le> shard \<and> shard < int (conf_num_workers p))"
proof -
  let ?n = "conf_num_workers p"
  from run fresh obtain tmap kreg m0 ts m1 where reg: "registerMaiter job info [] [] = Inr (tmap, kreg)"
      and m0: "master_new ?n (p_now p) tmap kreg (p_net p) = Inr m0"
      and ran: "run_maiter (p_menv p) (p_ticks p) job m0 = Inr (ts, m1)" and m: "m = master_delete m1"
    by (auto simp: run_job_def StartWorker_def conf_num_workers_def rbind_Inr_iff Let_def split: option.splits if_splits)
  obtain te g where tg: "tmap = [(0, te, g)]" "ge_num_shards te = ?n" "length (gt_partinfo g) = ?n" "length (gt_partitions g) = ?n"
    using registerMaiter_tables [OF reg] n by auto
  have "distinct (map fst tmap)" "\<forall>(i, te, g) \<in> set tmap. length (gt_partinfo g) = ge_num_shards te \<and> length (gt_partitions g) = ge_num_shards te"
    by (simp_all add: tg)
  note ok = master_new_ok [OF m0 this]
  have "(0, ?n) \<in> set (m_tabs m0)" by (simp add: m_tabs_def ok(4) tg)
  from run_maiter_phases [OF ran ok(1,2) ok(6) [OF alive] this] obtain q1 q2 q3 where
      q: "runs_sent (m_net m1) = runs_sent (m_net m0) @ q1 @ q2 @ q3" "phase_requests (phase1, ''run'') ?n ?n q1"
        "if mk_iterkernel job then phase_requests (phase2, ''map'') ?n ?n q2 else q2 = []"
        "if mk_termchecker job then phase_requests (phase3, ''run'') ?n ?n q3 else q3 = []"
    unfolding ok(3) by blast
  have r: "kr_runnable phase1 ''run'' kreg" "kr_runnable phase2 ''map'' kreg = mk_iterkernel job" "kr_runnable phase3 ''run'' kreg = mk_termchecker job"
    using registerMaiter_runnable [of "[]" "[]" job info] reg by (auto simp: smap_ok_def)
  have "?n < nt_world_size (p_net p)" using alive by (auto simp: conf_num_workers_def)
  note each = phase_requests_each [where kreg = kreg, OF _ _ this]
  have "\<forall>(rank, (kname, meth), shard) \<in> set (q1 @ q2 @ q3). kr_runnable kname meth kreg \<and> 1 \<le> rank \<and> rank < int (nt_world_size (p_net p)) \<and>
      0 \<le> shard \<and> shard < int ?n"
    using each [OF q(2)] each [of "(phase2, ''map'')" q2] each [of "(phase3, ''run'')" q3] q(3,4) r by (auto split: if_splits)
  moreover have "runs_sent (p_net p) = []" by (simp add: runs_sent_def fresh(3))
  then have "runs_sent (m_net m) = q1 @ q2 @ q3" using q(1) ok(5) by (simp add: m master_delete_runs)
  ultimately show ?thesis using q(2,3,4) reg tg(1,4) by (intro exI [of _ q1] exI [of _ q2] exI [of _ q3] exI [of _ te] exI [of _ g] exI [of _ kreg]) auto
qed

section \<open>An example\<close>

text \<open>One worker and a job with its first phase only; the worker registers, takes its shard, finishes the request, flushes and applies.\<close>

definition ex_info :: "(nat, rat, unit) genv" where
  "ex_info = \<lparr>ge_table_id = 0, ge_num_shards = 1, ge_schedule_portion = 1, ge_helper_id = None, ge_epoch = 0, ge_bufmsg = 10,
     ge_sharder = (\<lambda>_ _. Inr 0), ge_hash = id,
     ge_kernel = \<lparr>k_default_v = 0, k_init_c = (\<lambda>_ _. 0), k_init_v = (\<lambda>_ _. 0), k_accumulate = (\<lambda>a _. a),
       k_process_delta_v = (\<lambda>_ d v _. (d, v)), k_priority = (\<lambda>_ _ d. d), k_g_func = (\<lambda>_ _ _ _. [])\<rparr>,
     ge_nd = \<lparr>skey = 0, in_use = False, v1 = 0\<rparr>, ge_ns = \<lparr>skey = 0, in_use = False, s1 = 0, s2 = 0, s3 = (), priority = 0\<rparr>,
     ge_mk = (\<lambda>_. []), ge_uk = (\<lambda>_. 0), ge_mv = (\<lambda>_. []), ge_uv = (\<lambda>_. 0)\<rparr>"

definition ex_launch :: MaiterKernel where
  "ex_launch = maiter_new 1 10 1 ''result'' True False False"

definition ex_reg_table :: "(nat, rat, unit) GlobalTable" where
  "ex_reg_table = \<lparr>gt_partitions = [Delta (dt_clear \<lparr>dt_buckets = [ge_nd ex_info], dt_entries = 0, dt_size = 1\<rparr>)],
     gt_partinfo = [\<lparr>pi_dirty = False, pi_tainted = False, pi_owner = -1, pi_entries = 0\<rparr>],
     gt_pending_writes = 0, gt_snapshot_index = 0, gt_binit = False, gt_update_queue = [], gt_sent = [], gt_termchecks = []\<rparr>"

definition ex_reg_kernels :: kernels where
  "ex_reg_kernels = [(phase1, Some \<lparr>ki_name = phase1, ki_methods = [''run'']\<rparr>)]"

lemma ex_launch_registers: "registerMaiter ex_launch ex_info [] [] = Inr ([(0, ex_info, ex_reg_table)], ex_reg_kernels)"
proof -
  have "dt_new id (ge_nd ex_info) 1 = Inr (dt_clear \<lparr>dt_buckets = [ge_nd ex_info], dt_entries = 0, dt_size = 1\<rparr>)"
    by (simp add: dt_new_def dt_fuel_Suc dt_clear_def vec_resize_def check_def ex_info_def)
  moreover have "ge_hash ex_info = id" "ge_table_id ex_info = 0" "ge_num_shards ex_info = Suc 0" by (simp_all add: ex_info_def)
  moreover have "ex_info\<lparr>ge_table_id := 0, ge_num_shards := Suc 0, ge_schedule_portion := 1, ge_helper_id := None\<rparr> = ex_info"
    by (simp add: ex_info_def)
  ultimately show ?thesis
    by (simp add: registerMaiter_def CreateTable_def gt_Init_def ex_launch_def maiter_new_def maiter_Reset_def register_step
        ex_reg_table_def ex_reg_kernels_def update_conv')
qed

definition ex_process :: "(nat, unit, string) process" where
  "ex_process = \<lparr>p_tables = [], p_kernels = [], p_net = nt_new 0 2 ex_inbox, p_fs = fs_new (\<lambda>_. True), p_now = 0, p_menv = ex_menv,
     p_ticks = ex_ticks, p_wenv = ex_wenv, p_codec = ex_codec,
     p_run = (\<lambda>_ _ d w. Inr (d, w)), p_schedule = (\<lambda>_ t. t), p_random = (\<lambda>_. []), p_arrivals = []\<rparr>"

definition ex_new_master :: "(nat, rat, unit, string) Master result" where
  "ex_new_master = master_new 1 0 [(0, ex_info, ex_reg_table)] ex_reg_kernels (nt_new 0 2 ex_inbox)"

lemma ex_new_master_runs: "case ex_new_master of Inl _ \<Rightarrow> False | Inr m \<Rightarrow> isl (run ex_menv ex_ticks ex_run m) = False"
  by code_simp

lemma ex_process_runs: "\<exists>m. run_job ex_launch ex_info ex_process = Inr (MasterDone m)"
proof -
  obtain m ts m' where m: "ex_new_master = Inr m" and run: "run ex_menv ex_ticks ex_run m = Inr (ts, m')"
    using ex_new_master_runs by (auto split: sum.splits) (metis isl_def sum.exhaust surj_pair)
  have "m_tables m = [(0, ex_info, ex_reg_table)]" using m by (auto simp: ex_new_master_def master_new_def rbind_Inr_iff)
  then have "run_maiter ex_menv ex_ticks ex_launch m = Inr (ts, m')"
    using run by (simp add: run_maiter_def run_all_def run_range_def rd_table_id_def rd_Init_def tr_index_def ex_launch_def maiter_new_def
        ex_run_def range_to_def upto.simps ex_info_def)
  then show ?thesis
    using m by (simp add: run_job_def ex_launch_registers StartWorker_def conf_num_workers_def ex_new_master_def ex_process_def Let_def)
qed

theorem job_requests_runnable_witness:
  "\<exists>m q kreg tmap. run_job ex_launch ex_info ex_process = Inr (MasterDone m) \<and> runs_sent (m_net m) = q \<and> phase_requests (phase1, ''run'') 1 1 q \<and>
     registerMaiter ex_launch ex_info [] [] = Inr (tmap, kreg) \<and> kr_runnable phase1 ''run'' kreg"
proof -
  obtain m where m: "run_job ex_launch ex_info ex_process = Inr (MasterDone m)" using ex_process_runs by blast
  have p: "p_tables ex_process = []" "p_kernels ex_process = []" "nt_pending_sends (p_net ex_process) = []" "conf_num_workers ex_process = 1"
      "\<exists>i < 1. int i \<notin> me_dead_workers (p_menv ex_process)" "mk_num_workers ex_launch = int 1"
    by (simp_all add: ex_process_def conf_num_workers_def ex_menv_def ex_launch_def maiter_new_def)
  have "kr_runnable phase1 ''run'' ex_reg_kernels" by (simp add: kr_runnable_def kr_kernel_def ex_reg_kernels_def ki_has_method_def)
  then show ?thesis
    using job_requests_runnable [OF m p(1,2,3)] p(4,5,6) m ex_launch_registers by (auto simp: ex_launch_def maiter_new_def)
qed

end
