(* ===== verification/GraphGen.thy ===== *)
theory GraphGen
  imports Engine Checkpoints
begin

text \<open>
  \<^verbatim>\<open>src/examples/gengraph.cc\<close>: the kernel that writes a synthetic graph, one file \<^verbatim>\<open>part<shard>\<close> per shard, in the format that the kernels of the
  examples read. The random generators are an input: the numbers that \<^verbatim>\<open>rand_target\<close>, \<^verbatim>\<open>rand_degree\<close> and \<^verbatim>\<open>rand_weight\<close> will return, in order. A
  generator never runs dry, so a run that has used up a list has not come to its end: it is \<open>Diverges\<close>. The runner \<^verbatim>\<open>GenGraph\<close> itself passes
  \<^verbatim>\<open>Accumulators<double>::Sum\<close>, which does not exist, to \<^verbatim>\<open>CreateTable\<close>; it has no meaning and is left out.
\<close>

section \<open>Random links\<close>

record Draws =
  dr_targets :: "int list"
  dr_degrees :: "int list"
  dr_weights :: "rat list"

definition rand_degree :: "Draws \<Rightarrow> (int \<times> Draws) result" where
  "rand_degree d = (case dr_degrees d of [] \<Rightarrow> Inl Diverges | n # ns \<Rightarrow> Inr (n, d\<lparr>dr_degrees := ns\<rparr>))"

definition rand_weight :: "Draws \<Rightarrow> (rat \<times> Draws) result" where
  "rand_weight d = (case dr_weights d of [] \<Rightarrow> Inl Diverges | w # ws \<Rightarrow> Inr (w, d\<lparr>dr_weights := ws\<rparr>))"

text \<open>\<^verbatim>\<open>p = rand_target(); while (p == key) p = rand_target();\<close>\<close>

fun other_target :: "int \<Rightarrow> int list \<Rightarrow> (int \<times> int list) result" where
  "other_target key [] = Inl Diverges"
| "other_target key (p # ps) = (if p = key then other_target key ps else Inr (p, ps))"

definition rand_target :: "int \<Rightarrow> Draws \<Rightarrow> (int \<times> Draws) result" where
  "rand_target key d = rbind (other_target key (dr_targets d)) (\<lambda>(p, ps). Inr (p, d\<lparr>dr_targets := ps\<rparr>))"

fun link_loop :: "(Draws \<Rightarrow> ('a \<times> Draws) result) \<Rightarrow> nat \<Rightarrow> Draws \<Rightarrow> ('a list \<times> Draws) result" where
  "link_loop next_link 0 d = Inr ([], d)"
| "link_loop next_link (Suc n) d = rbind (next_link d) (\<lambda>(l, d).
     rbind (link_loop next_link n d) (\<lambda>(links, d). Inr (l # links, d)))"

definition max_degree :: int where
  "max_degree = 10000"

definition InitLinks :: "int \<Rightarrow> Draws \<Rightarrow> (int list \<times> Draws) result" where
  "InitLinks key d = rbind (rand_degree d) (\<lambda>(degree, d).
     link_loop (rand_target key) (nat (if degree > max_degree then max_degree else degree)) d)"

text \<open>A weighted link; \<open>f\<close> is what is done to the number drawn.\<close>

definition weighted_link :: "(rat \<Rightarrow> rat) \<Rightarrow> int \<Rightarrow> Draws \<Rightarrow> (Link \<times> Draws) result" where
  "weighted_link f key d = rbind (rand_target key d) (\<lambda>(target, d). rbind (rand_weight d) (\<lambda>(w, d).
     Inr (\<lparr>link_end = target, link_weight = f w\<rparr>, d)))"

definition InitLinks2 :: "(rat \<Rightarrow> rat) \<Rightarrow> int \<Rightarrow> Draws \<Rightarrow> (Link list \<times> Draws) result" where
  "InitLinks2 logf key d = rbind (rand_degree d) (\<lambda>(degree, d).
     link_loop (weighted_link (\<lambda>w. logf (1 + w)) key) (nat (if degree > max_degree then max_degree else degree)) d)"

definition InitLinks3 :: "int \<Rightarrow> Draws \<Rightarrow> (Link list \<times> Draws) result" where
  "InitLinks3 key d = rbind (rand_degree d) (\<lambda>(degree, d).
     link_loop (weighted_link (\<lambda>w. 1 / w) key) (nat (if degree > max_degree then max_degree else degree)) d)"

section \<open>The files\<close>

text \<open>The loop \<^verbatim>\<open>for (int i = current_shard(); i < FLAGS_graph_size; i += num_shards)\<close>, with the links it draws for every vertex.\<close>

function gen_rows :: "(int \<Rightarrow> Draws \<Rightarrow> ('a list \<times> Draws) result) \<Rightarrow> nat \<Rightarrow> int \<Rightarrow> int \<Rightarrow> Draws \<Rightarrow> ((int \<times> 'a list) list \<times> Draws) result" where
  "gen_rows init num_shards graph_size i d =
     (if graph_size \<le> i then Inr ([], d)
      else if num_shards = 0 then Inl Diverges
      else rbind (init i d) (\<lambda>(links, d). rbind (gen_rows init num_shards graph_size (i + int num_shards) d) (\<lambda>(rows, d).
        Inr ((i, links) # rows, d))))"
  by pat_completeness auto
termination by (relation "measure (\<lambda>(_, _, size, i, _). nat (size - i))") auto

declare gen_rows.simps [simp del]

text \<open>\<^verbatim>\<open>ostream << int\<close>\<close>

definition str_of_int :: "int \<Rightarrow> string" where
  "str_of_int i = (if i < 0 then CHR ''-'' # decimal (nat (- i)) else decimal (nat i))"

definition blank_each :: "string list \<Rightarrow> string" where
  "blank_each ws = concat (map (\<lambda>w. w @ [CHR '' '']) ws)"

definition row_text :: "string \<Rightarrow> ('a \<Rightarrow> string) \<Rightarrow> int \<times> 'a list \<Rightarrow> string" where
  "row_text sep word r = str_of_int (fst r) @ sep @ blank_each (map word (snd r)) @ [newline]"

definition link_word :: "(rat \<Rightarrow> string) \<Rightarrow> Link \<Rightarrow> string" where
  "link_word showf l = str_of_int (link_end l) @ '','' @ showf (link_weight l)"

record GenState =
  gs_files :: files
  gs_commands :: "string list"
  gs_draws :: Draws

record gen_flags =
  gf_graph_size :: int
  gf_weighted :: bool
  gf_uploadDFS :: bool
  gf_hadoop_path :: string
  gf_graph_dir :: string
  gf_writable :: "string \<Rightarrow> bool"
  gf_log :: "rat \<Rightarrow> rat"
  gf_show :: "rat \<Rightarrow> string"

definition part_file :: "string \<Rightarrow> int \<Rightarrow> string" where
  "part_file dir shard = dir @ ''/part'' @ str_of_int shard"

text \<open>An \<^verbatim>\<open>ofstream\<close> that could not be opened swallows what is written.\<close>

definition gs_write :: "gen_flags \<Rightarrow> string \<Rightarrow> string \<Rightarrow> GenState \<Rightarrow> GenState" where
  "gs_write fl f s st = (if gf_writable fl f then st\<lparr>gs_files := (gs_files st)(f \<mapsto> s)\<rparr> else st)"

definition gs_upload :: "gen_flags \<Rightarrow> string \<Rightarrow> GenState \<Rightarrow> GenState" where
  "gs_upload fl f st = st\<lparr>gs_commands := gs_commands st @
     [gf_hadoop_path fl @ '' dfs -rmr '' @ f, gf_hadoop_path fl @ '' dfs -put '' @ f @ '' '' @ f]\<rparr>"

definition gen_unweightgraph :: "gen_flags \<Rightarrow> int \<Rightarrow> nat \<Rightarrow> GenState \<Rightarrow> GenState result" where
  "gen_unweightgraph fl shard num_shards st =
     rbind (gen_rows InitLinks num_shards (gf_graph_size fl) shard (gs_draws st)) (\<lambda>(rows, d).
       Inr (gs_write fl (part_file (gf_graph_dir fl) shard) (concat (map (row_text [tab] str_of_int) rows)) (st\<lparr>gs_draws := d\<rparr>)))"

definition gen_weightgraph :: "gen_flags \<Rightarrow> int \<Rightarrow> nat \<Rightarrow> GenState \<Rightarrow> GenState result" where
  "gen_weightgraph fl shard num_shards st =
     rbind (gen_rows (InitLinks2 (gf_log fl)) num_shards (gf_graph_size fl) shard (gs_draws st)) (\<lambda>(rows, d).
       Inr (gs_write fl (part_file (gf_graph_dir fl) shard) (concat (map (row_text [tab] (link_word (gf_show fl))) rows)) (st\<lparr>gs_draws := d\<rparr>)))"

definition gen_hadoop_unweightgraph :: "gen_flags \<Rightarrow> int \<Rightarrow> nat \<Rightarrow> GenState \<Rightarrow> GenState result" where
  "gen_hadoop_unweightgraph fl shard num_shards st =
     (let f = part_file (gf_graph_dir fl) shard; h = part_file (gf_graph_dir fl @ ''hadoop'') shard in
      rbind (gen_rows InitLinks num_shards (gf_graph_size fl) shard (gs_draws st)) (\<lambda>(rows, d).
        Inr (gs_upload fl h (gs_upload fl f
          (gs_write fl h (concat (map (row_text (tab # ''1:'') str_of_int) rows))
          (gs_write fl f (concat (map (row_text [tab] str_of_int) rows)) (st\<lparr>gs_draws := d\<rparr>)))))))"

definition gen_hadoop_weightgraph :: "gen_flags \<Rightarrow> int \<Rightarrow> nat \<Rightarrow> GenState \<Rightarrow> GenState result" where
  "gen_hadoop_weightgraph fl shard num_shards st =
     (let f = part_file (gf_graph_dir fl) shard; h = part_file (gf_graph_dir fl @ ''hadoop'') shard; word = link_word (gf_show fl) in
      rbind (gen_rows (InitLinks2 (gf_log fl)) num_shards (gf_graph_size fl) shard (gs_draws st)) (\<lambda>(rows, d).
        Inr (gs_upload fl h (gs_upload fl f
          (gs_write fl h (concat (map (\<lambda>r. row_text (tab # (if fst r = 0 then ''f0:'' else ''p:'')) word r) rows))
          (gs_write fl f (concat (map (row_text [tab] word) rows)) (st\<lparr>gs_draws := d\<rparr>)))))))"

definition gengraph_run :: "gen_flags \<Rightarrow> ('k, 'v, 'd) genv \<Rightarrow> int \<Rightarrow> ('k, 'v, 'd) GlobalTable \<Rightarrow> GenState \<Rightarrow>
    (('k, 'v, 'd) GlobalTable \<times> GenState) result" where
  "gengraph_run fl e shard g st =
     rbind (gt_InitStateTable e g) (\<lambda>g.
     rbind ((if gf_uploadDFS fl then (if gf_weighted fl then gen_hadoop_weightgraph else gen_hadoop_unweightgraph)
             else (if gf_weighted fl then gen_weightgraph else gen_unweightgraph)) fl shard (ge_num_shards e) st) (\<lambda>st.
       Inr (g, st)))"

section \<open>The text of a row\<close>

lemma decimal_chars: "set (decimal n) \<subseteq> char_of ` {48::nat..57}"
proof (induction n rule: decimal.induct)
  case (1 n)
  have "char_of (48 + n mod 10) \<in> char_of ` {48::nat..57}" by (intro imageI) auto
  moreover have "n < 10 \<Longrightarrow> char_of (48 + n) \<in> char_of ` {48::nat..57}" by (intro imageI) auto
  ultimately show ?case using 1 by (subst decimal.simps) auto
qed

lemma decimal_not_Nil [simp]: "decimal n \<noteq> []"
  by (subst decimal.simps) simp

lemma not_digit:
  assumes "(of_char c :: nat) < 48 \<or> 57 < (of_char c :: nat)"
  shows "c \<notin> set (decimal n)"
proof
  assume "c \<in> set (decimal n)"
  then obtain m :: nat where "48 \<le> m" "m \<le> 57" "c = char_of m" using decimal_chars [of n] by auto
  then show False using assms by simp
qed

lemma str_of_int_chars [simp]:
  "CHR '' '' \<notin> set (str_of_int i)" "tab \<notin> set (str_of_int i)" "newline \<notin> set (str_of_int i)" "CHR '','' \<notin> set (str_of_int i)" "str_of_int i \<noteq> []"
  by (auto simp: str_of_int_def tab_def newline_def not_digit)

text \<open>The lines of a file are its rows, without the line ends.\<close>

definition row_line :: "('a \<Rightarrow> string) \<Rightarrow> int \<times> 'a list \<Rightarrow> string" where
  "row_line word r = str_of_int (fst r) @ tab # blank_each (map word (snd r))"

lemma getlines_rows:
  assumes "\<forall>r \<in> set rs. \<forall>l \<in> set (snd r). newline \<notin> set (word l)"
  shows "getlines newline (concat (map (row_text [tab] word) rs)) = map (row_line word) rs"
proof -
  have "row_text [tab] word = (\<lambda>r. row_line word r @ [newline])" by (simp add: row_text_def row_line_def fun_eq_iff)
  moreover have "\<forall>w \<in> set (map (row_line word) rs). newline \<notin> set w"
    using assms by (auto simp: row_line_def blank_each_def tab_def newline_def)
      (use str_of_int_chars(3) in \<open>auto simp: newline_def\<close>)
  ultimately show ?thesis using getlines_concat [of "map (row_line word) rs" newline] by (simp add: comp_def)
qed

lemma katz_row:
  assumes "\<And>i. lc (str_of_int i) = Some i"
  shows "katz_read_data lc (row_line str_of_int r) = Inr (fst r, map to_int32 (snd r))"
    and "cc_read_data lc (row_line str_of_int r) = Inr (Some (fst r, map to_int32 (snd r)))"
proof -
  have "parse_links lc (blank_each (map str_of_int (snd r))) = Inr (map to_int32 (snd r))"
    using parse_links_concat [of "map str_of_int (snd r)" lc "\<lambda>w. the (lc w)"] assms by (simp add: blank_each_def comp_def)
  then show "katz_read_data lc (row_line str_of_int r) = Inr (fst r, map to_int32 (snd r))"
      "cc_read_data lc (row_line str_of_int r) = Inr (Some (fst r, map to_int32 (snd r)))"
    by (simp_all add: katz_read_data_def cc_read_data_def row_line_def str_find_append lexical_cast_def assms)
qed

lemma pagerank_row:
  assumes "\<And>i. lc (str_of_int i) = Some i"
  shows "pagerank_read_data lc (row_line str_of_int r) = Inl Uninitialised"
proof -
  have "parse_links lc (concat (map (\<lambda>w. w @ [CHR '' '']) ws) @ [CHR '' '']) = Inl Uninitialised"
    if "\<forall>w \<in> set ws. \<exists>i. w = str_of_int i" for ws
    using that
  proof (induction ws)
    case (Cons w ws)
    then obtain i where "w = str_of_int i" by auto
    with Cons show ?case by (simp add: parse_links_word lexical_cast_def assms)
  qed (simp add: parse_links_blank)
  from this [of "map str_of_int (snd r)"]
  have "parse_links lc (blank_each (map str_of_int (snd r)) @ [CHR '' '']) = Inl Uninitialised" unfolding blank_each_def by auto
  then show ?thesis
    by (simp add: pagerank_read_data_def parse_line_def row_line_def str_find_append lexical_cast_def assms)
qed

lemma parse_weighted_links:
  assumes "\<And>i. lc (str_of_int i) = Some i" "\<And>w. lcf (showf w) = Some (rnd w)" "\<And>w. CHR '' '' \<notin> set (showf w)"
  shows "parse_weighted lc lcf (blank_each (map (link_word showf) ls)) = Inr (map (\<lambda>l. l\<lparr>link_weight := rnd (link_weight l)\<rparr>) ls)"
proof (induction ls)
  case Nil
  show ?case by (subst parse_weighted.simps) (simp add: blank_each_def)
next
  case (Cons l ls)
  let ?w = "link_word showf l" and ?t = "blank_each (map (link_word showf) ls)"
  have w: "CHR '' '' \<notin> set ?w" "0 < length ?w" using assms(3) by (simp_all add: link_word_def)
  have c: "str_find (?w @ CHR '' '' # ?t) CHR '','' = Some (length (str_of_int (link_end l)))"
    by (simp add: link_word_def str_find_append)
  have "parse_link lc lcf (?w @ CHR '' '' # ?t) ?w = Inr (l\<lparr>link_weight := rnd (link_weight l)\<rparr>)"
    using c by (simp add: parse_link_def link_word_def lexical_cast_def assms(1,2))
  then show ?case using Cons w
    by (subst parse_weighted.simps) (simp add: blank_each_def str_find_append)
qed

lemma sp_row:
  assumes "\<And>i. lc (str_of_int i) = Some i" "\<And>w. lcf (showf w) = Some (rnd w)" "\<And>w. CHR '' '' \<notin> set (showf w)"
  shows "sp_read_data lc lcf (row_line (link_word showf) r) = Inr (fst r, map (\<lambda>l. l\<lparr>link_weight := rnd (link_weight l)\<rparr>) (snd r))"
  by (simp add: sp_read_data_def row_line_def str_find_append lexical_cast_def assms parse_weighted_links [of lc lcf showf rnd])

section \<open>The vertices of a shard\<close>

text \<open>What the loop body may assume of the draws and what it promises of the links.\<close>

definition gives_links :: "(int \<Rightarrow> Draws \<Rightarrow> ('a list \<times> Draws) result) \<Rightarrow> ('a \<Rightarrow> int) \<Rightarrow> bool" where
  "gives_links init end_of \<longleftrightarrow> (\<forall>i d links d'. init i d = Inr (links, d') \<longrightarrow> set (dr_targets d') \<subseteq> set (dr_targets d) \<and>
     int (length links) \<le> max_degree \<and> end_of ` set links \<subseteq> set (dr_targets d) - {i})"

lemma other_target_Inr: "other_target key ps = Inr (p, ps') \<Longrightarrow> p \<noteq> key \<and> p \<in> set ps \<and> set ps' \<subseteq> set ps"
  by (induction ps) (auto split: if_splits)

lemma link_loop_Inr:
  assumes "\<And>d l d'. next_link d = Inr (l, d') \<Longrightarrow> set (dr_targets d') \<subseteq> set (dr_targets d) \<and> end_of l \<in> set (dr_targets d) - {key}"
  shows "link_loop next_link n d = Inr (links, d') \<Longrightarrow> length links = n \<and> set (dr_targets d') \<subseteq> set (dr_targets d) \<and>
    end_of ` set links \<subseteq> set (dr_targets d) - {key}"
proof (induction n arbitrary: d links)
  case (Suc n)
  then obtain l d1 ls where l: "next_link d = Inr (l, d1)" and ls: "link_loop next_link n d1 = Inr (ls, d')" "links = l # ls"
    by (auto simp: rbind_Inr_iff)
  show ?case using assms [OF l] Suc.IH [OF ls(1)] ls(2) by auto
qed simp

lemma rand_target_Inr:
  "rand_target key d = Inr (p, d') \<Longrightarrow> set (dr_targets d') \<subseteq> set (dr_targets d) \<and> p \<in> set (dr_targets d) - {key}"
  by (auto simp: rand_target_def rbind_Inr_iff dest!: other_target_Inr)

lemma rand_keeps_targets:
  "rand_weight d = Inr (w, d') \<Longrightarrow> dr_targets d' = dr_targets d" "rand_degree d = Inr (n, d') \<Longrightarrow> dr_targets d' = dr_targets d"
  by (auto simp: rand_weight_def rand_degree_def split: list.splits)

lemma weighted_link_Inr:
  "weighted_link f key d = Inr (l, d') \<Longrightarrow> set (dr_targets d') \<subseteq> set (dr_targets d) \<and> link_end l \<in> set (dr_targets d) - {key}"
  by (auto simp: weighted_link_def rbind_Inr_iff dest!: rand_target_Inr rand_keeps_targets(1))

lemma degree_bound: "int (nat (if degree > max_degree then max_degree else degree)) \<le> max_degree"
  by (simp add: max_degree_def)

lemma InitLinks_gives: "gives_links InitLinks id"
  unfolding gives_links_def
proof (intro allI impI)
  fix i d links d' assume "InitLinks i d = Inr (links, d')"
  then obtain n d1 where d: "dr_targets d1 = dr_targets d"
      and l: "link_loop (rand_target i) (nat (if n > max_degree then max_degree else n)) d1 = Inr (links, d')"
    by (auto simp: InitLinks_def rbind_Inr_iff dest: rand_keeps_targets(2))
  have "id p \<in> set (dr_targets b) - {i}" "set (dr_targets b') \<subseteq> set (dr_targets b)" if "rand_target i b = Inr (p, b')" for b p b'
    using rand_target_Inr [OF that] by simp_all
  with link_loop_Inr [of "rand_target i" id i, OF _ l] d degree_bound [of n]
  show "set (dr_targets d') \<subseteq> set (dr_targets d) \<and> int (length links) \<le> max_degree \<and> id ` set links \<subseteq> set (dr_targets d) - {i}" by auto
qed

lemma InitLinks2_gives: "gives_links (InitLinks2 logf) link_end"
  unfolding gives_links_def
proof (intro allI impI)
  fix i d links d' assume "InitLinks2 logf i d = Inr (links, d')"
  then obtain n d1 where d: "dr_targets d1 = dr_targets d"
      and l: "link_loop (weighted_link (\<lambda>w. logf (1 + w)) i) (nat (if n > max_degree then max_degree else n)) d1 = Inr (links, d')"
    by (auto simp: InitLinks2_def rbind_Inr_iff dest: rand_keeps_targets(2))
  show "set (dr_targets d') \<subseteq> set (dr_targets d) \<and> int (length links) \<le> max_degree \<and> link_end ` set links \<subseteq> set (dr_targets d) - {i}"
    using link_loop_Inr [of _ link_end, OF weighted_link_Inr l] d degree_bound [of n] by simp
qed

lemma stride_set:
  assumes "i < N" "n \<noteq> 0"
  shows "{j. i \<le> j \<and> j < N \<and> int n dvd j - i} = insert i {j. i + int n \<le> j \<and> j < N \<and> int n dvd j - (i + int n)}"
proof (intro set_eqI iffI)
  fix j assume "j \<in> {j. i \<le> j \<and> j < N \<and> int n dvd j - i}"
  then have j: "i \<le> j" "j < N" "int n dvd j - i" by auto
  show "j \<in> insert i {j. i + int n \<le> j \<and> j < N \<and> int n dvd j - (i + int n)}"
  proof (cases "j = i")
    case False
    then have "int n \<le> j - i" using j by (intro zdvd_imp_le) auto
    then show ?thesis using j by (simp add: diff_diff_eq [symmetric])
  qed simp
next
  fix j assume "j \<in> insert i {j. i + int n \<le> j \<and> j < N \<and> int n dvd j - (i + int n)}"
  then show "j \<in> {j. i \<le> j \<and> j < N \<and> int n dvd j - i}" using assms
    by (auto simp: diff_diff_eq [symmetric] dvd_diff_left_iff)
qed

lemma gen_rows_vertices:
  assumes "gives_links init end_of" and "gen_rows init n N i d = Inr (rs, d')"
  shows "sorted_wrt (<) (map fst rs) \<and> set (map fst rs) = {j. i \<le> j \<and> j < N \<and> int n dvd j - i} \<and>
    (\<forall>(j, links) \<in> set rs. int (length links) \<le> max_degree \<and> end_of ` set links \<subseteq> set (dr_targets d) - {j})"
  using assms(2)
proof (induction "nat (N - i)" arbitrary: i d rs rule: less_induct)
  case less
  show ?case
  proof (cases "N \<le> i")
    case True
    then show ?thesis using less.prems by (auto simp: gen_rows.simps [of _ _ _ i])
  next
    case False
    then obtain links d1 rs' where l: "n \<noteq> 0" "init i d = Inr (links, d1)" and r: "gen_rows init n N (i + int n) d1 = Inr (rs', d')"
        and rs: "rs = (i, links) # rs'"
      using less.prems by (auto simp: gen_rows.simps [of _ _ _ i] rbind_Inr_iff split: if_splits)
    have "nat (N - (i + int n)) < nat (N - i)" using False l(1) by simp
    from less.hyps [OF this r] have IH: "sorted_wrt (<) (map fst rs')"
      "set (map fst rs') = {j. i + int n \<le> j \<and> j < N \<and> int n dvd j - (i + int n)}"
      "\<forall>(j, links) \<in> set rs'. int (length links) \<le> max_degree \<and> end_of ` set links \<subseteq> set (dr_targets d1) - {j}" by auto
    have d1: "set (dr_targets d1) \<subseteq> set (dr_targets d)" "int (length links) \<le> max_degree" "end_of ` set links \<subseteq> set (dr_targets d) - {i}"
      using assms(1) l(2) by (simp_all add: gives_links_def)
    have "\<forall>j \<in> set (map fst rs'). i < j" using IH(2) l(1) by auto
    then have "sorted_wrt (<) (map fst rs)" using IH(1) rs by simp
    moreover have "set (map fst rs) = {j. i \<le> j \<and> j < N \<and> int n dvd j - i}"
      using stride_set [of i N n] False l(1) IH(2) rs by simp
    moreover have "\<forall>(j, links) \<in> set rs. int (length links) \<le> max_degree \<and> end_of ` set links \<subseteq> set (dr_targets d) - {j}"
    proof -
      have "\<forall>(j, links) \<in> set rs'. int (length links) \<le> max_degree \<and> end_of ` set links \<subseteq> set (dr_targets d) - {j}"
        using IH(3) d1(1) by (auto dest!: bspec)
      then show ?thesis using d1(2,3) rs by simp
    qed
    ultimately show ?thesis by simp
  qed
qed

text \<open>With \<open>n\<close> shards the loop of shard \<open>s\<close> visits the vertices that \<^verbatim>\<open>Sharding::Mod\<close> gives to \<open>s\<close>.\<close>

lemma stride_is_shard:
  assumes "0 \<le> s" "s < int n"
  shows "{j. s \<le> j \<and> j < N \<and> int n dvd j - s} = {j. 0 \<le> j \<and> j < N \<and> shard_Mod j (int n) = Inr s}"
proof -
  have "s \<le> j \<and> int n dvd j - s \<longleftrightarrow> j smod int n = s" if "0 \<le> j" for j
  proof -
    have "j smod int n = j mod int n" using that assms by (cases "j = 0") (simp_all add: signed_modulo_int_def)
    moreover have "j mod int n = s \<longleftrightarrow> int n dvd j - s" using assms by (metis mod_eq_dvd_iff mod_pos_pos_trivial)
    moreover have "s \<le> j" if "j mod int n = s" using zmod_le_nonneg_dividend [OF \<open>0 \<le> j\<close>, of "int n"] that by simp
    ultimately show ?thesis by auto
  qed
  moreover have "0 \<le> j" if "s \<le> j" for j using that assms by simp
  ultimately have "s \<le> j \<and> int n dvd j - s \<longleftrightarrow> 0 \<le> j \<and> j smod int n = s" for j by blast
  then show ?thesis using assms by (auto simp: shard_Mod_def)
qed

section \<open>Reading the generated graph\<close>


text \<open>A reader of decimal numbers, as \<^verbatim>\<open>boost::lexical_cast\<close> is documented to be.\<close>

definition digits_val :: "string \<Rightarrow> nat" where
  "digits_val s = foldl (\<lambda>a c. a * 10 + (of_char c - 48)) 0 s"

definition read_int :: "string \<Rightarrow> int option" where
  "read_int s = (if s \<noteq> [] \<and> hd s = CHR ''-'' then Some (- int (digits_val (tl s))) else Some (int (digits_val s)))"

lemma digits_decimal: "digits_val (decimal n) = n"
proof (induction n rule: decimal.induct)
  case (1 n)
  then show ?case by (subst decimal.simps) (auto simp: digits_val_def)
qed

lemma read_str_of_int: "read_int (str_of_int i) = Some i"
proof -
  have "hd (decimal n) \<noteq> CHR ''-''" for n using not_digit [of "CHR ''-''" n] hd_in_set [OF decimal_not_Nil [of n]] by (auto simp del: hd_in_set)
  then show ?thesis by (auto simp: read_int_def str_of_int_def digits_decimal)
qed

definition ex_gen_flags :: gen_flags where
  "ex_gen_flags = \<lparr>gf_graph_size = 3, gf_weighted = False, gf_uploadDFS = False, gf_hadoop_path = ''hadoop'', gf_graph_dir = ''d'',
     gf_writable = (\<lambda>_. True), gf_log = id, gf_show = (\<lambda>_. ''1'')\<rparr>"

definition ex_gen :: GenState where
  "ex_gen = \<lparr>gs_files = Map.empty, gs_commands = [], gs_draws = \<lparr>dr_targets = [1, 0, 2, 1], dr_degrees = [2, 1], dr_weights = []\<rparr>\<rparr>"

lemma ex_gen_runs:
  "gen_unweightgraph ex_gen_flags 0 2 ex_gen = Inr \<lparr>gs_files = [part_file ''d'' 0 \<mapsto> concat (map (row_text [tab] str_of_int) [(0, [1, 2]), (2, [1])])],
     gs_commands = [], gs_draws = \<lparr>dr_targets = [], dr_degrees = [], dr_weights = []\<rparr>\<rparr>"
proof -
  have "InitLinks 0 \<lparr>dr_targets = [1, 0, 2, 1], dr_degrees = [2, 1], dr_weights = []\<rparr> =
      Inr ([1, 2], \<lparr>dr_targets = [1], dr_degrees = [1], dr_weights = []\<rparr>)"
    "InitLinks 2 \<lparr>dr_targets = [1], dr_degrees = [1], dr_weights = []\<rparr> = Inr ([1], \<lparr>dr_targets = [], dr_degrees = [], dr_weights = []\<rparr>)"
    by (simp_all add: InitLinks_def rand_degree_def rand_target_def max_degree_def eval_nat_numeral)
  then show ?thesis by (simp add: gen_unweightgraph_def ex_gen_flags_def ex_gen_def gen_rows.simps [of _ 2] gs_write_def)
qed


section \<open>Weighted graphs, and the end of the generation\<close>

text \<open>
  The same for weighted graphs and the shortest-path reader; \<open>rnd\<close> is what printing a \<^verbatim>\<open>float\<close> and reading it back makes of a weight.
\<close>

lemma weighted_graph_read_back:
  assumes gen: "gen_weightgraph fl s n st = Inr st'" and s: "0 \<le> s" "s < int n"
    and writable: "gf_writable fl (part_file (gf_graph_dir fl) s)" and draws: "set (dr_targets (gs_draws st)) \<subseteq> {0..<gf_graph_size fl}"
    and lc: "\<And>i. lc (str_of_int i) = Some i" and lcf: "\<And>w. lcf (gf_show fl w) = Some (rnd w)"
    and chars: "\<And>w. CHR '' '' \<notin> set (gf_show fl w)" "\<And>w. newline \<notin> set (gf_show fl w)"
  shows "\<exists>txt graph. gs_files st' (part_file (gf_graph_dir fl) s) = Some txt \<and>
    rmap (sp_read_data lc lcf) (getlines newline txt) = Inr graph \<and> sorted_wrt (<) (map fst graph) \<and>
    set (map fst graph) = {j. 0 \<le> j \<and> j < gf_graph_size fl \<and> shard_Mod j (int n) = Inr s} \<and>
    (\<forall>(j, links) \<in> set graph. length links \<le> 10000 \<and> link_end ` set links \<subseteq> {0..<gf_graph_size fl} - {j})"
proof -
  let ?word = "link_word (gf_show fl)" and ?f = "\<lambda>r. (fst r, map (\<lambda>l. l\<lparr>link_weight := rnd (link_weight l)\<rparr>) (snd r))"
  from gen obtain rs d where rs: "gen_rows (InitLinks2 (gf_log fl)) n (gf_graph_size fl) s (gs_draws st) = Inr (rs, d)"
      and st': "st' = gs_write fl (part_file (gf_graph_dir fl) s) (concat (map (row_text [tab] ?word) rs)) (st\<lparr>gs_draws := d\<rparr>)"
    by (auto simp: gen_weightgraph_def rbind_Inr_iff)
  note v = gen_rows_vertices [OF InitLinks2_gives rs]
  have "\<forall>(j, links) \<in> set rs. length links \<le> 10000 \<and> link_end ` set links \<subseteq> {0..<gf_graph_size fl} - {j}"
    using v draws by (auto simp: max_degree_def dest!: bspec)
  then have links: "\<forall>(j, links) \<in> set (map ?f rs). length links \<le> 10000 \<and> link_end ` set links \<subseteq> {0..<gf_graph_size fl} - {j}"
    by (simp add: split_beta image_image)
  have ls: "getlines newline (concat (map (row_text [tab] ?word) rs)) = map (row_line ?word) rs"
    using chars(2) str_of_int_chars(3) by (intro getlines_rows) (auto simp: link_word_def newline_def)
  have "rmap (sp_read_data lc lcf) (map (row_line ?word) rs) = Inr (map ?f rs)"
    by (induction rs) (simp_all add: sp_row [of lc lcf "gf_show fl" rnd, OF lc lcf chars(1)])
  then show ?thesis
    using links v stride_is_shard [OF s, of "gf_graph_size fl"]
    by (intro exI [of _ "concat (map (row_text [tab] ?word) rs)"] exI [of _ "map ?f rs"]) (auto simp: st' gs_write_def writable ls comp_def)
qed

text \<open>
  A graph of one vertex has no other target: unless the degree drawn is not positive, the generator never gets to the end of its loop.
  With two vertices, whatever degrees are drawn, there are targets with which it does.
\<close>

lemma single_vertex_never_ends:
  assumes "gf_graph_size fl = 1" and "set (dr_targets (gs_draws st)) \<subseteq> {0}" and "dr_degrees (gs_draws st) = m # ms" "0 < m"
  shows "gen_unweightgraph fl 0 1 st = Inl Diverges"
proof -
  have "other_target 0 ps = Inl Diverges" if "set ps \<subseteq> {0}" for ps using that by (induction ps) auto
  then have "rand_target 0 d = Inl Diverges" if "set (dr_targets d) \<subseteq> {0}" for d using that by (simp add: rand_target_def)
  moreover obtain k where "nat (if m > max_degree then max_degree else m) = Suc k" using assms(4) by (metis gr0_conv_Suc max_degree_def zero_less_nat_eq zero_less_numeral)
  ultimately have "InitLinks 0 (gs_draws st) = Inl Diverges" using assms(2,3) by (simp add: InitLinks_def rand_degree_def)
  then show ?thesis by (simp add: gen_unweightgraph_def assms(1) gen_rows.simps [of _ _ 1])
qed

lemma draws_swap: "(d :: Draws)\<lparr>dr_targets := a, dr_degrees := b\<rparr> = d\<lparr>dr_degrees := b, dr_targets := a\<rparr>"
  by simp

lemma InitLinks_can_end:
  assumes "2 \<le> N" and "dr_degrees d = m # ms"
  shows "\<exists>xs. set xs \<subseteq> {0..<N} \<and> (\<forall>rest. \<exists>links. InitLinks key (d\<lparr>dr_targets := xs @ rest\<rparr>) = Inr (links, d\<lparr>dr_degrees := ms, dr_targets := rest\<rparr>))"
proof -
  obtain p where p: "p \<noteq> key" "p \<in> {0..<N}" using assms(1) by (cases "key = 0") (auto intro: that [of 0] that [of 1])
  have loop: "link_loop (rand_target key) k (b\<lparr>dr_targets := replicate k p @ rest\<rparr>) = Inr (replicate k p, b\<lparr>dr_targets := rest\<rparr>)" for k rest b
    by (induction k arbitrary: b) (simp_all add: rand_target_def p)
  define k where "k = nat (if m > max_degree then max_degree else m)"
  have "InitLinks key (d\<lparr>dr_targets := replicate k p @ rest\<rparr>) = Inr (replicate k p, d\<lparr>dr_degrees := ms, dr_targets := rest\<rparr>)" for rest
    using loop [where k = k and b = "d\<lparr>dr_degrees := ms\<rparr>" and rest = rest] assms(2) by (simp add: InitLinks_def rand_degree_def draws_swap k_def)
  then show ?thesis using p(2) by (intro exI [of _ "replicate k p"]) auto
qed

lemma gen_rows_can_end:
  assumes "2 \<le> N" "n \<noteq> 0" and "nat (N - i) \<le> length (dr_degrees d)"
  shows "\<exists>xs. set xs \<subseteq> {0..<N} \<and> (\<forall>rest. \<exists>rs d'. gen_rows InitLinks n N i (d\<lparr>dr_targets := xs @ rest\<rparr>) = Inr (rs, d'))"
  using assms(3)
proof (induction "nat (N - i)" arbitrary: i d rule: less_induct)
  case less
  show ?case
  proof (cases "N \<le> i")
    case True
    then show ?thesis by (intro exI [of _ "[]"]) (simp add: gen_rows.simps [of _ _ _ i])
  next
    case False
    then obtain m ms where d: "dr_degrees d = m # ms" using less.prems by (cases "dr_degrees d") auto
    obtain xs where xs: "set xs \<subseteq> {0..<N}"
        "\<And>rest. \<exists>links. InitLinks i (d\<lparr>dr_targets := xs @ rest\<rparr>) = Inr (links, d\<lparr>dr_degrees := ms, dr_targets := rest\<rparr>)"
      using InitLinks_can_end [OF assms(1) d, of i] by blast
    have "nat (N - (i + int n)) < nat (N - i)" "nat (N - (i + int n)) \<le> length (dr_degrees (d\<lparr>dr_degrees := ms\<rparr>))"
      using False assms(2) less.prems d by auto
    from less.hyps [OF this] obtain ys where ys: "set ys \<subseteq> {0..<N}"
        "\<And>rest. \<exists>rs d'. gen_rows InitLinks n N (i + int n) (d\<lparr>dr_degrees := ms, dr_targets := ys @ rest\<rparr>) = Inr (rs, d')" by auto
    have "\<exists>rs d'. gen_rows InitLinks n N i (d\<lparr>dr_targets := (xs @ ys) @ rest\<rparr>) = Inr (rs, d')" for rest
      using xs(2) [of "ys @ rest"] ys(2) [of rest] False assms(2) by (auto simp: gen_rows.simps [of _ _ _ i])
    then show ?thesis using xs(1) ys(1) by (intro exI [of _ "xs @ ys"]) auto
  qed
qed

end
