(* ===== verification/Phases.thy ===== *)
theory Phases
  imports Convergence Worker GraphGen
begin

text \<open>
  The three phases of a job from end to end (\<^verbatim>\<open>src/kernel/kernel.h\<close>). Phase one turns the table that registration made, buffers only, into one whose local
  shards are state tables with a fresh row for every key of the key file that belongs to them: what phase two starts from. Phase three writes every row
  once. The functions that a worker calls for the requests of a job are here as well.
\<close>

section \<open>What the worker calls\<close>

text \<open>
  The members of \<^verbatim>\<open>MaiterKernel\<close> that the phases use, the files, and the inputs of the iteration. \<^verbatim>\<open>run_loop\<close> exists for kernels whose data the store
  yields, so the keys are \<^verbatim>\<open>long\<close> and the data lists of them.
\<close>

record phase_args =
  pa_getKey :: "string \<Rightarrow> int result"
  pa_files :: files
  pa_keys_file :: string
  pa_num_nodes :: int
  pa_cap :: nat
  pa_fuel :: nat
  pa_rounds :: "(((int, rat, int list) GlobalTable \<Rightarrow> (int, rat, int list) GlobalTable) \<times>
      (nat \<Rightarrow> (int, rat, int list) StateTable \<Rightarrow> (int, rat, int list) StateTable) option \<times> (nat \<Rightarrow> int list)) list"
  pa_store :: SStore
  pa_prk :: "int \<Rightarrow> string"
  pa_prv :: "rat \<Rightarrow> string"
  pa_output :: string

definition phase1_run :: "wenv \<Rightarrow> phase_args \<Rightarrow> 'p DSMKernel \<Rightarrow> (int, int list, 'p) Worker \<Rightarrow> ('p DSMKernel \<times> (int, int list, 'p) Worker) result" where
  "phase1_run c a d w = rbind (w_on_table c 0 (\<lambda>e. init_table e (pa_getKey a) [] (pa_files a) (pa_keys_file a) (pa_num_nodes a)) w) (\<lambda>w. Inr (d, w))"

definition phase2_map :: "wenv \<Rightarrow> phase_args \<Rightarrow> 'p DSMKernel \<Rightarrow> (int, int list, 'p) Worker \<Rightarrow> ('p DSMKernel \<times> (int, int list, 'p) Worker) result" where
  "phase2_map c a d w = rbind (w_on_table c 0 (\<lambda>e g.
     rbind (run_loop (pa_cap a) (pa_fuel a) e (kn_shard d) (pa_rounds a) (pa_store a) g) (\<lambda>(_, g). Inr g)) w) (\<lambda>w. Inr (d, w))"

text \<open>An \<^verbatim>\<open>fstream\<close> that could not be opened swallows what is written.\<close>

definition phase3_run :: "phase_args \<Rightarrow> 'p DSMKernel \<Rightarrow> (int, int list, 'p) Worker \<Rightarrow> ('p DSMKernel \<times> (int, int list, 'p) Worker) result" where
  "phase3_run a d w = rbind (tr_table 0 (w_tables w)) (\<lambda>t.
     rbind (dump (pa_prk a) (pa_prv a) (kn_shard d) (wt_gt t)) (\<lambda>out.
       Inr (d, case lf_fopen (pa_output a @ ''/part-'' @ decimal (nat (kn_shard d))) ''w'' (w_fs w) of None \<Rightarrow> w
         | Some (i, fs) \<Rightarrow> w\<lparr>w_fs := fs\<lparr>fs_data := (fs_data fs)(i := out)\<rparr>\<rparr>)))"


section \<open>Phase one\<close>

text \<open>The table as registration and the assignment of shards leave it.\<close>

definition gt_registered :: "('k, 'v, 'd) genv \<Rightarrow> ('k, 'v, 'd) GlobalTable \<Rightarrow> bool" where
  "gt_registered e g \<longleftrightarrow> ge_helper_id e \<noteq> None \<and> length (gt_partitions g) = ge_num_shards e \<and> length (gt_partinfo g) = ge_num_shards e \<and>
     gt_sent g = [] \<and> \<not> gt_binit g \<and>
     (\<forall>p \<in> set (gt_partitions g). \<exists>dt. p = Delta dt \<and> dt_ok (ge_hash e) dt \<and> dt_lookup dt = Map.empty)"

lemma gt_Init_registered:
  assumes "gt_Init e = Inr g" and "ge_helper_id e' \<noteq> None" "ge_hash e' = ge_hash e" "ge_num_shards e' = ge_num_shards e"
    and "length infos = ge_num_shards e"
  shows "gt_registered e' (g\<lparr>gt_partinfo := infos\<rparr>)"
proof -
  obtain dt where "dt_new (ge_hash e) (ge_nd e) 1 = Inr dt" "dt_ok (ge_hash e) dt" "dt_lookup dt = Map.empty"
    using dt_new_ok [of 1 "ge_hash e" "ge_nd e"] by auto
  then show ?thesis using assms by (auto simp: gt_Init_def gt_registered_def)
qed

lemma local_shard_eq:
  "ge_helper_id e \<noteq> None \<Longrightarrow> i < length (gt_partinfo g) \<Longrightarrow> gt_is_local_shard e (int i) g = Inr (gt_local e g i)"
  by (auto simp: gt_is_local_shard_def gt_owner_def gt_local_def result_simps)

lemma gt_InitStateTable_eq:
  assumes "gt_registered e g" and st: "st_new (ge_hash e) (ge_ns e) (ge_kernel e) 1 = Inr st"
  shows "gt_InitStateTable e g = Inr (g\<lparr>gt_partitions := map (\<lambda>i. if gt_local e g i then State st else gt_partitions g ! i) [0..<ge_num_shards e],
    gt_binit := True\<rparr>)"
proof -
  let ?n = "ge_num_shards e" and ?f = "\<lambda>i. if gt_local e g i then State st else gt_partitions g ! i"
  let ?step = "\<lambda>i g. rbind (gt_is_local_shard e (int i) g) (\<lambda>loc.
         if loc then rbind (st_new (ge_hash e) (ge_ns e) (ge_kernel e) 1) (\<lambda>st. Inr (g\<lparr>gt_partitions := (gt_partitions g)[i := State st]\<rparr>)) else Inr g)"
  have len: "length (gt_partitions g) = ?n" "length (gt_partinfo g) = ?n" "ge_helper_id e \<noteq> None" using assms(1) by (simp_all add: gt_registered_def)
  have "m \<le> ?n \<Longrightarrow> rfold ?step [0..<m] g = Inr (g\<lparr>gt_partitions := map ?f [0..<m] @ drop m (gt_partitions g)\<rparr>)" for m
  proof (induction m)
    case (Suc m)
    let ?g = "g\<lparr>gt_partitions := map ?f [0..<m] @ drop m (gt_partitions g)\<rparr>"
    have loc: "gt_is_local_shard e (int m) ?g = Inr (gt_local e g m)" using Suc.prems len by (subst local_shard_eq) (simp_all add: gt_local_def)
    have d: "drop m (gt_partitions g) = gt_partitions g ! m # drop (Suc m) (gt_partitions g)" using Suc.prems len by (simp add: Cons_nth_drop_Suc)
    have "?step m ?g = Inr (g\<lparr>gt_partitions := map ?f [0..<Suc m] @ drop (Suc m) (gt_partitions g)\<rparr>)"
      unfolding loc by (simp add: st d list_update_append)
    then show ?case using Suc by (simp add: rfold_append)
  qed simp
  from this [of ?n] show ?thesis by (simp add: gt_InitStateTable_def len)
qed

text \<open>What holds between the steps of phase one: the rows of every local shard are keys of the shard, and there is room for \<open>room i\<close> rows.\<close>

definition gt_filling :: "('k, 'v, 'd) genv \<Rightarrow> ('k \<Rightarrow> nat) \<Rightarrow> (nat \<Rightarrow> nat) \<Rightarrow> ('k, 'v, 'd) GlobalTable \<Rightarrow> bool" where
  "gt_filling e sh room g \<longleftrightarrow> gt_ok e g \<and> gt_sent g = [] \<and> gt_binit g \<and> (\<forall>k. buffered sh g k = None) \<and>
     (\<forall>i < ge_num_shards e. \<forall>st. gt_partitions g ! i = State st \<longrightarrow> room i \<le> st_size st \<and> (\<forall>k \<in> dom (st_rows st). sh k = i))"

lemma filling_init:
  assumes "gt_registered e g" and sh: "sharded e sh"
  shows "\<exists>g'. gt_InitStateTable e g = Inr g' \<and> gt_filling e sh (\<lambda>_. 0) g' \<and> rows sh g' = Map.empty \<and> gt_partinfo g' = gt_partinfo g"
proof -
  obtain st where st: "st_new (ge_hash e) (ge_ns e) (ge_kernel e) 1 = Inr st" "st_ok (ge_hash e) st" "st_rows st = Map.empty"
    using st_new_ok [of 1] by (metis zero_less_one)
  let ?f = "\<lambda>i. if gt_local e g i then State st else gt_partitions g ! i"
  let ?g = "g\<lparr>gt_partitions := map ?f [0..<ge_num_shards e], gt_binit := True\<rparr>"
  have r: "length (gt_partitions g) = ge_num_shards e" "length (gt_partinfo g) = ge_num_shards e" "ge_helper_id e \<noteq> None" "gt_sent g = []"
    using assms(1) by (simp_all add: gt_registered_def)
  have loc: "gt_local e ?g = gt_local e g" by (simp add: gt_local_def fun_eq_iff)
  have dt: "\<exists>dt. gt_partitions g ! i = Delta dt \<and> dt_ok (ge_hash e) dt \<and> dt_lookup dt = Map.empty" if "i < ge_num_shards e" for i
    using assms(1) that r(1) by (auto simp: gt_registered_def)
  have "part_ok e (gt_local e ?g i) i (gt_partitions ?g ! i)" if "i < ge_num_shards e" for i
    unfolding loc using dt [OF that] st(2) that by (auto simp: part_ok_def)
  then have "gt_ok e ?g" unfolding gt_ok_def using r by simp
  moreover have n: "sh k < ge_num_shards e" for k using sh by (simp add: sharded_def)
  then have "buffered sh ?g k = None" for k using dt [OF n [of k]] by (auto simp: buffered_def)
  moreover have "rows sh ?g k = None" for k using dt [OF n [of k]] n [of k] st(3) by (auto simp: rows_def)
  then have "rows sh ?g = Map.empty" by (simp add: fun_eq_iff)
  moreover have "\<forall>k \<in> dom (st_rows st'). sh k = i" if "i < ge_num_shards e" "?f i = State st'" for i st'
    using that dt [OF that(1)] st(3) by (auto split: if_splits)
  ultimately show ?thesis
    using gt_InitStateTable_eq [OF assms(1) st(1)] r by (intro exI [of _ ?g]) (simp add: gt_filling_def)
qed

text \<open>Replacing a local shard by one with other rows.\<close>

lemma filling_set:
  assumes F: "gt_filling e sh room g" and sh: "sharded e sh" and i: "i < ge_num_shards e" and st: "gt_partitions g ! i = State st"
    and st': "st_ok (ge_hash e) st'" "room' i \<le> st_size st'" "\<forall>k \<in> dom (st_rows st'). sh k = i" and same: "\<And>j. j \<noteq> i \<Longrightarrow> room' j = room j"
  shows "gt_filling e sh room' (gt_set (int i) (State st') g)"
    and "rows sh (gt_set (int i) (State st') g) k = (if sh k = i then st_rows st' k else rows sh g k)"
proof -
  have ok: "gt_ok e g" using F by (simp add: gt_filling_def)
  have len: "i < length (gt_partitions g)" using ok i by (simp add: gt_ok_def)
  have "part_ok e (gt_local e g i) i (gt_partitions g ! i)" using ok i by (simp add: gt_ok_def)
  then have "part_ok e (gt_local e g i) i (State st')" using st st'(1) by (simp add: part_ok_def)
  then have "gt_ok e (gt_set (int i) (State st') g)" by (rule gt_ok_set [OF ok i])
  moreover have "buffered sh (gt_set (int i) (State st') g) k = None" for k
    using F len by (auto simp: gt_filling_def buffered_def gt_set_def nth_list_update)
  moreover have "room' j \<le> st_size s \<and> (\<forall>k \<in> dom (st_rows s). sh k = j)"
    if "j < ge_num_shards e" "(gt_partitions g)[i := State st'] ! j = State s" for j s
  proof (cases "j = i")
    case True
    then show ?thesis using that len st'(2,3) by simp
  next
    case False
    then show ?thesis using F that same [OF False] by (simp add: gt_filling_def)
  qed
  moreover have "gt_partitions (gt_set (int i) (State st') g) = (gt_partitions g)[i := State st']"
      "gt_sent (gt_set (int i) (State st') g) = gt_sent g" "gt_binit (gt_set (int i) (State st') g) = gt_binit g"
    by (simp_all add: gt_set_def)
  ultimately show "gt_filling e sh room' (gt_set (int i) (State st') g)" using F unfolding gt_filling_def by metis
  show "rows sh (gt_set (int i) (State st') g) k = (if sh k = i then st_rows st' k else rows sh g k)"
    using len by (auto simp: rows_def gt_set_def)
qed

lemma shard_dom:
  assumes "gt_partitions g ! i = State st" and "\<forall>k \<in> dom (st_rows st). sh k = i"
  shows "dom (st_rows st) = dom (rows sh g) \<inter> {k. sh k = i}"
proof (rule set_eqI)
  fix k
  have "rows sh g k = st_rows st k" if "sh k = i" using that assms(1) by (simp add: rows_def)
  then show "k \<in> dom (st_rows st) \<longleftrightarrow> k \<in> dom (rows sh g) \<inter> {k. sh k = i}" using assms(2) by (cases "sh k = i") (simp add: dom_def, blast)
qed

definition resize_step :: "('k, 'v, 'd) genv \<Rightarrow> int \<Rightarrow> nat \<Rightarrow> ('k, 'v, 'd) GlobalTable \<Rightarrow> ('k, 'v, 'd) GlobalTable result" where
  "resize_step e N i g = rbind (gt_is_local_shard e (int i) g) (\<lambda>loc. if \<not> loc then Inr g
     else rbind (vec_at (gt_partitions g) (int i)) (\<lambda>p. let n = N div int (length (gt_partitions g)) + 1 in
       case p of State st \<Rightarrow> rbind (st_resize st_fuel (ge_hash e) (ge_ns e) (ge_kernel e) n st) (\<lambda>st'. Inr (gt_set (int i) (State st') g))
       | Delta dt \<Rightarrow> rbind (dt_resize dt_fuel (ge_hash e) (ge_nd e) n dt) (\<lambda>dt'. Inr (gt_set (int i) (Delta dt') g))))"

lemma gt_resize_steps: "gt_resize e N g = rfold (resize_step e N) [0..<length (gt_partitions g)] g"
  by (simp add: gt_resize_def resize_step_def [abs_def])

abbreviation "rows_per_shard e N \<equiv> N div int (ge_num_shards e) + 1"

text \<open>Two tables of one worker during phase one.\<close>

definition same_but_parts :: "('k, 'v, 'd) GlobalTable \<Rightarrow> ('k, 'v, 'd) GlobalTable \<Rightarrow> bool" where
  "same_but_parts g g' \<longleftrightarrow> gt_partinfo g' = gt_partinfo g \<and> gt_pending_writes g' = gt_pending_writes g"

lemma filling_resize_step:
  assumes F: "gt_filling e sh room g" and sh: "sharded e sh" and i: "i < ge_num_shards e" and pos: "0 < rows_per_shard e N"
    and few: "card (dom (rows sh g) \<inter> {k. sh k = i}) \<le> nat (rows_per_shard e N)"
  shows "\<exists>g'. resize_step e N i g = Inr g' \<and> gt_filling e sh (room(i := nat (rows_per_shard e N))) g' \<and> rows sh g' = rows sh g \<and> same_but_parts g g'"
proof -
  have ok: "gt_ok e g" using F by (simp add: gt_filling_def)
  have len: "length (gt_partitions g) = ge_num_shards e" using ok by (simp add: gt_ok_def)
  show ?thesis
  proof (cases "gt_local e g i")
    case True
    then obtain st where st: "gt_partitions g ! i = State st" "st_ok (ge_hash e) st" using gt_ok_State [OF ok i] by blast
    have keys: "\<forall>k \<in> dom (st_rows st). sh k = i" using F i st(1) by (simp add: gt_filling_def)
    have "int (st_entries st) \<le> rows_per_shard e N" using few pos by (simp add: card_st_rows [OF st(2), symmetric] shard_dom [OF st(1) keys])
    from st_resize_ok [OF st(2) pos this, where f = "Suc (Suc 0)", folded st_fuel_Suc] obtain st' where
        st': "st_resize st_fuel (ge_hash e) (ge_ns e) (ge_kernel e) (rows_per_shard e N) st = Inr st'"
          "st_ok (ge_hash e) st'" "st_rows st' = st_rows st" "int (st_size st') = rows_per_shard e N" by blast
    have "(room(i := nat (rows_per_shard e N))) i \<le> st_size st'" using st'(4) by simp
    note F' = filling_set [where room' = "room(i := nat (rows_per_shard e N))", OF F sh i st(1) st'(2) this, unfolded st'(3), OF keys fun_upd_other]
    have "rows sh (gt_set (int i) (State st') g) = rows sh g" using F'(2) st(1) by (auto simp: rows_def fun_eq_iff)
    then show ?thesis
      using True F'(1) st(1) st'(1) i by (intro exI [of _ "gt_set (int i) (State st') g"])
        (simp add: resize_step_def gt_is_local_shard_eq [OF ok i] len vec_at_def, simp add: gt_set_def same_but_parts_def)
  next
    case False
    have "gt_filling e sh (room(i := nat (rows_per_shard e N))) g" using F gt_ok_Delta [OF ok i False]
      unfolding gt_filling_def by (metis fun_upd_other local_table.distinct(1))
    then show ?thesis using False by (simp add: resize_step_def gt_is_local_shard_eq [OF ok i] same_but_parts_def)
  qed
qed

lemma filling_resize:
  assumes F: "gt_filling e sh room g" and sh: "sharded e sh" and N: "0 \<le> N"
    and few: "\<And>i. i < ge_num_shards e \<Longrightarrow> card (dom (rows sh g) \<inter> {k. sh k = i}) \<le> nat (rows_per_shard e N)"
  shows "\<exists>g'. gt_resize e N g = Inr g' \<and> gt_filling e sh (\<lambda>_. nat (rows_per_shard e N)) g' \<and> rows sh g' = rows sh g \<and> same_but_parts g g'"
proof -
  let ?n = "ge_num_shards e"
  have pos: "0 < rows_per_shard e N" using N by (cases "?n = 0") (simp_all add: pos_imp_zdiv_nonneg_iff add_nonneg_pos)
  have "m \<le> ?n \<Longrightarrow> \<exists>g'. rfold (resize_step e N) [0..<m] g = Inr g' \<and>
      gt_filling e sh (\<lambda>j. if j < m then nat (rows_per_shard e N) else room j) g' \<and> rows sh g' = rows sh g \<and> same_but_parts g g'" for m
  proof (induction m)
    case 0
    then show ?case using F by (simp add: same_but_parts_def)
  next
    case (Suc m)
    let ?room = "\<lambda>j. if j < m then nat (rows_per_shard e N) else room j"
    obtain g1 where g1: "rfold (resize_step e N) [0..<m] g = Inr g1" "gt_filling e sh ?room g1" "rows sh g1 = rows sh g" "same_but_parts g g1"
      using Suc by auto
    obtain g2 where g2: "resize_step e N m g1 = Inr g2" "gt_filling e sh (?room(m := nat (rows_per_shard e N))) g2" "rows sh g2 = rows sh g1"
        "same_but_parts g1 g2"
      using filling_resize_step [OF g1(2) sh _ pos, of m] few [of m] Suc.prems by (auto simp: g1(3))
    have "?room(m := nat (rows_per_shard e N)) = (\<lambda>j. if j < Suc m then nat (rows_per_shard e N) else room j)" by (auto simp: fun_eq_iff)
    then show ?case using g1 g2 by (simp add: rfold_append same_but_parts_def)
  qed
  from this [of ?n] obtain g' where g': "rfold (resize_step e N) [0..<?n] g = Inr g'" "rows sh g' = rows sh g" "same_but_parts g g'"
      "gt_filling e sh (\<lambda>j. if j < ?n then nat (rows_per_shard e N) else room j) g'" by auto
  moreover have "gt_filling e sh (\<lambda>_. nat (rows_per_shard e N)) g'" using g'(4) by (simp add: gt_filling_def)
  moreover have "length (gt_partitions g) = ?n" using F by (simp add: gt_filling_def gt_ok_def)
  ultimately show ?thesis by (simp add: gt_resize_steps)
qed

text \<open>Writing the rows of the keys.\<close>

lemma filling_put:
  assumes F: "gt_filling e sh room g" and sh: "sharded e sh" and room: "card (insert k (dom (rows sh g) \<inter> {j. sh j = sh k})) \<le> room (sh k)"
  shows "\<exists>g'. gt_put e k a b c g = Inr g' \<and> gt_filling e sh room g' \<and> gt_partinfo g' = gt_partinfo g \<and>
    rows sh g' = (if gt_local e g (sh k) then (rows sh g)(k \<mapsto> (a, b, c)) else rows sh g)"
proof -
  have ok: "gt_ok e g" and i: "sh k < ge_num_shards e" using F sh by (simp_all add: gt_filling_def sharded_def)
  have len: "sh k < length (gt_partitions g)" using ok i by (simp add: gt_ok_def)
  note p = gt_put_def gt_on_shard_def gt_get_shard_eq [OF sh] gt_is_local_shard_eq [OF ok i]
  show ?thesis
  proof (cases "gt_local e g (sh k)")
    case True
    then obtain st where st: "gt_partitions g ! sh k = State st" "st_ok (ge_hash e) st" using gt_ok_State [OF ok i] by blast
    have part: "gt_partition (int (sh k)) g = Inr st" using st(1) len by (simp add: gt_partition_State)
    have keys: "\<forall>j \<in> dom (st_rows st). sh j = sh k" and size: "room (sh k) \<le> st_size st" using F i st(1) by (simp_all add: gt_filling_def)
    have "st_entries st < st_size st" if "st_rows st k = None"
    proof -
      have "k \<notin> dom (st_rows st)" using that by (simp add: domIff)
      then show ?thesis using room size shard_dom [OF st(1) keys] finite_st_rows [of st] card_st_rows [OF st(2)] by (simp add: card_insert_if)
    qed
    from st_put_ok [OF st(2) this, where f = "Suc (Suc (Suc 0))", folded st_fuel_Suc] obtain st' where
        st': "st_put st_fuel (ge_hash e) (ge_ns e) (ge_kernel e) k a b c st = Inr st'" "st_ok (ge_hash e) st'"
          "st_rows st' = (st_rows st)(k \<mapsto> (a, b, c))" "st_size st' = st_size st" by blast
    have "\<forall>j \<in> dom (st_rows st'). sh j = sh k" using keys st'(3) by auto
    note F' = filling_set [OF F sh i st(1) st'(2) size [folded st'(4)] this refl]
    have "rows sh (gt_set (int (sh k)) (State st') g) = (rows sh g)(k \<mapsto> (a, b, c))" using F'(2) st(1) st'(3) by (auto simp: rows_def fun_eq_iff)
    then show ?thesis using True F'(1) st(1) st'(1) len
      by (intro exI [of _ "gt_set (int (sh k)) (State st') g"]) (simp add: p part, simp add: gt_set_def)
  next
    case False
    have "gt_filling e sh room (g\<lparr>gt_pending_writes := y\<rparr>)" for y using F by (simp add: gt_filling_def buffered_def)
    moreover have "rows sh (g\<lparr>gt_pending_writes := y\<rparr>) = rows sh g" for y by (simp add: rows_def fun_eq_iff)
    ultimately show ?thesis using False by (simp add: p)
  qed
qed

definition init_row :: "('k, 'v, 'd) IterateKernel \<Rightarrow> 'd \<Rightarrow> 'k \<Rightarrow> 'v \<times> 'v \<times> 'd" where
  "init_row ker data0 k = (k_init_c ker k data0, k_init_v ker k data0, data0)"

text \<open>The rows of a worker after phase one.\<close>

definition init_rows :: "('k, 'v, 'd) genv \<Rightarrow> ('k \<Rightarrow> nat) \<Rightarrow> 'd \<Rightarrow> 'k set \<Rightarrow> ('k, 'v, 'd) GlobalTable \<Rightarrow> 'k \<rightharpoonup> 'v \<times> 'v \<times> 'd" where
  "init_rows e sh data0 ks g k = (if k \<in> ks \<and> gt_local e g (sh k) then Some (init_row (ge_kernel e) data0 k) else None)"

definition enough_room :: "('k, 'v, 'd) genv \<Rightarrow> ('k \<Rightarrow> nat) \<Rightarrow> 'k set \<Rightarrow> int \<Rightarrow> bool" where
  "enough_room e sh ks N \<longleftrightarrow> 0 \<le> N \<and> finite ks \<and> (\<forall>i < ge_num_shards e. card (ks \<inter> {k. sh k = i}) \<le> nat (rows_per_shard e N))"

lemma init_rows_dom: "dom (init_rows e sh x ks g) = {k \<in> ks. gt_local e g (sh k)}"
  by (auto simp: init_rows_def split: if_splits)

lemma filling_puts:
  assumes F: "gt_filling e sh room g" and sh: "sharded e sh" and dom: "dom (rows sh g) \<subseteq> K" and ks: "set ks \<subseteq> K" and K: "finite K"
    and room: "\<And>i. i < ge_num_shards e \<Longrightarrow> card (K \<inter> {k. sh k = i}) \<le> room i"
  shows "\<exists>g'. rfold (\<lambda>k. gt_put e k (k_init_c (ge_kernel e) k x) (k_init_v (ge_kernel e) k x) x) ks g = Inr g' \<and> gt_filling e sh room g' \<and>
    gt_partinfo g' = gt_partinfo g \<and> rows sh g' = rows sh g ++ init_rows e sh x (set ks) g"
  using F dom ks
proof (induction ks arbitrary: g)
  case Nil
  have "init_rows e sh x {} g = Map.empty" by (simp add: init_rows_def fun_eq_iff)
  then show ?case using Nil by simp
next
  case (Cons k ks)
  have "insert k (dom (rows sh g) \<inter> {j. sh j = sh k}) \<subseteq> K \<inter> {j. sh j = sh k}" using Cons.prems(2,3) by auto
  moreover have "card (K \<inter> {j. sh j = sh k}) \<le> room (sh k)" using room sh by (simp add: sharded_def)
  ultimately have "card (insert k (dom (rows sh g) \<inter> {j. sh j = sh k})) \<le> room (sh k)" using K by (meson card_mono finite_Int le_trans)
  from filling_put [OF Cons.prems(1) sh this] obtain g1 where
      g1: "gt_put e k (k_init_c (ge_kernel e) k x) (k_init_v (ge_kernel e) k x) x g = Inr g1" "gt_filling e sh room g1" "gt_partinfo g1 = gt_partinfo g"
        "rows sh g1 = (if gt_local e g (sh k) then (rows sh g)(k \<mapsto> init_row (ge_kernel e) x k) else rows sh g)"
    unfolding init_row_def by blast
  have loc: "gt_local e g1 = gt_local e g" by (simp add: gt_local_def g1(3) fun_eq_iff)
  have "dom (rows sh g1) \<subseteq> K" using g1(4) Cons.prems(2,3) by auto
  from Cons.IH [OF g1(2) this] Cons.prems(3) obtain g' where
      g': "rfold (\<lambda>k. gt_put e k (k_init_c (ge_kernel e) k x) (k_init_v (ge_kernel e) k x) x) ks g1 = Inr g'" "gt_filling e sh room g'"
        "gt_partinfo g' = gt_partinfo g1" "rows sh g' = rows sh g1 ++ init_rows e sh x (set ks) g1" by auto
  have "rows sh g' = rows sh g ++ init_rows e sh x (set (k # ks)) g"
    using g'(4) g1(4) by (auto simp: fun_eq_iff map_add_def init_rows_def loc split: option.splits)
  then show ?case using g1(1,3) g'(1,2,3) by simp
qed

text \<open>The key file: every key followed by a hash.\<close>

definition keys_text :: "('k \<Rightarrow> string) \<Rightarrow> 'k list \<Rightarrow> string" where
  "keys_text str ks = concat (map (\<lambda>k. str k @ [CHR ''#'']) ks)"

definition readable_keys :: "('k \<Rightarrow> string) \<Rightarrow> (string \<Rightarrow> 'k result) \<Rightarrow> bool" where
  "readable_keys str getKey \<longleftrightarrow> (\<forall>k. getKey (str k) = Inr k \<and> CHR ''#'' \<notin> set (str k) \<and> CHR 0xFF \<notin> set (str k))"

lemma read_file_puts:
  assumes "fs f = Some (keys_text str ks)" and "readable_keys str getKey"
  shows "read_file e getKey x fs f g = rfold (\<lambda>k. gt_put e k (k_init_c (ge_kernel e) k x) (k_init_v (ge_kernel e) k x) x) ks g"
proof -
  have "takeWhile (\<lambda>c. c \<noteq> CHR 0xFF) (keys_text str ks) = keys_text str ks"
    using assms(2) by (auto simp: takeWhile_eq_all_conv keys_text_def readable_keys_def)
  moreover have "keys_text str ks = concat (map (\<lambda>w. w @ [CHR ''#'']) (map str ks))" by (simp add: keys_text_def comp_def)
  then have "splitString (keys_text str ks) CHR ''#'' = map str ks"
    using splitString_concat [of "map str ks" "CHR ''#''"] assms(2) by (simp add: readable_keys_def)
  ultimately have "splitString (fm_readFully fs f []) CHR ''#'' = map str ks" unfolding fm_readFully_def assms(1) option.case
    by (simp only:)
  then show ?thesis using assms(2) by (simp add: read_file_def rfold_map readable_keys_def)
qed

text \<open>
  Phase one succeeds and leaves the worker ready for phase two: a row with the initial value and change for each local key of the file and no other row,
  nothing buffered and nothing sent. It may be run once more, for another shard of the worker, with the same outcome.
\<close>

lemma filling_ready:
  assumes F: "gt_filling e sh room g" and "sharded e sh" "marshals e"
  shows "gt_ready e sh g" and "\<And>k. outstanding e sh g k = None"
    and "i < ge_num_shards e \<Longrightarrow> gt_local e g i \<Longrightarrow> \<exists>st. gt_partitions g ! i = State st \<and> st_ok (ge_hash e) st \<and> keys_of_shard sh i st"
proof -
  have ok: "gt_ok e g" and sent: "gt_sent g = []" using F by (simp_all add: gt_filling_def)
  show "gt_ready e sh g" using assms ok sent by (simp add: gt_ready_def sent_ok_def)
  show "outstanding e sh g k = None" for k using F by (simp add: outstanding_def gt_filling_def sent_pairs_def gather_def)
  assume i: "i < ge_num_shards e" "gt_local e g i"
  then obtain st where st: "gt_partitions g ! i = State st" "st_ok (ge_hash e) st" using gt_ok_State [OF ok] by blast
  have "sh (skey s) = i" if s: "s \<in> set (st_buckets st)" "in_use s" for s
  proof -
    from s(1) obtain b where b: "b < length (st_buckets st)" "st_buckets st ! b = s" by (auto simp: in_set_conv_nth)
    then have "st_rows st (skey s) \<noteq> None" using at_bucket_row [OF st(2), of b "skey s"] s(2) by (simp add: at_bucket_def)
    then show ?thesis using F i(1) st(1) unfolding gt_filling_def by (meson domIff)
  qed
  then show "\<exists>st. gt_partitions g ! i = State st \<and> st_ok (ge_hash e) st \<and> keys_of_shard sh i st" using st by (simp add: keys_of_shard_def)
qed


lemma phase_one_filled:
  assumes F: "gt_filling e sh room0 g" and sh: "sharded e sh" and kf: "fs f = Some (keys_text str ks)" "readable_keys str getKey"
    and room: "enough_room e sh (set ks) N" and old: "rows sh g = Map.empty \<or> rows sh g = init_rows e sh x (set ks) g"
  shows "\<exists>g'. init_table e getKey x fs f N g = Inr g' \<and> gt_filling e sh (\<lambda>_. nat (rows_per_shard e N)) g' \<and> gt_partinfo g' = gt_partinfo g \<and>
    rows sh g' = init_rows e sh x (set ks) g"
proof -
  have binit: "gt_binit g" using F by (simp add: gt_filling_def)
  have N: "0 \<le> N" and cards: "\<And>i. i < ge_num_shards e \<Longrightarrow> card (set ks \<inter> {k. sh k = i}) \<le> nat (rows_per_shard e N)"
    using room by (simp_all add: enough_room_def)
  have dom: "dom (rows sh g) \<subseteq> set ks" using old by (auto simp: init_rows_def split: if_splits)
  have "card (dom (rows sh g) \<inter> {k. sh k = i}) \<le> nat (rows_per_shard e N)" if "i < ge_num_shards e" for i
    using card_mono [of "set ks \<inter> {k. sh k = i}" "dom (rows sh g) \<inter> {k. sh k = i}"] cards [OF that] dom by (meson Int_mono finite_Int finite_set le_trans order_refl)
  from filling_resize [OF F sh N this] obtain g1 where g1: "gt_resize e N g = Inr g1" "gt_filling e sh (\<lambda>_. nat (rows_per_shard e N)) g1"
      "rows sh g1 = rows sh g" "gt_partinfo g1 = gt_partinfo g" unfolding same_but_parts_def by blast
  have loc: "gt_local e g1 = gt_local e g" by (simp add: gt_local_def g1(4) fun_eq_iff)
  from filling_puts [OF g1(2) sh _ order_refl finite_set cards, of x] dom g1(3) obtain g' where
      g': "read_file e getKey x fs f g1 = Inr g'" "gt_filling e sh (\<lambda>_. nat (rows_per_shard e N)) g'" "gt_partinfo g' = gt_partinfo g1"
        "rows sh g' = rows sh g ++ init_rows e sh x (set ks) g1"
    unfolding read_file_puts [where fs = fs and f = f, OF kf] by auto
  have "rows sh g' = init_rows e sh x (set ks) g"
    using old g'(4) by (auto simp: fun_eq_iff map_add_def init_rows_def loc split: option.splits)
  then show ?thesis using binit g1(1,4) g'(1,2,3) by (simp add: init_table_def)
qed

lemma phase_one_ready:
  assumes R: "gt_registered e g" and sh: "sharded e sh" and m: "marshals e"
    and kf: "fs f = Some (keys_text str ks)" "readable_keys str getKey" and room: "enough_room e sh (set ks) N"
  shows "\<exists>g'. init_table e getKey x fs f N g = Inr g' \<and> gt_ready e sh g' \<and> rows sh g' = init_rows e sh x (set ks) g \<and> gt_local e g' = gt_local e g \<and>
    (\<forall>k. outstanding e sh g' k = None) \<and>
    (\<forall>i < ge_num_shards e. gt_local e g i \<longrightarrow> (\<exists>st. gt_partitions g' ! i = State st \<and> keys_of_shard sh i st)) \<and>
    (\<exists>g''. init_table e getKey x fs f N g' = Inr g'' \<and> gt_ready e sh g'' \<and> rows sh g'' = rows sh g')"
proof -
  from filling_init [OF R sh] obtain g0 where g0: "gt_InitStateTable e g = Inr g0" "gt_filling e sh (\<lambda>_. 0) g0" "rows sh g0 = Map.empty"
      "gt_partinfo g0 = gt_partinfo g" by blast
  have loc0: "gt_local e g0 = gt_local e g" by (simp add: gt_local_def g0(4) fun_eq_iff)
  note filled = phase_one_filled [where fs = fs and f = f, OF _ sh kf room]
  from filled [OF g0(2), of x] g0(3) obtain g' where
      g': "init_table e getKey x fs f N g0 = Inr g'" "gt_filling e sh (\<lambda>_. nat (rows_per_shard e N)) g'" "gt_partinfo g' = gt_partinfo g0"
        "rows sh g' = init_rows e sh x (set ks) g0" by blast
  have loc: "gt_local e g' = gt_local e g" by (simp add: gt_local_def g'(3) g0(4) fun_eq_iff)
  have rows': "rows sh g' = init_rows e sh x (set ks) g" "rows sh g' = init_rows e sh x (set ks) g'"
    using g'(4) by (simp_all add: init_rows_def fun_eq_iff loc loc0)
  have "\<not> gt_binit g" "gt_binit g0" using R g0(2) by (simp_all add: gt_registered_def gt_filling_def)
  then have init: "init_table e getKey x fs f N g = Inr g'" using g0(1) g'(1) by (simp add: init_table_def)
  from filled [OF g'(2), of x] rows'(2) obtain g'' where
      "init_table e getKey x fs f N g' = Inr g''" "gt_filling e sh (\<lambda>_. nat (rows_per_shard e N)) g''" "rows sh g'' = init_rows e sh x (set ks) g'" by blast
  then have "\<exists>g''. init_table e getKey x fs f N g' = Inr g'' \<and> gt_ready e sh g'' \<and> rows sh g'' = rows sh g'"
    using filling_ready(1) [OF _ sh m] rows'(2) by auto
  then show ?thesis using init rows'(1) filling_ready [OF g'(2) sh m] loc by (intro exI [of _ g']) auto
qed

section \<open>Phase three\<close>

text \<open>The file that \<^verbatim>\<open>dump\<close> writes: a line for every row of the shard.\<close>

definition row_lines :: "('k \<Rightarrow> string) \<Rightarrow> ('v \<Rightarrow> string) \<Rightarrow> ('k \<times> 'v) list \<Rightarrow> string" where
  "row_lines prk prv = concat \<circ> map (\<lambda>(k, v). prk k @ [tab] @ prv v @ [newline])"

lemma dump_from_rest:
  assumes "st_size t = length (st_buckets t)" and "- 1 \<le> p" and "p < int (st_size t)" and "int (st_size t) \<le> int fuel + p + 1"
  shows "dump_from (Suc fuel) prk prv t p out = Inr (out @ row_lines prk prv (map (\<lambda>s. (skey s, s2 s)) (rest (st_buckets t) (nat (p + 1)))))"
  using assms(2-)
proof (induction fuel arbitrary: p out)
  case 0
  then have "it_done t p" by (simp add: it_done_def)
  then show ?case using it_rest_end [OF assms(1), of p] by (simp add: it_done_def row_lines_def)
next
  case (Suc fuel)
  show ?case
  proof (cases "it_done t p")
    case True
    then show ?thesis using it_rest_end [OF assms(1), of p] by (simp add: it_done_def row_lines_def)
  next
    case False
    from it_Next_spec [OF assms(1) Suc.prems(1,2)] obtain q where q: "it_Next t p = Inr (int q, q < st_size t)" "p < int q" "q \<le> st_size t"
        "rest (st_buckets t) (nat (p + 1)) = rest (st_buckets t) q" "q < st_size t \<longrightarrow> in_use (st_buckets t ! q)" by blast
    show ?thesis
    proof (cases "q < st_size t")
      case True
      then have b: "vec_at (st_buckets t) (int q) = Inr (st_buckets t ! q)" using assms(1) by (simp add: vec_at_def)
      have "dump_from (Suc fuel) prk prv t (int q) (out @ prk (skey (st_buckets t ! q)) @ [tab] @ prv (s2 (st_buckets t ! q)) @ [newline]) =
          Inr (out @ row_lines prk prv (map (\<lambda>s. (skey s, s2 s)) (rest (st_buckets t) q)))"
        using Suc.IH [of "int q"] True q(2) Suc.prems(3) it_rest_step [OF assms(1) True] q(5) by (simp add: row_lines_def)
      then show ?thesis using False q(1,4) True b by simp
    next
      case False
      then show ?thesis using \<open>\<not> it_done t p\<close> q(1,3,4) assms(1) by (simp add: row_lines_def)
    qed
  qed
qed

lemma map_of_row_image: "map_of (map (\<lambda>s. (key s, f (h s))) xs) k = map_option f (map_of (map (\<lambda>s. (key s, h s)) xs) k)"
  by (induction xs) auto

lemma dump_lists_rows:
  assumes ok: "st_ok (ge_hash e) st" and st: "gt_partitions g ! i = State st" "i < length (gt_partitions g)"
  shows "\<exists>rs. dump prk prv (int i) g = Inr (row_lines prk prv rs) \<and> distinct (map fst rs) \<and> map_of rs = (\<lambda>k. map_option (fst \<circ> snd) (st_rows st k))"
proof -
  let ?rs = "map (\<lambda>s. (skey s, s2 s)) (filter in_use (st_buckets st))"
  note d = st_okD [OF ok]
  have "gt_partition (int i) g = Inr st" using st by (simp add: gt_partition_State)
  then have "dump prk prv (int i) g = Inr (row_lines prk prv ?rs)"
    using dump_from_rest [OF d(1), of "-1" "st_size st" prk prv "[]"] d(4) by (simp add: dump_def)
  moreover have dist: "distinct (map skey (filter in_use (st_buckets st)))" by (rule open_ok_distinct [OF d(3)])
  moreover have "map_of ?rs k = map_option (fst \<circ> snd) (st_rows st k)" for k
    using map_of_row_image [where f = "fst \<circ> snd" and h = row_of and xs = "filter in_use (st_buckets st)"] by (simp add: st_rows_map_of row_of_def comp_def)
  ultimately show ?thesis by (intro exI [of _ ?rs]) (simp add: comp_def fun_eq_iff)
qed

text \<open>On a worker: the request for phase one leaves the table ready, and the request for phase three writes the part file.\<close>

lemma phase1_run_ready:
  assumes t: "tr_table 0 (w_tables w) = Inr t" and R: "gt_registered (w_env w t) (wt_gt t)" and sh: "sharded (w_env w t) sh" and m: "marshals (w_env w t)"
    and kf: "pa_files a (pa_keys_file a) = Some (keys_text str ks)" "readable_keys str (pa_getKey a)" and room: "enough_room (w_env w t) sh (set ks) (pa_num_nodes a)"
  shows "\<exists>g. phase1_run c a d w = Inr (d, w_put_table c 0 (t\<lparr>wt_gt := g\<rparr>) w) \<and> gt_ready (w_env w t) sh g \<and>
    rows sh g = init_rows (w_env w t) sh [] (set ks) (wt_gt t)"
proof -
  from phase_one_ready [where fs = "pa_files a" and f = "pa_keys_file a" and x = "[]", OF R sh m kf room] obtain g where
      "init_table (w_env w t) (pa_getKey a) [] (pa_files a) (pa_keys_file a) (pa_num_nodes a) (wt_gt t) = Inr g" "gt_ready (w_env w t) sh g"
      "rows sh g = init_rows (w_env w t) sh [] (set ks) (wt_gt t)" by blast
  then show ?thesis using t by (auto simp: phase1_run_def w_on_table_def)
qed

lemma phase3_run_writes:
  assumes t: "tr_table 0 (w_tables w) = Inr t" and i: "kn_shard d = int i" "i < length (gt_partitions (wt_gt t))"
    and st: "gt_partitions (wt_gt t) ! i = State st" "st_ok (ge_hash e) st"
    and f: "lf_fopen (pa_output a @ ''/part-'' @ decimal i) ''w'' (w_fs w) = Some (n, fs)"
  shows "\<exists>w' rs. phase3_run a d w = Inr (d, w') \<and> fs_data (w_fs w') n = row_lines (pa_prk a) (pa_prv a) rs \<and> w_tables w' = w_tables w \<and>
    distinct (map fst rs) \<and> map_of rs = (\<lambda>k. map_option (fst \<circ> snd) (st_rows st k))"
proof -
  from dump_lists_rows [OF st(2,1) i(2), of "pa_prk a" "pa_prv a"] obtain rs where
      "dump (pa_prk a) (pa_prv a) (int i) (wt_gt t) = Inr (row_lines (pa_prk a) (pa_prv a) rs)" "distinct (map fst rs)"
      "map_of rs = (\<lambda>k. map_option (fst \<circ> snd) (st_rows st k))" by blast
  then show ?thesis using t i(1) f by (intro exI [of _ "w\<lparr>w_fs := fs\<lparr>fs_data := (fs_data fs)(n := row_lines (pa_prk a) (pa_prv a) rs)\<rparr>\<rparr>"] exI [of _ rs])
    (simp add: phase3_run_def)
qed

section \<open>A shard from file to file\<close>

lemma keys_of_shard_dom:
  assumes "keys_of_shard sh i st"
  shows "\<forall>k \<in> dom (st_rows st). sh k = i"
proof
  fix k assume "k \<in> dom (st_rows st)"
  then obtain s where "stored (st_buckets st) k = Some s" by (auto simp: st_rows_def)
  from stored_SomeD [OF this] show "sh k = i" using assms by (auto simp: keys_of_shard_def)
qed

text \<open>For every linear kernel: phase one gives what the passes of phase two need, and what they leave is dumped row by row.\<close>

context linear_kernel
begin

lemma phase_two_starts:
  assumes K: "ge_kernel e = ker" and rows: "rows sh g = init_rows e sh x ks g0" and none: "\<forall>k. outstanding e sh g k = None"
    and loc: "gt_local e g = gt_local e g0" and links: "\<forall>k \<in> ks. fst ` set (out (data k)) \<subseteq> ks" and zero: "\<And>k. k_init_v ker k x = 0"
  shows "links_ok e sh data g" and "fresh_rows e sh (\<lambda>k. k_init_c ker k x) g"
proof -
  show "links_ok e sh data g" using links unfolding links_ok_def rows init_rows_dom K g_linear loc by fastforce
  show "fresh_rows e sh (\<lambda>k. k_init_c ker k x) g"
    using none unfolding fresh_rows_def rows by (auto simp: init_rows_def init_row_def K zero split: if_splits)
qed

lemma passes_then_dump:
  assumes K: "ge_kernel e = ker" and R: "gt_ready e sh g" and L: "links_ok e sh data g" and fresh: "fresh_rows e sh c g"
    and i: "i < ge_num_shards e" and st: "gt_partitions g ! i = State st" and ks: "keys_of_shard sh i st"
    and its: "\<forall>it \<in> set its. ti_ok st it \<and> length (ti_rest st it) < fuel"
    and F: "fetches fetch ready data (dom (rows sh g))" and s: "ready s"
  shows "\<exists>s' g' rs. run_passes fuel e (int i) fetch its (s, g) = Inr (s', g') \<and> dump prk prv (int i) g' = Inr (row_lines prk prv rs) \<and>
    distinct (map fst rs) \<and> set (map fst rs) = dom (rows sh g) \<inter> {k. sh k = i} \<and>
    (\<forall>(k, v) \<in> set rs. \<exists>d x. rows sh g' k = Some (d, v, x) \<and> v + d = c k + inflow out data (rows sh g') k)"
proof -
  have acc: "accumulator (k_accumulate (ge_kernel e))" unfolding K by (rule acc_ok)
  from passes_solve [OF assms] obtain s' g' where g': "run_passes fuel e (int i) fetch its (s, g) = Inr (s', g')"
      and solved: "\<And>k. case rows sh g' k of Some (d, v, x) \<Rightarrow> v + d = c k + inflow out data (rows sh g') k
        | None \<Rightarrow> \<not> gt_local e g (sh k) \<longrightarrow> oval (outstanding e sh g' k) = inflow out data (rows sh g') k" by blast
  from run_passes_view [OF acc i F R L st ks its s] g' have R': "gt_ready e sh g'" and lay: "gt_layout g' = gt_layout g"
      and v: "view e sh g' = fold (view_iter (ge_kernel e) (\<lambda>j. gt_local e g (sh j)) data) (concat (map (ti_keys st) its)) (view e sh g)" by auto
  have dom: "dom (rows sh g') = dom (rows sh g)" using arg_cong [OF v, of "\<lambda>w. dom (fst w)"] unfolding view_fold_dom by (simp add: view_def)
  have len: "i < length (gt_partitions g)" "i < length (gt_partitions g')" and ok: "gt_ok e g'"
    using R R' i by (simp_all add: gt_ready_def gt_ok_def)
  obtain st' where st': "gt_partitions g' ! i = State st'" "st_layout st' = st_layout st" using gt_layout_State [OF lay len(1) st] by blast
  have sto: "st_ok (ge_hash e) st'" using ok i st'(1) by (force simp: gt_ok_def part_ok_def)
  have keys: "\<forall>k \<in> dom (st_rows st'). sh k = i" by (rule keys_of_shard_dom [OF keys_of_shard_layout [OF st'(2) ks]])
  from dump_lists_rows [OF sto st'(1) len(2), of prk prv] obtain rs where rs: "dump prk prv (int i) g' = Inr (row_lines prk prv rs)"
      "distinct (map fst rs)" "map_of rs = (\<lambda>k. map_option (fst \<circ> snd) (st_rows st' k))" by blast
  have "set (map fst rs) = dom (map_of rs)" by (simp add: dom_map_of_conv_image_fst)
  also have "\<dots> = dom (rows sh g) \<inter> {k. sh k = i}" unfolding dom [symmetric] shard_dom [OF st'(1) keys, symmetric] by (auto simp: rs(3))
  finally have k: "set (map fst rs) = dom (rows sh g) \<inter> {k. sh k = i}" .
  have "\<exists>d x. rows sh g' k = Some (d, v, x) \<and> v + d = c k + inflow out data (rows sh g') k" if "(k, v) \<in> set rs" for k v
  proof -
    have "map_of rs k = Some v" "sh k = i" using rs(2) that k by (simp, force)
    then obtain d x where "rows sh g' k = Some (d, v, x)" using st'(1) by (auto simp: rs(3) rows_def)
    then show ?thesis using solved [of k] by simp
  qed
  then show ?thesis using g' rs(1,2) k by blast
qed

end


definition duo_registered :: "(int, rat, int list) GlobalTable" where
  "duo_registered = (let g0 = duo_global (duo_table 0 0 0) in case gt_Init (duo_env pagerank_kernel) of Inr g \<Rightarrow> g\<lparr>gt_partinfo := gt_partinfo g0\<rparr> | Inl _ \<Rightarrow> g0)"

lemma duo_registered_ok: "gt_registered (duo_env pagerank_kernel) duo_registered" "gt_local (duo_env pagerank_kernel) duo_registered 0"
proof -
  let ?e = "duo_env pagerank_kernel" and ?i = "gt_partinfo (duo_global (duo_table 0 0 0) :: (int, rat, int list) GlobalTable)"
  obtain dt where "dt_new (ge_hash ?e) (ge_nd ?e) 1 = Inr dt" using dt_new_ok [of 1 "ge_hash ?e" "ge_nd ?e"] by auto
  then obtain g where g: "gt_Init ?e = Inr g" by (simp add: gt_Init_def)
  then have d: "duo_registered = g\<lparr>gt_partinfo := ?i\<rparr>" by (simp add: duo_registered_def Let_def duo_global_def)
  show "gt_registered ?e duo_registered" unfolding d by (rule gt_Init_registered [OF g]) (simp_all add: duo_env_of_def duo_global_def)
  show "gt_local ?e duo_registered 0" unfolding d by (simp add: gt_local_def duo_env_of_def duo_global_def)
qed

lemma readable_str_of_int: "readable_keys str_of_int (pagerank_getKey read_int)"
proof -
  have "pagerank_getKey read_int (str_of_int i) = Inr i" for i by (simp add: pagerank_getKey_def lexical_cast_def read_str_of_int)
  moreover have "CHR ''#'' \<notin> set (str_of_int i)" "CHR 0xFF \<notin> set (str_of_int i)" for i by (auto simp: str_of_int_def not_digit)
  ultimately show ?thesis by (simp add: readable_keys_def)
qed


end
