(* ===== verification/Untyped.thy ===== *)
theory Untyped
  imports Checkpoints
begin

text \<open>
  The string interface of \<^verbatim>\<open>src/kernel/table.h\<close>: \<^verbatim>\<open>contains_str\<close>, \<^verbatim>\<open>get_str\<close> and \<^verbatim>\<open>update_str\<close> of \<^verbatim>\<open>PTypedTable\<close> (delta tables) and
  \<^verbatim>\<open>TypedTable\<close> (state tables) unmarshal the key, call the typed operation and marshal the result. \<open>update_str\<close> is with the checkpoints, which
  replay their log through it. The interface is stated once, as a locale over the content of a table, and both kinds of table provide it.
\<close>

section \<open>Operations\<close>

definition lt_contains_str :: "('k, 'v, 'd) codec \<Rightarrow> ('k, 'v, 'd) genv \<Rightarrow> string \<Rightarrow> ('k, 'v, 'd) local_table \<Rightarrow> bool result" where
  "lt_contains_str cd e s p = rbind (cd_uk cd s) (\<lambda>k. case p of
       Delta dt \<Rightarrow> dt_contains (ge_hash e) k dt
     | State st \<Rightarrow> st_contains (ge_hash e) k st)"

definition lt_get_str :: "('k, 'v, 'd) codec \<Rightarrow> ('k, 'v, 'd) genv \<Rightarrow> string \<Rightarrow> ('k, 'v, 'd) local_table \<Rightarrow> string result" where
  "lt_get_str cd e s p = rbind (cd_uk cd s) (\<lambda>k. case p of
       Delta dt \<Rightarrow> rbind (dt_get (ge_hash e) k dt) (\<lambda>v. Inr (ge_mv e v))
     | State st \<Rightarrow> rbind (st_getF1 (ge_hash e) k st) (\<lambda>a. rbind (st_getF2 (ge_hash e) k st) (\<lambda>b.
         rbind (st_getF3 (ge_hash e) k st) (\<lambda>c. Inr (ge_mv e a @ ge_mv e b @ cd_md cd c)))))"

section \<open>The interface\<close>

text \<open>
  \<open>content\<close> is what a table holds under a key, \<open>entry_for\<close> what a row of strings means for it; \<open>update\<close> succeeds on tables with room for the key.
\<close>

locale untyped_table =
  fixes ok :: "'t \<Rightarrow> bool" and room :: "'t \<Rightarrow> 'k \<Rightarrow> bool" and content :: "'t \<Rightarrow> 'k \<rightharpoonup> 'r"
    and key :: "string \<Rightarrow> 'k result" and row :: "entry \<Rightarrow> ('k \<times> 'r) result" and text_of :: "'r \<Rightarrow> string"
    and contains_str :: "string \<Rightarrow> 't \<Rightarrow> bool result" and get_str :: "string \<Rightarrow> 't \<Rightarrow> string result"
    and update_str :: "entry \<Rightarrow> 't \<Rightarrow> 't result"
  assumes contains: "ok t \<Longrightarrow> contains_str s t = rbind (key s) (\<lambda>k. Inr (content t k \<noteq> None))"
    and get: "ok t \<Longrightarrow> get_str s t = rbind (key s) (\<lambda>k. case content t k of None \<Rightarrow> Inl CheckFailed | Some r \<Rightarrow> Inr (text_of r))"
    and update: "ok t \<Longrightarrow> row en = Inr (k, r) \<Longrightarrow> room t k \<Longrightarrow>
      \<exists>t'. update_str en t = Inr t' \<and> ok t' \<and> content t' = (content t)(k \<mapsto> r)"
    and row_key: "row en = Inr (k, r) \<Longrightarrow> key (fst en) = Inr k"
begin

lemma update_then_get:
  assumes "ok t" and "row en = Inr (k, r)" and "room t k"
  shows "\<exists>t'. update_str en t = Inr t' \<and> ok t' \<and> get_str (fst en) t' = Inr (text_of r) \<and> contains_str (fst en) t' = Inr True \<and>
    (\<forall>s k'. key s = Inr k' \<longrightarrow> k' \<noteq> k \<longrightarrow> get_str s t' = get_str s t \<and> contains_str s t' = contains_str s t)"
proof -
  obtain t' where t': "update_str en t = Inr t'" "ok t'" "content t' = (content t)(k \<mapsto> r)" using update [OF assms] by blast
  have "get_str (fst en) t' = Inr (text_of r) \<and> contains_str (fst en) t' = Inr True"
    by (simp add: get [OF t'(2)] contains [OF t'(2)] row_key [OF assms(2)] t'(3))
  moreover have "get_str s t' = get_str s t \<and> contains_str s t' = contains_str s t" if "key s = Inr k'" "k' \<noteq> k" for s k'
    using that by (simp add: get [OF t'(2)] contains [OF t'(2)] get [OF assms(1)] contains [OF assms(1)] t'(3))
  ultimately show ?thesis using t'(1,2) by blast
qed

end

definition delta_row :: "('k, 'v, 'd) codec \<Rightarrow> entry \<Rightarrow> ('k \<times> 'v) result" where
  "delta_row cd en = (case en of (ks, as, _) \<Rightarrow> rbind (cd_uk cd ks) (\<lambda>k. rbind (cd_uv cd as) (\<lambda>a. Inr (k, a))))"

definition state_row :: "('k, 'v, 'd) codec \<Rightarrow> entry \<Rightarrow> ('k \<times> 'v \<times> 'v \<times> 'd) result" where
  "state_row cd en = (case en of (ks, as, bs, cs) \<Rightarrow> rbind (cd_uk cd ks) (\<lambda>k. rbind (cd_uv cd as) (\<lambda>a.
     rbind (cd_uv cd bs) (\<lambda>b. rbind (cd_ud cd cs) (\<lambda>c. Inr (k, a, b, c))))))"

interpretation delta_str: untyped_table "\<lambda>p. \<exists>dt. p = Delta dt \<and> dt_ok (ge_hash e) dt" "\<lambda>_ _. True"
    "\<lambda>p. case p of Delta dt \<Rightarrow> dt_lookup dt | State _ \<Rightarrow> Map.empty" "cd_uk cd" "delta_row cd" "ge_mv e"
    "lt_contains_str cd e" "lt_get_str cd e" "lt_update_str cd e" for e cd
proof (unfold_locales, goal_cases)
  case (1 t s)
  then show ?case by (cases "cd_uk cd s") (auto simp: lt_contains_str_def dt_contains_lookup)
next
  case (2 t s)
  then show ?case by (cases "cd_uk cd s") (auto simp: lt_get_str_def dt_get_lookup split: option.split)
next
  case (3 t en k r)
  then obtain dt where dt: "t = Delta dt" "dt_ok (ge_hash e) dt" by blast
  from dt_put_fuel [OF dt(2), of "ge_nd e" k r] obtain dt' where
    "dt_put dt_fuel (ge_hash e) (ge_nd e) k r dt = Inr dt'" "dt_ok (ge_hash e) dt'" "dt_lookup dt' = (dt_lookup dt)(k \<mapsto> r)" by blast
  then show ?case using 3(2) by (cases en) (auto simp: dt(1) delta_row_def lt_update_str_def rbind_Inr_iff)
next
  case (4 en k r)
  then show ?case by (cases en) (auto simp: delta_row_def rbind_Inr_iff)
qed

interpretation state_str: untyped_table "\<lambda>p. \<exists>st. p = State st \<and> st_ok (ge_hash e) st"
    "\<lambda>p k. case p of Delta _ \<Rightarrow> False | State st \<Rightarrow> st_rows st k = None \<longrightarrow> st_entries st < st_size st"
    "\<lambda>p. case p of Delta _ \<Rightarrow> Map.empty | State st \<Rightarrow> st_rows st" "cd_uk cd" "state_row cd"
    "\<lambda>(a, b, c). ge_mv e a @ ge_mv e b @ cd_md cd c"
    "lt_contains_str cd e" "lt_get_str cd e" "lt_update_str cd e" for e :: "('k, 'v::zero, 'd) genv" and cd
proof (unfold_locales, goal_cases)
  case (1 t s)
  then show ?case by (cases "cd_uk cd s") (auto simp: lt_contains_str_def st_contains_rows)
next
  case (2 t s)
  then obtain st where st: "t = State st" "st_ok (ge_hash e) st" by blast
  show ?case
  proof (cases "cd_uk cd s")
    case (Inr k)
    show ?thesis by (cases rule: st_find_cases [OF st(2), of k])
      (simp_all add: st(1) Inr lt_get_str_def st_getF1_def st_getF2_def st_getF3_def row_of_def vec_at_def)
  qed (simp add: lt_get_str_def)
next
  case (3 t en k r)
  then obtain st where st: "t = State st" "st_ok (ge_hash e) st" "st_rows st k = None \<longrightarrow> st_entries st < st_size st" by auto
  obtain a b c where r: "r = (a, b, c)" by (cases r)
  obtain st' where "st_put st_fuel (ge_hash e) (ge_ns e) (ge_kernel e) k a b c st = Inr st'" "st_ok (ge_hash e) st'"
      "st_rows st' = (st_rows st)(k \<mapsto> (a, b, c))"
    using st_put_ok [OF st(2), of k _ "ge_ns e" "ge_kernel e" a b c] st(3) by (metis st_fuel_Suc)
  then show ?case using 3(2) by (cases en) (auto simp: st(1) r state_row_def lt_update_str_def rbind_Inr_iff)
next
  case (4 en k r)
  then show ?case by (cases en) (auto simp: state_row_def rbind_Inr_iff)
qed

section \<open>Writing and reading through strings\<close>

text \<open>
  What \<^verbatim>\<open>update_str\<close> writes, \<^verbatim>\<open>get_str\<close> reads: for a delta table the marshalled value, for a state table, as long as the key is there or a bucket is
  free, the three marshalled fields one after the other; other keys keep what they had.
\<close>

lemma delta_update_get_str:
  assumes "dt_ok (ge_hash e) dt" and "cd_uk cd ks = Inr k" "cd_uv cd as = Inr a"
  shows "\<exists>p'. lt_update_str cd e (ks, as, bs, cs) (Delta dt) = Inr p' \<and> lt_get_str cd e ks p' = Inr (ge_mv e a) \<and>
    (\<forall>s k'. cd_uk cd s = Inr k' \<longrightarrow> k' \<noteq> k \<longrightarrow> lt_get_str cd e s p' = lt_get_str cd e s (Delta dt))"
  using delta_str.update_then_get [of "Delta dt" e cd "(ks, as, bs, cs)" k a] assms by (force simp: delta_row_def)

lemma state_update_get_str:
  fixes e :: "('k, 'v::zero, 'd) genv"
  assumes "st_ok (ge_hash e) st" and "st_rows st k = None \<longrightarrow> st_entries st < st_size st"
    and "cd_uk cd ks = Inr k" "cd_uv cd as = Inr a" "cd_uv cd bs = Inr b" "cd_ud cd cs = Inr c"
  shows "\<exists>p'. lt_update_str cd e (ks, as, bs, cs) (State st) = Inr p' \<and>
    lt_get_str cd e ks p' = Inr (ge_mv e a @ ge_mv e b @ cd_md cd c) \<and>
    (\<forall>s k'. cd_uk cd s = Inr k' \<longrightarrow> k' \<noteq> k \<longrightarrow> lt_get_str cd e s p' = lt_get_str cd e s (State st))"
  using state_str.update_then_get [of "State st" e cd "(ks, as, bs, cs)" k "(a, b, c)"] assms by (force simp: state_row_def)

end
