(* ===== verification/Spec2Isabelle.thy ===== *)
theory Spec2Isabelle
  imports KVMap CppString HotCache FifoCache LruCache Components BlockStore Typing Cluster Launch GraphGen Phases Untyped
begin

text \<open>
  A verification library for the Maiter store, a distributed graph engine in C++ (all paths below are under \<^verbatim>\<open>src/src\<close>).

  \<^bold>\<open>The program.\<close> A job is a kernel: how a vertex absorbs a change, what it then sends along its links, and how changes are combined. All processes
  run the same executable (\<^verbatim>\<open>examples/main.cc\<close>); rank 0 becomes the master (\<^verbatim>\<open>master/master.cc\<close>), the others workers (\<^verbatim>\<open>worker/worker.cc\<close>). The
  vertices are rows of a global table (\<^verbatim>\<open>kernel/global-table.*\<close>) cut into shards: a shard that a worker owns is a state table
  (\<^verbatim>\<open>kernel/statetable.h\<close>), one that it does not own is a buffer of outgoing changes (\<^verbatim>\<open>kernel/deltatable.h\<close>). The master gives the shards to
  workers, asks for three phases (fill the table, iterate, dump; \<^verbatim>\<open>kernel/kernel.h\<close>), moves tasks from busy to idle workers, takes checkpoints
  and decides about termination. The links come from a store on disk with a cache (\<^verbatim>\<open>store\<close>); messages go through a network thread over MPI
  (\<^verbatim>\<open>util/rpc.*\<close>).

  \<^bold>\<open>Conventions.\<close> \<open>Prelude\<close> has the sum type \<open>result\<close>: \<open>Inl\<close> of an \<open>error\<close> is how the code stops (a failed CHECK, a null pointer, an index
  out of bounds, an unset variable, an exception), and \<open>Inl Diverges\<close> is a loop that does not end. Objects are records with the members of the
  class, methods are functions on them with the name of the method behind a prefix (\<open>dt_\<close> for \<^verbatim>\<open>DeltaTable\<close>, \<open>st_\<close> for \<^verbatim>\<open>StateTable\<close>, \<open>gt_\<close> for
  \<^verbatim>\<open>GlobalTable\<close>, \<open>nt_\<close> for \<^verbatim>\<open>NetworkThread\<close>, \<open>w_\<close> for \<^verbatim>\<open>Worker\<close>, \<open>m_\<close> and \<open>ws_\<close> for the master and its view of a worker, and so on).

  \<^bold>\<open>Tables.\<close>
  \<^item> \<open>OpenTable\<close>: the probing that both hash tables share, with the invariant \<open>open_ok\<close>. \<open>Table\<close>: sharding, termination checker, descriptors, triggers
    and decode iterators of \<^verbatim>\<open>kernel/table.h\<close>.
  \<^item> \<open>DeltaTable\<close>, \<open>StateTable\<close>: every operation; sequences of operations refine a map (\<open>deltatable_refines_map\<close>, \<open>statetable_refines_rows\<close>), what a
    table serialises is decoded again, the scheduler takes the rows of highest priority, the progress figure counts each row once, and \<^verbatim>\<open>put\<close> into a full
    state table loses a row.
  \<^item> \<open>GlobalTable\<close>: partitions, buffering, sending and applying; a sender's changes arrive at the owner as if they had been accumulated there.
    \<open>Untyped\<close>: the string interface of both tables, stated as one locale. \<open>Checkpoints\<close>: the files of \<^verbatim>\<open>kernel/local-table.cc\<close>.

  \<^bold>\<open>Kernels and the engine.\<close>
  \<^item> \<open>Kernels\<close>: the kernels of \<^verbatim>\<open>examples\<close>, with their readers of input lines. \<open>Engine\<close>: the three phases of \<^verbatim>\<open>kernel/kernel.h\<close>, and the view of a table
    as rows and outgoing changes on which a step of the loop is one equation.
  \<^item> \<open>Convergence\<close>: for kernels that are linear along links (PageRank, Katz, adsorption, one locale and three interpretations) the values and pending changes
    always satisfy the residual equation of the fixed point; for shortest paths no value is ever below the distance, a quiet table holds the distances, and after
    \<open>n\<close> passes all paths of \<open>n\<close> links are accounted for. \<open>Components\<close>: the same two statements for connected components.
  \<^item> \<open>Phases\<close>: the three phases end to end. Phase one turns a table of empty buffers into rows with the initial values, one for each local key of the key file;
    phase three writes each row once; for PageRank what is written solves the equation up to the changes still pending.
  \<^item> \<open>GraphGen\<close>: the generator of graphs; what it writes is read back by the kernels, shard by shard.

  \<^bold>\<open>Store.\<close>
  \<^item> \<open>KVMap\<close>, \<open>CacheSpec\<close> (the contract of a cache as a locale), \<open>HotCache\<close>, \<open>FifoCache\<close>, \<open>LruList\<close> (the linked list on an explicit heap) and \<open>LruCache\<close>
    (which refines a list ordered by recency).
  \<^item> \<open>FlatStore\<close>: writer, reader, memory mapping and \<^verbatim>\<open>SStore\<close>; what is written is read, and the cache does not change an answer. \<open>FileManager\<close>:
    block-wise files. \<open>BlockStore\<close>: records, block writer, index, block reader; the index finds the block of a key, but no block written can be read.

  \<^bold>\<open>Processes.\<close>
  \<^item> \<open>CppString\<close>, \<open>Files\<close>, \<open>Utils\<close>: strings, files (plain, compressed, record files, encoders) and the small utilities.
  \<^item> \<open>Network\<close>: queues, sends, blocking reads and synchronous broadcasts. \<open>Registry\<close>: tables, kernels, runners and parameter maps. \<open>Protocol\<close>: the messages.
  \<^item> \<open>Worker\<close>: the main loop and every callback. \<open>Rolling\<close>: a rolling checkpoint ends with the last marker. \<open>Typing\<close>: the tag of every message sent
    agrees with its content.
  \<^item> \<open>Tasks\<close>, \<open>Master\<close>: tasks, assignment, dispatch, stealing, checkpoints, termination check, the barrier. \<open>TaskPool\<close> is the abstract specification, a pool of
    tasks with three steps, as a step relation; \<open>Scheduling\<close> shows that the master refines it. \<open>Ownership\<close>: every shard has one owner, and a run that returns has sent
    one request per shard. \<open>Job\<close>: the same for the phases of a job in sequence.
  \<^item> \<open>Cluster\<close>: the workers' picture of the owners is the master's; what goes wrong when a shard is lost or a checkpoint is restored. \<open>Launch\<close>: \<^verbatim>\<open>main\<close>, the runners and
    \<^verbatim>\<open>StartWorker\<close>; all that the master of a job asks for is registered with the workers.

  \<^bold>\<open>Bounds and fuel.\<close> Probing has as many steps as there are buckets, which visits them all. \<open>dt_put\<close> and \<open>st_put\<close> have fuel 4: a put causes at most one resize, whose
  puts cause none; the theorems on operation sequences show that it is enough. \<open>rf_seek\<close> has the position as fuel, \<open>gt_send_shard\<close> one unit, the drain
  of the worker the number of queued messages. A blocking call reads the batches of packets that the model is given; when they are used up it is \<open>Diverges\<close>,
  so a theorem that a call returns is about inputs with which it does. \<^verbatim>\<open>float\<close> and \<^verbatim>\<open>double\<close> are rationals without rounding; tables have fewer than \<open>2^31\<close> buckets and files
  fewer than \<open>2^18\<close> blocks where the code multiplies in 32 bits. The clock is read once per round of the barrier.

  \<^bold>\<open>Arguments.\<close> Code that is not part of the repository is an argument of the definitions that use it: boost's \<^verbatim>\<open>lexical_cast\<close>, \<^verbatim>\<open>trim\<close> and \<^verbatim>\<open>split\<close>, the LZO
  routines, marshalling of user types, the answers of the operating system and of MPI, random numbers, flags.

  \<^bold>\<open>Not modelled.\<close> \<^verbatim>\<open>external\<close> (google-flags, google-logging, webgraph) is third-party code. \<^verbatim>\<open>kernel/logger.hpp\<close> and all logging only print.
  \<^verbatim>\<open>kernel/test-tables.cc\<close> is a test against an interface that no longer exists. Of \<^verbatim>\<open>util\<close>, timers, process information,
  \<^verbatim>\<open>StringPrintf\<close>, signal handlers, \<^verbatim>\<open>glob\<close> and the start of MPI are calls of the operating system. Locks are left out: the callbacks of a process
  are steps that do not interleave, the spin lock alone being a step relation of several threads. The runners of \<^verbatim>\<open>con_component.cc\<close> (integer values) and
  \<^verbatim>\<open>simrank.cc\<close> (functions that may fail) do not fit the value type of the worker model; their kernels are modelled. \<^verbatim>\<open>GenGraph\<close> and the class of
  \<^verbatim>\<open>store/googlegraph.h\<close> cannot be compiled.
\<close>

end
